(* ===== verification/Fs_Prelude.thy ===== *)
theory Fs_Prelude
  imports Main "HOL-Library.Word" "HOL-Library.Multiset" "HOL-Library.Signed_Division"
begin

text \<open>
  Shared vocabulary of the development: names for the machine types of the C sources, the
  constants of the headers that every component uses, the collections of simplification rules,
  and generic facts on lists, maps and machine words that the component theories rely on.
\<close>

section \<open>Types and constants\<close>

type_synonym byte = "8 word"
type_synonym u32 = "32 word"
type_synonym u64 = "64 word"

text \<open>Paths are C strings; a digest is the 64-byte output of SHA-512; a heap address of a
  \<^verbatim>\<open>MasterInfo\<close> is a number.\<close>

type_synonym path = string
type_synonym digest = "byte list"
type_synonym ptr = nat

text \<open>\<^verbatim>\<open>#define BLOCK_SIZE 4096\<close>\<close>

definition BLOCK_SIZE :: nat where
  "BLOCK_SIZE = 4096"

text \<open>The same constant where the code uses it in 64-bit arithmetic.\<close>

definition BLOCK_SIZE64 :: u64 where
  "BLOCK_SIZE64 = of_nat BLOCK_SIZE"

text \<open>The \<^verbatim>\<open>errno\<close> values of Linux that the sources name.\<close>

definition EIO :: int where "EIO = 5"
definition ENOMEM :: int where "ENOMEM = 12"
definition EINVAL :: int where "EINVAL = 22"
definition EOPNOTSUPP :: int where "EOPNOTSUPP = 95"

text \<open>The cast \<^verbatim>\<open>(int)x\<close> of a 64-bit value: the low 32 bits, read in two's complement.\<close>

definition c_int :: "u64 \<Rightarrow> int" where
  "c_int x = sint (ucast x :: 32 word)"

text \<open>\<^verbatim>\<open>offset / BLOCK_SIZE\<close> of a signed \<^verbatim>\<open>off_t\<close>, stored in an unsigned 64-bit variable: C rounds
  towards zero.\<close>

definition off_div_block :: "u64 \<Rightarrow> u64" where
  "off_div_block off = word_of_int (sint off sdiv int BLOCK_SIZE)"

named_theorems block_simps \<open>positions and sizes measured in blocks\<close>
named_theorems index_simps \<open>effect of the index operations on the fields of the index\<close>

lemma BLOCK_SIZE_pos [simp]: "0 < BLOCK_SIZE"
  by (simp add: BLOCK_SIZE_def)

lemma BLOCK_SIZE_neq_0 [simp]: "BLOCK_SIZE \<noteq> 0"
  by (simp add: BLOCK_SIZE_def)

lemma BLOCK_SIZE_less: "BLOCK_SIZE < 2 ^ 13"
  by (simp add: BLOCK_SIZE_def)

lemma unat_BLOCK_SIZE64 [simp]: "unat BLOCK_SIZE64 = BLOCK_SIZE"
  by (simp add: BLOCK_SIZE64_def BLOCK_SIZE_def)

section \<open>Machine words\<close>

text \<open>Block numbers below \<open>2 ^ 51\<close> are the ones whose byte offset fits a signed 64-bit
  \<^verbatim>\<open>off_t\<close>; the address arithmetic of the code is exact on them.\<close>

abbreviation MAX_BLOCKS :: nat where
  "MAX_BLOCKS \<equiv> 2 ^ 51"

lemma unat_of_nat_u64: "k < 2 ^ 64 \<Longrightarrow> unat (of_nat k :: u64) = k"
  by (simp add: unat_of_nat)

lemma unat_less_2_64: "unat (x :: u64) < 2 ^ 64"
  using unsigned_less [of x] by simp

lemma unat_mult_BLOCK_SIZE [block_simps]:
  assumes "unat (x :: u64) < 2 ^ 52"
  shows "unat (x * BLOCK_SIZE64) = unat x * BLOCK_SIZE"
proof -
  have "unat x * BLOCK_SIZE < 2 ^ 64"
    using assms by (simp add: BLOCK_SIZE_def)
  then show ?thesis
    by (simp add: unat_word_ariths(2))
qed

lemma sint_eq_unat:
  assumes "unat (x :: u64) < 2 ^ 63"
  shows "sint x = int (unat x)"
proof -
  have "int (unat x) < int (2 ^ 63)"
    using assms by (simp only: of_nat_less_iff)
  then have "uint x < 2 ^ 63" by simp
  moreover have "- (2 ^ 63) \<le> uint x"
    by (rule order_trans [of _ 0]) simp_all
  ultimately have "signed_take_bit 63 (uint x) = uint x"
    by (intro signed_take_bit_int_eq_self)
  then show ?thesis
    by (simp add: sint_uint)
qed

lemma unat_of_sint_nonneg:
  assumes "0 \<le> sint (x :: u64)"
  shows "sint x = int (unat x)"
proof -
  have b: "sint x < 2 ^ 63" using sint_lt [of x] by simp
  have "uint (word_of_int (sint x) :: u64) = take_bit 64 (sint x)"
    using uint_word_of_int_eq [of "sint x", where 'a = 64] by simp
  also have "\<dots> = sint x" using assms b by (intro take_bit_int_eq_self) simp_all
  finally show ?thesis by simp
qed

lemma sint_nonneg_of_unat: "unat (x :: u64) < 2 ^ 63 \<Longrightarrow> 0 \<le> sint x"
  by (simp add: sint_eq_unat)

lemma sint_mult_BLOCK_SIZE_nonneg [block_simps]:
  assumes "unat (x :: u64) < MAX_BLOCKS"
  shows "0 \<le> sint (x * BLOCK_SIZE64)"
proof (rule sint_nonneg_of_unat)
  show "unat (x * BLOCK_SIZE64) < 2 ^ 63"
    using assms by (simp add: unat_mult_BLOCK_SIZE BLOCK_SIZE_def)
qed

lemma unat_off_div_block:
  assumes "unat (off :: u64) < 2 ^ 63"
  shows "unat (off_div_block off) = unat off div BLOCK_SIZE"
proof -
  have "sint off = int (unat off)"
    using sint_eq_unat [OF assms] .
  then have "sint off sdiv int BLOCK_SIZE = int (unat off div BLOCK_SIZE)"
    by (simp add: signed_divide_int_def sgn_if zdiv_int)
  moreover have "unat off div BLOCK_SIZE < 2 ^ 64"
    using unat_less_2_64 [of off] by (meson div_le_dividend le_less_trans)
  ultimately show ?thesis
    unfolding off_div_block_def by (simp add: unat_of_nat_u64)
qed

text \<open>A byte count that fits a positive C \<^verbatim>\<open>int\<close> survives the cast.\<close>

lemma c_int_small:
  assumes "k < 2 ^ 31"
  shows "c_int (of_nat k) = int k"
proof -
  have "int k < 2 ^ 31"
    using assms by (metis of_nat_less_iff of_nat_numeral of_nat_power)
  then have st: "signed_take_bit 31 (int k) = int k"
    by (intro signed_take_bit_int_eq_self) auto
  have "take_bit 64 k = k"
    using assms by (simp add: take_bit_nat_eq_self)
  then have "(ucast (of_nat k :: u64) :: u32) = of_nat k"
    by (simp add: unsigned_of_nat)
  with st show ?thesis
    unfolding c_int_def by (simp add: signed_of_nat)
qed

lemma unat_plus_one:
  assumes "unat (x :: u64) < 2 ^ 63"
  shows "unat (x + 1) = unat x + 1"
  using assms by (simp add: unat_word_ariths(1))

lemma unat_plus_of_nat:
  assumes "unat (x :: u64) + k < 2 ^ 64"
  shows "unat (x + of_nat k) = unat x + k"
proof -
  have "unat (of_nat k :: u64) = k"
    using assms by (simp add: unat_of_nat)
  with assms show ?thesis
    by (simp add: unat_word_ariths(1))
qed

lemma u64_eq_iff_unat: "(x :: u64) = y \<longleftrightarrow> unat x = unat y"
  by (simp add: word_unat_eq_iff)

section \<open>Lists\<close>

lemma count_list_map_filter: "count_list (map f xs) y = length (filter (\<lambda>x. f x = y) xs)"
  by (induction xs) auto

lemma filter_upt_nth: "filter P xs = map ((!) xs) (filter (\<lambda>i. P (xs ! i)) [0..<length xs])"
proof -
  have "filter P (map ((!) xs) [0..<length xs]) = map ((!) xs) (filter (P \<circ> (!) xs) [0..<length xs])"
    by (rule filter_map)
  then show ?thesis
    by (simp add: map_nth comp_def)
qed

lemma take_drop_nth: "i + n \<le> length xs \<Longrightarrow> k < n \<Longrightarrow> take n (drop i xs) ! k = xs ! (i + k)"
  by simp

lemma map_nth_upt_append_drop:
  assumes "g < i" "i \<le> length xs"
  shows "map ((!) xs) [g..<i] @ drop i xs = drop g xs"
proof -
  have "map ((!) xs) [g..<i] = take (i - g) (drop g xs)"
    using assms by (intro nth_equalityI) auto
  then show ?thesis
    using assms by (metis append_take_drop_id drop_drop le_add_diff_inverse2 less_imp_le)
qed

lemma concat_blocks:
  assumes "length xs = n * k"
  shows "concat (map (\<lambda>i. take k (drop (i * k) xs)) [0..<n]) = xs"
  using assms
proof (induction n arbitrary: xs)
  case 0
  then show ?case by simp
next
  case (Suc n)
  have *: "length (take (n * k) xs) = n * k" using Suc.prems by simp
  have "concat (map (\<lambda>i. take k (drop (i * k) (take (n * k) xs))) [0..<n]) = take (n * k) xs"
    by (rule Suc.IH [OF *])
  moreover have "map (\<lambda>i. take k (drop (i * k) (take (n * k) xs))) [0..<n] =
    map (\<lambda>i. take k (drop (i * k) xs)) [0..<n]"
  proof (rule map_cong [OF refl])
    fix i assume "i \<in> set [0..<n]"
    then have "Suc i * k \<le> n * k" by (intro mult_le_mono1) simp
    then have "k \<le> n * k - i * k" by simp
    then show "take k (drop (i * k) (take (n * k) xs)) = take k (drop (i * k) xs)"
      by (simp add: drop_take take_take min_def)
  qed
  moreover have "take k (drop (n * k) xs) = drop (n * k) xs"
    using Suc.prems by (simp add: add.commute)
  ultimately show ?case by simp
qed

section \<open>Finite sets of keys\<close>

lemma card_preimage_upd:
  assumes "finite (dom m)"
  shows "card {k'. (m(k \<mapsto> v)) k' = Some w} =
    (if v = w then (if m k = Some w then card {k'. m k' = Some w} else Suc (card {k'. m k' = Some w}))
     else if m k = Some w then card {k'. m k' = Some w} - 1 else card {k'. m k' = Some w})"
proof -
  have fin: "finite {k'. m k' = Some w}"
    by (rule finite_subset [OF _ assms]) auto
  have eq: "{k'. (m(k \<mapsto> v)) k' = Some w} =
      (if v = w then insert k {k'. m k' = Some w} else {k'. m k' = Some w} - {k})"
    by auto
  show ?thesis
    unfolding eq using fin by (auto simp: card_insert_if card_Diff_singleton_if)
qed

lemma card_preimage_del:
  assumes "finite (dom m)"
  shows "card {k'. (m(k := None)) k' = Some w} =
    (if m k = Some w then card {k'. m k' = Some w} - 1 else card {k'. m k' = Some w})"
proof -
  have fin: "finite {k'. m k' = Some w}"
    by (rule finite_subset [OF _ assms]) auto
  have eq: "{k'. (m(k := None)) k' = Some w} = {k'. m k' = Some w} - {k}"
    by auto
  show ?thesis
    unfolding eq using fin by (simp add: card_Diff_singleton_if)
qed

end
