(* ===== verification/Posix_Files.thy ===== *)
theory Posix_Files
  imports Fs_Prelude
begin

text \<open>
  What the sources use of the C library's file interface: a regular file is its list of bytes,
  \<^verbatim>\<open>pread\<close> and \<^verbatim>\<open>pwrite\<close> act on it at an offset, and every call may succeed, be cut short or
  fail. Which of the three happens is not the program's choice, so it is an argument: a list of
  outcomes, one per call, that the callers consume in order (an exhausted list means success).
  Copies into memory are bounds-checked: a copy outside the destination has no result, so a
  theorem that a function returns something also says that it never writes out of bounds.
\<close>

section \<open>Outcomes of a call\<close>

datatype io_outcome =
    IoOk            \<comment> \<open>the call transfers all it can\<close>
  | IoShort nat     \<comment> \<open>the call transfers at most that many bytes\<close>
  | IoErr int       \<comment> \<open>the call returns -1 with this \<^verbatim>\<open>errno\<close>\<close>

fun next_io :: "io_outcome list \<Rightarrow> io_outcome \<times> io_outcome list" where
  "next_io [] = (IoOk, [])"
| "next_io (x # xs) = (x, xs)"

section \<open>Writing\<close>

text \<open>The bytes \<open>d\<close> placed at offset \<open>off\<close>; a gap before the old end is filled with zeros.\<close>

definition overlay :: "byte list \<Rightarrow> nat \<Rightarrow> byte list \<Rightarrow> byte list" where
  "overlay f off d =
     (if d = [] then f
      else take off (f @ replicate (off - length f) 0) @ d @ drop (off + length d) f)"

text \<open>\<^verbatim>\<open>pwrite(fd, d, length d, off)\<close>: the new file, the return value and \<^verbatim>\<open>errno\<close>. A
  negative \<^verbatim>\<open>off_t\<close> is refused.\<close>

definition pwrite :: "io_outcome \<Rightarrow> byte list \<Rightarrow> byte list \<Rightarrow> u64 \<Rightarrow> byte list \<times> int \<times> int" where
  "pwrite out f d off =
     (if sint off < 0 then (f, -1, EINVAL)
      else case out of
        IoOk \<Rightarrow> (overlay f (unat off) d, int (length d), 0)
      | IoShort n \<Rightarrow> (overlay f (unat off) (take n d), int (length (take n d)), 0)
      | IoErr e \<Rightarrow> (f, -1, e))"

section \<open>Reading\<close>

text \<open>\<^verbatim>\<open>pread(fd, buf, n, off)\<close>: the return value and the bytes placed in the buffer.\<close>

definition pread :: "io_outcome \<Rightarrow> byte list \<Rightarrow> nat \<Rightarrow> u64 \<Rightarrow> int \<times> byte list" where
  "pread out f n off =
     (if sint off < 0 then (-1, [])
      else case out of
        IoOk \<Rightarrow> (let d = take n (drop (unat off) f) in (int (length d), d))
      | IoShort k \<Rightarrow> (let d = take (min k n) (drop (unat off) f) in (int (length d), d))
      | IoErr e \<Rightarrow> (-1, []))"

section \<open>Memory copies\<close>

definition memcpy_at :: "byte list \<Rightarrow> nat \<Rightarrow> byte list \<Rightarrow> byte list option" where
  "memcpy_at buf off d =
     (if off + length d \<le> length buf then Some (take off buf @ d @ drop (off + length d) buf) else None)"

section \<open>Blocks of a file\<close>

definition block_at :: "byte list \<Rightarrow> nat \<Rightarrow> byte list" where
  "block_at f i = take BLOCK_SIZE (drop (i * BLOCK_SIZE) f)"

lemma length_overlay:
  "length (overlay f off d) = (if d = [] then length f else max (length f) (off + length d))"
  by (auto simp: overlay_def)

lemma length_overlay_ge: "length f \<le> length (overlay f off d)"
  by (simp add: length_overlay)

lemma overlay_Nil [simp]: "overlay f off [] = f"
  by (simp add: overlay_def)

lemma nth_overlay:
  assumes "n < length (overlay f off d)"
  shows "overlay f off d ! n =
    (if off \<le> n \<and> n < off + length d then d ! (n - off) else if n < length f then f ! n else 0)"
proof (cases "d = []")
  case True
  with assms show ?thesis by (auto simp: overlay_def)
next
  case False
  let ?p = "take off (f @ replicate (off - length f) 0)"
  have len: "length ?p = off" by simp
  have eq: "overlay f off d ! n = (?p @ d @ drop (off + length d) f) ! n"
    using False by (simp add: overlay_def)
  consider (a) "n < off" | (b) "off \<le> n" "n < off + length d" | (c) "off + length d \<le> n"
    by linarith
  then show ?thesis
  proof cases
    case a
    then have "overlay f off d ! n = (f @ replicate (off - length f) 0) ! n"
      unfolding eq by (subst nth_append) (simp only: len if_True nth_take)
    with a show ?thesis by (auto simp: nth_append)
  next
    case b
    then have "n - off < length d" by simp
    with b show ?thesis
      unfolding eq nth_append len by simp
  next
    case c
    with assms False have "n < length f" by (simp add: length_overlay split: if_splits)
    moreover from c have "\<not> n - off < length d" "\<not> n < off" by simp_all
    ultimately show ?thesis
      unfolding eq nth_append len using c by simp
  qed
qed

lemma length_block_at: "length (block_at f i) = min BLOCK_SIZE (length f - i * BLOCK_SIZE)"
  by (simp add: block_at_def min.commute)

lemma full_block_iff: "length (block_at f i) = BLOCK_SIZE \<longleftrightarrow> Suc i * BLOCK_SIZE \<le> length f"
proof -
  have "Suc i * BLOCK_SIZE = i * BLOCK_SIZE + BLOCK_SIZE" by simp
  then show ?thesis
    unfolding length_block_at using BLOCK_SIZE_pos by linarith
qed

lemma nth_block_at:
  "n < length (block_at f i) \<Longrightarrow> block_at f i ! n = f ! (i * BLOCK_SIZE + n)"
  by (auto simp: block_at_def)

text \<open>Writing at block \<open>i\<close> at most \<open>k\<close> blocks of data leaves every other complete block alone,
  however short the write was cut.\<close>

lemma block_at_overlay_other:
  assumes d: "length d \<le> k * BLOCK_SIZE" and j: "j < i \<or> i + k \<le> j"
    and full: "length (block_at f j) = BLOCK_SIZE"
  shows "block_at (overlay f (i * BLOCK_SIZE) d) j = block_at f j"
proof -
  let ?g = "overlay f (i * BLOCK_SIZE) d"
  have f: "Suc j * BLOCK_SIZE \<le> length f" using full by (simp add: full_block_iff)
  also have "length f \<le> length ?g" by (simp add: length_overlay)
  finally have g: "length (block_at ?g j) = BLOCK_SIZE" by (simp add: full_block_iff)
  show ?thesis
  proof (rule nth_equalityI)
    show "length (block_at ?g j) = length (block_at f j)" using g full by simp
  next
    fix n assume n: "n < length (block_at ?g j)"
    then have nB: "n < BLOCK_SIZE" using g by simp
    let ?m = "j * BLOCK_SIZE + n"
    have mf: "?m < length f" using f nB by simp
    then have mg: "?m < length ?g" using length_overlay_ge [of f] by (rule less_le_trans)
    have "\<not> (i * BLOCK_SIZE \<le> ?m \<and> ?m < i * BLOCK_SIZE + length d)"
    proof (cases "j < i")
      case True
      then have "Suc j * BLOCK_SIZE \<le> i * BLOCK_SIZE" by (intro mult_le_mono1) simp
      then show ?thesis using nB by simp
    next
      case False
      with j have "(i + k) * BLOCK_SIZE \<le> j * BLOCK_SIZE" by (intro mult_le_mono1) simp
      then show ?thesis using d by (simp add: add_mult_distrib)
    qed
    then have "?g ! ?m = f ! ?m" using nth_overlay [OF mg] mf by auto
    then show "block_at ?g j ! n = block_at f j ! n"
      using n nB full by (simp add: nth_block_at)
  qed
qed

text \<open>A write of \<open>k\<close> whole blocks at block \<open>i\<close> is read back block by block.\<close>

lemma block_at_overlay_same:
  assumes d: "length d = k * BLOCK_SIZE" and j: "i \<le> j" "j < i + k"
  shows "block_at (overlay f (i * BLOCK_SIZE) d) j = block_at d (j - i)"
proof -
  let ?g = "overlay f (i * BLOCK_SIZE) d"
  have dn: "d \<noteq> []" using d j BLOCK_SIZE_pos by (cases d) auto
  have le: "Suc j * BLOCK_SIZE \<le> (i + k) * BLOCK_SIZE" using j by (intro mult_le_mono1) simp
  then have "Suc j * BLOCK_SIZE \<le> length ?g" using dn d by (simp add: length_overlay add_mult_distrib)
  then have g: "length (block_at ?g j) = BLOCK_SIZE" by (simp only: full_block_iff)
  have "Suc (j - i) * BLOCK_SIZE \<le> k * BLOCK_SIZE" using j by (intro mult_le_mono1) simp
  then have dd: "length (block_at d (j - i)) = BLOCK_SIZE" using d by (simp only: full_block_iff)
  show ?thesis
  proof (rule nth_equalityI)
    show "length (block_at ?g j) = length (block_at d (j - i))" using g dd by simp
  next
    fix n assume n: "n < length (block_at ?g j)"
    then have nB: "n < BLOCK_SIZE" using g by simp
    let ?m = "j * BLOCK_SIZE + n"
    have ij: "i * BLOCK_SIZE \<le> j * BLOCK_SIZE" using j by (intro mult_le_mono1)
    have m2: "?m < i * BLOCK_SIZE + length d" using le nB d by (simp add: add_mult_distrib)
    then have mg: "?m < length ?g" using dn by (simp add: length_overlay)
    have "?g ! ?m = d ! (?m - i * BLOCK_SIZE)" using nth_overlay [OF mg] ij m2 by simp
    also have "?m - i * BLOCK_SIZE = (j - i) * BLOCK_SIZE + n"
      using ij by (simp add: diff_mult_distrib)
    finally show "block_at ?g j ! n = block_at d (j - i) ! n"
      using n nB dd by (simp add: nth_block_at)
  qed
qed

section \<open>Copies into a buffer of blocks\<close>

lemma memcpy_at_block:
  assumes d: "length d = BLOCK_SIZE" and i: "Suc i * BLOCK_SIZE \<le> length buf"
  shows "memcpy_at buf (i * BLOCK_SIZE) d = Some (overlay buf (i * BLOCK_SIZE) d)"
proof -
  have "d \<noteq> []" using d BLOCK_SIZE_pos by (cases d) auto
  with d i show ?thesis by (simp add: memcpy_at_def overlay_def)
qed

lemma block_at_concat:
  assumes "\<forall>x \<in> set xs. length x = BLOCK_SIZE" and "i < length xs"
  shows "block_at (concat xs) i = xs ! i"
  using assms
proof (induction xs arbitrary: i)
  case Nil
  then show ?case by simp
next
  case (Cons x xs)
  show ?case
  proof (cases i)
    case 0
    with Cons.prems show ?thesis by (simp add: block_at_def)
  next
    case (Suc j)
    have "block_at (concat (x # xs)) i = block_at (concat xs) j"
      using Cons.prems Suc by (simp add: block_at_def)
    with Cons Suc show ?thesis by simp
  qed
qed

lemma concat_block_at:
  assumes "length xs = n * BLOCK_SIZE"
  shows "concat (map (block_at xs) [0..<n]) = xs"
  using concat_blocks [OF assms] by (simp add: block_at_def cong: map_cong)

section \<open>Results of the calls\<close>

text \<open>A \<^verbatim>\<open>pread\<close> that returns the full count delivered exactly the bytes of the file.\<close>

lemma pread_spec:
  assumes "pread out f n off = (res, d)" and "0 \<le> sint off"
  shows "length d \<le> n" "res = int n \<Longrightarrow> d = take n (drop (unat off) f) \<and> length d = n"
    "out = IoOk \<Longrightarrow> n \<le> length f - unat off \<Longrightarrow> res = int n"
  using assms by (auto simp: pread_def Let_def min_def split: io_outcome.splits if_splits)

lemma pwrite_cases:
  assumes "pwrite out f d off = (f', w, e)" and "0 \<le> sint off"
  obtains k where "f' = overlay f (unat off) (take k d)" "w = int (length d) \<Longrightarrow> f' = overlay f (unat off) d"
    "out = IoOk \<Longrightarrow> w = int (length d)"
proof (cases out)
  case IoOk
  with assms show thesis by (intro that [of "length d"]) (auto simp: pwrite_def)
next
  case (IoShort k)
  with assms show thesis by (intro that [of k]) (auto simp: pwrite_def min_def split: if_splits)
next
  case (IoErr e')
  with assms show thesis by (intro that [of 0]) (auto simp: pwrite_def)
qed

lemma length_memcpy_at: "memcpy_at buf off d = Some buf' \<Longrightarrow> length buf' = length buf"
  by (auto simp: memcpy_at_def split: if_splits)

end
