(* ===== verification/Hashing.thy ===== *)
theory Hashing
  imports Posix_Files
begin

text \<open>
  The content hash of a block (\<^verbatim>\<open>src/hashing.c\<close>). SHA-512 itself is OpenSSL's: it is the
  parameter \<open>SHA512\<close>, a function from the message to its digest, and what is known of it is
  the predicate \<open>sha512_contract\<close> (the digest is always 64 bytes long) and, for the theorems
  that compare contents, the absence of a collision among the blocks at hand
  (\<open>no_collision\<close>). Injectivity on all blocks would be unsatisfiable, since there are more
  4096-byte blocks than digests.
\<close>

text \<open>\<^verbatim>\<open>#define HASH_SIZE 64\<close>, the same value as OpenSSL's \<^verbatim>\<open>SHA512_DIGEST_LENGTH\<close>.\<close>

definition HASH_SIZE :: nat where
  "HASH_SIZE = 64"

text \<open>\<^verbatim>\<open>void hash(input, output)\<close>: hash 4096 bytes at \<open>input\<close> and copy the digest out.\<close>

definition hash :: "(byte list \<Rightarrow> digest) \<Rightarrow> byte list \<Rightarrow> digest" where
  "hash SHA512 input = take HASH_SIZE (SHA512 (take 4096 input))"

definition sha512_contract :: "(byte list \<Rightarrow> digest) \<Rightarrow> bool" where
  "sha512_contract SHA512 \<longleftrightarrow> (\<forall>m. length (SHA512 m) = HASH_SIZE)"

definition no_collision :: "(byte list \<Rightarrow> digest) \<Rightarrow> byte list set \<Rightarrow> bool" where
  "no_collision SHA512 B \<longleftrightarrow> inj_on (hash SHA512) B"

lemma hash_length: "sha512_contract SHA512 \<Longrightarrow> length (hash SHA512 b) = HASH_SIZE"
  by (simp add: hash_def sha512_contract_def)

lemma hash_take: "hash SHA512 (take BLOCK_SIZE b) = hash SHA512 b"
  by (simp add: hash_def BLOCK_SIZE_def)

lemma no_collisionD: "no_collision SHA512 B \<Longrightarrow> x \<in> B \<Longrightarrow> y \<in> B \<Longrightarrow> hash SHA512 x = hash SHA512 y \<Longrightarrow> x = y"
  by (simp add: no_collision_def inj_on_def)

lemma no_collision_subset: "no_collision SHA512 B \<Longrightarrow> A \<subseteq> B \<Longrightarrow> no_collision SHA512 A"
  unfolding no_collision_def by (rule inj_on_subset)

end
