(* ===== verification/Metaindex.thy ===== *)
theory Metaindex
  imports Hashing
begin

text \<open>
  The index of the file system (\<^verbatim>\<open>includes/metaindex.h\<close>, \<^verbatim>\<open>src/metaindex.c\<close>): two tables that
  share heap objects (\<^verbatim>\<open>MasterInfo\<close>), the table of logical sizes and the list of reusable
  slots. The tables are GLib hash tables; a table is the finite map it stands for, keyed by the
  values its equality function compares, and the contract GLib asks of the hash and equality
  functions is the locale \<open>ghash_keys\<close>, interpreted on the functions of the source. The heap is
  explicit: \<open>minfos\<close> maps the address of every allocated \<^verbatim>\<open>MasterInfo\<close> to its contents, and an
  access or a free through an address that is not allocated has no result (\<open>None\<close>).
\<close>

section \<open>Data\<close>

record MasterInfo =
  info_hash :: digest
  masterBlockIndex :: u64
  refcount :: u32

record BlockIndice =
  key_path :: path
  key_offset :: u64

record Index =
  hash_to_master :: "digest \<rightharpoonup> ptr"
  file_to_master :: "BlockIndice \<rightharpoonup> ptr"
  free_block_list :: "u64 list"
  file_to_sizes :: "path \<rightharpoonup> u64"
  minfos :: "ptr \<rightharpoonup> MasterInfo"
  next_ptr :: ptr

abbreviation bkey :: "path \<Rightarrow> u64 \<Rightarrow> BlockIndice" where
  "bkey p b \<equiv> \<lparr>key_path = p, key_offset = b\<rparr>"

text \<open>An index with no entry: what \<^verbatim>\<open>index_init\<close> builds when no table was ever saved.\<close>

definition empty_index :: Index where
  "empty_index = \<lparr>hash_to_master = Map.empty, file_to_master = Map.empty, free_block_list = [],
     file_to_sizes = Map.empty, minfos = Map.empty, next_ptr = 0\<rparr>"

section \<open>Key functions\<close>

fun le_nat :: "byte list \<Rightarrow> nat" where
  "le_nat [] = 0"
| "le_nat (b # bs) = unat b + 256 * le_nat bs"

text \<open>\<^verbatim>\<open>data[i]\<close> of \<^verbatim>\<open>const size_t *data = key\<close>: eight bytes, least significant first.\<close>

definition size_t_at :: "byte list \<Rightarrow> nat \<Rightarrow> u64" where
  "size_t_at key i = of_nat (le_nat (take 8 (drop (8 * i) key)))"

unbundle bit_operations_syntax

definition hash512_hash :: "digest \<Rightarrow> u32" where
  "hash512_hash key =
     (let folded = size_t_at key 0 XOR size_t_at key 1 XOR size_t_at key 2 XOR size_t_at key 3 XOR
                   size_t_at key 4 XOR size_t_at key 5 XOR size_t_at key 6 XOR size_t_at key 7
      in ucast (folded XOR drop_bit 32 folded))"

definition hash512_equal :: "digest \<Rightarrow> digest \<Rightarrow> bool" where
  "hash512_equal a b \<longleftrightarrow> take HASH_SIZE a = take HASH_SIZE b"

definition blockIndice_hash :: "(path \<Rightarrow> u32) \<Rightarrow> (u64 \<Rightarrow> u32) \<Rightarrow> BlockIndice \<Rightarrow> u32" where
  "blockIndice_hash g_str_hash g_int64_hash b =
     g_str_hash (key_path b) XOR push_bit 1 (g_int64_hash (key_offset b))"

definition blockIndice_equal :: "BlockIndice \<Rightarrow> BlockIndice \<Rightarrow> bool" where
  "blockIndice_equal x y \<longleftrightarrow> key_offset x = key_offset y \<and> key_path x = key_path y"

section \<open>Table operations\<close>

definition lookup_by_file_block :: "Index \<Rightarrow> path \<Rightarrow> u64 \<Rightarrow> ptr option" where
  "lookup_by_file_block idx file blockIndex = file_to_master idx (bkey file blockIndex)"

definition insert_file_block :: "Index \<Rightarrow> path \<Rightarrow> u64 \<Rightarrow> ptr \<Rightarrow> Index" where
  "insert_file_block idx file blockIndex info =
     idx\<lparr>file_to_master := (file_to_master idx)(bkey file blockIndex \<mapsto> info)\<rparr>"

definition remove_file_block :: "Index \<Rightarrow> path \<Rightarrow> u64 \<Rightarrow> Index" where
  "remove_file_block idx file blockIndex =
     idx\<lparr>file_to_master := (file_to_master idx)(bkey file blockIndex := None)\<rparr>"

definition lookup_by_hash :: "Index \<Rightarrow> digest \<Rightarrow> ptr option" where
  "lookup_by_hash idx h = hash_to_master idx h"

definition insert_hash :: "Index \<Rightarrow> digest \<Rightarrow> ptr \<Rightarrow> Index" where
  "insert_hash idx h info = idx\<lparr>hash_to_master := (hash_to_master idx)(h \<mapsto> info)\<rparr>"

definition remove_hash :: "Index \<Rightarrow> digest \<Rightarrow> Index" where
  "remove_hash idx h = idx\<lparr>hash_to_master := (hash_to_master idx)(h := None)\<rparr>"

section \<open>Heap objects\<close>

text \<open>\<^verbatim>\<open>g_new(MasterInfo, 1)\<close> followed by the assignments of its fields.\<close>

definition info_new :: "Index \<Rightarrow> MasterInfo \<Rightarrow> Index \<times> ptr" where
  "info_new idx mi =
     (idx\<lparr>minfos := (minfos idx)(next_ptr idx \<mapsto> mi), next_ptr := Suc (next_ptr idx)\<rparr>, next_ptr idx)"

definition info_free :: "Index \<Rightarrow> ptr \<Rightarrow> Index option" where
  "info_free idx p =
     (if p \<in> dom (minfos idx) then Some (idx\<lparr>minfos := (minfos idx)(p := None)\<rparr>) else None)"

definition info_set :: "Index \<Rightarrow> ptr \<Rightarrow> MasterInfo \<Rightarrow> Index" where
  "info_set idx p mi = idx\<lparr>minfos := (minfos idx)(p \<mapsto> mi)\<rparr>"

text \<open>\<^verbatim>\<open>__atomic_fetch_add(&info->refcount, 1, ...)\<close>; the counter has 32 bits and wraps.\<close>

definition refcount_inc :: "Index \<Rightarrow> ptr \<Rightarrow> Index option" where
  "refcount_inc idx p =
     (case minfos idx p of None \<Rightarrow> None
      | Some mi \<Rightarrow> Some (info_set idx p (mi\<lparr>refcount := refcount mi + 1\<rparr>)))"

text \<open>\<^verbatim>\<open>__atomic_fetch_sub(&info->refcount, 1, ...)\<close>: the old value and the new state.\<close>

definition refcount_fetch_sub :: "Index \<Rightarrow> ptr \<Rightarrow> (u32 \<times> Index) option" where
  "refcount_fetch_sub idx p =
     (case minfos idx p of None \<Rightarrow> None
      | Some mi \<Rightarrow> Some (refcount mi, info_set idx p (mi\<lparr>refcount := refcount mi - 1\<rparr>)))"

lemmas index_op_defs =
  lookup_by_file_block_def insert_file_block_def remove_file_block_def
  lookup_by_hash_def insert_hash_def remove_hash_def
  info_new_def info_set_def

section \<open>The contract of a hash table's key functions\<close>

text \<open>
  GLib compares the hash values of two keys before it calls the equality function, so a pair that
  is equal but hashes differently would never be found. Under the contract the shortcut is
  invisible: searching with it finds exactly what a search by equality alone would find.
\<close>

locale ghash_keys =
  fixes hash_fn :: "'k \<Rightarrow> u32" and equal_fn :: "'k \<Rightarrow> 'k \<Rightarrow> bool"
  assumes equal_equivp: "equivp equal_fn"
    and equal_hash: "equal_fn a b \<Longrightarrow> hash_fn a = hash_fn b"
begin

lemma hashed_search:
  "find (\<lambda>e. hash_fn (fst e) = hash_fn k \<and> equal_fn (fst e) k) es = find (\<lambda>e. equal_fn (fst e) k) es"
  by (rule find_cong) (auto dest: equal_hash)

lemma equal_keys_same_entry:
  assumes "equal_fn k k'"
  shows "find (\<lambda>e. equal_fn (fst e) k) es = find (\<lambda>e. equal_fn (fst e) k') es"
proof (rule find_cong [OF refl])
  fix e show "equal_fn (fst e) k = equal_fn (fst e) k'"
    using equal_equivp assms by (meson equivp_def equivp_symp equivp_transp)
qed

end

lemma size_t_at_take: "8 * i + 8 \<le> HASH_SIZE \<Longrightarrow> size_t_at (take HASH_SIZE key) i = size_t_at key i"
  by (simp add: size_t_at_def drop_take take_take min_def)

lemma hash512_hash_take: "hash512_hash (take HASH_SIZE key) = hash512_hash key"
proof -
  have "\<forall>i < 8. size_t_at (take HASH_SIZE key) i = size_t_at key i"
  proof (intro allI impI)
    fix i :: nat assume "i < 8"
    then have "8 * i + 8 \<le> HASH_SIZE" by (simp add: HASH_SIZE_def)
    then show "size_t_at (take HASH_SIZE key) i = size_t_at key i" by (rule size_t_at_take)
  qed
  then show ?thesis by (simp add: hash512_hash_def)
qed

interpretation digest_keys: ghash_keys hash512_hash hash512_equal
proof
  show "equivp hash512_equal"
    by (intro equivpI reflpI sympI transpI) (auto simp: hash512_equal_def)
next
  fix a b assume "hash512_equal a b"
  then show "hash512_hash a = hash512_hash b"
    by (metis hash512_equal_def hash512_hash_take)
qed

interpretation block_keys: ghash_keys "blockIndice_hash g_str_hash g_int64_hash" blockIndice_equal
  for g_str_hash g_int64_hash
proof
  show "equivp blockIndice_equal"
    by (intro equivpI reflpI sympI transpI) (auto simp: blockIndice_equal_def)
qed (simp add: blockIndice_hash_def blockIndice_equal_def)

lemma hash512_equal_eq:
  "length a = HASH_SIZE \<Longrightarrow> length b = HASH_SIZE \<Longrightarrow> hash512_equal a b \<longleftrightarrow> a = b"
  by (simp add: hash512_equal_def)

lemma blockIndice_equal_eq: "blockIndice_equal x y \<longleftrightarrow> x = y"
  by (auto simp: blockIndice_equal_def)

section \<open>Effects on the fields\<close>

lemma lookup_insert_file_block [index_simps]:
  "lookup_by_file_block (insert_file_block idx f b p) f' b' =
     (if f' = f \<and> b' = b then Some p else lookup_by_file_block idx f' b')"
  by (simp add: index_op_defs)

lemma lookup_remove_file_block [index_simps]:
  "lookup_by_file_block (remove_file_block idx f b) f' b' =
     (if f' = f \<and> b' = b then None else lookup_by_file_block idx f' b')"
  by (simp add: index_op_defs)

lemma insert_after_remove [simp]:
  "insert_file_block (remove_file_block idx f b) f b p = insert_file_block idx f b p"
  by (simp add: index_op_defs)

end
