(* ===== verification/Index_Invariant.thy ===== *)
theory Index_Invariant
  imports Metaindex
begin

text \<open>
  The invariant of the index, in a form that also holds between the passes of a write. Four ghost
  arguments say what is in flight: \<open>pend\<close>, the objects that are allocated but not yet published
  in \<open>hash_to_master\<close>; \<open>pins\<close>, the references to an object that a running operation holds on
  top of those of \<open>file_to_master\<close>; \<open>resv\<close>, the slots handed out but not yet owned by a
  published object; and \<open>rel\<close>, the slots already given up and waiting to be put back on the free
  list. At rest all four are empty (\<open>index_inv\<close>).

  Every change the code makes to the shared state is one of a few primitive steps: take a pin, give
  a pin back, turn a mapping into a pin and back, allocate an object, give it its slot, publish it
  or discard it. The step lemmas below are what the proofs of all operations rest on.
\<close>

section \<open>Model: giving back a reference\<close>

text \<open>
  The fragment that \<^verbatim>\<open>remove_blocks_dedup_batch\<close>, \<^verbatim>\<open>rollback_allocations\<close> and the third pass of
  \<^verbatim>\<open>write_dedup\<close> share: decrement the counter; if the old value was 1, put the slot on the local
  list, remove the hash entry and free the object.
\<close>

definition release_info :: "Index \<Rightarrow> u64 list \<Rightarrow> ptr \<Rightarrow> (Index \<times> u64 list) option" where
  "release_info idx slots p =
     (case refcount_fetch_sub idx p of
        None \<Rightarrow> None
      | Some (old, idx1) \<Rightarrow>
          if old = 1 then
            (case minfos idx1 p of
               None \<Rightarrow> None
             | Some mi \<Rightarrow>
                 (case info_free (remove_hash idx1 (info_hash mi)) p of
                    None \<Rightarrow> None
                  | Some idx2 \<Rightarrow> Some (idx2, masterBlockIndex mi # slots)))
          else Some (idx1, slots))"

section \<open>The invariant\<close>

definition refs :: "Index \<Rightarrow> ptr \<Rightarrow> nat" where
  "refs idx p = card {k. file_to_master idx k = Some p}"

definition slot_of :: "Index \<Rightarrow> ptr \<Rightarrow> u64" where
  "slot_of idx p = (case minfos idx p of None \<Rightarrow> 0 | Some mi \<Rightarrow> masterBlockIndex mi)"

definition published :: "ptr set \<Rightarrow> Index \<Rightarrow> ptr set" where
  "published pend idx = dom (minfos idx) - pend"

definition tables_ok :: "ptr set \<Rightarrow> Index \<Rightarrow> bool" where
  "tables_ok pend idx \<longleftrightarrow>
     (\<forall>d p. hash_to_master idx d = Some p \<longleftrightarrow> (\<exists>mi. minfos idx p = Some mi \<and> info_hash mi = d \<and> p \<notin> pend)) \<and>
     (\<forall>k p. file_to_master idx k = Some p \<longrightarrow> p \<in> published pend idx) \<and>
     finite (dom (file_to_master idx)) \<and> pend \<subseteq> dom (minfos idx) \<and> (\<forall>p \<in> dom (minfos idx). p < next_ptr idx)"

definition counts_ok :: "(ptr \<Rightarrow> nat) \<Rightarrow> Index \<Rightarrow> bool" where
  "counts_ok pins idx \<longleftrightarrow>
     (\<forall>p mi. minfos idx p = Some mi \<longrightarrow> unat (refcount mi) = refs idx p + pins p \<and> refcount mi \<noteq> 0) \<and>
     (\<forall>p. 0 < pins p \<longrightarrow> p \<in> dom (minfos idx))"

definition slots_ok :: "ptr set \<Rightarrow> u64 set \<Rightarrow> u64 list \<Rightarrow> u64 \<Rightarrow> Index \<Rightarrow> bool" where
  "slots_ok pend resv rel nxt idx \<longleftrightarrow>
     inj_on (slot_of idx) (published pend idx) \<and> distinct (rel @ free_block_list idx) \<and>
     slot_of idx ` published pend idx \<inter> resv = {} \<and>
     slot_of idx ` published pend idx \<inter> set (rel @ free_block_list idx) = {} \<and>
     resv \<inter> set (rel @ free_block_list idx) = {} \<and>
     slot_of idx ` published pend idx \<union> resv \<union> set (rel @ free_block_list idx) = {s. s < nxt}"

text \<open>The master file holds, in the slot of every published object, a whole block with its hash.\<close>

definition data_ok :: "(byte list \<Rightarrow> digest) \<Rightarrow> byte list \<Rightarrow> ptr set \<Rightarrow> Index \<Rightarrow> bool" where
  "data_ok SHA512 master pend idx \<longleftrightarrow>
     (\<forall>p mi. minfos idx p = Some mi \<longrightarrow> p \<notin> pend \<longrightarrow>
        length (block_at master (unat (masterBlockIndex mi))) = BLOCK_SIZE \<and>
        hash SHA512 (block_at master (unat (masterBlockIndex mi))) = info_hash mi)"

text \<open>The logical size of a file covers its mapped blocks, and is a whole number of blocks.\<close>

definition sizes_ok :: "Index \<Rightarrow> bool" where
  "sizes_ok idx \<longleftrightarrow>
     (\<forall>k p. file_to_master idx k = Some p \<longrightarrow>
        (\<exists>s. file_to_sizes idx (key_path k) = Some s \<and> unat (key_offset k) * BLOCK_SIZE < unat s)) \<and>
     (\<forall>f s. file_to_sizes idx f = Some s \<longrightarrow> unat s mod BLOCK_SIZE = 0)"

definition index_inv :: "u64 \<Rightarrow> Index \<Rightarrow> bool" where
  "index_inv nxt idx \<longleftrightarrow> tables_ok {} idx \<and> counts_ok (\<lambda>_. 0) idx \<and> slots_ok {} {} [] nxt idx"

section \<open>Elementary consequences\<close>

lemma slot_of_Some [simp]: "minfos idx p = Some mi \<Longrightarrow> slot_of idx p = masterBlockIndex mi"
  by (simp add: slot_of_def)

lemma tables_okD:
  assumes "tables_ok pend idx"
  shows tables_ok_hash: "hash_to_master idx d = Some p \<longleftrightarrow> (\<exists>mi. minfos idx p = Some mi \<and> info_hash mi = d \<and> p \<notin> pend)"
    and tables_ok_file: "file_to_master idx k = Some p \<Longrightarrow> p \<in> published pend idx"
    and tables_ok_finite: "finite (dom (file_to_master idx))"
    and tables_ok_pend: "pend \<subseteq> dom (minfos idx)"
    and tables_ok_fresh: "p \<in> dom (minfos idx) \<Longrightarrow> p < next_ptr idx"
  using assms by (auto simp: tables_ok_def)

lemma file_mapped_allocated:
  assumes "tables_ok pend idx" and "file_to_master idx k = Some p"
  obtains mi where "minfos idx p = Some mi" "p \<notin> pend" "hash_to_master idx (info_hash mi) = Some p"
  using assms tables_ok_file [OF assms] tables_ok_hash [OF assms(1)]
  by (auto simp: published_def)

lemma finite_refs: "finite (dom (file_to_master idx)) \<Longrightarrow> finite {k. file_to_master idx k = Some p}"
  by (rule finite_subset) auto

lemma refs_pos_iff: "finite (dom (file_to_master idx)) \<Longrightarrow> 0 < refs idx p \<longleftrightarrow> (\<exists>k. file_to_master idx k = Some p)"
  using finite_refs [of idx p] by (auto simp: refs_def card_gt_0_iff)

lemma refs_le_dom:
  assumes "finite (dom (file_to_master idx))"
  shows "refs idx p \<le> card (dom (file_to_master idx))"
  unfolding refs_def by (rule card_mono [OF assms]) auto

lemma refs_unallocated:
  assumes "tables_ok pend idx" and "p \<notin> published pend idx"
  shows "refs idx p = 0"
proof -
  have "{k. file_to_master idx k = Some p} = {}"
    using tables_ok_file [OF assms(1)] assms(2) by auto
  then show ?thesis unfolding refs_def by simp
qed

lemma refs_cong: "file_to_master idx' = file_to_master idx \<Longrightarrow> refs idx' = refs idx"
  by (simp add: refs_def fun_eq_iff)

text \<open>Published objects are shared exactly: same digest, same object.\<close>

lemma published_hash_unique:
  assumes "tables_ok pend idx" and "minfos idx p = Some mi" "p \<notin> pend" and "minfos idx q = Some mj" "q \<notin> pend"
    and "info_hash mi = info_hash mj"
  shows "p = q"
proof -
  have "hash_to_master idx (info_hash mi) = Some p" "hash_to_master idx (info_hash mi) = Some q"
    using assms tables_ok_hash [OF assms(1)] by metis+
  then show ?thesis by simp
qed

section \<open>Primitive steps\<close>

text \<open>Updating an object without touching its hash or slot: only its counter matters.\<close>

lemma info_set_fields [simp]:
  "hash_to_master (info_set idx p mi) = hash_to_master idx"
  "file_to_master (info_set idx p mi) = file_to_master idx"
  "free_block_list (info_set idx p mi) = free_block_list idx"
  "file_to_sizes (info_set idx p mi) = file_to_sizes idx"
  "next_ptr (info_set idx p mi) = next_ptr idx"
  "minfos (info_set idx p mi) = (minfos idx)(p \<mapsto> mi)"
  by (simp_all add: info_set_def)

lemma tables_ok_info_set:
  assumes "tables_ok pend idx" "minfos idx p = Some mi" "info_hash mi' = info_hash mi"
  shows "tables_ok pend (info_set idx p mi')"
  using assms unfolding tables_ok_def published_def by (auto simp: dom_def)

lemma slot_of_info_set:
  "minfos idx p = Some mi \<Longrightarrow> masterBlockIndex mi' = masterBlockIndex mi \<Longrightarrow> slot_of (info_set idx p mi') = slot_of idx"
  by (auto simp: slot_of_def fun_eq_iff)

lemma published_info_set: "p \<in> dom (minfos idx) \<Longrightarrow> published pend (info_set idx p mi') = published pend idx"
  by (auto simp: published_def)

lemma slots_ok_info_set:
  assumes "slots_ok pend resv rel nxt idx" "minfos idx p = Some mi" "masterBlockIndex mi' = masterBlockIndex mi"
  shows "slots_ok pend resv rel nxt (info_set idx p mi')"
proof -
  have "published pend (info_set idx p mi') = published pend idx"
    using assms(2) by (intro published_info_set) auto
  with assms show ?thesis by (simp add: slots_ok_def slot_of_info_set)
qed

lemma data_ok_info_set:
  assumes "data_ok SHA512 master pend idx" "minfos idx p = Some mi"
    "masterBlockIndex mi' = masterBlockIndex mi" "info_hash mi' = info_hash mi"
  shows "data_ok SHA512 master pend (info_set idx p mi')"
  using assms by (auto simp: data_ok_def)

text \<open>Two indexes that differ in the counters only.\<close>

definition same_infos :: "Index \<Rightarrow> Index \<Rightarrow> bool" where
  "same_infos idx idx' \<longleftrightarrow>
     hash_to_master idx' = hash_to_master idx \<and> file_to_master idx' = file_to_master idx \<and>
     free_block_list idx' = free_block_list idx \<and> file_to_sizes idx' = file_to_sizes idx \<and>
     next_ptr idx' = next_ptr idx \<and>
     (\<forall>p. map_option (\<lambda>mi. (info_hash mi, masterBlockIndex mi)) (minfos idx' p) =
          map_option (\<lambda>mi. (info_hash mi, masterBlockIndex mi)) (minfos idx p))"

lemma same_infos_refl [simp]: "same_infos idx idx"
  by (simp add: same_infos_def)

lemma same_infos_trans: "same_infos a b \<Longrightarrow> same_infos b c \<Longrightarrow> same_infos a c"
  by (simp add: same_infos_def)

lemma same_infos_info_set:
  "minfos idx p = Some mi \<Longrightarrow> info_hash mi' = info_hash mi \<Longrightarrow> masterBlockIndex mi' = masterBlockIndex mi \<Longrightarrow>
   same_infos idx (info_set idx p mi')"
  by (simp add: same_infos_def)

lemma same_infosD:
  assumes "same_infos idx idx'"
  shows "hash_to_master idx' = hash_to_master idx" "file_to_master idx' = file_to_master idx"
    "free_block_list idx' = free_block_list idx" "file_to_sizes idx' = file_to_sizes idx"
    "next_ptr idx' = next_ptr idx" "dom (minfos idx') = dom (minfos idx)" "slot_of idx' = slot_of idx"
    "published pend idx' = published pend idx" "refs idx' = refs idx"
proof -
  have inf: "map_option (\<lambda>mi. (info_hash mi, masterBlockIndex mi)) (minfos idx' p) =
          map_option (\<lambda>mi. (info_hash mi, masterBlockIndex mi)) (minfos idx p)" for p
    using assms by (simp add: same_infos_def)
  show dom: "dom (minfos idx') = dom (minfos idx)"
  proof (rule set_eqI)
    fix p show "p \<in> dom (minfos idx') \<longleftrightarrow> p \<in> dom (minfos idx)"
      using inf [of p] by (cases "minfos idx p"; cases "minfos idx' p") auto
  qed
  show "slot_of idx' = slot_of idx"
  proof
    fix p show "slot_of idx' p = slot_of idx p"
      using inf [of p] by (cases "minfos idx p"; cases "minfos idx' p") (auto simp: slot_of_def)
  qed
  show "published pend idx' = published pend idx" by (simp add: published_def dom)
  show "refs idx' = refs idx" using assms by (intro refs_cong) (simp add: same_infos_def)
qed (use assms in \<open>simp_all add: same_infos_def\<close>)

lemma same_infos_Some:
  assumes "same_infos idx idx'" "minfos idx' p = Some mi'"
  obtains mi where "minfos idx p = Some mi" "info_hash mi' = info_hash mi" "masterBlockIndex mi' = masterBlockIndex mi"
proof -
  have "map_option (\<lambda>mi. (info_hash mi, masterBlockIndex mi)) (minfos idx' p) =
          map_option (\<lambda>mi. (info_hash mi, masterBlockIndex mi)) (minfos idx p)"
    using assms(1) by (simp add: same_infos_def)
  with assms(2) that show thesis by (cases "minfos idx p") auto
qed

lemma same_infos_hash_iff:
  assumes "same_infos idx idx'"
  shows "(\<exists>mi. minfos idx' p = Some mi \<and> info_hash mi = d) \<longleftrightarrow> (\<exists>mi. minfos idx p = Some mi \<and> info_hash mi = d)"
proof -
  have "map_option (\<lambda>mi. (info_hash mi, masterBlockIndex mi)) (minfos idx' p) =
          map_option (\<lambda>mi. (info_hash mi, masterBlockIndex mi)) (minfos idx p)"
    using assms by (simp add: same_infos_def)
  then show ?thesis by (cases "minfos idx p"; cases "minfos idx' p") auto
qed

lemma same_infos_ok:
  assumes "same_infos idx idx'"
  shows "tables_ok pend idx \<Longrightarrow> tables_ok pend idx'"
    and "slots_ok pend resv rel nxt idx \<Longrightarrow> slots_ok pend resv rel nxt idx'"
    and "data_ok SHA512 master pend idx \<Longrightarrow> data_ok SHA512 master pend idx'"
    and "sizes_ok idx \<Longrightarrow> sizes_ok idx'"
proof -
  note sD = same_infosD [OF assms]
  show "tables_ok pend idx'" if t: "tables_ok pend idx"
  proof -
    have "hash_to_master idx' d = Some p \<longleftrightarrow> (\<exists>mi. minfos idx' p = Some mi \<and> info_hash mi = d \<and> p \<notin> pend)" for d p
      using tables_ok_hash [OF t, of d p] same_infos_hash_iff [OF assms, of p d] sD(1) by auto
    then show ?thesis using t unfolding tables_ok_def by (simp add: sD)
  qed
  show "slots_ok pend resv rel nxt idx'" if "slots_ok pend resv rel nxt idx"
    using that by (simp add: slots_ok_def sD)
  show "data_ok SHA512 master pend idx'" if "data_ok SHA512 master pend idx"
    using that unfolding data_ok_def by (metis same_infos_Some [OF assms])
  show "sizes_ok idx'" if "sizes_ok idx"
    using that by (simp add: sizes_ok_def sD)
qed

text \<open>Taking a pin: the counter does not wrap as long as fewer than \<open>2 ^ 32\<close> references exist.\<close>

lemma pin_step:
  assumes c: "counts_ok pins idx" and p: "p \<in> dom (minfos idx)" and b: "refs idx p + pins p + 1 < 2 ^ 32"
  obtains idx' where "refcount_inc idx p = Some idx'" "same_infos idx idx'"
    "counts_ok (pins(p := pins p + 1)) idx'"
proof -
  from p obtain mi where mi: "minfos idx p = Some mi" by blast
  let ?mi' = "mi\<lparr>refcount := refcount mi + 1\<rparr>"
  let ?idx' = "info_set idx p ?mi'"
  have same: "same_infos idx ?idx'" using mi by (intro same_infos_info_set) auto
  have r: "unat (refcount mi) = refs idx p + pins p" using c mi by (simp add: counts_ok_def)
  then have u: "unat (refcount mi + 1) = refs idx p + pins p + 1"
    using b by (simp add: unat_word_ariths(1))
  then have nz: "refcount mi + 1 \<noteq> 0" by (metis add_is_0 one_neq_zero unat_0)
  have "counts_ok (pins(p := pins p + 1)) ?idx'"
    unfolding counts_ok_def same_infosD(9) [OF same]
    using c u nz p by (auto simp: counts_ok_def)
  moreover have "refcount_inc idx p = Some ?idx'" using mi by (simp add: refcount_inc_def)
  ultimately show thesis using same that by blast
qed

text \<open>Turning a mapping into a pin and a pin into a mapping.\<close>

lemma remove_file_block_fields [simp]:
  "hash_to_master (remove_file_block idx f b) = hash_to_master idx"
  "minfos (remove_file_block idx f b) = minfos idx"
  "free_block_list (remove_file_block idx f b) = free_block_list idx"
  "file_to_sizes (remove_file_block idx f b) = file_to_sizes idx"
  "next_ptr (remove_file_block idx f b) = next_ptr idx"
  "file_to_master (remove_file_block idx f b) = (file_to_master idx)(bkey f b := None)"
  by (simp_all add: remove_file_block_def)

lemma insert_file_block_fields [simp]:
  "hash_to_master (insert_file_block idx f b p) = hash_to_master idx"
  "minfos (insert_file_block idx f b p) = minfos idx"
  "free_block_list (insert_file_block idx f b p) = free_block_list idx"
  "file_to_sizes (insert_file_block idx f b p) = file_to_sizes idx"
  "next_ptr (insert_file_block idx f b p) = next_ptr idx"
  "file_to_master (insert_file_block idx f b p) = (file_to_master idx)(bkey f b \<mapsto> p)"
  by (simp_all add: insert_file_block_def)

lemma slots_data_ok_frame:
  assumes "minfos idx' = minfos idx" "free_block_list idx' = free_block_list idx"
  shows "slots_ok pend resv rel nxt idx' = slots_ok pend resv rel nxt idx"
    and "data_ok SHA512 master pend idx' = data_ok SHA512 master pend idx"
proof -
  have "slot_of idx' = slot_of idx" "published pend idx' = published pend idx"
    unfolding slot_of_def published_def assms(1) by (rule refl)+
  then show "slots_ok pend resv rel nxt idx' = slots_ok pend resv rel nxt idx"
    using assms by (simp add: slots_ok_def)
  show "data_ok SHA512 master pend idx' = data_ok SHA512 master pend idx"
    using assms by (simp add: data_ok_def)
qed

lemma unmap_step:
  assumes t: "tables_ok pend idx" and c: "counts_ok pins idx" and k: "file_to_master idx (bkey f b) = Some p"
  shows "tables_ok pend (remove_file_block idx f b)"
    and "counts_ok (pins(p := pins p + 1)) (remove_file_block idx f b)"
proof -
  show "tables_ok pend (remove_file_block idx f b)"
    using t unfolding tables_ok_def published_def by auto
  have fin: "finite (dom (file_to_master idx))" by (rule tables_ok_finite [OF t])
  have pos: "0 < refs idx p" using refs_pos_iff [OF fin] k by blast
  have "refs (remove_file_block idx f b) q = (if q = p then refs idx p - 1 else refs idx q)" for q
    using card_preimage_del [OF fin, of "bkey f b" q] k by (auto simp: refs_def)
  moreover have "p \<in> dom (minfos idx)" using tables_ok_file [OF t k] by (simp add: published_def)
  ultimately show "counts_ok (pins(p := pins p + 1)) (remove_file_block idx f b)"
    using c pos unfolding counts_ok_def by auto
qed

lemma map_step:
  assumes t: "tables_ok pend idx" and c: "counts_ok pins idx" and k: "file_to_master idx (bkey f b) = None"
    and p: "0 < pins p" "p \<notin> pend"
  shows "tables_ok pend (insert_file_block idx f b p)"
    and "counts_ok (pins(p := pins p - 1)) (insert_file_block idx f b p)"
proof -
  have pd: "p \<in> dom (minfos idx)" using c p(1) by (simp add: counts_ok_def)
  then show "tables_ok pend (insert_file_block idx f b p)"
    using t p(2) unfolding tables_ok_def published_def by auto
  have fin: "finite (dom (file_to_master idx))" by (rule tables_ok_finite [OF t])
  have "refs (insert_file_block idx f b p) q = (if q = p then Suc (refs idx p) else refs idx q)" for q
    using card_preimage_upd [OF fin, of "bkey f b" p q] k by (auto simp: refs_def)
  then show "counts_ok (pins(p := pins p - 1)) (insert_file_block idx f b p)"
    using c p(1) pd unfolding counts_ok_def by auto
qed

text \<open>Giving a pin back. The object disappears exactly when it was the last reference; its slot is
  then on the local list.\<close>

definition sub_infos :: "Index \<Rightarrow> Index \<Rightarrow> bool" where
  "sub_infos idx idx' \<longleftrightarrow>
     (\<forall>p mi'. minfos idx' p = Some mi' \<longrightarrow>
        (\<exists>mi. minfos idx p = Some mi \<and> info_hash mi' = info_hash mi \<and> masterBlockIndex mi' = masterBlockIndex mi))"

lemma sub_infos_data_ok: "sub_infos idx idx' \<Longrightarrow> data_ok SHA512 master pend idx \<Longrightarrow> data_ok SHA512 master pend idx'"
  unfolding sub_infos_def data_ok_def by metis

lemma sub_infos_refl [simp]: "sub_infos idx idx"
  by (simp add: sub_infos_def)

lemma sub_infos_trans: "sub_infos a b \<Longrightarrow> sub_infos b c \<Longrightarrow> sub_infos a c"
  unfolding sub_infos_def by metis

lemma same_infos_sub: "same_infos idx idx' \<Longrightarrow> sub_infos idx idx'"
  unfolding sub_infos_def by (metis same_infos_Some)

lemma last_release_step:
  assumes t: "tables_ok pend idx" and c: "counts_ok pins idx" and s: "slots_ok pend resv rel nxt idx"
    and p: "pins p = 1" "refs idx p = 0" "p \<notin> pend" and mi: "minfos idx p = Some mi"
  defines "idx' \<equiv> remove_hash idx (info_hash mi)\<lparr>minfos := (minfos idx)(p := None)\<rparr>"
  shows "tables_ok pend idx'" "counts_ok (pins(p := 0)) idx'" "slots_ok pend resv (masterBlockIndex mi # rel) nxt idx'"
    "sub_infos idx idx'"
proof -
  have flds: "file_to_master idx' = file_to_master idx" "minfos idx' = (minfos idx)(p := None)"
    "free_block_list idx' = free_block_list idx" "next_ptr idx' = next_ptr idx"
    "hash_to_master idx' = (hash_to_master idx)(info_hash mi := None)"
    by (simp_all add: idx'_def remove_hash_def)
  have nomap: "file_to_master idx k \<noteq> Some p" for k
    using p(2) refs_pos_iff [OF tables_ok_finite [OF t], of p] by auto
  have pub: "published pend idx' = published pend idx - {p}"
    by (auto simp: published_def flds)
  have pin: "p \<in> published pend idx" using mi p(3) by (auto simp: published_def)
  have h: "hash_to_master idx (info_hash mi) = Some p" using mi p(3) tables_ok_hash [OF t] by blast
  have hash: "hash_to_master idx' d = Some q \<longleftrightarrow> (\<exists>mj. minfos idx' q = Some mj \<and> info_hash mj = d \<and> q \<notin> pend)" for d q
    unfolding flds using tables_ok_hash [OF t, of d q] tables_ok_hash [OF t, of "info_hash mi" q] h mi by auto
  have "pend \<subseteq> dom (minfos idx')" using tables_ok_pend [OF t] p(3) by (auto simp: flds)
  moreover have "\<forall>q \<in> dom (minfos idx'). q < next_ptr idx'"
    using tables_ok_fresh [OF t] by (auto simp: flds split: if_splits)
  moreover have "\<forall>k q. file_to_master idx' k = Some q \<longrightarrow> q \<in> published pend idx'"
    using tables_ok_file [OF t] nomap by (auto simp: pub flds(1))
  ultimately show "tables_ok pend idx'"
    unfolding tables_ok_def using hash tables_ok_finite [OF t] by (auto simp: flds(1))
  have "refs idx' = refs idx" by (rule refs_cong) (rule flds(1))
  then show "counts_ok (pins(p := 0)) idx'" using c by (auto simp: counts_ok_def flds)
  have so: "slot_of idx' q = slot_of idx q" if "q \<noteq> p" for q using that by (simp add: slot_of_def flds)
  have im: "slot_of idx' ` published pend idx' = slot_of idx ` published pend idx - {masterBlockIndex mi}"
  proof -
    have "slot_of idx' ` (published pend idx - {p}) = slot_of idx ` (published pend idx - {p})"
      by (rule image_cong) (simp_all add: so)
    also have "\<dots> = slot_of idx ` published pend idx - slot_of idx ` {p}"
      using s pin by (intro inj_on_image_set_diff [of _ "published pend idx"]) (auto simp: slots_ok_def)
    finally show ?thesis using mi by (simp add: pub)
  qed
  have mem: "masterBlockIndex mi \<in> slot_of idx ` published pend idx" using pin mi by force
  have "inj_on (slot_of idx') (published pend idx')"
    using s so unfolding pub slots_ok_def inj_on_def by auto
  with mem show "slots_ok pend resv (masterBlockIndex mi # rel) nxt idx'"
    using s unfolding slots_ok_def im flds(3) by auto
  show "sub_infos idx idx'" by (auto simp: sub_infos_def flds)
qed

lemma release_step:
  assumes t: "tables_ok pend idx" and c: "counts_ok pins idx" and s: "slots_ok pend resv rel nxt idx"
    and p: "0 < pins p" "p \<notin> pend \<or> 1 < pins p"
  obtains idx' rel' where "release_info idx rel p = Some (idx', rel')"
    "tables_ok pend idx'" "counts_ok (pins(p := pins p - 1)) idx'" "slots_ok pend resv rel' nxt idx'"
    "sub_infos idx idx'" "file_to_master idx' = file_to_master idx" "file_to_sizes idx' = file_to_sizes idx"
    "free_block_list idx' = free_block_list idx" "next_ptr idx' = next_ptr idx"
    "\<And>q. 0 < refs idx q + (pins(p := pins p - 1)) q \<Longrightarrow> slot_of idx' q = slot_of idx q"
    "1 < refs idx p + pins p \<Longrightarrow> rel' = rel \<and> same_infos idx idx'"
proof -
  from c p(1) have "p \<in> dom (minfos idx)" by (simp add: counts_ok_def)
  then obtain mi where mi: "minfos idx p = Some mi" by blast
  have r: "unat (refcount mi) = refs idx p + pins p" using c mi by (simp add: counts_ok_def)
  let ?mi' = "mi\<lparr>refcount := refcount mi - 1\<rparr>"
  let ?idx1 = "info_set idx p ?mi'"
  have fs: "refcount_fetch_sub idx p = Some (refcount mi, ?idx1)" using mi by (simp add: refcount_fetch_sub_def)
  have same: "same_infos idx ?idx1" using mi by (intro same_infos_info_set) auto
  show thesis
  proof (cases "refcount mi = 1")
    case True
    with r p(1) have one: "pins p = 1" "refs idx p = 0" by simp_all
    with p(2) have np: "p \<notin> pend" by simp
    let ?idx' = "remove_hash idx (info_hash mi)\<lparr>minfos := (minfos idx)(p := None)\<rparr>"
    have rel: "release_info idx rel p = Some (?idx', masterBlockIndex mi # rel)"
      using fs True mi by (simp add: release_info_def info_free_def remove_hash_def info_set_def)
    note L = last_release_step [OF t c s one np mi]
    have so: "slot_of ?idx' q = slot_of idx q" if "0 < refs idx q + (pins(p := pins p - 1)) q" for q
      using that one by (auto simp: slot_of_def split: if_splits)
    show thesis
      by (rule that [OF rel]) (use L one so in \<open>simp_all add: remove_hash_def\<close>)
  next
    case False
    have rel: "release_info idx rel p = Some (?idx1, rel)" using fs False by (simp add: release_info_def)
    have "unat (refcount mi) \<noteq> 1" using False by (metis unat_1 word_unat_eq_iff)
    then have gt: "1 < refs idx p + pins p" using r p(1) by linarith
    have u: "unat (refcount mi - 1) = refs idx p + (pins p - 1)"
    proof -
      have "(1 :: u32) \<le> refcount mi" using r gt by (simp add: word_le_nat_alt)
      then have "unat (refcount mi - 1) = unat (refcount mi) - 1" by (simp add: unat_sub)
      with r p(1) show ?thesis by simp
    qed
    have nz: "refcount mi - 1 \<noteq> 0" using False by simp
    have cnt: "counts_ok (pins(p := pins p - 1)) ?idx1"
      unfolding counts_ok_def same_infosD(9) [OF same]
      using c u nz mi by (auto simp: counts_ok_def)
    show thesis
      by (rule that [OF rel])
        (use same_infos_ok [OF same] t s cnt same same_infosD [OF same] same_infos_sub [OF same] in auto)
  qed
qed

section \<open>Steps on pending objects\<close>

lemma info_new_fields:
  assumes "info_new idx mi = (idx', p)"
  shows "p = next_ptr idx" "minfos idx' = (minfos idx)(p \<mapsto> mi)" "next_ptr idx' = Suc (next_ptr idx)"
    "hash_to_master idx' = hash_to_master idx" "file_to_master idx' = file_to_master idx"
    "free_block_list idx' = free_block_list idx" "file_to_sizes idx' = file_to_sizes idx"
  using assms by (auto simp: info_new_def)

lemma new_step:
  assumes n: "info_new idx mi = (idx', p)" and one: "refcount mi = 1"
    and t: "tables_ok pend idx" and c: "counts_ok pins idx" and s: "slots_ok pend resv rel nxt idx"
  shows "tables_ok (insert p pend) idx'" "counts_ok (pins(p := 1)) idx'" "slots_ok (insert p pend) resv rel nxt idx'"
    "p \<notin> dom (minfos idx)" "pins p = 0" "p \<notin> pend" "published (insert p pend) idx' = published pend idx"
proof -
  note flds = info_new_fields [OF n]
  show new: "p \<notin> dom (minfos idx)" using tables_ok_fresh [OF t, of p] flds(1) by auto
  then show "pins p = 0" using c by (auto simp: counts_ok_def)
  show np: "p \<notin> pend" using new tables_ok_pend [OF t] by auto
  show pub: "published (insert p pend) idx' = published pend idx"
    using new np by (auto simp: published_def flds(2))
  have "hash_to_master idx' d = Some q \<longleftrightarrow> (\<exists>mj. minfos idx' q = Some mj \<and> info_hash mj = d \<and> q \<notin> insert p pend)" for d q
    unfolding flds(2-7) using tables_ok_hash [OF t, of d q] new by auto
  moreover have "\<forall>q \<in> dom (minfos idx'). q < next_ptr idx'"
    using tables_ok_fresh [OF t] by (auto simp: flds less_Suc_eq split: if_splits)
  ultimately show "tables_ok (insert p pend) idx'"
    using t pub unfolding tables_ok_def by (auto simp: flds(2,5))
  have "refs idx' = refs idx" by (rule refs_cong) (rule flds(5))
  moreover have "refs idx p = 0" using refs_unallocated [OF t] new by (simp add: published_def)
  ultimately show "counts_ok (pins(p := 1)) idx'"
    using c one by (auto simp: counts_ok_def flds(2))
  have im: "slot_of idx' ` published pend idx = slot_of idx ` published pend idx"
    using new by (intro image_cong) (auto simp: slot_of_def flds(2) published_def)
  moreover have "inj_on (slot_of idx') (published pend idx) = inj_on (slot_of idx) (published pend idx)"
    using new by (intro inj_on_cong) (auto simp: slot_of_def flds(2) published_def)
  ultimately show "slots_ok (insert p pend) resv rel nxt idx'"
    using s by (simp add: slots_ok_def pub flds(6))
qed

lemma new_step_data: 
  assumes "info_new idx mi = (idx', p)" "data_ok SHA512 master pend idx"
  shows "data_ok SHA512 master (insert p pend) idx'"
  using assms(2) info_new_fields(2) [OF assms(1)] by (auto simp: data_ok_def split: if_splits)

lemma pend_info_set_step:
  assumes mi: "minfos idx p = Some mi" and p: "p \<in> pend"
    and eq: "info_hash mi' = info_hash mi" "refcount mi' = refcount mi"
  shows "tables_ok pend idx \<Longrightarrow> tables_ok pend (info_set idx p mi')"
    and "counts_ok pins idx \<Longrightarrow> counts_ok pins (info_set idx p mi')"
    and "slots_ok pend resv rel nxt idx \<Longrightarrow> slots_ok pend resv rel nxt (info_set idx p mi')"
    and "data_ok SHA512 master pend idx \<Longrightarrow> data_ok SHA512 master pend (info_set idx p mi')"
proof -
  let ?i = "info_set idx p mi'"
  have pub: "published pend ?i = published pend idx" using mi by (intro published_info_set) auto
  show "tables_ok pend ?i" if "tables_ok pend idx"
    using that mi eq(1) by (rule tables_ok_info_set)
  have "refs ?i = refs idx" by (rule refs_cong) simp
  then show "counts_ok pins ?i" if "counts_ok pins idx"
    using that mi eq(2) by (auto simp: counts_ok_def)
  have "slot_of ?i ` published pend idx = slot_of idx ` published pend idx"
    using p by (intro image_cong) (auto simp: slot_of_def published_def)
  moreover have "inj_on (slot_of ?i) (published pend idx) = inj_on (slot_of idx) (published pend idx)"
    using p by (intro inj_on_cong) (auto simp: slot_of_def published_def)
  ultimately show "slots_ok pend resv rel nxt ?i" if "slots_ok pend resv rel nxt idx"
    using that by (simp add: slots_ok_def pub)
  show "data_ok SHA512 master pend ?i" if "data_ok SHA512 master pend idx"
    using that p by (auto simp: data_ok_def)
qed

lemma insert_hash_fields [simp]:
  "hash_to_master (insert_hash idx h p) = (hash_to_master idx)(h \<mapsto> p)"
  "minfos (insert_hash idx h p) = minfos idx" "file_to_master (insert_hash idx h p) = file_to_master idx"
  "free_block_list (insert_hash idx h p) = free_block_list idx" "file_to_sizes (insert_hash idx h p) = file_to_sizes idx"
  "next_ptr (insert_hash idx h p) = next_ptr idx"
  by (simp_all add: insert_hash_def)

lemma publish_step:
  assumes mi: "minfos idx p = Some mi" and p: "p \<in> pend" and h: "hash_to_master idx (info_hash mi) = None"
    and t: "tables_ok pend idx" and s: "slots_ok pend resv rel nxt idx" and r: "masterBlockIndex mi \<in> resv"
  defines "idx' \<equiv> insert_hash idx (info_hash mi) p"
  shows "tables_ok (pend - {p}) idx'" "slots_ok (pend - {p}) (resv - {masterBlockIndex mi}) rel nxt idx'"
    "counts_ok pins idx \<Longrightarrow> counts_ok pins idx'"
    "data_ok SHA512 master pend idx \<Longrightarrow> length (block_at master (unat (masterBlockIndex mi))) = BLOCK_SIZE \<Longrightarrow>
       hash SHA512 (block_at master (unat (masterBlockIndex mi))) = info_hash mi \<Longrightarrow>
       data_ok SHA512 master (pend - {p}) idx'"
proof -
  have pub: "published (pend - {p}) idx' = insert p (published pend idx)"
    using mi p by (auto simp: published_def idx'_def)
  have np: "p \<notin> published pend idx" using p by (simp add: published_def)
  have nh: "\<not> (\<exists>mj. minfos idx q = Some mj \<and> info_hash mj = info_hash mi \<and> q \<notin> pend)" for q
    using h tables_ok_hash [OF t, of "info_hash mi" q] by simp
  have "hash_to_master idx' d = Some q \<longleftrightarrow> (\<exists>mj. minfos idx' q = Some mj \<and> info_hash mj = d \<and> q \<notin> pend - {p})" for d q
    using tables_ok_hash [OF t, of d q] mi nh [of q] p by (auto simp: idx'_def)
  moreover have "pend - {p} \<subseteq> dom (minfos idx')" using tables_ok_pend [OF t] by (auto simp: idx'_def)
  ultimately show "tables_ok (pend - {p}) idx'"
    using t pub unfolding tables_ok_def by (auto simp: idx'_def)
  have so: "slot_of idx' = slot_of idx" by (simp add: slot_of_def idx'_def fun_eq_iff)
  have im: "slot_of idx' ` published (pend - {p}) idx' = insert (masterBlockIndex mi) (slot_of idx ` published pend idx)"
    using mi by (simp add: pub so)
  have "masterBlockIndex mi \<notin> slot_of idx ` published pend idx" using r s by (auto simp: slots_ok_def)
  then have "inj_on (slot_of idx') (published (pend - {p}) idx')"
    using s np mi by (simp add: pub so slots_ok_def)
  then show "slots_ok (pend - {p}) (resv - {masterBlockIndex mi}) rel nxt idx'"
    using s r unfolding slots_ok_def im by (auto simp: idx'_def)
  show "counts_ok pins idx'" if "counts_ok pins idx"
    using that refs_cong [of idx' idx] by (simp add: counts_ok_def idx'_def)
  show "data_ok SHA512 master (pend - {p}) idx'" if "data_ok SHA512 master pend idx"
    "length (block_at master (unat (masterBlockIndex mi))) = BLOCK_SIZE"
    "hash SHA512 (block_at master (unat (masterBlockIndex mi))) = info_hash mi"
    using that mi unfolding data_ok_def idx'_def by auto
qed

lemma discard_step:
  assumes p: "p \<in> pend" and t: "tables_ok pend idx" and c: "counts_ok pins idx"
    and s: "slots_ok pend resv rel nxt idx"
  obtains idx' where "info_free idx p = Some idx'" "tables_ok (pend - {p}) idx'" "counts_ok (pins(p := 0)) idx'"
    "slots_ok (pend - {p}) resv rel nxt idx'" "sub_infos idx idx'"
    "file_to_master idx' = file_to_master idx" "file_to_sizes idx' = file_to_sizes idx"
    "hash_to_master idx' = hash_to_master idx" "free_block_list idx' = free_block_list idx"
    "minfos idx' = (minfos idx)(p := None)" "next_ptr idx' = next_ptr idx"
proof -
  let ?i = "idx\<lparr>minfos := (minfos idx)(p := None)\<rparr>"
  have d: "p \<in> dom (minfos idx)" using p tables_ok_pend [OF t] by auto
  have pub: "published (pend - {p}) ?i = published pend idx" using p by (auto simp: published_def)
  have hash: "hash_to_master ?i e = Some q \<longleftrightarrow> (\<exists>mj. minfos ?i q = Some mj \<and> info_hash mj = e \<and> q \<notin> pend - {p})" for e q
    using tables_ok_hash [OF t, of e q] p by auto
  have "pend - {p} \<subseteq> dom (minfos ?i)" using tables_ok_pend [OF t] by auto
  moreover have "\<forall>q \<in> dom (minfos ?i). q < next_ptr ?i" using tables_ok_fresh [OF t] by (auto split: if_splits)
  ultimately have t': "tables_ok (pend - {p}) ?i"
    unfolding tables_ok_def pub using hash tables_ok_finite [OF t] tables_ok_file [OF t] by auto
  have "refs ?i = refs idx" by (rule refs_cong) simp
  then have c': "counts_ok (pins(p := 0)) ?i" using c by (auto simp: counts_ok_def)
  have "slot_of ?i ` published pend idx = slot_of idx ` published pend idx"
    using p by (intro image_cong) (auto simp: slot_of_def published_def)
  moreover have "inj_on (slot_of ?i) (published pend idx) = inj_on (slot_of idx) (published pend idx)"
    using p by (intro inj_on_cong) (auto simp: slot_of_def published_def)
  ultimately have s': "slots_ok (pend - {p}) resv rel nxt ?i" using s by (simp add: slots_ok_def pub)
  show thesis
    by (rule that [of ?i]) (use d t' c' s' in \<open>auto simp: info_free_def sub_infos_def\<close>)
qed

section \<open>Steps on slots\<close>

lemma slots_ok_unreserve:
  "slots_ok pend resv rel nxt idx \<Longrightarrow> s \<in> resv \<Longrightarrow> slots_ok pend (resv - {s}) (s # rel) nxt idx"
  unfolding slots_ok_def by auto

lemma slot_of_free_update [simp]: "slot_of (idx\<lparr>free_block_list := fl\<rparr>) = slot_of idx"
  by (simp add: slot_of_def fun_eq_iff)

lemma published_free_update [simp]: "published pend (idx\<lparr>free_block_list := fl\<rparr>) = published pend idx"
  by (simp add: published_def)

lemma slots_ok_concat:
  "slots_ok pend resv rel nxt idx \<Longrightarrow>
   slots_ok pend resv [] nxt (idx\<lparr>free_block_list := rel @ free_block_list idx\<rparr>)"
  by (simp add: slots_ok_def)

lemma slots_ok_prepend:
  "slots_ok pend resv (s # rel) nxt idx \<Longrightarrow> rel = [] \<Longrightarrow>
   slots_ok pend resv [] nxt (idx\<lparr>free_block_list := s # free_block_list idx\<rparr>)"
  by (simp add: slots_ok_def)

lemma slots_ok_drain:
  assumes "slots_ok pend resv [] nxt idx" "free_block_list idx = xs @ rest"
  shows "slots_ok pend (resv \<union> set xs) [] nxt (idx\<lparr>free_block_list := rest\<rparr>)"
  using assms unfolding slots_ok_def by auto

lemma slots_ok_append:
  assumes s: "slots_ok pend resv rel nxt idx" and k: "unat nxt + k < 2 ^ 64"
  shows "slots_ok pend (resv \<union> set (map (\<lambda>i. nxt + of_nat i) [0..<k])) rel (nxt + of_nat k) idx"
proof -
  let ?new = "set (map (\<lambda>i. nxt + of_nat i) [0..<k])"
  have un: "unat (nxt + of_nat i) = unat nxt + i" if "i \<le> k" for i
    using k that by (intro unat_plus_of_nat) simp
  have ge: "\<not> x < nxt" if "x \<in> ?new" for x
    using that un by (auto simp: word_less_nat_alt)
  have all: "{x. x < nxt + of_nat k} = {x. x < nxt} \<union> ?new"
  proof (intro set_eqI iffI)
    fix x assume x: "x \<in> {x. x < nxt + of_nat k}"
    show "x \<in> {x. x < nxt} \<union> ?new"
    proof (cases "x < nxt")
      case False
      then have b: "unat nxt \<le> unat x" "unat x < unat nxt + k"
        using x un [of k] by (simp_all add: word_less_nat_alt)
      have "x = nxt + of_nat (unat x - unat nxt)"
        using b un [of "unat x - unat nxt"] by (simp add: u64_eq_iff_unat)
      moreover have "unat x - unat nxt \<in> set [0..<k]" using b by auto
      ultimately have "x \<in> ?new" by (metis (no_types, lifting) image_eqI list.set_map)
      then show ?thesis ..
    qed simp
  next
    fix x assume "x \<in> {x. x < nxt} \<union> ?new"
    then show "x \<in> {x. x < nxt + of_nat k}"
      using un un [of k] by (auto simp: word_less_nat_alt)
  qed
  have old: "slot_of idx ` published pend idx \<union> resv \<union> set (rel @ free_block_list idx) = {s. s < nxt}"
    using s by (simp add: slots_ok_def)
  then have disj: "(slot_of idx ` published pend idx \<union> resv \<union> set (rel @ free_block_list idx)) \<inter> ?new = {}"
    using ge by blast
  then have d: "slot_of idx ` published pend idx \<inter> ?new = {}" "resv \<inter> ?new = {}"
      "set (rel @ free_block_list idx) \<inter> ?new = {}"
    by (simp_all only: Int_Un_distrib2 Un_empty)
  have s': "slot_of idx ` published pend idx \<inter> resv = {}" "resv \<inter> set (rel @ free_block_list idx) = {}"
    using s by (simp_all only: slots_ok_def)
  show ?thesis
    unfolding slots_ok_def
  proof (intro conjI)
    show "slot_of idx ` published pend idx \<union> (resv \<union> ?new) \<union> set (rel @ free_block_list idx) = {s. s < nxt + of_nat k}"
      unfolding all old [symmetric] by (simp only: Un_ac)
    show "slot_of idx ` published pend idx \<inter> (resv \<union> ?new) = {}"
      using d(1) s'(1) by (simp only: Int_Un_distrib Un_empty)
    show "(resv \<union> ?new) \<inter> set (rel @ free_block_list idx) = {}"
      using d(3) s'(2) by (simp only: Int_Un_distrib Int_Un_distrib2 Un_empty Int_commute)
  qed (use s in \<open>simp_all only: slots_ok_def\<close>)
qed

lemma slots_ok_bound:
  assumes "slots_ok pend resv rel nxt idx" and "p \<in> published pend idx"
  shows "unat (slot_of idx p) < unat nxt"
proof -
  have "slot_of idx p \<in> {s. s < nxt}" using assms unfolding slots_ok_def by blast
  then show ?thesis by (simp add: word_less_nat_alt)
qed

lemma index_inv_empty: "index_inv 0 empty_index"
  by (simp add: index_inv_def tables_ok_def counts_ok_def slots_ok_def empty_index_def published_def)

end
