(* ===== verification/Block_Sort.thy ===== *)
theory Block_Sort
  imports Posix_Files
begin

text \<open>
  The sorting step of a read (\<^verbatim>\<open>includes/dedup.h\<close> and \<^verbatim>\<open>cmp_master_idx\<close> of \<^verbatim>\<open>src/dedup.c\<close>):
  pairs of a logical and a physical block number, ordered by the physical one. Small requests use
  the in-place insertion sort of the header, modelled on the array with its two loops; larger ones
  use the C library's \<^verbatim>\<open>qsort\<close>, a parameter whose contract (a permutation, ordered by the
  comparison function) leaves the order of equal elements open. The locale \<open>pair_sorter\<close> is what
  a read needs of either.
\<close>

section \<open>Model\<close>

record BlockPair =
  logical_idx :: u64
  master_block_index :: u64

definition INSERTION_SORT_THRESHOLD :: nat where
  "INSERTION_SORT_THRESHOLD = 32"

text \<open>The inner loop: \<^verbatim>\<open>while (j > 0 && arr[j-1].m > tmp.m) { arr[j] = arr[j-1]; j--; }\<close>\<close>

fun shift_loop :: "BlockPair list \<Rightarrow> nat \<Rightarrow> BlockPair \<Rightarrow> BlockPair list \<times> nat" where
  "shift_loop arr 0 tmp = (arr, 0)"
| "shift_loop arr (Suc j) tmp =
     (if master_block_index (arr ! j) > master_block_index tmp
      then shift_loop (arr[Suc j := arr ! j]) j tmp
      else (arr, Suc j))"

text \<open>One round of the outer loop, for \<open>i \<ge> 1\<close>.\<close>

definition insertion_round :: "BlockPair list \<Rightarrow> nat \<Rightarrow> BlockPair list" where
  "insertion_round arr i =
     (if master_block_index (arr ! (i - 1)) \<le> master_block_index (arr ! i) then arr
      else let tmp = arr ! i; (arr', j) = shift_loop arr i tmp in arr'[j := tmp])"

function insertion_loop :: "BlockPair list \<Rightarrow> nat \<Rightarrow> nat \<Rightarrow> BlockPair list" where
  "insertion_loop arr i n = (if i < n then insertion_loop (insertion_round arr i) (Suc i) n else arr)"
  by pat_completeness auto
termination
  by (relation "measure (\<lambda>(arr, i, n). n - i)") auto

declare insertion_loop.simps [simp del]

definition insertion_sort :: "BlockPair list \<Rightarrow> nat \<Rightarrow> BlockPair list" where
  "insertion_sort arr n = insertion_loop arr 1 n"

text \<open>\<^verbatim>\<open>return (ma > mb) - (ma < mb);\<close>\<close>

definition cmp_master_idx :: "BlockPair \<Rightarrow> BlockPair \<Rightarrow> int" where
  "cmp_master_idx a b =
     of_bool (master_block_index a > master_block_index b) - of_bool (master_block_index a < master_block_index b)"

text \<open>What the C standard promises of \<^verbatim>\<open>qsort\<close> for a comparison function.\<close>

definition qsort_contract :: "(('a \<Rightarrow> 'a \<Rightarrow> int) \<Rightarrow> 'a list \<Rightarrow> 'a list) \<Rightarrow> ('a \<Rightarrow> 'a \<Rightarrow> int) \<Rightarrow> bool" where
  "qsort_contract qsort cmp \<longleftrightarrow>
     (\<forall>xs. mset (qsort cmp xs) = mset xs \<and> sorted_wrt (\<lambda>a b. cmp a b \<le> 0) (qsort cmp xs))"

section \<open>The insertion sort\<close>

lemma shift_loop_spec:
  assumes "shift_loop arr j tmp = (arr', j')" and "j < length arr"
  shows "j' \<le> j \<and> arr'[j' := tmp] = take j' arr @ tmp # drop j' (take j arr) @ drop (Suc j) arr \<and>
    (\<forall>k. j' \<le> k \<and> k < j \<longrightarrow> master_block_index tmp < master_block_index (arr ! k)) \<and>
    (0 < j' \<longrightarrow> master_block_index (arr ! (j' - 1)) \<le> master_block_index tmp)"
  using assms
proof (induction j arbitrary: arr)
  case 0
  then show ?case by (simp add: upd_conv_take_nth_drop)
next
  case (Suc j)
  show ?case
  proof (cases "master_block_index (arr ! j) > master_block_index tmp")
    case False
    with Suc.prems have "arr' = arr" "j' = Suc j" by simp_all
    with Suc.prems False show ?thesis by (auto simp: upd_conv_take_nth_drop not_less)
  next
    case True
    let ?a = "arr[Suc j := arr ! j]"
    from Suc.prems True have eq: "shift_loop ?a j tmp = (arr', j')" and lt: "j < length ?a" by simp_all
    note IH = Suc.IH [OF eq lt]
    have j': "j' \<le> j" using IH by simp
    have pre: "take j' ?a = take j' arr" "take j ?a = take j arr" "\<And>k. k < j \<Longrightarrow> ?a ! k = arr ! k"
      using j' by simp_all
    have "drop (Suc j) ?a = arr ! j # drop (Suc (Suc j)) arr"
      using Suc.prems(2) by (simp add: upd_conv_take_nth_drop)
    then have "arr'[j' := tmp] = take j' arr @ tmp # drop j' (take j arr) @ arr ! j # drop (Suc (Suc j)) arr"
      using IH pre by simp
    also have "drop j' (take j arr) @ arr ! j # drop (Suc (Suc j)) arr =
        drop j' (take (Suc j) arr) @ drop (Suc (Suc j)) arr"
      using j' Suc.prems(2) by (simp add: take_Suc_conv_app_nth)
    finally have upd: "arr'[j' := tmp] = take j' arr @ tmp # drop j' (take (Suc j) arr) @ drop (Suc (Suc j)) arr" .
    have gt: "\<forall>k. j' \<le> k \<and> k < Suc j \<longrightarrow> master_block_index tmp < master_block_index (arr ! k)"
      using IH True pre(3) by (metis less_Suc_eq)
    have le: "0 < j' \<longrightarrow> master_block_index (arr ! (j' - 1)) \<le> master_block_index tmp"
      using IH pre(3) j' by auto
    show ?thesis using upd gt le j' by simp
  qed
qed

lemma sorted_prefix_bound:
  assumes sorted: "sorted (map f (take i xs))" and j: "0 < j" "j \<le> i" "i \<le> length xs" and x: "x \<in> set (take j xs)"
  shows "f x \<le> f (xs ! (j - 1))"
proof -
  from x obtain k where k: "k < j" "x = xs ! k" using j by (auto simp: in_set_conv_nth)
  have "map f (take i xs) ! k \<le> map f (take i xs) ! (j - 1)"
    using sorted k j by (intro sorted_nth_mono) auto
  with k j show ?thesis by simp
qed

text \<open>After round \<open>i\<close> the first \<open>i + 1\<close> elements are in order and nothing was lost.\<close>

lemma insertion_round_spec:
  assumes i: "0 < i" "i < length arr" and sorted: "sorted (map master_block_index (take i arr))"
  shows "mset (insertion_round arr i) = mset arr \<and>
    sorted (map master_block_index (take (Suc i) (insertion_round arr i)))"
proof (cases "master_block_index (arr ! (i - 1)) \<le> master_block_index (arr ! i)")
  case True
  have "\<forall>x \<in> set (take i arr). master_block_index x \<le> master_block_index (arr ! i)"
    using sorted_prefix_bound [OF sorted, of i] i True by (meson less_imp_le order.trans order_refl)
  with True sorted i show ?thesis
    by (auto simp: insertion_round_def take_Suc_conv_app_nth sorted_append)
next
  case False
  obtain arr' j where sl: "shift_loop arr i (arr ! i) = (arr', j)" by force
  note sp = shift_loop_spec [OF sl i(2)]
  have eq: "insertion_round arr i = take j arr @ arr ! i # drop j (take i arr) @ drop (Suc i) arr"
    using False sl sp by (simp add: insertion_round_def)
  have ji: "j \<le> i" using sp by simp
  have split: "take i arr = take j arr @ drop j (take i arr)"
    using ji by (metis append_take_drop_id take_take min.absorb1)
  have "mset arr = mset (take i arr @ arr ! i # drop (Suc i) arr)"
    using i(2) by (simp add: id_take_nth_drop [symmetric])
  also have "\<dots> = mset (insertion_round arr i)" unfolding eq by (subst split) simp
  finally have m: "mset (insertion_round arr i) = mset arr" ..
  have tk: "take (Suc i) (insertion_round arr i) = take j arr @ arr ! i # drop j (take i arr)"
    unfolding eq using ji i(2) by (simp add: Suc_diff_le)
  have lo: "\<forall>x \<in> set (take j arr). master_block_index x \<le> master_block_index (arr ! i)"
  proof
    fix x assume x: "x \<in> set (take j arr)"
    then have "0 < j" by (cases j) auto
    with x ji i sorted_prefix_bound [OF sorted, of j x] sp
    show "master_block_index x \<le> master_block_index (arr ! i)" by (meson less_imp_le order.trans)
  qed
  have hi: "\<forall>x \<in> set (drop j (take i arr)). master_block_index (arr ! i) \<le> master_block_index x"
  proof
    fix x assume "x \<in> set (drop j (take i arr))"
    then obtain k where "k < i - j" "x = arr ! (j + k)" using i ji by (auto simp: in_set_conv_nth)
    with sp show "master_block_index (arr ! i) \<le> master_block_index x" by (simp add: less_imp_le)
  qed
  have "sorted (map master_block_index (take j arr @ drop j (take i arr)))" using sorted split by simp
  then have "sorted (map master_block_index (take j arr @ arr ! i # drop j (take i arr)))"
    using lo hi by (auto simp: sorted_append)
  with m tk show ?thesis by simp
qed

lemma insertion_loop_spec:
  assumes "0 < i" "i \<le> length arr" "n = length arr" "sorted (map master_block_index (take i arr))"
  shows "mset (insertion_loop arr i n) = mset arr \<and> sorted (map master_block_index (insertion_loop arr i n))"
  using assms
proof (induction arr i n rule: insertion_loop.induct)
  case (1 arr i n)
  show ?case
  proof (cases "i < n")
    case True
    let ?r = "insertion_round arr i"
    have r: "mset ?r = mset arr" "sorted (map master_block_index (take (Suc i) ?r))"
      using insertion_round_spec [of i arr] "1.prems" True by simp_all
    have len: "length ?r = length arr" using r(1) by (metis size_mset)
    have "mset (insertion_loop ?r (Suc i) n) = mset ?r \<and> sorted (map master_block_index (insertion_loop ?r (Suc i) n))"
      using "1.prems" True r(2) len by (intro "1.IH") simp_all
    with r(1) True show ?thesis by (simp add: insertion_loop.simps [of arr i n])
  next
    case False
    with "1.prems" show ?thesis by (subst (1 2) insertion_loop.simps) simp
  qed
qed

lemma insertion_sort_spec:
  "mset (insertion_sort arr (length arr)) = mset arr \<and>
   sorted (map master_block_index (insertion_sort arr (length arr)))"
proof (cases arr)
  case Nil
  then show ?thesis by (simp add: insertion_sort_def insertion_loop.simps)
next
  case (Cons x xs)
  then show ?thesis
    unfolding insertion_sort_def by (intro insertion_loop_spec) simp_all
qed

section \<open>The interface a read relies on\<close>

locale pair_sorter =
  fixes srt :: "BlockPair list \<Rightarrow> BlockPair list"
  assumes srt_mset: "mset (srt ps) = mset ps"
    and srt_sorted: "sorted (map master_block_index (srt ps))"
begin

lemma srt_set: "set (srt ps) = set ps"
  by (metis set_mset_mset srt_mset)

lemma srt_length: "length (srt ps) = length ps"
  by (metis size_mset srt_mset)

lemma srt_distinct: "distinct (map logical_idx ps) \<Longrightarrow> distinct (map logical_idx (srt ps))"
  by (metis mset_eq_imp_distinct_iff mset_map srt_mset)

text \<open>Every block with the least physical number comes first: what the grouping by runs exploits.\<close>

lemma srt_hd_least: "p \<in> set ps \<Longrightarrow> master_block_index (hd (srt ps)) \<le> master_block_index p"
  unfolding srt_set [of ps, symmetric] using srt_sorted [of ps] by (cases "srt ps") auto

end

interpretation isort: pair_sorter "\<lambda>ps. insertion_sort ps (length ps)"
  by unfold_locales (simp_all add: insertion_sort_spec)

lemma cmp_master_idx_le: "cmp_master_idx a b \<le> 0 \<longleftrightarrow> master_block_index a \<le> master_block_index b"
  by (auto simp: cmp_master_idx_def of_bool_def)

lemma qsort_pair_sorter: "qsort_contract qsort cmp_master_idx \<Longrightarrow> pair_sorter (qsort cmp_master_idx)"
  by unfold_locales (auto simp: qsort_contract_def cmp_master_idx_le sorted_map)

end
