(* ===== verification/Dedup_Read.thy ===== *)
theory Dedup_Read
  imports Index_Invariant Block_Sort
begin

text \<open>
  \<^verbatim>\<open>read_dedup\<close> of \<^verbatim>\<open>src/dedup.c\<close>: look up the blocks of the request under the read lock until the
  first one that is not mapped, sort the pairs by physical block, read every run of consecutive
  physical blocks with one \<^verbatim>\<open>pread\<close> and copy the blocks to their logical positions. The functions
  return \<open>None\<close> where the C code would touch memory it does not own.
\<close>

section \<open>Model\<close>

text \<open>Phase 1, over the loop indices \<open>i\<close>; the first missing block ends the loop.\<close>

fun lookup_loop :: "Index \<Rightarrow> path \<Rightarrow> u64 \<Rightarrow> nat list \<Rightarrow> BlockPair list option" where
  "lookup_loop idx path start_block [] = Some []"
| "lookup_loop idx path start_block (i # is) =
     (case lookup_by_file_block idx path (start_block + of_nat i) of
        None \<Rightarrow> Some []
      | Some info \<Rightarrow>
          (case minfos idx info of
             None \<Rightarrow> None
           | Some mi \<Rightarrow>
               map_option (Cons \<lparr>logical_idx = of_nat i, master_block_index = masterBlockIndex mi\<rparr>)
                 (lookup_loop idx path start_block is)))"

text \<open>Phase 5, over the positions \<open>j\<close> of the group in the sorted array.\<close>

fun copy_group :: "BlockPair list \<Rightarrow> u64 \<Rightarrow> byte list \<Rightarrow> nat list \<Rightarrow> byte list \<Rightarrow> byte list option" where
  "copy_group pairs min_master master_buf [] buf = Some buf"
| "copy_group pairs min_master master_buf (j # js) buf =
     (let offset_in_range = master_block_index (pairs ! j) - min_master;
          src = take BLOCK_SIZE (drop (unat (offset_in_range * BLOCK_SIZE64)) master_buf)
      in if length src \<noteq> BLOCK_SIZE then None
         else case memcpy_at buf (unat (logical_idx (pairs ! j) * BLOCK_SIZE64)) src of
                None \<Rightarrow> None
              | Some buf' \<Rightarrow> copy_group pairs min_master master_buf js buf')"

text \<open>The end of a group: one \<^verbatim>\<open>pread\<close>, straight into the caller's buffer for a single block.\<close>

definition read_group ::
    "byte list \<Rightarrow> BlockPair list \<Rightarrow> nat \<Rightarrow> nat \<Rightarrow> byte list \<Rightarrow> io_outcome \<Rightarrow> (int \<times> byte list) option" where
  "read_group master pairs group_start i buf out =
     (let min_master = master_block_index (pairs ! group_start);
          blocks_in_group = i - group_start
      in if blocks_in_group = 1 then
           let (res, d) = pread out master BLOCK_SIZE (min_master * BLOCK_SIZE64)
           in case memcpy_at buf (unat (logical_idx (pairs ! group_start) * BLOCK_SIZE64)) d of
                None \<Rightarrow> None
              | Some buf' \<Rightarrow> Some (if res \<noteq> int BLOCK_SIZE then - EIO else 0, buf')
         else
           let read_size = blocks_in_group * BLOCK_SIZE;
               (res, d) = pread out master read_size (min_master * BLOCK_SIZE64)
           in if res \<noteq> int read_size then Some (- EIO, buf)
              else map_option (Pair 0) (copy_group pairs min_master d [group_start..<i] buf))"

function read_groups ::
    "byte list \<Rightarrow> BlockPair list \<Rightarrow> nat \<Rightarrow> nat \<Rightarrow> byte list \<Rightarrow> io_outcome list \<Rightarrow>
     (int \<times> byte list \<times> io_outcome list) option" where
  "read_groups master pairs group_start i buf io =
     (if i > length pairs then Some (0, buf, io)
      else
        let is_last = (i = length pairs);
            is_consec = (\<not> is_last \<and> master_block_index (pairs ! i) = master_block_index (pairs ! (i - 1)) + 1)
        in if \<not> is_last \<and> is_consec then read_groups master pairs group_start (Suc i) buf io
           else
             let (out, io') = next_io io
             in case read_group master pairs group_start i buf out of
                  None \<Rightarrow> None
                | Some (r, buf') \<Rightarrow>
                    if r < 0 then Some (r, buf', io')
                    else read_groups master pairs i (Suc i) buf' io')"
  by pat_completeness auto
termination
  by (relation "measure (\<lambda>(master, pairs, group_start, i, buf, io). Suc (length pairs) - i)") auto

declare read_groups.simps [simp del]

text \<open>The whole function: return value and contents of \<^verbatim>\<open>buf\<close>. \<open>malloc_ok\<close> says whether the
  allocation of the bounce buffer succeeds.\<close>

definition read_dedup ::
    "((BlockPair \<Rightarrow> BlockPair \<Rightarrow> int) \<Rightarrow> BlockPair list \<Rightarrow> BlockPair list) \<Rightarrow> bool \<Rightarrow> io_outcome list \<Rightarrow>
     Index \<Rightarrow> byte list \<Rightarrow> path \<Rightarrow> byte list \<Rightarrow> u64 \<Rightarrow> u64 \<Rightarrow> (int \<times> byte list) option" where
  "read_dedup qsort malloc_ok io idx master path buf sz offset =
     (let num_blocks = unat sz div BLOCK_SIZE;
          start_block = off_div_block offset
      in if num_blocks = 0 \<or> unat sz mod BLOCK_SIZE \<noteq> 0 then Some (- EOPNOTSUPP, buf)
         else
           (case lookup_loop idx path start_block [0..<num_blocks] of
              None \<Rightarrow> None
            | Some pairs \<Rightarrow>
                (let valid_blocks = length pairs
                 in if valid_blocks = 0 then Some (0, buf)
                    else
                      let sorted_pairs = (if valid_blocks \<le> INSERTION_SORT_THRESHOLD
                            then insertion_sort pairs valid_blocks else qsort cmp_master_idx pairs)
                      in if \<not> malloc_ok then Some (- ENOMEM, buf)
                         else
                           (case read_groups master sorted_pairs 0 1 buf io of
                              None \<Rightarrow> None
                            | Some (r, buf', io') \<Rightarrow>
                                Some (if r < 0 then r else c_int (of_nat valid_blocks * BLOCK_SIZE64), buf')))))"

section \<open>The lookup phase\<close>

definition mapped_prefix :: "Index \<Rightarrow> path \<Rightarrow> u64 \<Rightarrow> nat \<Rightarrow> nat" where
  "mapped_prefix idx path start n =
     length (takeWhile (\<lambda>i. lookup_by_file_block idx path (start + of_nat i) \<noteq> None) [0..<n])"

definition pair_at :: "Index \<Rightarrow> path \<Rightarrow> u64 \<Rightarrow> nat \<Rightarrow> BlockPair" where
  "pair_at idx path start i =
     \<lparr>logical_idx = of_nat i,
      master_block_index = slot_of idx (the (lookup_by_file_block idx path (start + of_nat i)))\<rparr>"

lemma lookup_loop_eq:
  assumes t: "tables_ok pend idx"
  shows "lookup_loop idx path start is =
    Some (map (pair_at idx path start) (takeWhile (\<lambda>i. lookup_by_file_block idx path (start + of_nat i) \<noteq> None) is))"
proof (induction "is")
  case Nil
  then show ?case by simp
next
  case (Cons i "is")
  show ?case
  proof (cases "lookup_by_file_block idx path (start + of_nat i)")
    case None
    then show ?thesis by simp
  next
    case (Some p)
    then have "file_to_master idx (bkey path (start + of_nat i)) = Some p"
      by (simp add: lookup_by_file_block_def)
    then obtain mi where "minfos idx p = Some mi"
      by (rule file_mapped_allocated [OF t])
    with Some Cons show ?thesis by (simp add: pair_at_def)
  qed
qed

lemma takeWhile_upt: "takeWhile P [0..<n] = [0..<length (takeWhile P [0..<n])]"
proof -
  have "takeWhile P [0..<n] = take (length (takeWhile P [0..<n])) [0..<n]"
    by (metis takeWhile_eq_take)
  also have "\<dots> = [0..<length (takeWhile P [0..<n])]"
    using length_takeWhile_le [of P "[0..<n]"] by (simp add: take_upt)
  finally show ?thesis .
qed

lemma lookup_loop_upt:
  "tables_ok pend idx \<Longrightarrow>
   lookup_loop idx path start [0..<n] = Some (map (pair_at idx path start) [0..<mapped_prefix idx path start n])"
  unfolding mapped_prefix_def by (subst takeWhile_upt [symmetric]) (rule lookup_loop_eq)

lemma mapped_prefix_le: "mapped_prefix idx path start n \<le> n"
  unfolding mapped_prefix_def using length_takeWhile_le [of _ "[0..<n]"] by simp

lemma mapped_prefix_mapped:
  "i < mapped_prefix idx path start n \<Longrightarrow> lookup_by_file_block idx path (start + of_nat i) \<noteq> None"
  unfolding mapped_prefix_def
  by (metis (mono_tags, lifting) atLeastLessThan_iff set_takeWhileD set_upt takeWhile_upt zero_le)

lemma mapped_prefix_all:
  assumes "\<And>i. i < n \<Longrightarrow> lookup_by_file_block idx path (start + of_nat i) \<noteq> None"
  shows "mapped_prefix idx path start n = n"
proof -
  have "takeWhile (\<lambda>i. lookup_by_file_block idx path (start + of_nat i) \<noteq> None) [0..<n] = [0..<n]"
    using assms by (simp add: takeWhile_eq_all_conv)
  then show ?thesis unfolding mapped_prefix_def by (simp only: length_upt diff_zero)
qed

section \<open>The grouping phase\<close>

text \<open>The effect a read should have on the buffer: every pair's block at its logical position.\<close>

definition put_block :: "byte list \<Rightarrow> byte list \<Rightarrow> BlockPair \<Rightarrow> byte list" where
  "put_block master buf p =
     overlay buf (unat (logical_idx p) * BLOCK_SIZE) (block_at master (unat (master_block_index p)))"

definition put_blocks :: "byte list \<Rightarrow> byte list \<Rightarrow> BlockPair list \<Rightarrow> byte list" where
  "put_blocks master buf ps = foldl (put_block master) buf ps"

definition good_pair :: "byte list \<Rightarrow> nat \<Rightarrow> BlockPair \<Rightarrow> bool" where
  "good_pair master len p \<longleftrightarrow>
     unat (master_block_index p) < MAX_BLOCKS \<and>
     length (block_at master (unat (master_block_index p))) = BLOCK_SIZE \<and>
     unat (logical_idx p) < 2 ^ 52 \<and> Suc (unat (logical_idx p)) * BLOCK_SIZE \<le> len"

lemma length_put_block:
  assumes "good_pair master (length buf) p"
  shows "length (put_block master buf p) = length buf"
  using assms by (auto simp: put_block_def good_pair_def length_overlay)

lemma memcpy_put_block:
  assumes "good_pair master (length buf) p"
  shows "memcpy_at buf (unat (logical_idx p * BLOCK_SIZE64)) (block_at master (unat (master_block_index p))) =
    Some (put_block master buf p)"
  using assms unfolding good_pair_def put_block_def
  by (simp add: unat_mult_BLOCK_SIZE memcpy_at_block)

lemma length_put_blocks:
  "\<forall>p \<in> set ps. good_pair master (length buf) p \<Longrightarrow> length (put_blocks master buf ps) = length buf"
  unfolding put_blocks_def
  by (induction ps arbitrary: buf) (auto simp: length_put_block)

lemma put_blocks_Cons: "put_blocks master buf (p # ps) = put_blocks master (put_block master buf p) ps"
  by (simp add: put_blocks_def)

lemma put_blocks_append: "put_blocks master buf (ps @ qs) = put_blocks master (put_blocks master buf ps) qs"
  by (simp add: put_blocks_def)

text \<open>A run: physical numbers that grow by one from \<open>g\<close> to \<open>i - 1\<close>.\<close>

definition phys_run :: "BlockPair list \<Rightarrow> nat \<Rightarrow> nat \<Rightarrow> bool" where
  "phys_run ps g i \<longleftrightarrow>
     (\<forall>k. g \<le> k \<and> k < i \<longrightarrow> unat (master_block_index (ps ! k)) = unat (master_block_index (ps ! g)) + (k - g))"

lemma phys_run_extend:
  assumes r: "phys_run ps g i" and g: "g < i" and eq: "master_block_index (ps ! i) = master_block_index (ps ! (i - 1)) + 1"
    and b: "unat (master_block_index (ps ! (i - 1))) < MAX_BLOCKS"
  shows "phys_run ps g (Suc i)"
proof -
  have "unat (master_block_index (ps ! (i - 1)) + 1) = unat (master_block_index (ps ! (i - 1))) + 1"
    using b by (intro unat_plus_one) simp
  moreover have "unat (master_block_index (ps ! (i - 1))) = unat (master_block_index (ps ! g)) + (i - 1 - g)"
    using r [unfolded phys_run_def, rule_format, of "i - 1"] g by linarith
  ultimately have "unat (master_block_index (ps ! i)) = unat (master_block_index (ps ! g)) + (i - g)"
    using g by (simp add: eq)
  then show ?thesis
    unfolding phys_run_def using r [unfolded phys_run_def] by (metis less_antisym)
qed

lemma copy_group_eq:
  assumes "\<forall>j \<in> set js. good_pair master (length buf) (pairs ! j) \<and>
      min_master \<le> master_block_index (pairs ! j) \<and>
      unat (master_block_index (pairs ! j)) < unat min_master + n"
    and "length d = n * BLOCK_SIZE" and "d = take (n * BLOCK_SIZE) (drop (unat min_master * BLOCK_SIZE) master)"
  shows "copy_group pairs min_master d js buf = Some (put_blocks master buf (map ((!) pairs) js))"
  using assms(1)
proof (induction js arbitrary: buf)
  case Nil
  then show ?case by (simp add: put_blocks_def)
next
  case (Cons j js)
  let ?p = "pairs ! j"
  let ?o = "master_block_index ?p - min_master"
  have good: "good_pair master (length buf) ?p" and ge: "min_master \<le> master_block_index ?p"
    and lt: "unat (master_block_index ?p) < unat min_master + n"
    using Cons.prems by simp_all
  have o: "unat ?o = unat (master_block_index ?p) - unat min_master"
    using ge by (simp add: unat_sub word_le_nat_alt)
  have "unat ?o \<le> unat (master_block_index ?p)" by (simp add: o)
  also have "\<dots> < 2 ^ 52" using good by (simp add: good_pair_def)
  finally have "unat ?o < 2 ^ 52" .
  then have uo: "unat (?o * BLOCK_SIZE64) = unat ?o * BLOCK_SIZE" by (rule unat_mult_BLOCK_SIZE)
  have on: "unat ?o < n" using o lt ge by (simp add: word_le_nat_alt)
  have "take BLOCK_SIZE (drop (unat ?o * BLOCK_SIZE) d) = block_at master (unat min_master + unat ?o)"
  proof -
    have "Suc (unat ?o) * BLOCK_SIZE \<le> n * BLOCK_SIZE" using on by (intro mult_le_mono1) simp
    then have "BLOCK_SIZE \<le> n * BLOCK_SIZE - unat ?o * BLOCK_SIZE" by simp
    then show ?thesis
      unfolding assms(3) by (simp add: block_at_def drop_take take_take min_def add_mult_distrib add.commute)
  qed
  also have "unat min_master + unat ?o = unat (master_block_index ?p)" using o ge by (simp add: word_le_nat_alt)
  finally have src: "take BLOCK_SIZE (drop (unat (?o * BLOCK_SIZE64)) d) = block_at master (unat (master_block_index ?p))"
    by (simp add: uo)
  have "copy_group pairs min_master d js (put_block master buf ?p) =
      Some (put_blocks master (put_block master buf ?p) (map ((!) pairs) js))"
    using Cons.prems length_put_block [OF good] by (intro Cons.IH) simp
  moreover have "length (block_at master (unat (master_block_index ?p))) = BLOCK_SIZE"
    using good by (simp add: good_pair_def)
  ultimately show ?case
    by (simp del: length_take add: Let_def src memcpy_put_block [OF good] put_blocks_Cons)
qed

lemma read_group_spec:
  assumes gi: "g < i" "i \<le> length pairs" and run: "phys_run pairs g i"
    and good: "\<forall>p \<in> set pairs. good_pair master (length buf) p"
  shows "\<exists>r buf'. read_group master pairs g i buf out = Some (r, buf') \<and>
    (r = 0 \<and> buf' = put_blocks master buf (map ((!) pairs) [g..<i]) \<or> r = - EIO \<and> length buf' = length buf) \<and>
    (out = IoOk \<longrightarrow> r = 0)"
proof -
  let ?min = "master_block_index (pairs ! g)"
  let ?n = "i - g"
  have gg: "good_pair master (length buf) (pairs ! j)" if "j < i" for j using good gi that by simp
  have mb: "unat ?min < MAX_BLOCKS" using gg [OF gi(1)] by (simp add: good_pair_def)
  have off: "0 \<le> sint (?min * BLOCK_SIZE64)" "unat (?min * BLOCK_SIZE64) = unat ?min * BLOCK_SIZE"
    using mb by (simp_all add: sint_mult_BLOCK_SIZE_nonneg unat_mult_BLOCK_SIZE)
  have last: "unat (master_block_index (pairs ! (i - 1))) = unat ?min + (?n - 1)"
    using run [unfolded phys_run_def, rule_format, of "i - 1"] gi by simp
  have "length (block_at master (unat (master_block_index (pairs ! (i - 1))))) = BLOCK_SIZE"
    using gg [of "i - 1"] gi by (simp add: good_pair_def)
  then have "Suc (unat ?min + (?n - 1)) * BLOCK_SIZE \<le> length master" by (simp only: full_block_iff last)
  moreover have "Suc (unat ?min + (?n - 1)) = unat ?min + ?n" using gi by simp
  ultimately have "(unat ?min + ?n) * BLOCK_SIZE \<le> length master" by (simp only:)
  then have len: "?n * BLOCK_SIZE \<le> length master - unat ?min * BLOCK_SIZE"
    unfolding add_mult_distrib by linarith
  show ?thesis
  proof (cases "?n = 1")
    case True
    then have i: "i = Suc g" using gi by simp
    obtain res d where pr: "pread out master BLOCK_SIZE (?min * BLOCK_SIZE64) = (res, d)" by force
    note ps = pread_spec [OF pr off(1), unfolded off(2)]
    have "unat (logical_idx (pairs ! g) * BLOCK_SIZE64) + length d \<le> length buf"
      using gg [OF gi(1)] ps(1) unfolding good_pair_def by (simp add: unat_mult_BLOCK_SIZE)
    then obtain buf' where m: "memcpy_at buf (unat (logical_idx (pairs ! g) * BLOCK_SIZE64)) d = Some buf'"
      by (simp add: memcpy_at_def)
    have rg: "read_group master pairs g i buf out = Some (if res \<noteq> int BLOCK_SIZE then - EIO else 0, buf')"
      unfolding read_group_def using True pr m by simp
    show ?thesis
    proof (cases "res = int BLOCK_SIZE")
      case True
      then have "d = block_at master (unat ?min)" using ps(2) by (simp add: block_at_def)
      then have "buf' = put_block master buf (pairs ! g)" using m memcpy_put_block [OF gg [OF gi(1)]] by simp
      with rg True i show ?thesis by (simp add: put_blocks_def)
    next
      case False
      with rg ps(3) len length_memcpy_at [OF m] show ?thesis using \<open>?n = 1\<close> by auto
    qed
  next
    case False
    obtain res d where pr: "pread out master (?n * BLOCK_SIZE) (?min * BLOCK_SIZE64) = (res, d)" by force
    note ps = pread_spec [OF pr off(1), unfolded off(2)]
    show ?thesis
    proof (cases "res = int (?n * BLOCK_SIZE)")
      case True
      have "\<forall>j \<in> set [g..<i]. good_pair master (length buf) (pairs ! j) \<and>
          ?min \<le> master_block_index (pairs ! j) \<and> unat (master_block_index (pairs ! j)) < unat ?min + ?n"
      proof
        fix j assume j: "j \<in> set [g..<i]"
        then have "unat (master_block_index (pairs ! j)) = unat ?min + (j - g)"
          using run [unfolded phys_run_def, rule_format, of j] by simp
        with j gg [of j] show "good_pair master (length buf) (pairs ! j) \<and>
          ?min \<le> master_block_index (pairs ! j) \<and> unat (master_block_index (pairs ! j)) < unat ?min + ?n"
          by (auto simp: word_le_nat_alt)
      qed
      then have "copy_group pairs ?min d [g..<i] buf = Some (put_blocks master buf (map ((!) pairs) [g..<i]))"
        using ps(2) [OF True] by (intro copy_group_eq) auto
      then show ?thesis unfolding read_group_def using False pr True by simp
    next
      case res: False
      then have "read_group master pairs g i buf out = Some (- EIO, buf)"
        unfolding read_group_def using False pr by simp
      with res ps(3) len show ?thesis by auto
    qed
  qed
qed

lemma read_groups_spec:
  assumes "g < i" "i \<le> Suc (length pairs)" and "i \<le> length pairs \<Longrightarrow> phys_run pairs g i"
    and "i = Suc (length pairs) \<Longrightarrow> g = length pairs"
    and "\<forall>p \<in> set pairs. good_pair master (length buf) p"
  shows "\<exists>r buf' io'. read_groups master pairs g i buf io = Some (r, buf', io') \<and>
    (r = 0 \<and> buf' = put_blocks master buf (drop g pairs) \<or> r = - EIO \<and> length buf' = length buf) \<and>
    (io = [] \<longrightarrow> r = 0)"
  using assms
proof (induction master pairs g i buf io rule: read_groups.induct)
  case (1 master pairs g i buf io)
  show ?case
  proof (cases "i > length pairs")
    case True
    then have "read_groups master pairs g i buf io = Some (0, buf, io)" by (subst read_groups.simps) simp
    with True "1.prems"(2,4) show ?thesis by (simp add: put_blocks_def)
  next
    case False
    then have il: "i \<le> length pairs" by simp
    note run = "1.prems"(3) [OF il]
    let ?consec = "i \<noteq> length pairs \<and> master_block_index (pairs ! i) = master_block_index (pairs ! (i - 1)) + 1"
    show ?thesis
    proof (cases ?consec)
      case True
      then have i: "i < length pairs" using il by simp
      have "good_pair master (length buf) (pairs ! (i - 1))" using "1.prems"(1,5) i by simp
      then have run': "phys_run pairs g (Suc i)"
        using run True "1.prems"(1) by (intro phys_run_extend) (auto simp: good_pair_def)
      have eq: "read_groups master pairs g i buf io = read_groups master pairs g (Suc i) buf io"
        using True False by (subst read_groups.simps) simp
      show ?thesis unfolding eq
        using "1.prems" True False i run' by (intro "1.IH"(1)) auto
    next
      case nc: False
      obtain out io' where io: "next_io io = (out, io')" by force
      obtain r buf' where rg: "read_group master pairs g i buf out = Some (r, buf')"
        and res: "r = 0 \<and> buf' = put_blocks master buf (map ((!) pairs) [g..<i]) \<or> r = - EIO \<and> length buf' = length buf"
        and ok: "out = IoOk \<longrightarrow> r = 0"
        using read_group_spec [OF "1.prems"(1) il run "1.prems"(5), of out] by blast
      have ok': "io = [] \<longrightarrow> r = 0 \<and> io' = []" using io ok by auto
      have eq: "read_groups master pairs g i buf io =
          (if r < 0 then Some (r, buf', io') else read_groups master pairs i (Suc i) buf' io')"
        using nc False io rg by (subst read_groups.simps) auto
      show ?thesis
      proof (cases "r = 0")
        case False
        with res have "r = - EIO" "length buf' = length buf" by auto
        with eq ok' show ?thesis by (auto simp: EIO_def)
      next
        case r0: True
        with res have b: "buf' = put_blocks master buf (map ((!) pairs) [g..<i])" by (auto simp: EIO_def)
        have gs: "\<forall>p \<in> set (map ((!) pairs) [g..<i]). good_pair master (length buf) p"
          using "1.prems"(5) il by auto
        have lb: "length buf' = length buf" unfolding b by (rule length_put_blocks [OF gs])
        have IH: "\<exists>r buf'' io''. read_groups master pairs i (Suc i) buf' io' = Some (r, buf'', io'') \<and>
            (r = 0 \<and> buf'' = put_blocks master buf' (drop i pairs) \<or> r = - EIO \<and> length buf'' = length buf') \<and>
            (io' = [] \<longrightarrow> r = 0)"
        proof (rule "1.IH"(2) [OF False refl refl])
          show "phys_run pairs i (Suc i)" if "Suc i \<le> length pairs"
            by (auto simp: phys_run_def less_Suc_eq)
        qed (use False nc io rg r0 il "1.prems"(5) lb in auto)
        have "map ((!) pairs) [g..<i] @ drop i pairs = drop g pairs"
          using "1.prems"(1) il by (rule map_nth_upt_append_drop)
        then have "put_blocks master buf' (drop i pairs) = put_blocks master buf (drop g pairs)"
          unfolding b by (metis put_blocks_append)
        with IH eq r0 ok' lb show ?thesis by auto
      qed
    qed
  qed
qed

section \<open>Reading a request\<close>

text \<open>The abstract state of the file system: the contents of every mapped logical block.\<close>

definition fs_block :: "byte list \<Rightarrow> Index \<Rightarrow> path \<Rightarrow> u64 \<Rightarrow> byte list option" where
  "fs_block master idx path b =
     map_option (\<lambda>p. block_at master (unat (slot_of idx p))) (lookup_by_file_block idx path b)"

lemma put_blocks_other:
  assumes "\<forall>p \<in> set ps. good_pair master (length buf) p \<and> unat (logical_idx p) \<noteq> j"
    and "length (block_at buf j) = BLOCK_SIZE"
  shows "block_at (put_blocks master buf ps) j = block_at buf j"
  using assms
proof (induction ps arbitrary: buf)
  case Nil
  then show ?case by (simp add: put_blocks_def)
next
  case (Cons p ps)
  have good: "good_pair master (length buf) p" and ne: "unat (logical_idx p) \<noteq> j" using Cons.prems(1) by simp_all
  have step: "block_at (put_block master buf p) j = block_at buf j"
    unfolding put_block_def using good ne Cons.prems(2)
    by (intro block_at_overlay_other [where k = 1]) (auto simp: good_pair_def)
  have "block_at (put_blocks master (put_block master buf p) ps) j = block_at (put_block master buf p) j"
    using Cons.prems length_put_block [OF good] step by (intro Cons.IH) auto
  with step show ?case by (simp add: put_blocks_Cons)
qed

lemma put_blocks_block:
  assumes "\<forall>p \<in> set ps. good_pair master (length buf) p" and "distinct (map (\<lambda>p. unat (logical_idx p)) ps)"
    and "p \<in> set ps"
  shows "block_at (put_blocks master buf ps) (unat (logical_idx p)) = block_at master (unat (master_block_index p))"
  using assms
proof (induction ps arbitrary: buf)
  case Nil
  then show ?case by simp
next
  case (Cons q ps)
  have gq: "good_pair master (length buf) q" using Cons.prems(1) by simp
  note len = length_put_block [OF gq]
  show ?case
  proof (cases "p = q")
    case True
    let ?l = "unat (logical_idx q)"
    have "block_at (put_block master buf q) ?l = block_at (block_at master (unat (master_block_index q))) (?l - ?l)"
      unfolding put_block_def using gq by (intro block_at_overlay_same [where k = 1]) (auto simp: good_pair_def)
    then have eq: "block_at (put_block master buf q) ?l = block_at master (unat (master_block_index q))"
      using gq by (simp add: block_at_def good_pair_def)
    have "\<forall>x \<in> set ps. unat (logical_idx x) \<noteq> ?l"
      using Cons.prems(2) by (simp add: image_iff) metis
    then have "block_at (put_blocks master (put_block master buf q) ps) ?l = block_at (put_block master buf q) ?l"
      using Cons.prems(1) len gq eq by (intro put_blocks_other) (simp_all add: good_pair_def)
    with eq show ?thesis using True by (simp add: put_blocks_Cons)
  next
    case False
    with Cons.prems len show ?thesis unfolding put_blocks_Cons by (intro Cons.IH) auto
  qed
qed

lemma put_blocks_tail:
  assumes "\<forall>p \<in> set ps. good_pair master (length buf) p \<and> unat (logical_idx p) < v"
  shows "drop (v * BLOCK_SIZE) (put_blocks master buf ps) = drop (v * BLOCK_SIZE) buf"
  using assms
proof (induction ps arbitrary: buf)
  case Nil
  then show ?case by (simp add: put_blocks_def)
next
  case (Cons p ps)
  have good: "good_pair master (length buf) p" and lt: "unat (logical_idx p) < v" using Cons.prems by simp_all
  let ?o = "unat (logical_idx p) * BLOCK_SIZE"
  have "Suc (unat (logical_idx p)) * BLOCK_SIZE \<le> v * BLOCK_SIZE" using lt by (intro mult_le_mono1) simp
  then have le: "?o + BLOCK_SIZE \<le> v * BLOCK_SIZE" by simp
  have "drop (v * BLOCK_SIZE) (put_block master buf p) = drop (v * BLOCK_SIZE) buf"
    unfolding put_block_def overlay_def using good le lt by (auto simp: good_pair_def)
  moreover have "drop (v * BLOCK_SIZE) (put_blocks master (put_block master buf p) ps) =
      drop (v * BLOCK_SIZE) (put_block master buf p)"
    using Cons.prems length_put_block [OF good] by (intro Cons.IH) simp
  ultimately show ?case by (simp add: put_blocks_Cons)
qed

lemma put_blocks_result:
  assumes good: "\<forall>p \<in> set ps. good_pair master (length buf) p"
    and ps: "mset ps = mset (map P [0..<v])" and P: "\<And>i. i < v \<Longrightarrow> unat (logical_idx (P i)) = i"
    and v: "v * BLOCK_SIZE \<le> length buf"
  shows "put_blocks master buf ps =
    concat (map (\<lambda>i. block_at master (unat (master_block_index (P i)))) [0..<v]) @ drop (v * BLOCK_SIZE) buf"
proof -
  let ?r = "put_blocks master buf ps"
  have set: "set ps = P ` {0..<v}" using mset_eq_setD [OF ps] by simp
  have "image_mset (\<lambda>p. unat (logical_idx p)) (mset ps) = image_mset (\<lambda>p. unat (logical_idx p)) (mset (map P [0..<v]))"
    by (simp only: ps)
  then have "mset (map (\<lambda>p. unat (logical_idx p)) ps) = mset (map (\<lambda>i. unat (logical_idx (P i))) [0..<v])"
    by (simp add: image_mset.compositionality comp_def)
  also have "map (\<lambda>i. unat (logical_idx (P i))) [0..<v] = [0..<v]"
    by (rule map_idI) (simp add: P)
  finally have dist: "distinct (map (\<lambda>p. unat (logical_idx p)) ps)"
    by (metis distinct_upt mset_eq_imp_distinct_iff)
  have len: "length ?r = length buf" by (rule length_put_blocks [OF good])
  have blk: "block_at ?r i = block_at master (unat (master_block_index (P i)))" if "i < v" for i
    using put_blocks_block [OF good dist, of "P i"] set P [OF that] that by simp
  have "take (v * BLOCK_SIZE) ?r = concat (map (block_at (take (v * BLOCK_SIZE) ?r)) [0..<v])"
    using v len by (intro concat_block_at [symmetric]) simp
  also have "map (block_at (take (v * BLOCK_SIZE) ?r)) [0..<v] = map (block_at ?r) [0..<v]"
  proof (rule map_cong [OF refl])
    fix i assume "i \<in> set [0..<v]"
    then have "Suc i * BLOCK_SIZE \<le> v * BLOCK_SIZE" by (intro mult_le_mono1) simp
    then have "BLOCK_SIZE \<le> v * BLOCK_SIZE - i * BLOCK_SIZE" by simp
    then show "block_at (take (v * BLOCK_SIZE) ?r) i = block_at ?r i"
      by (simp add: block_at_def drop_take take_take min_def)
  qed
  also have "\<dots> = map (\<lambda>i. block_at master (unat (master_block_index (P i)))) [0..<v]"
    using blk by simp
  finally have pre: "take (v * BLOCK_SIZE) ?r =
    concat (map (\<lambda>i. block_at master (unat (master_block_index (P i)))) [0..<v])" .
  have "\<forall>p \<in> set ps. good_pair master (length buf) p \<and> unat (logical_idx p) < v"
    using good set P by auto
  then have "drop (v * BLOCK_SIZE) ?r = drop (v * BLOCK_SIZE) buf" by (rule put_blocks_tail)
  with pre show ?thesis by (metis append_take_drop_id)
qed

lemma pair_at_good:
  assumes t: "tables_ok pend idx" and s: "slots_ok pend resv rel nxt idx" and d: "data_ok SHA512 master pend idx"
    and nxt: "unat nxt \<le> MAX_BLOCKS" and i: "i < mapped_prefix idx path start n" and n: "n * BLOCK_SIZE < 2 ^ 64"
    and len: "n * BLOCK_SIZE \<le> len"
  shows "good_pair master len (pair_at idx path start i)" "unat (logical_idx (pair_at idx path start i)) = i"
proof -
  have i_n: "i < n" using i mapped_prefix_le less_le_trans by blast
  have "i * BLOCK_SIZE < 2 ^ 64" using i_n n by (meson le_less_trans less_imp_le mult_le_mono1)
  then have i52: "i < 2 ^ 52" by (simp add: BLOCK_SIZE_def)
  then show u: "unat (logical_idx (pair_at idx path start i)) = i"
    by (simp add: pair_at_def unat_of_nat_u64)
  obtain p where p: "file_to_master idx (bkey path (start + of_nat i)) = Some p"
    using mapped_prefix_mapped [OF i] by (auto simp: lookup_by_file_block_def)
  obtain mi where mi: "minfos idx p = Some mi" "p \<notin> pend" by (rule file_mapped_allocated [OF t p])
  have m: "master_block_index (pair_at idx path start i) = masterBlockIndex mi"
    using p mi by (simp add: pair_at_def lookup_by_file_block_def)
  have "unat (slot_of idx p) < unat nxt" by (rule slots_ok_bound [OF s tables_ok_file [OF t p]])
  moreover have "length (block_at master (unat (masterBlockIndex mi))) = BLOCK_SIZE"
    using d mi by (simp add: data_ok_def)
  moreover have "Suc i * BLOCK_SIZE \<le> n * BLOCK_SIZE" using i_n by (intro mult_le_mono1) simp
  ultimately show "good_pair master len (pair_at idx path start i)"
    unfolding good_pair_def u m using mi nxt i52 len by simp
qed

lemma read_dedup_spec:
  fixes path :: path and off :: u64
  assumes t: "tables_ok pend idx" and s: "slots_ok pend resv rel nxt idx" and d: "data_ok SHA512 master pend idx"
    and nxt: "unat nxt \<le> MAX_BLOCKS" and q: "qsort_contract qsort cmp_master_idx"
    and sz: "unat sz = n * BLOCK_SIZE" "0 < n" and len: "unat sz \<le> length buf"
  defines "v \<equiv> mapped_prefix idx path (off_div_block off) n"
  shows "\<exists>r buf'. read_dedup qsort mok io idx master path buf sz off = Some (r, buf') \<and>
    (r = c_int (of_nat v * BLOCK_SIZE64) \<and>
     buf' = concat (map (\<lambda>i. the (fs_block master idx path (off_div_block off + of_nat i))) [0..<v]) @
            drop (v * BLOCK_SIZE) buf \<or>
     v \<noteq> 0 \<and> length buf' = length buf \<and> (r = - EIO \<and> io \<noteq> [] \<or> r = - ENOMEM \<and> \<not> mok))"
proof -
  let ?start = "off_div_block off"
  let ?P = "pair_at idx path ?start"
  let ?pairs = "map ?P [0..<v]"
  have nb: "unat sz div BLOCK_SIZE = n" "unat sz mod BLOCK_SIZE = 0" using sz by simp_all
  have ll: "lookup_loop idx path ?start [0..<n] = Some ?pairs"
    unfolding v_def by (rule lookup_loop_upt [OF t])
  have n64: "n * BLOCK_SIZE < 2 ^ 64" using sz(1) unat_less_2_64 [of sz] by simp
  show ?thesis
  proof (cases "v = 0")
    case True
    then have "read_dedup qsort mok io idx master path buf sz off = Some (0, buf)"
      unfolding read_dedup_def Let_def nb using ll sz(2) by simp
    with True show ?thesis by (simp add: c_int_def)
  next
    case v0: False
    define sp where "sp = (if v \<le> INSERTION_SORT_THRESHOLD then insertion_sort ?pairs v else qsort cmp_master_idx ?pairs)"
    have msp: "mset sp = mset ?pairs"
      unfolding sp_def using isort.srt_mset [of ?pairs] pair_sorter.srt_mset [OF qsort_pair_sorter [OF q], of ?pairs] by simp
    have Pg: "good_pair master (length buf) (?P i)" "unat (logical_idx (?P i)) = i" if "i < v" for i
      using pair_at_good [OF t s d nxt _ n64, of i path ?start "length buf"] that len sz(1) unfolding v_def by simp_all
    have set: "set sp = set ?pairs" using msp by (rule mset_eq_setD)
    have good: "\<forall>p \<in> set sp. good_pair master (length buf) p" unfolding set using Pg by auto
    have lsp: "length sp = v" using msp by (metis diff_zero length_map length_upt size_mset)
    obtain r buf' io' where rg: "read_groups master sp 0 1 buf io = Some (r, buf', io')"
      and res: "r = 0 \<and> buf' = put_blocks master buf (drop 0 sp) \<or> r = - EIO \<and> length buf' = length buf"
      and ok: "io = [] \<longrightarrow> r = 0"
      using read_groups_spec [of 0 1 sp master buf io] good v0 lsp by (auto simp: phys_run_def)
    have lp: "length ?pairs = v" by simp
    have rd: "read_dedup qsort mok io idx master path buf sz off =
        (if \<not> mok then Some (- ENOMEM, buf)
         else Some (if r < 0 then r else c_int (of_nat v * BLOCK_SIZE64), buf'))"
      unfolding read_dedup_def Let_def nb ll option.case lp sp_def [symmetric] rg using sz(2) v0 by simp
    show ?thesis
    proof (cases "r = 0 \<and> mok")
      case True
      have "v \<le> n" unfolding v_def by (rule mapped_prefix_le)
      then have "v * BLOCK_SIZE \<le> length buf" using len sz(1) by (metis dual_order.trans mult_le_mono1)
      then have b: "buf' = concat (map (\<lambda>i. block_at master (unat (master_block_index (?P i)))) [0..<v]) @ drop (v * BLOCK_SIZE) buf"
        using True res put_blocks_result [OF good msp Pg(2)] by (simp add: EIO_def)
      have "the (fs_block master idx path (?start + of_nat i)) = block_at master (unat (master_block_index (?P i)))"
        if "i \<in> set [0..<v]" for i
        using mapped_prefix_mapped [of i idx path ?start n] that unfolding v_def
        by (auto simp: fs_block_def pair_at_def)
      then have m: "map (\<lambda>i. the (fs_block master idx path (?start + of_nat i))) [0..<v] =
          map (\<lambda>i. block_at master (unat (master_block_index (?P i)))) [0..<v]"
        by (intro map_cong [OF refl])
      have "buf' = concat (map (\<lambda>i. the (fs_block master idx path (?start + of_nat i))) [0..<v]) @ drop (v * BLOCK_SIZE) buf"
        unfolding m by (rule b)
      with rd True show ?thesis by simp
    next
      case False
      with rd res ok v0 show ?thesis by (auto simp: EIO_def)
    qed
  qed
qed

end
