(* ===== verification/Dedup_Remove.thy ===== *)
theory Dedup_Remove
  imports Dedup_Read
begin

text \<open>
  Dropping the references of a file (\<^verbatim>\<open>remove_block_dedup\<close> and \<^verbatim>\<open>remove_blocks_dedup_batch\<close> of
  \<^verbatim>\<open>src/dedup.c\<close>). Both are the primitive steps "turn a mapping into a pin, give the pin back";
  the batch collects the slots of the objects that die on a local list and appends the free list
  to it once at the end.
\<close>

section \<open>Model\<close>

definition remove_block_dedup :: "Index \<Rightarrow> path \<Rightarrow> u64 \<Rightarrow> Index option" where
  "remove_block_dedup idx path blockIndex =
     (case lookup_by_file_block idx path blockIndex of
        None \<Rightarrow> Some idx
      | Some info \<Rightarrow>
          (case release_info (remove_file_block idx path blockIndex) [] info of
             None \<Rightarrow> None
           | Some (idx', slot) \<Rightarrow> Some (idx'\<lparr>free_block_list := slot @ free_block_list idx'\<rparr>)))"

fun remove_loop :: "Index \<Rightarrow> path \<Rightarrow> u64 list \<Rightarrow> u64 list \<Rightarrow> (Index \<times> u64 list) option" where
  "remove_loop idx path [] to_release = Some (idx, to_release)"
| "remove_loop idx path (i # is) to_release =
     (case lookup_by_file_block idx path i of
        None \<Rightarrow> remove_loop idx path is to_release
      | Some info \<Rightarrow>
          (case release_info (remove_file_block idx path i) to_release info of
             None \<Rightarrow> None
           | Some (idx', to_release') \<Rightarrow> remove_loop idx' path is to_release'))"

text \<open>The values of the loop counter \<^verbatim>\<open>for (uint64_t i = start_block; i < end_block; i++)\<close>.\<close>

definition block_range :: "u64 \<Rightarrow> u64 \<Rightarrow> u64 list" where
  "block_range start_block end_block = map (\<lambda>k. start_block + of_nat k) [0..<unat end_block - unat start_block]"

definition remove_blocks_dedup_batch :: "Index \<Rightarrow> path \<Rightarrow> u64 \<Rightarrow> u64 \<Rightarrow> Index option" where
  "remove_blocks_dedup_batch idx path start_block end_block =
     (if start_block \<ge> end_block then Some idx
      else case remove_loop idx path (block_range start_block end_block) [] of
             None \<Rightarrow> None
           | Some (idx', to_release) \<Rightarrow>
               Some (if to_release \<noteq> [] then idx'\<lparr>free_block_list := to_release @ free_block_list idx'\<rparr> else idx'))"

text \<open>The loop of single removals that the batch replaces.\<close>

fun remove_each :: "Index \<Rightarrow> path \<Rightarrow> u64 list \<Rightarrow> Index option" where
  "remove_each idx path [] = Some idx"
| "remove_each idx path (i # is) =
     (case remove_block_dedup idx path i of None \<Rightarrow> None | Some idx' \<Rightarrow> remove_each idx' path is)"

section \<open>The range of the loop\<close>

lemma set_block_range: "set (block_range s e) = {b. s \<le> b \<and> b < e}"
proof (intro set_eqI iffI)
  fix b assume "b \<in> set (block_range s e)"
  then obtain k where k: "k < unat e - unat s" "b = s + of_nat k" by (auto simp: block_range_def)
  have "unat s + k < 2 ^ 64" using k(1) unat_less_2_64 [of e] by linarith
  then have "unat b = unat s + k" unfolding k(2) by (rule unat_plus_of_nat)
  with k show "b \<in> {b. s \<le> b \<and> b < e}" by (simp add: word_le_nat_alt word_less_nat_alt)
next
  fix b assume "b \<in> {b. s \<le> b \<and> b < e}"
  then have b: "unat s \<le> unat b" "unat b < unat e" by (simp_all add: word_le_nat_alt word_less_nat_alt)
  have "unat s + (unat b - unat s) < 2 ^ 64" using b unat_less_2_64 [of b] by linarith
  then have "unat (s + of_nat (unat b - unat s)) = unat s + (unat b - unat s)" by (rule unat_plus_of_nat)
  with b have "b = s + of_nat (unat b - unat s)" by (simp add: u64_eq_iff_unat)
  moreover have "unat b - unat s \<in> set [0..<unat e - unat s]" using b by auto
  ultimately show "b \<in> set (block_range s e)"
    unfolding block_range_def by (metis (no_types, lifting) image_eqI list.set_map)
qed

section \<open>The batch does what the single removals do\<close>

lemma release_info_frame:
  "release_info (idx\<lparr>free_block_list := fl\<rparr>) rel p =
   map_option (\<lambda>(i, r). (i\<lparr>free_block_list := fl\<rparr>, r)) (release_info idx rel p)"
  by (cases "minfos idx p")
    (auto simp: release_info_def refcount_fetch_sub_def info_free_def remove_hash_def info_set_def)

lemma release_info_rel:
  "release_info idx rel p = map_option (\<lambda>(i, r). (i, r @ rel)) (release_info idx [] p)"
  by (cases "minfos idx p") (auto simp: release_info_def refcount_fetch_sub_def info_free_def)

lemma release_info_free_list:
  "release_info idx rel p = Some (idx', rel') \<Longrightarrow> free_block_list idx' = free_block_list idx"
  by (auto simp: release_info_def refcount_fetch_sub_def info_free_def remove_hash_def info_set_def
      split: option.splits if_splits)

lemma remove_loop_eq_remove_each:
  "remove_each (idx\<lparr>free_block_list := rel @ free_block_list idx\<rparr>) path is =
   map_option (\<lambda>(i, r). i\<lparr>free_block_list := r @ free_block_list i\<rparr>) (remove_loop idx path is rel)"
proof (induction "is" arbitrary: idx rel)
  case Nil
  then show ?case by simp
next
  case (Cons i "is")
  let ?idx = "idx\<lparr>free_block_list := rel @ free_block_list idx\<rparr>"
  have lk: "lookup_by_file_block ?idx path i = lookup_by_file_block idx path i"
    by (simp add: lookup_by_file_block_def)
  show ?case
  proof (cases "lookup_by_file_block idx path i")
    case None
    then show ?thesis using Cons.IH [of rel idx] by (simp add: remove_block_dedup_def lk)
  next
    case (Some info)
    let ?rm = "remove_file_block idx path i"
    have rm: "remove_file_block ?idx path i = ?rm\<lparr>free_block_list := rel @ free_block_list idx\<rparr>"
      by (simp add: remove_file_block_def)
    have single: "remove_block_dedup ?idx path i =
        map_option (\<lambda>(j, r). j\<lparr>free_block_list := r @ rel @ free_block_list idx\<rparr>) (release_info ?rm [] info)"
      unfolding remove_block_dedup_def lk Some option.case rm release_info_frame
      by (cases "release_info ?rm [] info") auto
    show ?thesis
    proof (cases "release_info ?rm [] info")
      case None
      then show ?thesis using Some single release_info_rel [of ?rm rel info] by simp
    next
      case found: (Some jr)
      obtain j r where jr: "jr = (j, r)" by force
      have fl: "free_block_list j = free_block_list idx"
        using release_info_free_list [OF found [unfolded jr]] by simp
      have "remove_each (j\<lparr>free_block_list := (r @ rel) @ free_block_list j\<rparr>) path is =
          map_option (\<lambda>(i, r). i\<lparr>free_block_list := r @ free_block_list i\<rparr>) (remove_loop j path is (r @ rel))"
        by (rule Cons.IH)
      then show ?thesis
        using Some single found jr fl release_info_rel [of ?rm rel info] by simp
    qed
  qed
qed

lemma remove_batch_eq_each:
  "remove_blocks_dedup_batch idx path s e = (if s \<ge> e then Some idx else remove_each idx path (block_range s e))"
proof (cases "s \<ge> e")
  case False
  have "remove_each (idx\<lparr>free_block_list := [] @ free_block_list idx\<rparr>) path (block_range s e) =
    map_option (\<lambda>(i, r). i\<lparr>free_block_list := r @ free_block_list i\<rparr>) (remove_loop idx path (block_range s e) [])"
    by (rule remove_loop_eq_remove_each)
  with False show ?thesis
    by (auto simp: remove_blocks_dedup_batch_def split: option.splits)
qed (simp add: remove_blocks_dedup_batch_def)

section \<open>Effect on the index\<close>

lemma remove_loop_spec:
  assumes "tables_ok pend idx" and "counts_ok pins idx" and "slots_ok pend resv rel nxt idx"
  shows "\<exists>idx' rel'. remove_loop idx path is rel = Some (idx', rel') \<and>
    tables_ok pend idx' \<and> counts_ok pins idx' \<and> slots_ok pend resv rel' nxt idx' \<and> sub_infos idx idx' \<and>
    file_to_master idx' = (\<lambda>k. if key_path k = path \<and> key_offset k \<in> set is then None else file_to_master idx k) \<and>
    file_to_sizes idx' = file_to_sizes idx \<and> free_block_list idx' = free_block_list idx \<and>
    (\<forall>k p. file_to_master idx' k = Some p \<longrightarrow> slot_of idx' p = slot_of idx p)"
  using assms
proof (induction "is" arbitrary: idx rel)
  case Nil
  then show ?case by simp
next
  case (Cons i "is")
  note t = Cons.prems(1) and c = Cons.prems(2) and s = Cons.prems(3)
  show ?case
  proof (cases "lookup_by_file_block idx path i")
    case None
    then have no: "file_to_master idx (bkey path i) = None" by (simp add: lookup_by_file_block_def)
    have "file_to_master idx k = None" if "key_path k = path" "key_offset k = i" for k
      using no that by (cases k) simp
    then have eq: "(\<lambda>k. if key_path k = path \<and> key_offset k \<in> set is then None else file_to_master idx k) =
        (\<lambda>k. if key_path k = path \<and> key_offset k \<in> set (i # is) then None else file_to_master idx k)"
      by (intro ext) auto
    show ?thesis using None Cons.IH [OF t c s] unfolding eq by simp
  next
    case (Some p)
    then have k: "file_to_master idx (bkey path i) = Some p" by (simp add: lookup_by_file_block_def)
    let ?rm = "remove_file_block idx path i"
    note um = unmap_step [OF t c k]
    have s1: "slots_ok pend resv rel nxt ?rm" 
      using s slots_data_ok_frame(1) [of ?rm idx] by simp
    have np: "p \<notin> pend" using tables_ok_file [OF t k] by (simp add: published_def)
    let ?pins = "pins(p := pins p + 1)"
    have pp: "0 < ?pins p" "p \<notin> pend \<or> 1 < ?pins p" using np by simp_all
    obtain idx1 rel1 where r: "release_info ?rm rel p = Some (idx1, rel1)"
      and t1: "tables_ok pend idx1" and c0: "counts_ok (?pins(p := ?pins p - 1)) idx1"
      and sl1: "slots_ok pend resv rel1 nxt idx1"
      and sub1: "sub_infos ?rm idx1" and f1: "file_to_master idx1 = file_to_master ?rm"
      and z1: "file_to_sizes idx1 = file_to_sizes ?rm" "free_block_list idx1 = free_block_list ?rm"
      and so1: "\<And>q. 0 < refs ?rm q + (?pins(p := ?pins p - 1)) q \<Longrightarrow> slot_of idx1 q = slot_of ?rm q"
      using release_step [OF um s1 pp] by metis
    have c1: "counts_ok pins idx1" using c0 by simp
    obtain idx' rel' where IH: "remove_loop idx1 path is rel1 = Some (idx', rel')"
      "tables_ok pend idx'" "counts_ok pins idx'" "slots_ok pend resv rel' nxt idx'" "sub_infos idx1 idx'"
      "file_to_master idx' = (\<lambda>k. if key_path k = path \<and> key_offset k \<in> set is then None else file_to_master idx1 k)"
      "file_to_sizes idx' = file_to_sizes idx1" "free_block_list idx' = free_block_list idx1"
      "\<forall>k p. file_to_master idx' k = Some p \<longrightarrow> slot_of idx' p = slot_of idx1 p"
      using Cons.IH [OF t1 c1 sl1] by blast
    have sub: "sub_infos idx idx'"
      using sub1 IH(5) unfolding sub_infos_def by (metis remove_file_block_fields(2))
    have fm: "file_to_master idx' = (\<lambda>k. if key_path k = path \<and> key_offset k \<in> set (i # is) then None else file_to_master idx k)"
    proof
      fix k :: BlockIndice
      show "file_to_master idx' k = (if key_path k = path \<and> key_offset k \<in> set (i # is) then None else file_to_master idx k)"
        unfolding IH(6) f1 by (cases k) auto
    qed
    have "slot_of idx' q = slot_of idx q" if "file_to_master idx' kk = Some q" for kk q
    proof -
      have "file_to_master idx1 kk = Some q" using that IH(6) by (simp split: if_splits)
      then have "0 < refs ?rm q"
        using refs_pos_iff [OF tables_ok_finite [OF um(1)]] f1 by metis
      then have "slot_of idx1 q = slot_of ?rm q" by (intro so1) simp
      then show ?thesis using IH(9) that by (simp add: slot_of_def)
    qed
    then show ?thesis using IH r Some sub fm z1 by simp
  qed
qed

lemma fs_block_cong:
  assumes "file_to_master idx' (bkey f b) = file_to_master idx (bkey f b)"
    and "\<And>p. file_to_master idx (bkey f b) = Some p \<Longrightarrow> slot_of idx' p = slot_of idx p"
  shows "fs_block master idx' f b = fs_block master idx f b"
  using assms by (cases "file_to_master idx (bkey f b)") (simp_all add: fs_block_def lookup_by_file_block_def)

lemma remove_batch_spec:
  assumes inv: "index_inv nxt idx"
  shows "\<exists>idx'. remove_blocks_dedup_batch idx path s e = Some idx' \<and> index_inv nxt idx' \<and> sub_infos idx idx' \<and>
    file_to_sizes idx' = file_to_sizes idx \<and>
    (\<forall>f b. fs_block master idx' f b = (if f = path \<and> s \<le> b \<and> b < e then None else fs_block master idx f b))"
proof (cases "s \<ge> e")
  case True
  then show ?thesis using inv by (auto simp: remove_blocks_dedup_batch_def)
next
  case False
  have i: "tables_ok {} idx" "counts_ok (\<lambda>_. 0) idx" "slots_ok {} {} [] nxt idx"
    using inv by (simp_all add: index_inv_def)
  obtain idx' rel' where L: "remove_loop idx path (block_range s e) [] = Some (idx', rel')"
      "tables_ok {} idx'" "counts_ok (\<lambda>_. 0) idx'" "slots_ok {} {} rel' nxt idx'" "sub_infos idx idx'"
    and F: "file_to_master idx' = (\<lambda>k. if key_path k = path \<and> key_offset k \<in> set (block_range s e) then None else file_to_master idx k)"
    and Z: "file_to_sizes idx' = file_to_sizes idx"
    and S: "\<forall>k p. file_to_master idx' k = Some p \<longrightarrow> slot_of idx' p = slot_of idx p"
    using remove_loop_spec [OF i, of path "block_range s e"] by blast
  let ?i = "idx'\<lparr>free_block_list := rel' @ free_block_list idx'\<rparr>"
  have run: "remove_blocks_dedup_batch idx path s e = Some ?i"
    using False L(1) by (cases "rel' = []") (simp_all add: remove_blocks_dedup_batch_def)
  have "index_inv nxt ?i"
    using L(2,3) slots_ok_concat [OF L(4)]
    by (simp add: index_inv_def tables_ok_def counts_ok_def published_def refs_def)
  moreover have "fs_block master ?i f b = (if f = path \<and> s \<le> b \<and> b < e then None else fs_block master idx f b)" for f b
  proof (cases "f = path \<and> s \<le> b \<and> b < e")
    case True
    then show ?thesis using F by (simp add: fs_block_def lookup_by_file_block_def set_block_range)
  next
    case False
    then have "file_to_master ?i (bkey f b) = file_to_master idx (bkey f b)" using F by (auto simp: set_block_range)
    moreover have "slot_of ?i p = slot_of idx p" if "file_to_master idx (bkey f b) = Some p" for p
      using calculation S that by simp
    ultimately have "fs_block master ?i f b = fs_block master idx f b" by (rule fs_block_cong)
    then show ?thesis using False by auto
  qed
  ultimately show ?thesis using run L(5) Z by (auto simp: sub_infos_def)
qed

end
