(* ===== verification/Write_Plan.thy ===== *)
theory Write_Plan
  imports Dedup_Remove
begin

text \<open>
  The first two passes of \<^verbatim>\<open>write_dedup\<close> in \<^verbatim>\<open>src/dedup.c\<close>. Pass 1 hashes every block of the
  request and decides whether its contents are known (HIT: take a reference) or new (MISS: create
  a pending object that is not yet in \<^verbatim>\<open>hash_to_master\<close>); pass 1.5 hands every MISS a slot of the
  master file, from the free list first and then by growing the file. \<open>plan_ok\<close> is the invariant of
  the plan between the passes.
\<close>

section \<open>Model\<close>

datatype PlanKind = PLAN_HIT | PLAN_MISS

text \<open>\<open>payload\<close> is the position in the caller's buffer; \<open>master_blk\<close> is 0 until pass 1.5 sets it
  (the code leaves it uninitialised and reads it for MISS entries only).\<close>

record PlanEntry =
  kind :: PlanKind
  logical_blk :: u64
  master_blk :: u64
  payload :: nat
  phash :: digest
  info :: ptr

definition is_miss :: "PlanEntry \<Rightarrow> bool" where
  "is_miss e \<longleftrightarrow> kind e = PLAN_MISS"

text \<open>One iteration of pass 1. State: the index, \<^verbatim>\<open>pending_hashes\<close>, the plan so far and
  \<^verbatim>\<open>miss_count\<close>. \<open>None\<close>: the block lies outside the buffer, or the object is not allocated.\<close>

type_synonym pass1_state = "Index \<times> (digest \<rightharpoonup> ptr) \<times> PlanEntry list \<times> nat"

fun plan_block :: "(byte list \<Rightarrow> digest) \<Rightarrow> byte list \<Rightarrow> u64 \<Rightarrow> nat \<Rightarrow> pass1_state \<Rightarrow> pass1_state option" where
  "plan_block SHA512 buf start_block i (idx, pending_hashes, plan, miss_count) =
     (let blk = take BLOCK_SIZE (drop (i * BLOCK_SIZE) buf);
          h = hash SHA512 blk;
          existing = (case lookup_by_hash idx h of None \<Rightarrow> pending_hashes h | Some p \<Rightarrow> Some p)
      in if length blk \<noteq> BLOCK_SIZE then None
         else
           (case existing of
              Some p \<Rightarrow>
                (case refcount_inc idx p of
                   None \<Rightarrow> None
                 | Some idx' \<Rightarrow>
                     Some (idx', pending_hashes,
                       plan @ [\<lparr>kind = PLAN_HIT, logical_blk = start_block + of_nat i, master_blk = 0,
                                payload = i * BLOCK_SIZE, phash = h, info = p\<rparr>], miss_count))
            | None \<Rightarrow>
                (let (idx', p) = info_new idx \<lparr>info_hash = h, masterBlockIndex = 0, refcount = 1\<rparr>
                 in Some (idx', pending_hashes(h \<mapsto> p),
                      plan @ [\<lparr>kind = PLAN_MISS, logical_blk = start_block + of_nat i, master_blk = 0,
                               payload = i * BLOCK_SIZE, phash = h, info = p\<rparr>], miss_count + 1))))"

declare plan_block.simps [simp del]

fun plan_pass :: "(byte list \<Rightarrow> digest) \<Rightarrow> byte list \<Rightarrow> u64 \<Rightarrow> nat list \<Rightarrow> pass1_state \<Rightarrow> pass1_state option" where
  "plan_pass SHA512 buf start_block [] st = Some st"
| "plan_pass SHA512 buf start_block (i # is) st =
     (case plan_block SHA512 buf start_block i st of
        None \<Rightarrow> None
      | Some st' \<Rightarrow> plan_pass SHA512 buf start_block is st')"

text \<open>The loop of \<^verbatim>\<open>allocate_batch_storage_first\<close> that pops the head of the free list while
  blocks are still missing: the slots taken and the list that remains.\<close>

fun drain_free_list :: "nat \<Rightarrow> u64 list \<Rightarrow> u64 list \<times> u64 list" where
  "drain_free_list (Suc missing) (slot # fl) =
     (let (out, fl') = drain_free_list missing fl in (slot # out, fl'))"
| "drain_free_list _ fl = ([], fl)"

definition allocate_batch_storage_first :: "Index \<Rightarrow> nat \<Rightarrow> u64 \<Rightarrow> Index \<times> u64 \<times> u64 list" where
  "allocate_batch_storage_first idx miss_count next_block_index =
     (let (out, fl) = drain_free_list miss_count (free_block_list idx);
          idx' = idx\<lparr>free_block_list := fl\<rparr>;
          remaining = miss_count - length out
      in if remaining > 0 then
           let base = next_block_index
           in (idx', next_block_index + of_nat remaining, out @ map (\<lambda>i. base + of_nat i) [0..<remaining])
         else (idx', next_block_index, out))"

text \<open>The loop that fills \<^verbatim>\<open>master_blk\<close> of every MISS and the slot of its pending object.\<close>

fun assign_blocks :: "Index \<Rightarrow> PlanEntry list \<Rightarrow> u64 list \<Rightarrow> (Index \<times> PlanEntry list) option" where
  "assign_blocks idx [] master_blks = Some (idx, [])"
| "assign_blocks idx (e # plan) master_blks =
     (if kind e = PLAN_MISS then
        (case (master_blks, minfos idx (info e)) of
           (b # bs, Some mi) \<Rightarrow>
             (case assign_blocks (info_set idx (info e) (mi\<lparr>masterBlockIndex := b\<rparr>)) plan bs of
                None \<Rightarrow> None
              | Some (idx', plan') \<Rightarrow> Some (idx', e\<lparr>master_blk := b\<rparr> # plan'))
         | _ \<Rightarrow> None)
      else
        (case assign_blocks idx plan master_blks of
           None \<Rightarrow> None
         | Some (idx', plan') \<Rightarrow> Some (idx', e # plan')))"

section \<open>Allocation: storage first\<close>

lemma drain_free_list_eq: "drain_free_list n fl = (take n fl, drop n fl)"
  by (induction n fl rule: drain_free_list.induct) simp_all

text \<open>The list of slots as one equation: the free list from its head, then fresh slots.\<close>

lemma allocate_eq:
  "allocate_batch_storage_first idx n nxt =
     (idx\<lparr>free_block_list := drop n (free_block_list idx)\<rparr>,
      nxt + of_nat (n - length (free_block_list idx)),
      take n (free_block_list idx) @ map (\<lambda>i. nxt + of_nat i) [0..<n - length (free_block_list idx)])"
  by (simp add: allocate_batch_storage_first_def drain_free_list_eq Let_def min_def)

lemma allocate_spec:
  assumes a: "allocate_batch_storage_first idx n nxt = (idx', nxt', out)"
    and s: "slots_ok pend {} [] nxt idx" and b: "unat nxt + n < 2 ^ 64"
  shows "slots_ok pend (set out) [] nxt' idx'" "length out = n" "distinct out"
    "unat nxt' = unat nxt + (n - length (free_block_list idx))"
    "\<forall>x \<in> set out. x \<notin> slot_of idx ` published pend idx"
proof -
  let ?fl = "free_block_list idx"
  let ?k = "n - length ?fl"
  from a have eq: "idx' = idx\<lparr>free_block_list := drop n ?fl\<rparr>" "nxt' = nxt + of_nat ?k"
    "out = take n ?fl @ map (\<lambda>i. nxt + of_nat i) [0..<?k]"
    by (simp_all add: allocate_eq)
  have k: "unat nxt + ?k < 2 ^ 64" using b by linarith
  have "slots_ok pend ({} \<union> set (take n ?fl)) [] nxt idx'"
    unfolding eq(1) by (rule slots_ok_drain [OF s]) simp
  from slots_ok_append [OF this k]
  show ok: "slots_ok pend (set out) [] nxt' idx'" by (simp add: eq(2,3))
  show "length out = n" by (simp add: eq(3))
  show "unat nxt' = unat nxt + ?k" unfolding eq(2) using k by (rule unat_plus_of_nat)
  have ui: "unat (nxt + of_nat i) = unat nxt + i" if "i < ?k" for i
    using that k by (intro unat_plus_of_nat) linarith
  have "inj_on (\<lambda>i. nxt + of_nat i) {0..<?k}"
  proof (rule inj_onI)
    fix i j assume ij: "i \<in> {0..<?k}" "j \<in> {0..<?k}" "nxt + of_nat i = nxt + of_nat j"
    then have "unat (nxt + of_nat i) = unat (nxt + of_nat j)" by (simp only:)
    then show "i = j" using ij(1,2) ui by simp
  qed
  moreover have "distinct ?fl" "set ?fl \<subseteq> {x. x < nxt}" using s unfolding slots_ok_def by auto
  moreover have "\<not> nxt + of_nat i < nxt" if "i < ?k" for i
    using ui [OF that] by (simp add: word_less_nat_alt)
  ultimately show "distinct out"
    unfolding eq(3) by (auto simp: distinct_map dest: in_set_takeD)
  show "\<forall>x \<in> set out. x \<notin> slot_of idx ` published pend idx"
    using ok unfolding slots_ok_def eq(1) by auto
qed

section \<open>The invariant of the plan\<close>

text \<open>Every entry of the plan holds one reference; the objects of the MISS entries are pending.\<close>

definition pins_of :: "PlanEntry list \<Rightarrow> ptr \<Rightarrow> nat" where
  "pins_of plan p = count_list (map info plan) p"

definition misses :: "PlanEntry list \<Rightarrow> PlanEntry list" where
  "misses plan = filter is_miss plan"

definition miss_infos :: "PlanEntry list \<Rightarrow> ptr set" where
  "miss_infos plan = set (map info (misses plan))"

definition entry_ok :: "(byte list \<Rightarrow> digest) \<Rightarrow> byte list \<Rightarrow> u64 \<Rightarrow> Index \<Rightarrow> nat \<Rightarrow> PlanEntry \<Rightarrow> bool" where
  "entry_ok SHA512 buf start idx k e \<longleftrightarrow>
     payload e = k * BLOCK_SIZE \<and> logical_blk e = start + of_nat k \<and> phash e = hash SHA512 (block_at buf k) \<and>
     (\<exists>mi. minfos idx (info e) = Some mi \<and> info_hash mi = phash e)"

definition plan_ok :: "(byte list \<Rightarrow> digest) \<Rightarrow> byte list \<Rightarrow> u64 \<Rightarrow> Index \<Rightarrow> PlanEntry list \<Rightarrow> bool" where
  "plan_ok SHA512 buf start idx plan \<longleftrightarrow>
     (\<forall>k < length plan. entry_ok SHA512 buf start idx k (plan ! k)) \<and>
     distinct (map info (misses plan)) \<and> distinct (map phash (misses plan)) \<and>
     (\<forall>e \<in> set (misses plan). hash_to_master idx (phash e) = None) \<and>
     (\<forall>e \<in> set plan. info e \<in> miss_infos plan \<or> 0 < refs idx (info e))"

text \<open>What has not changed since the operation began: all tables, and every object but the new ones.\<close>

definition info_key :: "MasterInfo \<Rightarrow> digest \<times> u64" where
  "info_key mi = (info_hash mi, masterBlockIndex mi)"

definition only_new :: "ptr set \<Rightarrow> Index \<Rightarrow> Index \<Rightarrow> bool" where
  "only_new pend idx0 idx \<longleftrightarrow>
     file_to_master idx = file_to_master idx0 \<and> hash_to_master idx = hash_to_master idx0 \<and>
     file_to_sizes idx = file_to_sizes idx0 \<and> pend \<inter> dom (minfos idx0) = {} \<and>
     (\<forall>p. p \<notin> pend \<longrightarrow> map_option info_key (minfos idx p) = map_option info_key (minfos idx0 p))"

definition pass1_inv ::
    "(byte list \<Rightarrow> digest) \<Rightarrow> byte list \<Rightarrow> u64 \<Rightarrow> u64 \<Rightarrow> Index \<Rightarrow> pass1_state \<Rightarrow> bool" where
  "pass1_inv SHA512 buf start nxt idx0 st \<longleftrightarrow>
     (case st of (idx, pending, plan, miss_count) \<Rightarrow>
        tables_ok (miss_infos plan) idx \<and> counts_ok (pins_of plan) idx \<and>
        slots_ok (miss_infos plan) {} [] nxt idx \<and> plan_ok SHA512 buf start idx plan \<and>
        only_new (miss_infos plan) idx0 idx \<and> free_block_list idx = free_block_list idx0 \<and>
        (\<forall>h p. pending h = Some p \<longleftrightarrow> (\<exists>e \<in> set (misses plan). phash e = h \<and> info e = p)) \<and>
        miss_count = length (misses plan))"

lemma misses_simps [simp]:
  "misses [] = []" "misses (e # es) = (if is_miss e then e # misses es else misses es)"
  "misses (es @ fs) = misses es @ misses fs" "set (misses es) = {e \<in> set es. is_miss e}"
  by (simp_all add: misses_def)

lemma miss_infos_simps [simp]:
  "miss_infos [] = {}" "miss_infos (e # es) = (if is_miss e then insert (info e) (miss_infos es) else miss_infos es)"
  "miss_infos (es @ fs) = miss_infos es \<union> miss_infos fs"
  by (auto simp: miss_infos_def)

lemma pins_of_Nil [simp]: "pins_of [] = (\<lambda>_. 0)"
  by (simp add: pins_of_def fun_eq_iff)

lemma pins_of_snoc: "pins_of (es @ [e]) = (pins_of es)(info e := pins_of es (info e) + 1)"
  by (auto simp: pins_of_def fun_eq_iff)

lemma pins_of_Cons: "pins_of (e # es) = (pins_of es)(info e := pins_of es (info e) + 1)"
  by (auto simp: pins_of_def fun_eq_iff)

lemma pins_of_le: "pins_of plan p \<le> length plan"
  unfolding pins_of_def by (metis count_le_length length_map)

lemma pins_of_pos_iff: "0 < pins_of plan p \<longleftrightarrow> p \<in> info ` set plan"
  by (metis count_list_0_iff gr0I image_set less_numeral_extra(3) pins_of_def)

lemma only_newD:
  assumes "only_new pend idx0 idx"
  shows "file_to_master idx = file_to_master idx0" "hash_to_master idx = hash_to_master idx0"
    "file_to_sizes idx = file_to_sizes idx0" "pend \<inter> dom (minfos idx0) = {}" "refs idx = refs idx0"
    "p \<notin> pend \<Longrightarrow> map_option info_key (minfos idx p) = map_option info_key (minfos idx0 p)"
  using assms unfolding only_new_def by (auto intro: refs_cong)

lemma info_key_eqD:
  assumes "map_option info_key a = map_option info_key b" and "a = Some mi"
  obtains mj where "b = Some mj" "info_hash mj = info_hash mi" "masterBlockIndex mj = masterBlockIndex mi"
  using assms by (cases b) (auto simp: info_key_def)

lemma only_new_slot_of:
  assumes "only_new pend idx0 idx" "p \<notin> pend"
  shows "slot_of idx p = slot_of idx0 p"
  using only_newD(6) [OF assms]
  by (cases "minfos idx p"; cases "minfos idx0 p") (auto simp: slot_of_def info_key_def)

lemma only_new_fs_block:
  assumes o: "only_new pend idx0 idx" and t: "tables_ok pend idx"
  shows "fs_block master idx f b = fs_block master idx0 f b"
proof (rule fs_block_cong)
  fix p assume "file_to_master idx0 (bkey f b) = Some p"
  then have "p \<notin> pend" using tables_ok_file [OF t] only_newD(1) [OF o] by (fastforce simp: published_def)
  then show "slot_of idx p = slot_of idx0 p" by (rule only_new_slot_of [OF o])
qed (simp add: only_newD(1) [OF o])

lemma only_new_data_ok:
  assumes "only_new pend idx0 idx" and "data_ok SHA512 master {} idx0"
  shows "data_ok SHA512 master pend idx"
  unfolding data_ok_def
proof (intro allI impI)
  fix p mi assume p: "minfos idx p = Some mi" "p \<notin> pend"
  obtain mj where "minfos idx0 p = Some mj" "info_hash mj = info_hash mi" "masterBlockIndex mj = masterBlockIndex mi"
    using info_key_eqD [OF only_newD(6) [OF assms(1) p(2)] p(1)] .
  with assms(2) show "length (block_at master (unat (masterBlockIndex mi))) = BLOCK_SIZE \<and>
        hash SHA512 (block_at master (unat (masterBlockIndex mi))) = info_hash mi"
    unfolding data_ok_def by (metis empty_iff)
qed

lemma only_new_same_infos:
  assumes o: "only_new pend idx0 idx" and s: "same_infos idx idx'"
  shows "only_new pend idx0 idx'"
proof -
  have "map_option info_key (minfos idx' p) = map_option info_key (minfos idx p)" for p
    using s unfolding same_infos_def info_key_def by simp
  then show ?thesis using o same_infosD [OF s] unfolding only_new_def by simp
qed

section \<open>Pass 1\<close>

lemma plan_ok_same_infos:
  assumes "same_infos idx idx'" and "plan_ok SHA512 buf start idx plan"
  shows "plan_ok SHA512 buf start idx' plan"
proof -
  have "entry_ok SHA512 buf start idx' k e = entry_ok SHA512 buf start idx k e" for k e
    unfolding entry_ok_def same_infos_hash_iff [OF assms(1)] ..
  then show ?thesis using assms(2) same_infosD [OF assms(1)] unfolding plan_ok_def by simp
qed

lemma plan_ok_hit:
  assumes "plan_ok SHA512 buf start idx plan" and "\<not> is_miss e"
    and "entry_ok SHA512 buf start idx (length plan) e" and "info e \<in> miss_infos plan \<or> 0 < refs idx (info e)"
  shows "plan_ok SHA512 buf start idx (plan @ [e])"
  using assms unfolding plan_ok_def by (auto simp: nth_append less_Suc_eq)

lemma plan_ok_miss:
  assumes "plan_ok SHA512 buf start idx plan" and "is_miss e" "info e \<notin> miss_infos plan"
    "phash e \<notin> phash ` set (misses plan)" "hash_to_master idx (phash e) = None"
    and "entry_ok SHA512 buf start idx (length plan) e"
  shows "plan_ok SHA512 buf start idx (plan @ [e])"
  using assms unfolding plan_ok_def miss_infos_def by (auto simp: nth_append less_Suc_eq)

lemma plan_hit_step:
  assumes inv: "pass1_inv SHA512 buf start nxt idx0 (idx, pending, plan, mc)"
    and p: "minfos idx p = Some mi" "info_hash mi = hash SHA512 (block_at buf (length plan))"
    and live: "p \<in> miss_infos plan \<or> 0 < refs idx p" and b: "refs idx p + length plan + 1 < 2 ^ 32"
  defines "e \<equiv> \<lparr>kind = PLAN_HIT, logical_blk = start + of_nat (length plan), master_blk = 0,
     payload = length plan * BLOCK_SIZE, phash = hash SHA512 (block_at buf (length plan)), info = p\<rparr>"
  shows "\<exists>idx'. refcount_inc idx p = Some idx' \<and> pass1_inv SHA512 buf start nxt idx0 (idx', pending, plan @ [e], mc)"
proof -
  note i = inv [unfolded pass1_inv_def prod.case]
  have e: "\<not> is_miss e" "info e = p" by (simp_all add: e_def is_miss_def)
  obtain idx' where r: "refcount_inc idx p = Some idx'" and same: "same_infos idx idx'"
    and c: "counts_ok ((pins_of plan)(p := pins_of plan p + 1)) idx'"
    by (rule pin_step [of "pins_of plan" idx p]) (use i p b pins_of_le [of plan p] in auto)
  have po: "plan_ok SHA512 buf start idx' (plan @ [e])"
  proof (rule plan_ok_same_infos [OF same plan_ok_hit])
    show "entry_ok SHA512 buf start idx (length plan) e"
      using p by (simp add: entry_ok_def e_def)
  qed (use i e live in simp_all)
  have "pass1_inv SHA512 buf start nxt idx0 (idx', pending, plan @ [e], mc)"
    unfolding pass1_inv_def prod.case
    using i e c po only_new_same_infos [OF _ same] same_infos_ok [OF same] same_infosD [OF same]
    by (simp add: pins_of_snoc)
  with r show ?thesis by blast
qed

lemma only_new_info_new:
  assumes o: "only_new pend idx0 idx" and n: "info_new idx mi = (idx', p)" and f: "p \<notin> dom (minfos idx)"
    and np: "p \<notin> pend"
  shows "only_new (insert p pend) idx0 idx'"
proof -
  have "minfos idx0 p = None" using only_newD(6) [OF o np] f by (cases "minfos idx0 p") auto
  then show ?thesis
    using o unfolding only_new_def by (auto simp: info_new_fields [OF n])
qed

lemma plan_miss_step:
  assumes inv: "pass1_inv SHA512 buf start nxt idx0 (idx, pending, plan, mc)"
    and h: "hash_to_master idx h = None" "pending h = None" "h = hash SHA512 (block_at buf (length plan))"
    and n: "info_new idx \<lparr>info_hash = h, masterBlockIndex = 0, refcount = 1\<rparr> = (idx', p)"
  defines "e \<equiv> \<lparr>kind = PLAN_MISS, logical_blk = start + of_nat (length plan), master_blk = 0,
     payload = length plan * BLOCK_SIZE, phash = h, info = p\<rparr>"
  shows "pass1_inv SHA512 buf start nxt idx0 (idx', pending(h \<mapsto> p), plan @ [e], Suc mc)"
proof -
  note i = inv [unfolded pass1_inv_def prod.case]
  have t: "tables_ok (miss_infos plan) idx" and c: "counts_ok (pins_of plan) idx"
    and s: "slots_ok (miss_infos plan) {} [] nxt idx" and po: "plan_ok SHA512 buf start idx plan"
    and o: "only_new (miss_infos plan) idx0 idx"
    and pe: "\<And>h p. pending h = Some p \<longleftrightarrow> (\<exists>e \<in> set (misses plan). phash e = h \<and> info e = p)"
    using i by blast+
  have e: "is_miss e" "info e = p" "phash e = h" by (simp_all add: e_def is_miss_def)
  note st = new_step [OF n _ t c s]
  note fl = info_new_fields [OF n]
  have dis: "p \<notin> dom (minfos idx)" "p \<notin> miss_infos plan" "pins_of plan p = 0" using st by simp_all
  have hn: "h \<notin> phash ` set (misses plan)" using pe [of h] h(2) by auto
  have "refs idx' = refs idx" by (rule refs_cong) (simp add: fl)
  moreover have "entry_ok SHA512 buf start idx' k (plan ! k)" if "k < length plan" for k
    using po that dis(1) fl(1,2) unfolding plan_ok_def entry_ok_def by (metis domI fun_upd_other)
  ultimately have po': "plan_ok SHA512 buf start idx' plan"
    using po fl(4) unfolding plan_ok_def by simp
  have "plan_ok SHA512 buf start idx' (plan @ [e])"
    by (rule plan_ok_miss [OF po'])
      (use e dis hn h fl in \<open>simp_all add: entry_ok_def e_def del: misses_simps(4)\<close>)
  moreover have "counts_ok (pins_of (plan @ [e])) idx'"
    using st(2) dis by (simp add: pins_of_snoc e)
  moreover have "(pending(h \<mapsto> p)) h' = Some q \<longleftrightarrow> (\<exists>f \<in> set (misses (plan @ [e])). phash f = h' \<and> info f = q)" for h' q
    using pe [of h' q] hn e by (cases "h' = h") (auto simp: image_iff)
  ultimately show ?thesis
    unfolding pass1_inv_def prod.case
    using i st(1,3) e only_new_info_new [OF o n dis(1,2)] fl by simp
qed

lemma plan_block_step:
  assumes inv: "pass1_inv SHA512 buf start nxt idx0 (idx, pending, plan, mc)"
    and live: "\<forall>p \<in> dom (minfos idx0). 0 < refs idx0 p"
    and b: "\<And>p. refs idx0 p + length plan + 1 < 2 ^ 32" and blk: "length (block_at buf (length plan)) = BLOCK_SIZE"
  shows "\<exists>idx' pending' e mc'. plan_block SHA512 buf start (length plan) (idx, pending, plan, mc) =
      Some (idx', pending', plan @ [e], mc') \<and>
    pass1_inv SHA512 buf start nxt idx0 (idx', pending', plan @ [e], mc')"
proof -
  note i = inv [unfolded pass1_inv_def prod.case]
  have t: "tables_ok (miss_infos plan) idx" and po: "plan_ok SHA512 buf start idx plan"
    and o: "only_new (miss_infos plan) idx0 idx"
    and pe: "\<And>h p. pending h = Some p \<longleftrightarrow> (\<exists>e \<in> set (misses plan). phash e = h \<and> info e = p)"
    using i by blast+
  let ?h = "hash SHA512 (block_at buf (length plan))"
  have pb: "plan_block SHA512 buf start (length plan) (idx, pending, plan, mc) =
      (case (case hash_to_master idx ?h of None \<Rightarrow> pending ?h | Some p \<Rightarrow> Some p) of
         Some p \<Rightarrow> (case refcount_inc idx p of None \<Rightarrow> None | Some idx' \<Rightarrow>
            Some (idx', pending, plan @ [\<lparr>kind = PLAN_HIT, logical_blk = start + of_nat (length plan), master_blk = 0,
                                payload = length plan * BLOCK_SIZE, phash = ?h, info = p\<rparr>], mc))
       | None \<Rightarrow> (let (idx', p) = info_new idx \<lparr>info_hash = ?h, masterBlockIndex = 0, refcount = 1\<rparr>
            in Some (idx', pending(?h \<mapsto> p), plan @ [\<lparr>kind = PLAN_MISS, logical_blk = start + of_nat (length plan),
                      master_blk = 0, payload = length plan * BLOCK_SIZE, phash = ?h, info = p\<rparr>], mc + 1)))"
    unfolding plan_block.simps Let_def lookup_by_hash_def block_at_def [symmetric] using blk by simp
  have refs: "refs idx = refs idx0" by (rule only_newD(5) [OF o])
  have hit: ?thesis if p: "minfos idx p = Some mi" "info_hash mi = ?h" "p \<in> miss_infos plan \<or> 0 < refs idx p"
      and ex: "(case hash_to_master idx ?h of None \<Rightarrow> pending ?h | Some p \<Rightarrow> Some p) = Some p" for p mi
    using plan_hit_step [OF inv p] b [of p] refs ex pb by fastforce
  show ?thesis
  proof (cases "hash_to_master idx ?h")
    case (Some p)
    then obtain mi where mi: "minfos idx p = Some mi" "info_hash mi = ?h" "p \<notin> miss_infos plan"
      using tables_ok_hash [OF t] by blast
    obtain mj where "minfos idx0 p = Some mj"
      using info_key_eqD [OF only_newD(6) [OF o mi(3)] mi(1)] .
    with live have "0 < refs idx p" unfolding refs by blast
    with mi Some show ?thesis by (intro hit [of p mi]) simp_all
  next
    case None
    show ?thesis
    proof (cases "pending ?h")
      case (Some p)
      then obtain e where e: "e \<in> set (misses plan)" "phash e = ?h" "info e = p" using pe by blast
      then have "p \<in> miss_infos plan" by (auto simp: miss_infos_def)
      moreover obtain k where "k < length plan" "plan ! k = e"
        using e(1) by (auto simp: in_set_conv_nth)
      then obtain mi where "minfos idx p = Some mi" "info_hash mi = ?h"
        using po e unfolding plan_ok_def entry_ok_def by metis
      ultimately show ?thesis using None Some by (intro hit [of p mi]) simp_all
    next
      case noPending: None
      obtain idx' p where n: "info_new idx \<lparr>info_hash = ?h, masterBlockIndex = 0, refcount = 1\<rparr> = (idx', p)"
        by force
      from plan_miss_step [OF inv None noPending refl n] show ?thesis
        unfolding pb None noPending by (auto simp: n)
    qed
  qed
qed

lemma plan_pass_spec:
  assumes "pass1_inv SHA512 buf start nxt idx0 (idx, pending, plan, mc)"
    and live: "\<forall>p \<in> dom (minfos idx0). 0 < refs idx0 p"
    and b: "\<And>p. refs idx0 p + length plan + n < 2 ^ 32" and len: "(length plan + n) * BLOCK_SIZE \<le> length buf"
  shows "\<exists>idx' pending' plan' mc'.
    plan_pass SHA512 buf start [length plan..<length plan + n] (idx, pending, plan, mc) = Some (idx', pending', plan', mc') \<and>
    pass1_inv SHA512 buf start nxt idx0 (idx', pending', plan', mc') \<and> length plan' = length plan + n"
  using assms(1,3,4)
proof (induction n arbitrary: idx pending plan mc)
  case 0
  then show ?case by auto
next
  case (Suc n)
  have "Suc (length plan) * BLOCK_SIZE \<le> (length plan + Suc n) * BLOCK_SIZE" by (intro mult_le_mono1) simp
  also note Suc.prems(3)
  finally have "length (block_at buf (length plan)) = BLOCK_SIZE" unfolding full_block_iff .
  moreover have "refs idx0 p + length plan + 1 < 2 ^ 32" for p using Suc.prems(2) [of p] by linarith
  ultimately obtain idx1 pending1 e mc1 where
    s: "plan_block SHA512 buf start (length plan) (idx, pending, plan, mc) = Some (idx1, pending1, plan @ [e], mc1)"
    and i1: "pass1_inv SHA512 buf start nxt idx0 (idx1, pending1, plan @ [e], mc1)"
    using plan_block_step [OF Suc.prems(1) live] by blast
  have "\<exists>idx' pending' plan' mc'.
    plan_pass SHA512 buf start [length (plan @ [e])..<length (plan @ [e]) + n] (idx1, pending1, plan @ [e], mc1) =
      Some (idx', pending', plan', mc') \<and>
    pass1_inv SHA512 buf start nxt idx0 (idx', pending', plan', mc') \<and> length plan' = length (plan @ [e]) + n"
  proof (rule Suc.IH [OF i1])
    show "refs idx0 p + length (plan @ [e]) + n < 2 ^ 32" for p using Suc.prems(2) [of p] by simp
    show "(length (plan @ [e]) + n) * BLOCK_SIZE \<le> length buf" using Suc.prems(3) by simp
  qed
  moreover have "[length plan..<length plan + Suc n] = length plan # [length (plan @ [e])..<length (plan @ [e]) + n]"
    by (simp add: upt_conv_Cons del: upt_Suc)
  ultimately show ?case using s by (simp del: upt_Suc)
qed

lemma pass1_inv_start:
  assumes "index_inv nxt idx"
  shows "pass1_inv SHA512 buf start nxt idx (idx, Map.empty, [], 0)" "\<forall>p \<in> dom (minfos idx). 0 < refs idx p"
proof -
  show "pass1_inv SHA512 buf start nxt idx (idx, Map.empty, [], 0)"
    using assms by (simp add: pass1_inv_def index_inv_def plan_ok_def only_new_def)
  show "\<forall>p \<in> dom (minfos idx). 0 < refs idx p"
  proof
    fix p assume "p \<in> dom (minfos idx)"
    then obtain mi where "minfos idx p = Some mi" by blast
    then have "unat (refcount mi) = refs idx p" "refcount mi \<noteq> 0"
      using assms by (simp_all add: index_inv_def counts_ok_def)
    then show "0 < refs idx p" using unat_gt_0 [of "refcount mi"] by simp
  qed
qed

section \<open>Pass 1.5\<close>

definition miss_slots :: "PlanEntry list \<Rightarrow> u64 set" where
  "miss_slots plan = set (map master_blk (misses plan))"

text \<open>The state between the passes: slots are reserved for the pending objects.\<close>

definition staged ::
    "(byte list \<Rightarrow> digest) \<Rightarrow> byte list \<Rightarrow> u64 \<Rightarrow> u64 \<Rightarrow> Index \<Rightarrow> Index \<Rightarrow> PlanEntry list \<Rightarrow> bool" where
  "staged SHA512 buf start nxt idx0 idx plan \<longleftrightarrow>
     tables_ok (miss_infos plan) idx \<and> counts_ok (pins_of plan) idx \<and>
     slots_ok (miss_infos plan) (miss_slots plan) [] nxt idx \<and> plan_ok SHA512 buf start idx plan \<and>
     only_new (miss_infos plan) idx0 idx \<and> distinct (map master_blk (misses plan)) \<and>
     (\<forall>e \<in> set (misses plan). slot_of idx (info e) = master_blk e)"

text \<open>The part of an entry that the assignment of slots does not touch.\<close>

definition strip :: "PlanEntry \<Rightarrow> PlanKind \<times> u64 \<times> nat \<times> digest \<times> ptr" where
  "strip e = (kind e, logical_blk e, payload e, phash e, info e)"

lemma strip_eqD:
  assumes "strip e = strip f"
  shows "kind e = kind f" "logical_blk e = logical_blk f" "payload e = payload f" "phash e = phash f" "info e = info f"
    "is_miss e = is_miss f"
  using assms by (simp_all add: strip_def is_miss_def)

lemma strip_master_blk [simp]: "strip (e\<lparr>master_blk := b\<rparr>) = strip e"
  by (simp add: strip_def)

lemma map_strip_misses: "map strip plan' = map strip plan \<Longrightarrow> map strip (misses plan') = map strip (misses plan)"
proof (induction plan arbitrary: plan')
  case (Cons e plan)
  then obtain e' es where p: "plan' = e' # es" "strip e' = strip e" "map strip es = map strip plan"
    by (cases plan') auto
  then show ?case using Cons.IH [OF p(3)] strip_eqD(6) [OF p(2)] by simp
qed simp

lemma map_strip_cong:
  assumes "map strip plan' = map strip plan"
  shows "map info plan' = map info plan" "map info (misses plan') = map info (misses plan)"
    "map phash (misses plan') = map phash (misses plan)" "length plan' = length plan"
    "pins_of plan' = pins_of plan" "miss_infos plan' = miss_infos plan" "length (misses plan') = length (misses plan)"
    "k < length plan \<Longrightarrow> strip (plan' ! k) = strip (plan ! k)"
proof -
  have proj: "map info xs = map (\<lambda>(k, l, p, h, i). i) (map strip xs)" "map phash xs = map (\<lambda>(k, l, p, h, i). h) (map strip xs)"
    for xs by (simp_all add: strip_def)
  show i: "map info plan' = map info plan" by (simp only: proj assms)
  show m: "map info (misses plan') = map info (misses plan)" by (simp only: proj map_strip_misses [OF assms])
  show "map phash (misses plan') = map phash (misses plan)" by (simp only: proj map_strip_misses [OF assms])
  show len: "length plan' = length plan" using assms by (rule map_eq_imp_length_eq)
  show "pins_of plan' = pins_of plan" by (simp add: pins_of_def i fun_eq_iff)
  show "miss_infos plan' = miss_infos plan" unfolding miss_infos_def m ..
  show "length (misses plan') = length (misses plan)" using map_strip_misses [OF assms] by (rule map_eq_imp_length_eq)
  show "k < length plan \<Longrightarrow> strip (plan' ! k) = strip (plan ! k)" using assms len by (metis nth_map)
qed

lemma all_of_map: "map f xs = map f ys \<Longrightarrow> (\<forall>x \<in> set xs. P (f x)) \<longleftrightarrow> (\<forall>y \<in> set ys. P (f y))"
proof -
  assume "map f xs = map f ys"
  then have "set (map f xs) = set (map f ys)" by (rule arg_cong)
  then have "f ` set xs = f ` set ys" unfolding set_map .
  then have "(\<forall>z \<in> f ` set xs. P z) \<longleftrightarrow> (\<forall>z \<in> f ` set ys. P z)" by (rule arg_cong)
  then show ?thesis by simp
qed

lemma plan_ok_strip:
  assumes "map strip plan' = map strip plan" and "plan_ok SHA512 buf start idx plan"
  shows "plan_ok SHA512 buf start idx plan'"
proof -
  note c = map_strip_cong [OF assms(1)]
  have "entry_ok SHA512 buf start idx k (plan' ! k)" if "k < length plan'" for k
  proof -
    have k: "k < length plan" using that c(4) by simp
    then have "entry_ok SHA512 buf start idx k (plan ! k)" using assms(2) by (simp add: plan_ok_def)
    then show ?thesis unfolding entry_ok_def strip_eqD [OF c(8) [OF k]] .
  qed
  moreover have "\<forall>e \<in> set (misses plan'). hash_to_master idx (phash e) = None"
    using assms(2) all_of_map [OF c(3), of "\<lambda>h. hash_to_master idx h = None"] unfolding plan_ok_def by simp
  moreover have "\<forall>e \<in> set plan'. info e \<in> miss_infos plan \<or> 0 < refs idx (info e)"
    using assms(2) all_of_map [OF c(1), of "\<lambda>i. i \<in> miss_infos plan \<or> 0 < refs idx i"] unfolding plan_ok_def by simp
  ultimately show ?thesis using assms(2) c by (simp add: plan_ok_def)
qed

lemma assign_blocks_spec:
  assumes "distinct (map info (misses plan))" and "miss_infos plan \<subseteq> pend" and "pend \<subseteq> dom (minfos idx)"
    and "length blks = length (misses plan)"
  shows "\<exists>idx' plan'. assign_blocks idx plan blks = Some (idx', plan') \<and> map strip plan' = map strip plan \<and>
    map master_blk (misses plan') = blks \<and> (\<forall>e \<in> set (misses plan'). slot_of idx' (info e) = master_blk e) \<and>
    (\<forall>p. p \<notin> miss_infos plan \<longrightarrow> minfos idx' p = minfos idx p) \<and>
    (\<forall>p. map_option info_hash (minfos idx' p) = map_option info_hash (minfos idx p)) \<and>
    idx'\<lparr>minfos := Map.empty\<rparr> = idx\<lparr>minfos := Map.empty\<rparr> \<and>
    (tables_ok pend idx \<longrightarrow> tables_ok pend idx') \<and> (counts_ok pins idx \<longrightarrow> counts_ok pins idx') \<and>
    (slots_ok pend resv rel nxt idx \<longrightarrow> slots_ok pend resv rel nxt idx')"
  using assms
proof (induction plan arbitrary: idx blks)
  case Nil
  then show ?case by simp
next
  case (Cons e plan)
  show ?case
  proof (cases "is_miss e")
    case False
    then obtain idx' plan' where "assign_blocks idx plan blks = Some (idx', plan')" "map strip plan' = map strip plan"
      and "map master_blk (misses plan') = blks \<and> (\<forall>e \<in> set (misses plan'). slot_of idx' (info e) = master_blk e) \<and>
    (\<forall>p. p \<notin> miss_infos plan \<longrightarrow> minfos idx' p = minfos idx p) \<and>
    (\<forall>p. map_option info_hash (minfos idx' p) = map_option info_hash (minfos idx p)) \<and>
    idx'\<lparr>minfos := Map.empty\<rparr> = idx\<lparr>minfos := Map.empty\<rparr> \<and>
    (tables_ok pend idx \<longrightarrow> tables_ok pend idx') \<and> (counts_ok pins idx \<longrightarrow> counts_ok pins idx') \<and>
    (slots_ok pend resv rel nxt idx \<longrightarrow> slots_ok pend resv rel nxt idx')"
      using Cons.IH [of idx blks] Cons.prems by auto
    then show ?thesis using False by (auto simp: is_miss_def)
  next
    case True
    then obtain b bs where b: "blks = b # bs" using Cons.prems(4) by (cases blks) auto
    have ie: "info e \<in> pend" "info e \<notin> miss_infos plan"
      using True Cons.prems(1,2) by (auto simp: miss_infos_def)
    then obtain mi where mi: "minfos idx (info e) = Some mi" using Cons.prems(3) by blast
    let ?i = "info_set idx (info e) (mi\<lparr>masterBlockIndex := b\<rparr>)"
    note step = pend_info_set_step [OF mi ie(1), of "mi\<lparr>masterBlockIndex := b\<rparr>"]
    have prem: "distinct (map info (misses plan))" "miss_infos plan \<subseteq> pend" "pend \<subseteq> dom (minfos ?i)"
        "length bs = length (misses plan)"
      using Cons.prems True b by auto
    obtain idx' plan' where IH: "assign_blocks ?i plan bs = Some (idx', plan')" "map strip plan' = map strip plan"
      "map master_blk (misses plan') = bs" "\<forall>e \<in> set (misses plan'). slot_of idx' (info e) = master_blk e"
      "\<forall>p. p \<notin> miss_infos plan \<longrightarrow> minfos idx' p = minfos ?i p"
      "\<forall>p. map_option info_hash (minfos idx' p) = map_option info_hash (minfos ?i p)"
      "idx'\<lparr>minfos := Map.empty\<rparr> = ?i\<lparr>minfos := Map.empty\<rparr>"
      "tables_ok pend ?i \<longrightarrow> tables_ok pend idx'" "counts_ok pins ?i \<longrightarrow> counts_ok pins idx'"
      "slots_ok pend resv rel nxt ?i \<longrightarrow> slots_ok pend resv rel nxt idx'"
      using Cons.IH [of ?i bs, OF prem] by blast
    have "minfos idx' (info e) = Some (mi\<lparr>masterBlockIndex := b\<rparr>)" using IH(5) ie(2) by simp
    then have so: "slot_of idx' (info e) = b" by simp
    have ms: "is_miss (e\<lparr>master_blk := b\<rparr>)" using True by (simp add: is_miss_def)
    let ?plan' = "e\<lparr>master_blk := b\<rparr> # plan'"
    have run: "assign_blocks idx (e # plan) blks = Some (idx', ?plan')"
      using IH(1) True mi b by (simp add: is_miss_def)
    have hashes: "map_option info_hash (minfos idx' p) = map_option info_hash (minfos idx p)" for p
      using IH(6) [rule_format, of p] mi by auto
    have same: "idx'\<lparr>minfos := Map.empty\<rparr> = idx\<lparr>minfos := Map.empty\<rparr>"
      using IH(7) by (simp add: info_set_def)
    have "tables_ok pend idx \<longrightarrow> tables_ok pend idx'" "counts_ok pins idx \<longrightarrow> counts_ok pins idx'"
      "slots_ok pend resv rel nxt idx \<longrightarrow> slots_ok pend resv rel nxt idx'"
      using IH(8-10) step by simp_all
    moreover have "\<forall>p. p \<notin> miss_infos (e # plan) \<longrightarrow> minfos idx' p = minfos idx p"
      using IH(5) True by simp
    moreover have "\<forall>f \<in> set (misses ?plan'). slot_of idx' (info f) = master_blk f"
      using IH(4) so ms by simp
    moreover have "map master_blk (misses ?plan') = blks" "map strip ?plan' = map strip (e # plan)"
      using IH(2,3) ms b by simp_all
    ultimately show ?thesis using run hashes same by blast
  qed
qed

lemma plan_ok_cong:
  assumes "plan_ok SHA512 buf start idx plan"
    and "\<forall>p. map_option info_hash (minfos idx' p) = map_option info_hash (minfos idx p)"
    and "hash_to_master idx' = hash_to_master idx" "file_to_master idx' = file_to_master idx"
  shows "plan_ok SHA512 buf start idx' plan"
proof -
  have "(\<exists>mi. minfos idx' p = Some mi \<and> info_hash mi = h) = (\<exists>mi. minfos idx p = Some mi \<and> info_hash mi = h)" for p h
    using assms(2) [rule_format, of p] by (cases "minfos idx p"; cases "minfos idx' p") auto
  then have "entry_ok SHA512 buf start idx' k e = entry_ok SHA512 buf start idx k e" for k e
    by (simp only: entry_ok_def)
  then show ?thesis using assms(1,3) refs_cong [OF assms(4)] by (simp add: plan_ok_def)
qed

lemma length_misses: "length (misses plan) \<le> length plan"
  by (simp add: misses_def)

lemma stage_spec:
  assumes inv: "pass1_inv SHA512 buf start nxt idx0 (idx, pending, plan, mc)" and b: "unat nxt + length plan < 2 ^ 64"
    and a: "allocate_batch_storage_first idx mc nxt = (idx1, nxt1, blks)"
  shows "\<exists>idx' plan'. assign_blocks idx1 plan blks = Some (idx', plan') \<and>
    staged SHA512 buf start nxt1 idx0 idx' plan' \<and> map strip plan' = map strip plan \<and>
    free_block_list idx' = drop mc (free_block_list idx0) \<and> unat nxt1 = unat nxt + (mc - length (free_block_list idx0))"
proof -
  note i = inv [unfolded pass1_inv_def prod.case]
  have t: "tables_ok (miss_infos plan) idx" and c: "counts_ok (pins_of plan) idx"
    and s: "slots_ok (miss_infos plan) {} [] nxt idx" and po: "plan_ok SHA512 buf start idx plan"
    and o: "only_new (miss_infos plan) idx0 idx" and mc: "mc = length (misses plan)"
    using i by blast+
  have "unat nxt + mc < 2 ^ 64" using b mc length_misses [of plan] by linarith
  note al = allocate_spec [OF a s this]
  have i1: "idx1 = idx\<lparr>free_block_list := drop mc (free_block_list idx)\<rparr>" using a by (simp add: allocate_eq)
  have t1: "tables_ok (miss_infos plan) idx1" using t by (simp add: i1 tables_ok_def published_def)
  have c1: "counts_ok (pins_of plan) idx1" using c by (simp add: i1 counts_ok_def refs_def)
  have "distinct (map info (misses plan))" using po by (simp add: plan_ok_def)
  moreover have "length blks = length (misses plan)" using al(2) mc by simp
  ultimately have "\<exists>idx' plan'. assign_blocks idx1 plan blks = Some (idx', plan') \<and> map strip plan' = map strip plan \<and>
    map master_blk (misses plan') = blks \<and> (\<forall>e \<in> set (misses plan'). slot_of idx' (info e) = master_blk e) \<and>
    (\<forall>p. p \<notin> miss_infos plan \<longrightarrow> minfos idx' p = minfos idx1 p) \<and>
    (\<forall>p. map_option info_hash (minfos idx' p) = map_option info_hash (minfos idx1 p)) \<and>
    idx'\<lparr>minfos := Map.empty\<rparr> = idx1\<lparr>minfos := Map.empty\<rparr> \<and>
    (tables_ok (miss_infos plan) idx1 \<longrightarrow> tables_ok (miss_infos plan) idx') \<and>
    (counts_ok (pins_of plan) idx1 \<longrightarrow> counts_ok (pins_of plan) idx') \<and>
    (slots_ok (miss_infos plan) (set blks) [] nxt1 idx1 \<longrightarrow> slots_ok (miss_infos plan) (set blks) [] nxt1 idx')"
    by (intro assign_blocks_spec subset_refl tables_ok_pend [OF t1])
  then obtain idx' plan' where as: "assign_blocks idx1 plan blks = Some (idx', plan')" "map strip plan' = map strip plan"
    and ms: "map master_blk (misses plan') = blks" "\<forall>e \<in> set (misses plan'). slot_of idx' (info e) = master_blk e"
    and old: "\<forall>p. p \<notin> miss_infos plan \<longrightarrow> minfos idx' p = minfos idx1 p"
      "\<forall>p. map_option info_hash (minfos idx' p) = map_option info_hash (minfos idx1 p)"
      "idx'\<lparr>minfos := Map.empty\<rparr> = idx1\<lparr>minfos := Map.empty\<rparr>"
    and ok: "tables_ok (miss_infos plan) idx'" "counts_ok (pins_of plan) idx'"
      "slots_ok (miss_infos plan) (set blks) [] nxt1 idx'"
    using al(1) t1 c1 by blast
  note sc = map_strip_cong [OF as(2)]
  have f: "file_to_master idx' = file_to_master idx1" "hash_to_master idx' = hash_to_master idx1"
    "file_to_sizes idx' = file_to_sizes idx1" "free_block_list idx' = free_block_list idx1"
    using old(3) by (cases idx', cases idx1, simp)+
  have "plan_ok SHA512 buf start idx' plan"
    using plan_ok_cong [OF po, of idx'] old(2) f by (simp add: i1)
  then have "plan_ok SHA512 buf start idx' plan'" by (rule plan_ok_strip [OF as(2)])
  moreover have "only_new (miss_infos plan) idx0 idx'"
    using o f old(1) by (simp add: only_new_def i1)
  ultimately have "staged SHA512 buf start nxt1 idx0 idx' plan'"
    using ok ms al(3) unfolding staged_def sc miss_slots_def by blast
  then show ?thesis using as al(4) f(4) i1 i by auto
qed

end
