(* ===== verification/Write_Flush.thy ===== *)
theory Write_Flush
  imports Write_Plan
begin

text \<open>
  Pass 2 of \<^verbatim>\<open>write_dedup\<close>: \<^verbatim>\<open>flush_plan\<close> writes the payloads of the MISS entries to their slots of
  the master file, one \<^verbatim>\<open>pwrite\<close> per run of consecutive entries with consecutive slots. The theorem
  covers every outcome of the calls: on success all payloads are in place, and in every case no
  block outside the reserved slots changes.
\<close>

section \<open>Model\<close>

function skip_hits :: "PlanEntry list \<Rightarrow> nat \<Rightarrow> nat" where
  "skip_hits plan i = (if i < length plan \<and> kind (plan ! i) = PLAN_HIT then skip_hits plan (Suc i) else i)"
  by pat_completeness auto
termination by (relation "measure (\<lambda>(plan, i). length plan - i)") auto

text \<open>The loop that extends a run; \<open>i\<close> is the position after the run so far.\<close>

function run_extend :: "PlanEntry list \<Rightarrow> nat \<Rightarrow> nat" where
  "run_extend plan i =
     (if i < length plan \<and> kind (plan ! i) = PLAN_MISS \<and> master_blk (plan ! i) = master_blk (plan ! (i - 1)) + 1
      then run_extend plan (Suc i) else i)"
  by pat_completeness auto
termination by (relation "measure (\<lambda>(plan, i). length plan - i)") auto

declare skip_hits.simps [simp del] run_extend.simps [simp del]

lemma skip_hits_ge: "i \<le> skip_hits plan i"
proof (induction plan i rule: skip_hits.induct)
  case (1 plan i)
  then show ?case by (subst skip_hits.simps) (auto dest: Suc_leD)
qed

lemma run_extend_ge: "i \<le> run_extend plan i"
proof (induction plan i rule: run_extend.induct)
  case (1 plan i)
  then show ?case
    by (subst run_extend.simps) (auto dest: Suc_leD)
qed

text \<open>Result: the return value, the master file and the outcomes left. \<open>None\<close>: a payload outside
  the caller's buffer.\<close>

function flush_plan ::
    "byte list \<Rightarrow> byte list \<Rightarrow> PlanEntry list \<Rightarrow> nat \<Rightarrow> io_outcome list \<Rightarrow> (int \<times> byte list \<times> io_outcome list) option" where
  "flush_plan master buf plan i io =
     (let run_start = skip_hits plan i
      in if run_start \<ge> length plan then Some (0, master, io)
         else
           let i' = run_extend plan (Suc run_start);
               run_len = i' - run_start;
               offset = master_blk (plan ! run_start) * BLOCK_SIZE64;
               bytes = run_len * BLOCK_SIZE;
               d = take bytes (drop (payload (plan ! run_start)) buf);
               (out, io') = next_io io
           in if length d \<noteq> bytes then None
              else
                let (master', written, errno) = pwrite out master d offset
                in if written \<noteq> int bytes
                   then Some (if written < 0 then - errno else - EIO, master', io')
                   else flush_plan master' buf plan i' io')"
  by pat_completeness auto
termination
proof (relation "measure (\<lambda>(master, buf, plan, i, io). length plan - i)", goal_cases)
  case (2 master buf plan i io r i')
  then show ?case using skip_hits_ge [of i plan] run_extend_ge [of "Suc r" plan] by simp
qed simp

declare flush_plan.simps [simp del]

section \<open>The loops\<close>

lemma skip_hits_spec:
  assumes "i \<le> length plan"
  shows "skip_hits plan i \<le> length plan \<and> (\<forall>k. i \<le> k \<longrightarrow> k < skip_hits plan i \<longrightarrow> \<not> is_miss (plan ! k)) \<and>
    (skip_hits plan i < length plan \<longrightarrow> is_miss (plan ! skip_hits plan i))"
  using assms
proof (induction plan i rule: skip_hits.induct)
  case (1 plan i)
  show ?case
  proof (cases "i < length plan \<and> kind (plan ! i) = PLAN_HIT")
    case True
    then have r: "skip_hits plan i = skip_hits plan (Suc i)" by (simp add: skip_hits.simps [of plan i])
    have "\<not> is_miss (plan ! k)" if "i \<le> k" "k < skip_hits plan (Suc i)" for k
      using 1 True that by (cases "k = i") (auto simp: is_miss_def)
    then show ?thesis using 1 True r by simp
  next
    case False
    then show ?thesis using 1 PlanKind.exhaust [of "kind (plan ! i)"]
      by (auto simp: skip_hits.simps [of plan i] is_miss_def)
  qed
qed

lemma run_extend_spec:
  assumes "i \<le> length plan"
  shows "run_extend plan i \<le> length plan \<and>
    (\<forall>k. i \<le> k \<longrightarrow> k < run_extend plan i \<longrightarrow>
       is_miss (plan ! k) \<and> master_blk (plan ! k) = master_blk (plan ! (k - 1)) + 1)"
  using assms
proof (induction plan i rule: run_extend.induct)
  case (1 plan i)
  let ?c = "i < length plan \<and> kind (plan ! i) = PLAN_MISS \<and> master_blk (plan ! i) = master_blk (plan ! (i - 1)) + 1"
  show ?case
  proof (cases ?c)
    case True
    then have r: "run_extend plan i = run_extend plan (Suc i)" by (simp add: run_extend.simps [of plan i])
    have "Suc i \<le> length plan" using True by simp
    note IH = "1.IH" [OF True this]
    have "is_miss (plan ! k) \<and> master_blk (plan ! k) = master_blk (plan ! (k - 1)) + 1"
      if "i \<le> k" "k < run_extend plan (Suc i)" for k
    proof (cases "k = i")
      case False
      then have "Suc i \<le> k" using that by simp
      then show ?thesis using IH that by blast
    qed (use True in \<open>simp add: is_miss_def\<close>)
    then show ?thesis unfolding r using IH by blast
  next
    case False
    then have "run_extend plan i = i" by (simp only: run_extend.simps [of plan i] if_False)
    then show ?thesis using "1.prems" by simp
  qed
qed

text \<open>The slots of a run are consecutive numbers.\<close>

lemma run_slots:
  assumes small: "\<forall>e \<in> set plan. is_miss e \<longrightarrow> unat (master_blk e) < MAX_BLOCKS"
    and s: "s < length plan" "is_miss (plan ! s)" and k: "s \<le> k" "k < run_extend plan (Suc s)"
  shows "is_miss (plan ! k) \<and> unat (master_blk (plan ! k)) = unat (master_blk (plan ! s)) + (k - s)"
  using k
proof (induction "k - s" arbitrary: k)
  case 0
  then show ?case using s by simp
next
  case (Suc d)
  have e: "run_extend plan (Suc s) \<le> length plan"
    "is_miss (plan ! k)" "master_blk (plan ! k) = master_blk (plan ! (k - 1)) + 1"
    using run_extend_spec [of "Suc s" plan] s Suc.hyps(2) Suc.prems(2) by simp_all
  have IH: "is_miss (plan ! (k - 1)) \<and> unat (master_blk (plan ! (k - 1))) = unat (master_blk (plan ! s)) + (k - 1 - s)"
    using Suc by (intro Suc.hyps) auto
  have "unat (master_blk (plan ! (k - 1))) < MAX_BLOCKS"
    using small IH e(1) Suc.prems(2) by (metis less_imp_diff_less nth_mem order_less_le_trans)
  then have "unat (master_blk (plan ! k)) = unat (master_blk (plan ! (k - 1))) + 1"
    unfolding e(3) by (intro unat_plus_one) simp
  then show ?case using IH e(2) Suc by simp
qed

section \<open>Correctness of the flush\<close>

lemma block_at_segment:
  assumes "q < m"
  shows "block_at (take (m * BLOCK_SIZE) (drop (i * BLOCK_SIZE) buf)) q = block_at buf (i + q)"
proof -
  have "BLOCK_SIZE + q * BLOCK_SIZE \<le> m * BLOCK_SIZE" using mult_le_mono1 [of "Suc q" m BLOCK_SIZE] assms by simp
  then show ?thesis by (simp add: block_at_def drop_take min_def algebra_simps)
qed

lemma distinct_misses_inj:
  assumes "distinct (map f (misses plan))" "i < length plan" "j < length plan" "is_miss (plan ! i)" "is_miss (plan ! j)"
    "f (plan ! i) = f (plan ! j)"
  shows "i = j"
proof -
  have inj: "inj_on f (set (misses plan))" and d: "distinct (misses plan)"
    using assms(1) by (simp_all add: distinct_map)
  have eq: "plan ! i = plan ! j"
    using inj assms by (intro inj_onD [OF inj]) simp_all
  have "misses plan = map (nth plan) (filter (\<lambda>k. is_miss (plan ! k)) [0..<length plan])"
    unfolding misses_def by (metis filter_map map_nth o_def filter_cong)
  then have "inj_on (nth plan) {k. k < length plan \<and> is_miss (plan ! k)}"
    using d by (auto simp: distinct_map inj_on_def)
  then show ?thesis using eq assms(2-5) by (auto dest: inj_onD)
qed

text \<open>What the calls do to the master file, for the entries from \<open>i\<close> on.\<close>

definition flushed :: "byte list \<Rightarrow> PlanEntry list \<Rightarrow> nat \<Rightarrow> byte list \<Rightarrow> bool" where
  "flushed buf plan i master' \<longleftrightarrow>
     (\<forall>k. i \<le> k \<longrightarrow> k < length plan \<longrightarrow> is_miss (plan ! k) \<longrightarrow>
        block_at master' (unat (master_blk (plan ! k))) = block_at buf k)"

definition untouched :: "byte list \<Rightarrow> PlanEntry list \<Rightarrow> nat \<Rightarrow> byte list \<Rightarrow> bool" where
  "untouched master plan i master' \<longleftrightarrow>
     (\<forall>j. length (block_at master j) = BLOCK_SIZE \<longrightarrow>
        (\<forall>k. i \<le> k \<longrightarrow> k < length plan \<longrightarrow> is_miss (plan ! k) \<longrightarrow> j \<noteq> unat (master_blk (plan ! k))) \<longrightarrow>
        block_at master' j = block_at master j)"

text \<open>\<^verbatim>\<open>errno\<close> is positive after a failed call.\<close>

definition errno_contract :: "io_outcome list \<Rightarrow> bool" where
  "errno_contract io \<longleftrightarrow> (\<forall>e. IoErr e \<in> set io \<longrightarrow> 0 < e)"

lemma run_write:
  assumes small: "\<forall>e \<in> set plan. is_miss e \<longrightarrow> unat (master_blk e) < MAX_BLOCKS"
    and pay: "\<forall>k < length plan. payload (plan ! k) = k * BLOCK_SIZE" and len: "length plan * BLOCK_SIZE \<le> length buf"
    and s: "s < length plan" "is_miss (plan ! s)"
  defines "j \<equiv> run_extend plan (Suc s)"
  defines "d \<equiv> take ((j - s) * BLOCK_SIZE) (drop (payload (plan ! s)) buf)"
  assumes w: "pwrite out master d (master_blk (plan ! s) * BLOCK_SIZE64) = (master', w, e)"
  shows "length d = (j - s) * BLOCK_SIZE" "untouched master plan s master'"
    "w = int (length d) \<Longrightarrow> s \<le> k \<Longrightarrow> k < j \<Longrightarrow> block_at master' (unat (master_blk (plan ! k))) = block_at buf k"
    "out = IoOk \<Longrightarrow> w = int (length d)"
proof -
  let ?m = "unat (master_blk (plan ! s))"
  have m: "?m < MAX_BLOCKS" using small s by simp
  then have off: "unat (master_blk (plan ! s) * BLOCK_SIZE64) = ?m * BLOCK_SIZE"
    "0 \<le> sint (master_blk (plan ! s) * BLOCK_SIZE64)"
    using unat_mult_BLOCK_SIZE [of "master_blk (plan ! s)"] sint_mult_BLOCK_SIZE_nonneg by simp_all
  have j: "Suc s \<le> j" "j \<le> length plan"
    unfolding j_def using run_extend_ge run_extend_spec [of "Suc s" plan] s by auto
  have run: "is_miss (plan ! k) \<and> unat (master_blk (plan ! k)) = ?m + (k - s)" if "s \<le> k" "k < j" for k
    using run_slots [OF small s that(1)] that(2) by (simp add: j_def)
  have "j * BLOCK_SIZE \<le> length buf" using j(2) len by (meson le_trans mult_le_mono1)
  then show ld: "length d = (j - s) * BLOCK_SIZE"
    unfolding d_def using pay s by (simp add: diff_mult_distrib)
  obtain c where c: "master' = overlay master (?m * BLOCK_SIZE) (take c d)"
      "w = int (length d) \<Longrightarrow> master' = overlay master (?m * BLOCK_SIZE) d" "out = IoOk \<Longrightarrow> w = int (length d)"
    using pwrite_cases [OF w off(2)] unfolding off(1) by metis
  then show "out = IoOk \<Longrightarrow> w = int (length d)" by blast
  show "untouched master plan s master'"
    unfolding untouched_def
  proof (intro allI impI)
    fix q assume q: "length (block_at master q) = BLOCK_SIZE"
      and nq: "\<forall>k. s \<le> k \<longrightarrow> k < length plan \<longrightarrow> is_miss (plan ! k) \<longrightarrow> q \<noteq> unat (master_blk (plan ! k))"
    have "q < ?m \<or> ?m + (j - s) \<le> q"
    proof (rule ccontr)
      assume "\<not> ?thesis"
      then have k: "s \<le> s + (q - ?m)" "s + (q - ?m) < j" "q = ?m + (s + (q - ?m) - s)" by linarith+
      with run nq j(2) show False by (metis order_less_le_trans)
    qed
    then show "block_at master' q = block_at master q"
      unfolding c(1) using ld q by (intro block_at_overlay_other [where k = "j - s"]) simp_all
  qed
  show "block_at master' (unat (master_blk (plan ! k))) = block_at buf k"
    if "w = int (length d)" "s \<le> k" "k < j"
  proof -
    have "block_at master' (?m + (k - s)) = block_at d (?m + (k - s) - ?m)"
      unfolding c(2) [OF that(1)] using that by (intro block_at_overlay_same [OF ld]) simp_all
    also have "\<dots> = block_at buf (s + (k - s))"
      unfolding d_def using pay s that by (simp add: block_at_segment)
    finally show ?thesis using run [OF that(2,3)] that by simp
  qed
qed

lemma untouched_mono: "untouched master plan j master' \<Longrightarrow> i \<le> j \<Longrightarrow> untouched master plan i master'"
  by (simp add: untouched_def)

lemma untouched_trans:
  assumes "untouched master plan i master1" "untouched master1 plan i master2"
  shows "untouched master plan i master2"
  using assms unfolding untouched_def by presburger

lemma pwrite_errno:
  assumes "pwrite out f d off = (f', w, e)" "0 \<le> sint off" "w < 0"
  shows "out = IoErr e"
  using assms by (auto simp: pwrite_def split: io_outcome.splits)

lemma next_io_mem: "next_io io = (out, io') \<Longrightarrow> out = IoOk \<or> out \<in> set io"
  by (cases io) auto

lemma next_io_contract:
  "next_io io = (out, io') \<Longrightarrow> errno_contract io \<Longrightarrow> errno_contract io' \<and> (\<forall>e. out = IoErr e \<longrightarrow> 0 < e)"
  by (cases io) (auto simp: errno_contract_def)

lemma flush_plan_spec:
  assumes small: "\<forall>e \<in> set plan. is_miss e \<longrightarrow> unat (master_blk e) < MAX_BLOCKS"
    and pay: "\<forall>k < length plan. payload (plan ! k) = k * BLOCK_SIZE" and len: "length plan * BLOCK_SIZE \<le> length buf"
    and dist: "distinct (map master_blk (misses plan))" and i: "i \<le> length plan"
  shows "\<exists>r master' io'. flush_plan master buf plan i io = Some (r, master', io') \<and> untouched master plan i master' \<and>
    (errno_contract io \<longrightarrow> r < 0 \<or> r = 0 \<and> flushed buf plan i master') \<and> (io = [] \<longrightarrow> r = 0)"
  using i
proof (induction "length plan - i" arbitrary: i master io rule: less_induct)
  case less
  let ?s = "skip_hits plan i"
  note sk = skip_hits_spec [OF less.prems]
  show ?case
  proof (cases "?s < length plan")
    case False
    then have "flush_plan master buf plan i io = Some (0, master, io)"
      by (simp add: flush_plan.simps [of master buf plan i io])
    moreover have "flushed buf plan i master"
      using sk False unfolding flushed_def by (metis linorder_not_le order_trans)
    ultimately show ?thesis by (simp add: untouched_def)
  next
    case True
    then have s: "?s < length plan" "is_miss (plan ! ?s)" using sk by simp_all
    let ?j = "run_extend plan (Suc ?s)"
    let ?d = "take ((?j - ?s) * BLOCK_SIZE) (drop (payload (plan ! ?s)) buf)"
    let ?off = "master_blk (plan ! ?s) * BLOCK_SIZE64"
    obtain out io1 where n: "next_io io = (out, io1)" by force
    obtain master1 w e where w: "pwrite out master ?d ?off = (master1, w, e)" by (metis prod_cases3)
    note rw = run_write [OF small pay len s w]
    have unf: "flush_plan master buf plan i io =
        (if w \<noteq> int ((?j - ?s) * BLOCK_SIZE) then Some (if w < 0 then - e else - EIO, master1, io1)
         else flush_plan master1 buf plan ?j io1)"
      using True n w rw(1) by (simp add: flush_plan.simps [of master buf plan i io] Let_def)
    have ge: "i \<le> ?s" "Suc ?s \<le> ?j" "?j \<le> length plan"
      using skip_hits_ge run_extend_ge run_extend_spec [of "Suc ?s" plan] s by auto
    have ut: "untouched master plan i master1" by (rule untouched_mono [OF rw(2) ge(1)])
    have nonneg: "0 \<le> sint ?off" using small s by (intro sint_mult_BLOCK_SIZE_nonneg) simp
    show ?thesis
    proof (cases "w = int ((?j - ?s) * BLOCK_SIZE)")
      case False
      have "errno_contract io \<longrightarrow> (if w < 0 then - e else - EIO) < 0"
        using pwrite_errno [OF w nonneg] next_io_contract [OF n] by (auto simp: EIO_def)
      moreover have "io \<noteq> []" using False rw(1,4) n by auto
      ultimately show ?thesis using False unf ut by simp
    next
      case True
      have jm: "length plan - ?j < length plan - i" using ge s by simp
      obtain r master' io' where IH: "flush_plan master1 buf plan ?j io1 = Some (r, master', io')"
        "untouched master1 plan ?j master'" "errno_contract io1 \<longrightarrow> r < 0 \<or> r = 0 \<and> flushed buf plan ?j master'"
        "io1 = [] \<longrightarrow> r = 0"
        using less.hyps [OF jm ge(3)] by blast
      have ut': "untouched master plan i master'"
        using untouched_trans [OF ut untouched_mono [OF IH(2), of i]] ge by simp
      have fl: "flushed buf plan i master'" if f: "flushed buf plan ?j master'"
        unfolding flushed_def
      proof (intro allI impI)
        fix k assume k: "i \<le> k" "k < length plan" "is_miss (plan ! k)"
        show "block_at master' (unat (master_blk (plan ! k))) = block_at buf k"
        proof (cases "?j \<le> k")
          case True
          then show ?thesis using f k by (simp add: flushed_def)
        next
          case False
          moreover have sle: "?s \<le> k" using sk k by (meson linorder_not_le)
          ultimately have b1: "block_at master1 (unat (master_blk (plan ! k))) = block_at buf k"
            using rw(1,3) True by simp
          have "Suc k * BLOCK_SIZE \<le> length buf" using k(2) len by (meson Suc_leI le_trans mult_le_mono1)
          then have "length (block_at master1 (unat (master_blk (plan ! k)))) = BLOCK_SIZE"
            unfolding b1 full_block_iff .
          moreover have "unat (master_blk (plan ! k)) \<noteq> unat (master_blk (plan ! l))"
            if "?j \<le> l" "l < length plan" "is_miss (plan ! l)" for l
            using distinct_misses_inj [OF dist k(2) that(2) k(3) that(3)] that(1) False by (auto simp: u64_eq_iff_unat)
          ultimately show ?thesis using IH(2) b1 unfolding untouched_def by simp
        qed
      qed
      show ?thesis
        using unf True IH ut' fl next_io_contract [OF n] n by (cases io) auto
    qed
  qed
qed

text \<open>The calls never shrink the file and never write beyond the last slot of the plan.\<close>

lemma flush_plan_length:
  assumes small: "\<forall>e \<in> set plan. is_miss e \<longrightarrow> unat (master_blk e) < M" and M: "M \<le> MAX_BLOCKS"
    and pay: "\<forall>k < length plan. payload (plan ! k) = k * BLOCK_SIZE" and len: "length plan * BLOCK_SIZE \<le> length buf"
    and i: "i \<le> length plan" and run: "flush_plan master buf plan i io = Some (r, master', io')"
  shows "length master \<le> length master' \<and> length master' \<le> max (length master) (M * BLOCK_SIZE)"
  using i run
proof (induction "length plan - i" arbitrary: i master io rule: less_induct)
  case less
  let ?s = "skip_hits plan i"
  show ?case
  proof (cases "?s < length plan")
    case False
    then show ?thesis using less.prems by (simp add: flush_plan.simps [of master buf plan i io])
  next
    case True
    have s: "?s < length plan" "is_miss (plan ! ?s)" using skip_hits_spec [OF less.prems(1)] True by simp_all
    let ?j = "run_extend plan (Suc ?s)"
    let ?d = "take ((?j - ?s) * BLOCK_SIZE) (drop (payload (plan ! ?s)) buf)"
    let ?off = "master_blk (plan ! ?s) * BLOCK_SIZE64" and ?m = "unat (master_blk (plan ! ?s))"
    have small': "\<forall>e \<in> set plan. is_miss e \<longrightarrow> unat (master_blk e) < MAX_BLOCKS" using small M by fastforce
    obtain out io1 where n: "next_io io = (out, io1)" by force
    obtain master1 w e where w: "pwrite out master ?d ?off = (master1, w, e)" by (metis prod_cases3)
    note rw = run_write [OF small' pay len s w]
    have unf: "flush_plan master buf plan i io =
        (if w \<noteq> int ((?j - ?s) * BLOCK_SIZE) then Some (if w < 0 then - e else - EIO, master1, io1)
         else flush_plan master1 buf plan ?j io1)"
      using True n w rw(1) by (simp add: flush_plan.simps [of master buf plan i io] Let_def)
    have ge: "i \<le> ?s" "Suc ?s \<le> ?j" "?j \<le> length plan"
      using skip_hits_ge run_extend_ge run_extend_spec [of "Suc ?s" plan] s by auto
    have lst: "is_miss (plan ! (?j - 1)) \<and> unat (master_blk (plan ! (?j - 1))) = ?m + (?j - 1 - ?s)"
      using ge by (intro run_slots [OF small' s]) simp_all
    have pl: "plan ! (?j - 1) \<in> set plan" by (rule nth_mem) (use ge s in linarith)
    have "?m + (?j - ?s) \<le> M" using small [rule_format, OF pl] lst ge by linarith
    then have bd: "(?m + (?j - ?s)) * BLOCK_SIZE \<le> M * BLOCK_SIZE" by (rule mult_le_mono1)
    have "?m < MAX_BLOCKS" using small' s by simp
    then have off: "unat ?off = ?m * BLOCK_SIZE" "0 \<le> sint ?off"
      using unat_mult_BLOCK_SIZE [of "master_blk (plan ! ?s)"] sint_mult_BLOCK_SIZE_nonneg by simp_all
    obtain c where c: "master1 = overlay master (?m * BLOCK_SIZE) (take c ?d)"
      using pwrite_cases [OF w off(2)] unfolding off(1) by metis
    have "length master1 \<le> max (length master) (?m * BLOCK_SIZE + length ?d)"
      unfolding c length_overlay using length_take [of c ?d] by (auto simp: max_def min_def split: if_splits)
    also have "\<dots> \<le> max (length master) (M * BLOCK_SIZE)" using bd rw(1) by (simp add: add_mult_distrib)
    finally have l1: "length master1 \<le> max (length master) (M * BLOCK_SIZE)" .
    have l0: "length master \<le> length master1" unfolding c by (rule length_overlay_ge)
    show ?thesis
    proof (cases "w = int ((?j - ?s) * BLOCK_SIZE)")
      case False
      then show ?thesis using unf less.prems l0 l1 by simp
    next
      case True
      have "length master1 \<le> length master' \<and> length master' \<le> max (length master1) (M * BLOCK_SIZE)"
        using less.hyps [of ?j master1 io1] ge s unf True less.prems(2) by simp
      then show ?thesis using l0 l1 by auto
    qed
  qed
qed

end
