(* ===== verification/Dedup_Write.thy ===== *)
theory Dedup_Write
  imports Write_Flush
begin

text \<open>
  The rest of \<^verbatim>\<open>write_dedup\<close> in \<^verbatim>\<open>src/dedup.c\<close>: the rollback after a failed flush, the two loops of
  pass 3 (publish the new objects, then replace the mappings of the file), the logical size, and the
  public entry point that composes the passes.
\<close>

section \<open>Model\<close>

text \<open>\<^verbatim>\<open>rollback_allocations\<close>: give back the references of the HIT entries, then the slots and
  pending objects of the MISS entries.\<close>

fun rollback_hits :: "Index \<Rightarrow> PlanEntry list \<Rightarrow> u64 list \<Rightarrow> (Index \<times> u64 list) option" where
  "rollback_hits idx [] hit_slots = Some (idx, hit_slots)"
| "rollback_hits idx (e # plan) hit_slots =
     (if kind e \<noteq> PLAN_HIT then rollback_hits idx plan hit_slots
      else case release_info idx hit_slots (info e) of
             None \<Rightarrow> None
           | Some (idx', hit_slots') \<Rightarrow> rollback_hits idx' plan hit_slots')"

fun rollback_misses :: "Index \<Rightarrow> PlanEntry list \<Rightarrow> Index option" where
  "rollback_misses idx [] = Some idx"
| "rollback_misses idx (e # plan) =
     (if kind e = PLAN_MISS then
        (case info_free (idx\<lparr>free_block_list := master_blk e # free_block_list idx\<rparr>) (info e) of
           None \<Rightarrow> None
         | Some idx' \<Rightarrow> rollback_misses idx' plan)
      else rollback_misses idx plan)"

definition rollback_allocations :: "Index \<Rightarrow> PlanEntry list \<Rightarrow> Index option" where
  "rollback_allocations idx plan =
     (case rollback_hits idx plan [] of
        None \<Rightarrow> None
      | Some (idx', hit_slots) \<Rightarrow>
          rollback_misses
            (if hit_slots \<noteq> [] then idx'\<lparr>free_block_list := hit_slots @ free_block_list idx'\<rparr> else idx') plan)"

text \<open>First loop of pass 3: publish every pending object, unless its hash appeared meanwhile; then
  drop it and its slot and use the winner.\<close>

fun publish_pass :: "Index \<Rightarrow> PlanEntry list \<Rightarrow> u64 list \<Rightarrow> (Index \<times> PlanEntry list \<times> u64 list) option" where
  "publish_pass idx [] slots = Some (idx, [], slots)"
| "publish_pass idx (e # plan) slots =
     (if kind e \<noteq> PLAN_MISS then
        map_option (\<lambda>(i, p, s). (i, e # p, s)) (publish_pass idx plan slots)
      else
        (case minfos idx (info e) of
           None \<Rightarrow> None
         | Some mi \<Rightarrow>
             (case lookup_by_hash idx (info_hash mi) of
                Some winner \<Rightarrow>
                  (case info_free idx (info e) of
                     None \<Rightarrow> None
                   | Some idx1 \<Rightarrow>
                       (case refcount_inc idx1 winner of
                          None \<Rightarrow> None
                        | Some idx2 \<Rightarrow>
                            map_option (\<lambda>(i, p, s). (i, e\<lparr>info := winner\<rparr> # p, s))
                              (publish_pass idx2 plan (master_blk e # slots))))
              | None \<Rightarrow>
                  map_option (\<lambda>(i, p, s). (i, e # p, s))
                    (publish_pass (insert_hash idx (info_hash mi) (info e)) plan slots))))"

text \<open>Second loop of pass 3: the mapping of every logical block, releasing what it pointed to.\<close>

fun map_pass :: "Index \<Rightarrow> path \<Rightarrow> PlanEntry list \<Rightarrow> u64 list \<Rightarrow> (Index \<times> u64 list) option" where
  "map_pass idx path [] slots = Some (idx, slots)"
| "map_pass idx path (e # plan) slots =
     (case (case lookup_by_file_block idx path (logical_blk e) of
              None \<Rightarrow> Some (idx, slots)
            | Some old \<Rightarrow> release_info idx slots old) of
        None \<Rightarrow> None
      | Some (idx', slots') \<Rightarrow> map_pass (insert_file_block idx' path (logical_blk e) (info e)) path plan slots')"

definition update_size :: "Index \<Rightarrow> path \<Rightarrow> u64 \<Rightarrow> Index" where
  "update_size idx path new_end =
     (case file_to_sizes idx path of
        None \<Rightarrow> idx\<lparr>file_to_sizes := (file_to_sizes idx)(path \<mapsto> new_end)\<rparr>
      | Some logical_size \<Rightarrow>
          if new_end > logical_size then idx\<lparr>file_to_sizes := (file_to_sizes idx)(path \<mapsto> new_end)\<rparr> else idx)"

text \<open>The state a write works on: the index, the master file and \<^verbatim>\<open>nextBlockIndex\<close>.\<close>

type_synonym store = "Index \<times> byte list \<times> u64"

text \<open>Pass 1.5 and pass 2, skipped when nothing is new.\<close>

definition alloc_and_flush ::
    "io_outcome list \<Rightarrow> byte list \<Rightarrow> store \<Rightarrow> PlanEntry list \<Rightarrow> nat \<Rightarrow> (int \<times> PlanEntry list \<times> store) option" where
  "alloc_and_flush io buf st plan miss_count =
     (case st of (idx, master, nextBlockIndex) \<Rightarrow>
        if miss_count > 0 then
          (let (idx1, nxt, master_blks) = allocate_batch_storage_first idx miss_count nextBlockIndex
           in case assign_blocks idx1 plan master_blks of
                None \<Rightarrow> None
              | Some (idx2, plan') \<Rightarrow>
                  (case flush_plan master buf plan' 0 io of
                     None \<Rightarrow> None
                   | Some (rc, master', io') \<Rightarrow> Some (rc, plan', (idx2, master', nxt))))
        else Some (0, plan, st))"

definition write_pass3 :: "Index \<Rightarrow> path \<Rightarrow> PlanEntry list \<Rightarrow> u64 \<Rightarrow> Index option" where
  "write_pass3 idx path plan new_end =
     (case publish_pass idx plan [] of
        None \<Rightarrow> None
      | Some (idx1, plan', slots) \<Rightarrow>
          (case map_pass idx1 path plan' slots of
             None \<Rightarrow> None
           | Some (idx2, slots_to_release) \<Rightarrow>
               (let idx3 = update_size idx2 path new_end
                in Some (if slots_to_release \<noteq> [] then idx3\<lparr>free_block_list := slots_to_release @ free_block_list idx3\<rparr>
                         else idx3))))"

definition write_dedup ::
    "(byte list \<Rightarrow> digest) \<Rightarrow> io_outcome list \<Rightarrow> store \<Rightarrow> path \<Rightarrow> byte list \<Rightarrow> u64 \<Rightarrow> u64 \<Rightarrow> (int \<times> store) option" where
  "write_dedup SHA512 io st path buf sz offset =
     (case st of (idx, master, nextBlockIndex) \<Rightarrow>
        (if sz = 0 then Some (0, st)
         else
           let num_blocks = unat sz div BLOCK_SIZE;
               start_block = off_div_block offset
           in if num_blocks = 0 \<or> unat sz mod BLOCK_SIZE \<noteq> 0 then Some (- EOPNOTSUPP, st)
              else
                (case plan_pass SHA512 buf start_block [0..<num_blocks] (idx, Map.empty, [], 0) of
                   None \<Rightarrow> None
                 | Some (idx1, pending_hashes, plan, miss_count) \<Rightarrow>
                     (case alloc_and_flush io buf (idx1, master, nextBlockIndex) plan miss_count of
                        None \<Rightarrow> None
                      | Some (rc, plan', (idx2, master', nxt)) \<Rightarrow>
                          if rc < 0 then
                            map_option (\<lambda>idx3. (rc, (idx3, master', nxt))) (rollback_allocations idx2 plan')
                          else
                            map_option (\<lambda>idx3. (c_int (of_nat num_blocks * BLOCK_SIZE64), (idx3, master', nxt)))
                              (write_pass3 idx2 path plan' ((start_block + of_nat num_blocks) * BLOCK_SIZE64))))))"

section \<open>Rollback\<close>

text \<open>Every HIT entry pins an object that another reference keeps alive, so giving the pins back
  frees nothing.\<close>

lemma keep_step:
  assumes "tables_ok pend idx" "counts_ok pins idx" "slots_ok pend resv rel nxt idx"
    and "0 < pins p" "p \<notin> pend \<or> 1 < pins p" and gt: "1 < refs idx p + pins p"
  shows "\<exists>idx'. release_info idx rel p = Some (idx', rel) \<and> counts_ok (pins(p := pins p - 1)) idx' \<and> same_infos idx idx'"
  by (rule release_step [OF assms(1-5)]) (use gt in blast)

lemma rollback_hits_spec:
  assumes "tables_ok pend idx" and "counts_ok (\<lambda>p. pins_of plan p + extra p) idx"
    and "slots_ok pend resv [] nxt idx"
    and "\<forall>e \<in> set plan. \<not> is_miss e \<longrightarrow> (info e \<in> pend \<and> 0 < extra (info e) + pins_of (misses plan) (info e)) \<or>
       (info e \<notin> pend \<and> 0 < refs idx (info e))"
  shows "\<exists>idx'. rollback_hits idx plan [] = Some (idx', []) \<and> same_infos idx idx' \<and>
    counts_ok (\<lambda>p. pins_of (misses plan) p + extra p) idx'"
  using assms
proof (induction plan arbitrary: idx extra)
  case Nil
  then show ?case by simp
next
  case (Cons e plan)
  note t = Cons.prems(1) and c = Cons.prems(2) and s = Cons.prems(3) and k = Cons.prems(4)
  show ?case
  proof (cases "is_miss e")
    case True
    let ?extra = "extra(info e := extra (info e) + 1)"
    have p: "(\<lambda>p. pins_of (e # plan) p + extra p) = (\<lambda>p. pins_of plan p + ?extra p)"
      "(\<lambda>p. pins_of (misses (e # plan)) p + extra p) = (\<lambda>p. pins_of (misses plan) p + ?extra p)"
      using True by (auto simp: pins_of_Cons fun_eq_iff)
    have "\<exists>idx'. rollback_hits idx plan [] = Some (idx', []) \<and> same_infos idx idx' \<and>
      counts_ok (\<lambda>p. pins_of (misses plan) p + ?extra p) idx'"
      by (rule Cons.IH [OF t c [unfolded p(1)] s]) (use k True in \<open>auto simp: pins_of_Cons\<close>)
    then show ?thesis unfolding p using True by (simp add: is_miss_def)
  next
    case False
    let ?pins = "\<lambda>p. pins_of (e # plan) p + extra p"
    have le: "pins_of (misses plan) (info e) \<le> pins_of plan (info e)"
      by (induction plan) (auto simp: pins_of_Cons)
    have pp: "0 < ?pins (info e)" "info e \<notin> pend \<or> 1 < ?pins (info e)"
      using k False le by (auto simp: pins_of_Cons)
    have gt: "1 < refs idx (info e) + ?pins (info e)"
      using k False le by (auto simp: pins_of_Cons)
    obtain idx1 where r: "release_info idx [] (info e) = Some (idx1, [])"
      and c1: "counts_ok (?pins(info e := ?pins (info e) - 1)) idx1" and same: "same_infos idx idx1"
      using keep_step [OF t c s pp gt] by blast
    have pe: "?pins(info e := ?pins (info e) - 1) = (\<lambda>p. pins_of plan p + extra p)"
      by (auto simp: pins_of_Cons fun_eq_iff)
    have "\<exists>idx'. rollback_hits idx1 plan [] = Some (idx', []) \<and> same_infos idx1 idx' \<and>
      counts_ok (\<lambda>p. pins_of (misses plan) p + extra p) idx'"
    proof (rule Cons.IH)
      show "tables_ok pend idx1" "slots_ok pend resv [] nxt idx1" using same_infos_ok [OF same] t s by simp_all
      show "counts_ok (\<lambda>p. pins_of plan p + extra p) idx1" using c1 unfolding pe .
    qed (use k False same_infosD [OF same] in auto)
    then obtain idx' where "rollback_hits idx1 plan [] = Some (idx', [])" "same_infos idx1 idx'"
      "counts_ok (\<lambda>p. pins_of (misses plan) p + extra p) idx'" by blast
    then show ?thesis using r False same_infos_trans [OF same] PlanKind.exhaust [of "kind e"]
      by (auto simp: is_miss_def)
  qed
qed

lemma rollback_misses_spec:
  assumes "tables_ok (miss_infos plan) idx" and "counts_ok (pins_of (misses plan)) idx"
    and "slots_ok (miss_infos plan) (miss_slots plan) [] nxt idx"
    and "distinct (map info (misses plan))" and "distinct (map master_blk (misses plan))"
  shows "\<exists>idx'. rollback_misses idx plan = Some idx' \<and> index_inv nxt idx' \<and>
    file_to_master idx' = file_to_master idx \<and> hash_to_master idx' = hash_to_master idx \<and>
    file_to_sizes idx' = file_to_sizes idx \<and>
    (\<forall>p. minfos idx' p = (if p \<in> miss_infos plan then None else minfos idx p)) \<and>
    free_block_list idx' = rev (map master_blk (misses plan)) @ free_block_list idx"
  using assms
proof (induction plan arbitrary: idx)
  case Nil
  then show ?case by (simp add: index_inv_def miss_slots_def)
next
  case (Cons e plan)
  show ?case
  proof (cases "is_miss e")
    case False
    then show ?thesis using Cons by (simp add: is_miss_def miss_slots_def)
  next
    case True
    let ?i = "idx\<lparr>free_block_list := master_blk e # free_block_list idx\<rparr>"
    let ?pend = "insert (info e) (miss_infos plan)"
    have t: "tables_ok ?pend ?i" using Cons.prems(1) True by (simp add: tables_ok_def published_def)
    have c: "counts_ok (pins_of (e # misses plan)) ?i" using Cons.prems(2) True by (simp add: counts_ok_def refs_def)
    have ms: "miss_slots (e # plan) = insert (master_blk e) (miss_slots plan)" "master_blk e \<notin> miss_slots plan"
      "info e \<notin> miss_infos plan"
      using True Cons.prems(4,5) by (simp_all add: miss_slots_def miss_infos_def)
    have "slots_ok ?pend (insert (master_blk e) (miss_slots plan)) [] nxt idx"
      using Cons.prems(3) True ms(1) by simp
    from slots_ok_prepend [OF slots_ok_unreserve [OF this, of "master_blk e"]]
    have s: "slots_ok ?pend (miss_slots plan) [] nxt ?i" using ms(2) by simp
    obtain idx1 where d: "info_free ?i (info e) = Some idx1" "tables_ok (?pend - {info e}) idx1"
      "counts_ok ((pins_of (e # misses plan))(info e := 0)) idx1" "slots_ok (?pend - {info e}) (miss_slots plan) [] nxt idx1"
      "file_to_master idx1 = file_to_master idx" "file_to_sizes idx1 = file_to_sizes idx"
      "hash_to_master idx1 = hash_to_master idx" "free_block_list idx1 = master_blk e # free_block_list idx"
      "minfos idx1 = (minfos idx)(info e := None)"
      by (rule discard_step [OF _ t c s, of "info e"]) simp_all
    have pd: "?pend - {info e} = miss_infos plan" using ms(3) by auto
    have "pins_of (misses plan) (info e) = 0"
      using ms(3) pins_of_pos_iff [of "misses plan" "info e"] by (auto simp: miss_infos_def)
    then have pe: "(pins_of (e # misses plan))(info e := 0) = pins_of (misses plan)"
      by (auto simp: pins_of_Cons)
    have "\<exists>idx'. rollback_misses idx1 plan = Some idx' \<and> index_inv nxt idx' \<and>
      file_to_master idx' = file_to_master idx1 \<and> hash_to_master idx' = hash_to_master idx1 \<and>
      file_to_sizes idx' = file_to_sizes idx1 \<and>
      (\<forall>p. minfos idx' p = (if p \<in> miss_infos plan then None else minfos idx1 p)) \<and>
      free_block_list idx' = rev (map master_blk (misses plan)) @ free_block_list idx1"
      using d(2-4) Cons.prems(4,5) True unfolding pd pe by (intro Cons.IH) simp_all
    then show ?thesis using d True by (fastforce simp: is_miss_def)
  qed
qed

lemma MasterInfo_eqI:
  "info_hash a = info_hash b \<Longrightarrow> masterBlockIndex a = masterBlockIndex b \<Longrightarrow> refcount a = refcount b \<Longrightarrow> a = (b :: MasterInfo)"
  by (cases a, cases b) simp

text \<open>Two indexes with the same mappings and the same objects up to counters have the same counters.\<close>

lemma counts_determine_infos:
  assumes "counts_ok pins idx" "counts_ok pins idx0" "refs idx = refs idx0"
    and key: "\<And>p. map_option info_key (minfos idx p) = map_option info_key (minfos idx0 p)"
  shows "minfos idx = minfos idx0"
proof
  fix p show "minfos idx p = minfos idx0 p"
  proof (cases "minfos idx p")
    case None
    then show ?thesis using key [of p] by simp
  next
    case (Some mi)
    then obtain mj where mj: "minfos idx0 p = Some mj" "info_hash mj = info_hash mi" "masterBlockIndex mj = masterBlockIndex mi"
      using info_key_eqD [OF key] by blast
    have "unat (refcount mi) = unat (refcount mj)"
      using assms(1-3) Some mj(1) by (simp add: counts_ok_def)
    then have "refcount mi = refcount mj" by (simp add: word_unat_eq_iff)
    then show ?thesis using Some mj by (simp add: MasterInfo_eqI)
  qed
qed

lemma rollback_spec:
  assumes st: "staged SHA512 buf start nxt idx0 idx plan" and c0: "counts_ok (\<lambda>_. 0) idx0"
  shows "\<exists>idx'. rollback_allocations idx plan = Some idx' \<and> index_inv nxt idx' \<and>
    file_to_master idx' = file_to_master idx0 \<and> hash_to_master idx' = hash_to_master idx0 \<and>
    file_to_sizes idx' = file_to_sizes idx0 \<and> minfos idx' = minfos idx0 \<and>
    free_block_list idx' = rev (map master_blk (misses plan)) @ free_block_list idx"
proof -
  let ?pend = "miss_infos plan"
  have t: "tables_ok ?pend idx" and c: "counts_ok (pins_of plan) idx" and s: "slots_ok ?pend (miss_slots plan) [] nxt idx"
    and po: "plan_ok SHA512 buf start idx plan" and o: "only_new ?pend idx0 idx" and d: "distinct (map master_blk (misses plan))"
    using st unfolding staged_def by blast+
  have di: "distinct (map info (misses plan))" using po by (simp add: plan_ok_def)
  have "0 < pins_of (misses plan) (info e)" if "info e \<in> ?pend" for e
    using that by (simp only: pins_of_pos_iff miss_infos_def set_map)
  then have "\<exists>idx1. rollback_hits idx plan [] = Some (idx1, []) \<and> same_infos idx idx1 \<and>
      counts_ok (\<lambda>p. pins_of (misses plan) p + 0) idx1"
    using t c s po by (intro rollback_hits_spec [where extra = "\<lambda>_. 0"]) (auto simp: plan_ok_def)
  then obtain idx1 where h: "rollback_hits idx plan [] = Some (idx1, [])" "same_infos idx idx1"
    "counts_ok (pins_of (misses plan)) idx1" by auto
  note sD = same_infosD [OF h(2)]
  obtain idx' where r: "rollback_misses idx1 plan = Some idx'" "index_inv nxt idx'"
    "file_to_master idx' = file_to_master idx1" "hash_to_master idx' = hash_to_master idx1"
    "file_to_sizes idx' = file_to_sizes idx1"
    "\<forall>p. minfos idx' p = (if p \<in> ?pend then None else minfos idx1 p)"
    "free_block_list idx' = rev (map master_blk (misses plan)) @ free_block_list idx1"
    using rollback_misses_spec [OF same_infos_ok(1) [OF h(2) t] h(3) same_infos_ok(2) [OF h(2) s] di d] by blast
  note o1 = only_newD [OF only_new_same_infos [OF o h(2)]]
  have "map_option info_key (minfos idx' p) = map_option info_key (minfos idx0 p)" for p
    using r(6) [rule_format, of p] o1(4) o1(6) [of p] by (cases "p \<in> ?pend") (auto simp: domIff)
  moreover have "refs idx' = refs idx0" using r(3) o1(1) by (intro refs_cong) simp
  ultimately have "minfos idx' = minfos idx0"
    using r(2) c0 by (intro counts_determine_infos [of "\<lambda>_. 0"]) (simp_all add: index_inv_def)
  then show ?thesis using h(1) r o1 sD by (auto simp: rollback_allocations_def)
qed

section \<open>Pass 3\<close>

lemma publish_pass_spec:
  assumes "tables_ok (miss_infos plan) idx" and "slots_ok (miss_infos plan) (miss_slots plan) slots nxt idx"
    and "data_ok SHA512 master (miss_infos plan) idx"
    and "distinct (map info (misses plan))" "distinct (map master_blk (misses plan))" "distinct (map phash (misses plan))"
    and "\<forall>e \<in> set (misses plan). hash_to_master idx (phash e) = None \<and>
       (\<exists>mi. minfos idx (info e) = Some mi \<and> info_hash mi = phash e \<and> masterBlockIndex mi = master_blk e) \<and>
       length (block_at master (unat (master_blk e))) = BLOCK_SIZE \<and>
       hash SHA512 (block_at master (unat (master_blk e))) = phash e"
  shows "\<exists>idx'. publish_pass idx plan slots = Some (idx', plan, slots) \<and> tables_ok {} idx' \<and>
    slots_ok {} {} slots nxt idx' \<and> data_ok SHA512 master {} idx' \<and> minfos idx' = minfos idx \<and>
    file_to_master idx' = file_to_master idx \<and> file_to_sizes idx' = file_to_sizes idx"
  using assms
proof (induction plan arbitrary: idx)
  case Nil
  then show ?case by (simp add: miss_slots_def)
next
  case (Cons e plan)
  show ?case
  proof (cases "is_miss e")
    case False
    then obtain idx' where "publish_pass idx plan slots = Some (idx', plan, slots)" and
      "tables_ok {} idx' \<and> slots_ok {} {} slots nxt idx' \<and> data_ok SHA512 master {} idx' \<and> minfos idx' = minfos idx \<and>
       file_to_master idx' = file_to_master idx \<and> file_to_sizes idx' = file_to_sizes idx"
      using Cons.IH [of idx] Cons.prems by (auto simp: miss_slots_def)
    then show ?thesis using False by (simp add: is_miss_def)
  next
    case True
    then obtain mi where mi: "minfos idx (info e) = Some mi" "info_hash mi = phash e" "masterBlockIndex mi = master_blk e"
      and h: "hash_to_master idx (phash e) = None" and blk: "length (block_at master (unat (master_blk e))) = BLOCK_SIZE"
        "hash SHA512 (block_at master (unat (master_blk e))) = phash e"
      using Cons.prems(7) by auto
    have ms: "miss_slots (e # plan) = insert (master_blk e) (miss_slots plan)" "master_blk e \<notin> miss_slots plan"
      "info e \<notin> miss_infos plan" "phash e \<notin> phash ` set (misses plan)"
      using True Cons.prems(4-6) by (simp_all add: miss_slots_def miss_infos_def)
    let ?i = "insert_hash idx (phash e) (info e)"
    have pre: "info e \<in> miss_infos (e # plan)" "hash_to_master idx (info_hash mi) = None"
      "masterBlockIndex mi \<in> miss_slots (e # plan)"
      using True mi h ms(1) by simp_all
    note ps = publish_step [OF mi(1) pre(1,2) Cons.prems(1,2) pre(3)]
    have diff: "miss_infos (e # plan) - {info e} = miss_infos plan"
      "miss_slots (e # plan) - {master_blk e} = miss_slots plan"
      using True ms by auto
    have t: "tables_ok (miss_infos plan) ?i" and s: "slots_ok (miss_infos plan) (miss_slots plan) slots nxt ?i"
      and d: "data_ok SHA512 master (miss_infos plan) ?i"
      using ps(1,2) ps(4) [OF Cons.prems(3)] blk by (simp_all only: mi diff)
    have "\<exists>idx'. publish_pass ?i plan slots = Some (idx', plan, slots) \<and> tables_ok {} idx' \<and>
      slots_ok {} {} slots nxt idx' \<and> data_ok SHA512 master {} idx' \<and> minfos idx' = minfos ?i \<and>
      file_to_master idx' = file_to_master ?i \<and> file_to_sizes idx' = file_to_sizes ?i"
      by (rule Cons.IH [OF t s d]) (use Cons.prems(4-7) True ms(4) in \<open>auto simp: image_iff\<close>)
    then show ?thesis using True mi h by (auto simp: is_miss_def lookup_by_hash_def)
  qed
qed

lemma release_info_remove_file_block:
  "release_info (remove_file_block idx f b) rel p =
   map_option (\<lambda>(i, r). (remove_file_block i f b, r)) (release_info idx rel p)"
  by (cases "minfos idx p")
    (auto simp: release_info_def refcount_fetch_sub_def info_free_def remove_hash_def info_set_def remove_file_block_def)

text \<open>Replacing one mapping: the old object loses a reference, the entry's pin becomes the mapping.\<close>

lemma remap_step:
  assumes t: "tables_ok pend idx" and c: "counts_ok pins idx" and s: "slots_ok pend resv slots nxt idx"
    and p: "0 < pins p" "p \<notin> pend"
  shows "\<exists>idx1 slots1. (case lookup_by_file_block idx path b of None \<Rightarrow> Some (idx, slots)
        | Some old \<Rightarrow> release_info idx slots old) = Some (idx1, slots1) \<and>
    (let idx2 = insert_file_block idx1 path b p in
      tables_ok pend idx2 \<and> counts_ok (pins(p := pins p - 1)) idx2 \<and> slots_ok pend resv slots1 nxt idx2 \<and> sub_infos idx idx2 \<and>
      file_to_master idx2 = (file_to_master idx)(bkey path b \<mapsto> p) \<and> file_to_sizes idx2 = file_to_sizes idx \<and>
      (\<forall>q. 0 < pins q \<or> (\<exists>k. k \<noteq> bkey path b \<and> file_to_master idx k = Some q) \<longrightarrow> slot_of idx2 q = slot_of idx q))"
proof (cases "lookup_by_file_block idx path b")
  case None
  let ?i = "insert_file_block idx path b p"
  have k: "file_to_master idx (bkey path b) = None" using None by (simp add: lookup_by_file_block_def)
  have "slots_ok pend resv slots nxt ?i" using s slots_data_ok_frame(1) [of ?i idx] by simp
  moreover have "sub_infos idx ?i" "slot_of ?i = slot_of idx" by (simp_all add: sub_infos_def slot_of_def fun_eq_iff)
  ultimately show ?thesis using None map_step [OF t c k p] by (simp add: Let_def)
next
  case (Some q)
  then have k: "file_to_master idx (bkey path b) = Some q" by (simp add: lookup_by_file_block_def)
  let ?rm = "remove_file_block idx path b" and ?pins = "pins(q := pins q + 1)"
  note um = unmap_step [OF t c k]
  have sr: "slots_ok pend resv slots nxt ?rm" using s slots_data_ok_frame(1) [of ?rm idx] by simp
  have "q \<notin> pend" using tables_ok_file [OF t k] by (simp add: published_def)
  then have pq: "0 < ?pins q" "q \<notin> pend \<or> 1 < ?pins q" by simp_all
  have "\<exists>i r. release_info ?rm slots q = Some (i, r) \<and> tables_ok pend i \<and> counts_ok (?pins(q := ?pins q - 1)) i \<and>
      slots_ok pend resv r nxt i \<and> sub_infos ?rm i \<and> file_to_master i = file_to_master ?rm \<and>
      file_to_sizes i = file_to_sizes ?rm \<and>
      (\<forall>x. 0 < refs ?rm x + (?pins(q := ?pins q - 1)) x \<longrightarrow> slot_of i x = slot_of ?rm x)"
    by (rule release_step [OF um sr pq]) blast
  moreover have "?pins(q := ?pins q - 1) = pins" "slot_of ?rm = slot_of idx" "sub_infos ?rm = sub_infos idx"
    by (simp_all add: slot_of_def sub_infos_def fun_eq_iff)
  ultimately obtain i r where rel: "release_info ?rm slots q = Some (i, r)" and ti: "tables_ok pend i" and ci: "counts_ok pins i"
    and si: "slots_ok pend resv r nxt i" and sub: "sub_infos idx i" and fi: "file_to_master i = (file_to_master idx)(bkey path b := None)"
    and zi: "file_to_sizes i = file_to_sizes idx" and so: "\<And>x. 0 < refs ?rm x + pins x \<Longrightarrow> slot_of i x = slot_of idx x"
    unfolding remove_file_block_fields by (simp only: ) blast
  from rel obtain idx1 where r1: "release_info idx slots q = Some (idx1, r)" and i: "i = remove_file_block idx1 path b"
    by (auto simp: release_info_remove_file_block)
  let ?i2 = "insert_file_block idx1 path b p"
  have i2: "?i2 = insert_file_block i path b p" by (simp add: i)
  have ki: "file_to_master i (bkey path b) = None" by (simp add: fi)
  have "0 < refs ?rm x" if "k \<noteq> bkey path b" "file_to_master idx k = Some x" for k x
    using refs_pos_iff [OF tables_ok_finite [OF um(1)], of x] that by fastforce
  then have "slot_of ?i2 x = slot_of idx x" if "0 < pins x \<or> (\<exists>k. k \<noteq> bkey path b \<and> file_to_master idx k = Some x)" for x
    using so [of x] that unfolding i2 by (auto simp: slot_of_def)
  moreover have "slots_ok pend resv r nxt ?i2" unfolding i2 using si slots_data_ok_frame(1) [of "insert_file_block i path b p" i] by simp
  moreover have "sub_infos idx ?i2" using sub unfolding i2 by (simp add: sub_infos_def)
  moreover have "file_to_master ?i2 = (file_to_master idx)(bkey path b \<mapsto> p)" "file_to_sizes ?i2 = file_to_sizes idx"
    unfolding i2 using fi zi by simp_all
  ultimately show ?thesis
    using Some r1 map_step [OF ti ci ki p] unfolding i2 [symmetric] by (simp add: Let_def)
qed

definition plan_map :: "path \<Rightarrow> PlanEntry list \<Rightarrow> BlockIndice \<rightharpoonup> ptr" where
  "plan_map path plan = map_of (map (\<lambda>e. (bkey path (logical_blk e), info e)) plan)"

lemma plan_map_mem: "plan_map path plan k = Some p \<Longrightarrow> 0 < pins_of plan p"
  unfolding pins_of_pos_iff plan_map_def by (auto dest!: map_of_SomeD)

lemma map_pass_spec:
  assumes "tables_ok pend idx" and "counts_ok (\<lambda>p. pins_of plan p + extra p) idx" and "slots_ok pend resv slots nxt idx"
    and "distinct (map logical_blk plan)" and "\<forall>e \<in> set plan. info e \<notin> pend"
  shows "\<exists>idx' slots'. map_pass idx path plan slots = Some (idx', slots') \<and> tables_ok pend idx' \<and>
    counts_ok extra idx' \<and> slots_ok pend resv slots' nxt idx' \<and> sub_infos idx idx' \<and>
    file_to_master idx' = file_to_master idx ++ plan_map path plan \<and> file_to_sizes idx' = file_to_sizes idx \<and>
    (\<forall>k p. file_to_master idx' k = Some p \<longrightarrow> slot_of idx' p = slot_of idx p)"
  using assms
proof (induction plan arbitrary: idx slots)
  case Nil
  then show ?case by (simp add: plan_map_def)
next
  case (Cons e plan)
  let ?k = "bkey path (logical_blk e)"
  let ?pins = "\<lambda>p. pins_of (e # plan) p + extra p"
  have pe: "0 < ?pins (info e)" "info e \<notin> pend" using Cons.prems(5) by (simp_all add: pins_of_Cons)
  obtain idx1 slots1 idx2 where st: "(case lookup_by_file_block idx path (logical_blk e) of None \<Rightarrow> Some (idx, slots)
        | Some old \<Rightarrow> release_info idx slots old) = Some (idx1, slots1)"
    and i2: "idx2 = insert_file_block idx1 path (logical_blk e) (info e)"
    and t: "tables_ok pend idx2" and c: "counts_ok (?pins(info e := ?pins (info e) - 1)) idx2"
    and s: "slots_ok pend resv slots1 nxt idx2" and sub: "sub_infos idx idx2"
    and f: "file_to_master idx2 = (file_to_master idx)(?k \<mapsto> info e)" and z: "file_to_sizes idx2 = file_to_sizes idx"
    and so: "\<And>q. 0 < ?pins q \<or> (\<exists>k. k \<noteq> ?k \<and> file_to_master idx k = Some q) \<Longrightarrow> slot_of idx2 q = slot_of idx q"
    using remap_step [OF Cons.prems(1-3) pe, of path "logical_blk e"] unfolding Let_def by blast
  have "?pins(info e := ?pins (info e) - 1) = (\<lambda>p. pins_of plan p + extra p)" by (auto simp: pins_of_Cons fun_eq_iff)
  then have c2: "counts_ok (\<lambda>p. pins_of plan p + extra p) idx2" using c by simp
  have di: "distinct (map logical_blk plan)" "\<forall>e \<in> set plan. info e \<notin> pend" using Cons.prems(4,5) by simp_all
  obtain idx' slots' where IH: "map_pass idx2 path plan slots1 = Some (idx', slots')" "tables_ok pend idx'"
    "counts_ok extra idx'" "slots_ok pend resv slots' nxt idx'" "sub_infos idx2 idx'"
    "file_to_master idx' = file_to_master idx2 ++ plan_map path plan" "file_to_sizes idx' = file_to_sizes idx2"
    "\<forall>k p. file_to_master idx' k = Some p \<longrightarrow> slot_of idx' p = slot_of idx2 p"
    using Cons.IH [OF t c2 s di] by blast
  have nk: "plan_map path plan ?k = None"
    using Cons.prems(4) by (auto simp: plan_map_def map_of_eq_None_iff)
  have f': "file_to_master idx' = file_to_master idx ++ plan_map path (e # plan)"
    unfolding IH(6) f using nk by (auto simp: fun_eq_iff map_add_def plan_map_def split: option.splits)
  have "slot_of idx' q = slot_of idx q" if "file_to_master idx' k = Some q" for k q
  proof -
    have "slot_of idx2 q = slot_of idx q"
    proof (rule so, cases "plan_map path (e # plan) k")
      case None
      then have "k \<noteq> ?k" "file_to_master idx k = Some q"
        using that unfolding f' by (auto simp: plan_map_def map_add_def)
      then show "0 < ?pins q \<or> (\<exists>k. k \<noteq> ?k \<and> file_to_master idx k = Some q)" by blast
    next
      case (Some q')
      then have "0 < pins_of (e # plan) q" using that plan_map_mem unfolding f' by (auto simp: map_add_def)
      then have "0 < ?pins q" by simp
      then show "0 < ?pins q \<or> (\<exists>k. k \<noteq> ?k \<and> file_to_master idx k = Some q)" ..
    qed
    then show ?thesis using IH(8) that by simp
  qed
  then show ?case
    using st IH(1-4) sub_infos_trans [OF sub IH(5)] f' IH(7) z unfolding i2 by auto
qed

text \<open>What pass 3 makes of a staged plan whose payloads are in the master file.\<close>

lemma update_size_fields [simp]:
  "file_to_master (update_size idx path n) = file_to_master idx" "hash_to_master (update_size idx path n) = hash_to_master idx"
  "free_block_list (update_size idx path n) = free_block_list idx" "minfos (update_size idx path n) = minfos idx"
  "next_ptr (update_size idx path n) = next_ptr idx"
  by (simp_all add: update_size_def split: option.split)

lemma file_to_sizes_update_size:
  "file_to_sizes (update_size idx path n) =
     (file_to_sizes idx)(path \<mapsto> (case file_to_sizes idx path of None \<Rightarrow> n | Some s \<Rightarrow> max s n))"
  by (auto simp: update_size_def fun_eq_iff max_def split: option.split)

lemma index_inv_frame:
  assumes "tables_ok {} idx" "counts_ok (\<lambda>_. 0) idx" "slots_ok {} {} rel nxt idx"
    and "file_to_master idx' = file_to_master idx" "hash_to_master idx' = hash_to_master idx"
      "free_block_list idx' = rel @ free_block_list idx" "minfos idx' = minfos idx" "next_ptr idx' = next_ptr idx"
  shows "index_inv nxt idx'"
proof -
  have "slot_of idx' = slot_of idx" by (simp add: slot_of_def fun_eq_iff assms(7))
  then show ?thesis
    using assms by (simp add: index_inv_def tables_ok_def counts_ok_def slots_ok_def published_def refs_def)
qed

section \<open>The data of a staged write\<close>

lemma staged_old_blocks:
  assumes st: "staged SHA512 buf start nxt idx0 idx plan" and d: "data_ok SHA512 master {} idx0"
    and u: "untouched master plan 0 master'" and p: "p \<in> published (miss_infos plan) idx"
  shows "block_at master' (unat (slot_of idx p)) = block_at master (unat (slot_of idx p))"
proof -
  have s: "slots_ok (miss_infos plan) (miss_slots plan) [] nxt idx" and o: "only_new (miss_infos plan) idx0 idx"
    using st unfolding staged_def by blast+
  from p obtain mi where mi: "minfos idx p = Some mi" "p \<notin> miss_infos plan" by (auto simp: published_def)
  then have full: "length (block_at master (unat (slot_of idx p))) = BLOCK_SIZE"
    using only_new_data_ok [OF o d] by (simp add: data_ok_def)
  have "slot_of idx p \<notin> miss_slots plan" using s p unfolding slots_ok_def by blast
  then have "unat (slot_of idx p) \<noteq> unat (master_blk (plan ! k))" if "k < length plan" "is_miss (plan ! k)" for k
    using that by (auto simp: miss_slots_def u64_eq_iff_unat)
  then show ?thesis using u full unfolding untouched_def by blast
qed

lemma staged_data_ok:
  assumes st: "staged SHA512 buf start nxt idx0 idx plan" and d: "data_ok SHA512 master {} idx0"
    and u: "untouched master plan 0 master'"
  shows "data_ok SHA512 master' (miss_infos plan) idx"
  unfolding data_ok_def
proof (intro allI impI)
  fix p mi assume p: "minfos idx p = Some mi" "p \<notin> miss_infos plan"
  have o: "only_new (miss_infos plan) idx0 idx" using st unfolding staged_def by blast
  have "block_at master' (unat (masterBlockIndex mi)) = block_at master (unat (masterBlockIndex mi))"
    using staged_old_blocks [OF assms, of p] p by (auto simp: published_def)
  then show "length (block_at master' (unat (masterBlockIndex mi))) = BLOCK_SIZE \<and>
        hash SHA512 (block_at master' (unat (masterBlockIndex mi))) = info_hash mi"
    using only_new_data_ok [OF o d] p by (simp add: data_ok_def)
qed

text \<open>Blocks of files, seen through an index that still maps the block to the same slot.\<close>

lemma staged_fs_block:
  assumes st: "staged SHA512 buf start nxt idx0 idx plan" and d: "data_ok SHA512 master {} idx0"
    and u: "untouched master plan 0 master'"
    and f: "file_to_master idx' (bkey g b) = file_to_master idx0 (bkey g b)"
    and s: "\<And>p. file_to_master idx' (bkey g b) = Some p \<Longrightarrow> slot_of idx' p = slot_of idx p"
  shows "fs_block master' idx' g b = fs_block master idx0 g b"
proof (cases "file_to_master idx0 (bkey g b)")
  case None
  then show ?thesis using f by (simp add: fs_block_def lookup_by_file_block_def)
next
  case (Some p)
  have o: "only_new (miss_infos plan) idx0 idx" and t: "tables_ok (miss_infos plan) idx"
    using st unfolding staged_def by blast+
  have p: "p \<in> published (miss_infos plan) idx" using Some only_newD(1) [OF o] by (intro tables_ok_file [OF t]) simp
  then have "p \<notin> miss_infos plan" by (simp add: published_def)
  then show ?thesis
    using Some f s [of p] staged_old_blocks [OF st d u p] only_new_slot_of [OF o, of p]
    by (simp add: fs_block_def lookup_by_file_block_def)
qed

lemma plan_ok_logical: "plan_ok SHA512 buf start idx plan \<Longrightarrow> k < length plan \<Longrightarrow> logical_blk (plan ! k) = start + of_nat k"
  by (simp add: plan_ok_def entry_ok_def)

lemma distinct_logical:
  assumes l: "\<And>k. k < length plan \<Longrightarrow> logical_blk (plan ! k) = start + of_nat k" and small: "length plan < 2 ^ 64"
  shows "distinct (map logical_blk plan)"
proof -
  have "i = j" if "i < length plan" "j < length plan" "logical_blk (plan ! i) = logical_blk (plan ! j)" for i j
  proof -
    have "(of_nat i :: u64) = of_nat j" using that l by simp
    then have "unat (of_nat i :: u64) = unat (of_nat j :: u64)" by (rule arg_cong)
    then show ?thesis using that small unat_of_nat_u64 [of i] unat_of_nat_u64 [of j] by linarith
  qed
  then show ?thesis by (auto simp: distinct_conv_nth)
qed

lemma plan_map_nth:
  assumes l: "\<And>k. k < length plan \<Longrightarrow> logical_blk (plan ! k) = start + of_nat k" and small: "length plan < 2 ^ 64"
    and k: "k < length plan"
  shows "plan_map path plan (bkey path (start + of_nat k)) = Some (info (plan ! k))"
proof -
  have "logical_blk (plan ! k) = start + of_nat k" by (rule l [OF k])
  moreover have "distinct (map fst (map (\<lambda>e. (bkey path (logical_blk e), info e)) plan))"
    using distinct_logical [OF l small] by (auto simp: distinct_map inj_on_def comp_def)
  moreover have "(bkey path (logical_blk (plan ! k)), info (plan ! k)) \<in> set (map (\<lambda>e. (bkey path (logical_blk e), info e)) plan)"
    using k by simp
  ultimately show ?thesis
    unfolding plan_map_def by (intro map_of_is_SomeI) simp_all
qed

lemma plan_map_other:
  assumes l: "\<And>k. k < length plan \<Longrightarrow> logical_blk (plan ! k) = start + of_nat k"
    and "g \<noteq> path \<or> (\<forall>k < length plan. b \<noteq> start + of_nat k)"
  shows "plan_map path plan (bkey g b) = None"
proof -
  have "bkey g b \<noteq> bkey path (logical_blk e)" if "e \<in> set plan" for e
    using assms(2) l that by (metis BlockIndice.ext_inject in_set_conv_nth)
  then show ?thesis unfolding plan_map_def map_of_eq_None_iff by (simp add: image_iff)
qed

section \<open>Pass 3 on a flushed plan\<close>

lemma write_pass3_spec:
  assumes st: "staged SHA512 buf start nxt idx0 idx plan" and d: "data_ok SHA512 master {} idx0"
    and u: "untouched master plan 0 master'" and fl: "flushed buf plan 0 master'"
    and len: "length plan * BLOCK_SIZE \<le> length buf" and small: "length plan < 2 ^ 64"
  shows "\<exists>idx'. write_pass3 idx path plan new_end = Some idx' \<and> index_inv nxt idx' \<and> data_ok SHA512 master' {} idx' \<and>
    sub_infos idx idx' \<and> file_to_master idx' = file_to_master idx0 ++ plan_map path plan \<and>
    (\<forall>k p. file_to_master idx' k = Some p \<longrightarrow> slot_of idx' p = slot_of idx p) \<and>
    file_to_sizes idx' =
      (file_to_sizes idx0)(path \<mapsto> (case file_to_sizes idx0 path of None \<Rightarrow> new_end | Some s \<Rightarrow> max s new_end))"
proof -
  let ?pend = "miss_infos plan"
  have t: "tables_ok ?pend idx" and c: "counts_ok (pins_of plan) idx" and s: "slots_ok ?pend (miss_slots plan) [] nxt idx"
    and po: "plan_ok SHA512 buf start idx plan" and o: "only_new ?pend idx0 idx" and ds: "distinct (map master_blk (misses plan))"
    and sl: "\<forall>e \<in> set (misses plan). slot_of idx (info e) = master_blk e"
    using st unfolding staged_def by blast+
  have miss: "hash_to_master idx (phash e) = None \<and>
       (\<exists>mi. minfos idx (info e) = Some mi \<and> info_hash mi = phash e \<and> masterBlockIndex mi = master_blk e) \<and>
       length (block_at master' (unat (master_blk e))) = BLOCK_SIZE \<and>
       hash SHA512 (block_at master' (unat (master_blk e))) = phash e" if e: "e \<in> set (misses plan)" for e
  proof -
    obtain k where k: "k < length plan" "plan ! k = e" "is_miss e" using e by (auto simp: in_set_conv_nth)
    then have ek: "entry_ok SHA512 buf start idx k e" using po by (auto simp: plan_ok_def)
    have b: "block_at master' (unat (master_blk e)) = block_at buf k" using fl k by (auto simp: flushed_def)
    have "Suc k * BLOCK_SIZE \<le> length buf" using k(1) len by (meson Suc_leI le_trans mult_le_mono1)
    then have "length (block_at buf k) = BLOCK_SIZE" unfolding full_block_iff .
    then show ?thesis
      using ek sl e b po by (auto simp: entry_ok_def plan_ok_def)
  qed
  have dist: "distinct (map info (misses plan))" "distinct (map phash (misses plan))" using po by (simp_all add: plan_ok_def)
  obtain idx1 where p: "publish_pass idx plan [] = Some (idx1, plan, [])" "tables_ok {} idx1" "slots_ok {} {} [] nxt idx1"
      "data_ok SHA512 master' {} idx1" "minfos idx1 = minfos idx" "file_to_master idx1 = file_to_master idx"
      "file_to_sizes idx1 = file_to_sizes idx"
    using publish_pass_spec [OF t s staged_data_ok [OF st d u] dist(1) ds dist(2)] miss by blast
  have c1: "counts_ok (\<lambda>p. pins_of plan p + 0) idx1" using c p(5,6) by (simp add: counts_ok_def refs_def)
  obtain idx2 rel where m: "map_pass idx1 path plan [] = Some (idx2, rel)" "tables_ok {} idx2" "counts_ok (\<lambda>_. 0) idx2"
      "slots_ok {} {} rel nxt idx2" "sub_infos idx1 idx2" "file_to_master idx2 = file_to_master idx1 ++ plan_map path plan"
      "file_to_sizes idx2 = file_to_sizes idx1" "\<forall>k p. file_to_master idx2 k = Some p \<longrightarrow> slot_of idx2 p = slot_of idx1 p"
    using map_pass_spec [OF p(2) c1 p(3) distinct_logical [OF plan_ok_logical [OF po] small], of path] by blast
  let ?i = "update_size idx2 path new_end"
  let ?i' = "?i\<lparr>free_block_list := rel @ free_block_list ?i\<rparr>"
  have run: "write_pass3 idx path plan new_end = Some ?i'"
    using p(1) m(1) by (cases "rel = []") (simp_all add: write_pass3_def Let_def)
  have "index_inv nxt ?i'" by (rule index_inv_frame [OF m(2-4)]) simp_all
  moreover have "sub_infos idx1 ?i'" using m(5) by (simp add: sub_infos_def)
  then have "data_ok SHA512 master' {} ?i'" "sub_infos idx ?i'"
    using sub_infos_data_ok [OF _ p(4)] p(5) by (simp_all add: sub_infos_def)
  moreover have "slot_of ?i' = slot_of idx2" "slot_of idx1 = slot_of idx"
    using p(5) by (simp_all add: slot_of_def fun_eq_iff)
  ultimately show ?thesis
    using run m(6-8) p(6,7) only_newD(1,3) [OF o] by (simp add: file_to_sizes_update_size)
qed

section \<open>The whole write\<close>

text \<open>The master file ends with the last slot handed out.\<close>

definition tight :: "byte list \<Rightarrow> u64 \<Rightarrow> bool" where
  "tight master nxt \<longleftrightarrow> length master = unat nxt * BLOCK_SIZE"

lemma flush_tight:
  assumes st: "staged SHA512 buf start nxt' idx0 idx2 plan" and fl: "flushed buf plan 0 master'"
    and len: "length plan * BLOCK_SIZE \<le> length buf" and t: "tight master nxt" and le: "unat nxt \<le> unat nxt'"
    and old: "\<forall>s \<in> slot_of idx2 ` published (miss_infos plan) idx2 \<union> set (free_block_list idx2). unat s < unat nxt"
    and lm: "length master \<le> length master'" "length master' \<le> max (length master) (unat nxt' * BLOCK_SIZE)"
  shows "tight master' nxt'"
proof (cases "unat nxt < unat nxt'")
  case False
  then show ?thesis using le lm t by (simp add: tight_def)
next
  case True
  let ?l = "nxt' - 1"
  have "1 \<le> nxt'" using True by (simp add: word_le_nat_alt)
  then have l: "unat ?l = unat nxt' - 1" using unat_sub [of 1 nxt'] by simp
  have "?l < nxt'" "\<not> unat ?l < unat nxt" using l True by (auto simp: word_less_nat_alt)
  moreover have "slot_of idx2 ` published (miss_infos plan) idx2 \<union> miss_slots plan \<union> set (free_block_list idx2) = {s. s < nxt'}"
    using st by (auto simp: staged_def slots_ok_def)
  ultimately have "?l \<in> miss_slots plan" using old by blast
  then obtain e where e: "e \<in> set plan" "is_miss e" "master_blk e = ?l" by (auto simp: miss_slots_def)
  then obtain k where k: "k < length plan" "plan ! k = e" by (auto simp: in_set_conv_nth)
  have "block_at master' (unat ?l) = block_at buf k" using fl k e unfolding flushed_def by force
  moreover have "Suc k * BLOCK_SIZE \<le> length buf" using k(1) len by (meson Suc_leI le_trans mult_le_mono1)
  ultimately have "Suc (unat ?l) * BLOCK_SIZE \<le> length master'" using full_block_iff by metis
  then have "unat nxt' * BLOCK_SIZE \<le> length master'" using l True by simp
  moreover have "length master \<le> unat nxt' * BLOCK_SIZE" using t le by (simp add: tight_def)
  ultimately show ?thesis using lm by (simp add: tight_def)
qed

lemma staged_old_slots:
  assumes st: "staged SHA512 buf start nxt' idx0 idx2 plan" and inv: "index_inv nxt idx0"
  shows "p \<in> published (miss_infos plan) idx2 \<Longrightarrow> unat (slot_of idx2 p) < unat nxt"
    "s \<in> set (free_block_list idx0) \<Longrightarrow> unat s < unat nxt"
proof -
  have "slot_of idx0 ` dom (minfos idx0) \<union> set (free_block_list idx0) = {s. s < nxt}"
    using inv by (simp add: index_inv_def slots_ok_def published_def)
  then have old: "s < nxt" if "s \<in> slot_of idx0 ` dom (minfos idx0) \<union> set (free_block_list idx0)" for s using that by blast
  then show "s \<in> set (free_block_list idx0) \<Longrightarrow> unat s < unat nxt" by (simp add: word_less_nat_alt)
  assume p: "p \<in> published (miss_infos plan) idx2"
  have o: "only_new (miss_infos plan) idx0 idx2" using st by (simp add: staged_def)
  have np: "p \<notin> miss_infos plan" using p by (simp add: published_def)
  obtain mi where "minfos idx2 p = Some mi" using p by (auto simp: published_def)
  then have "p \<in> dom (minfos idx0)" using info_key_eqD [OF only_newD(6) [OF o np], of mi] by auto
  then show "unat (slot_of idx2 p) < unat nxt"
    using old only_new_slot_of [OF o np] by (simp add: word_less_nat_alt)
qed

lemma alloc_and_flush_spec:
  assumes inv: "pass1_inv SHA512 buf start nxt idx0 (idx, pending, plan, mc)" and b: "unat nxt + length plan \<le> MAX_BLOCKS"
    and len: "length plan * BLOCK_SIZE \<le> length buf" and io: "errno_contract io"
  shows "\<exists>rc plan' idx2 master' nxt'. alloc_and_flush io buf (idx, master, nxt) plan mc = Some (rc, plan', (idx2, master', nxt')) \<and>
    staged SHA512 buf start nxt' idx0 idx2 plan' \<and> length plan' = length plan \<and> untouched master plan' 0 master' \<and>
    (rc < 0 \<or> rc = 0 \<and> flushed buf plan' 0 master') \<and> (io = [] \<longrightarrow> rc = 0) \<and>
    unat nxt' = unat nxt + (length (misses plan') - length (free_block_list idx0)) \<and>
    free_block_list idx2 = drop (length (misses plan')) (free_block_list idx0) \<and>
    (rc = 0 \<longrightarrow> index_inv nxt idx0 \<longrightarrow> tight master nxt \<longrightarrow> tight master' nxt')"
proof (cases "mc > 0")
  case False
  have "mc = length (misses plan)" using inv by (simp add: pass1_inv_def)
  then have m: "misses plan = []" using False by simp
  then have hits: "\<not> is_miss (plan ! k)" if "k < length plan" for k
    using that misses_simps(4) [of plan] nth_mem by fastforce
  have "staged SHA512 buf start nxt idx0 idx plan"
    using inv m by (simp add: pass1_inv_def staged_def miss_slots_def)
  moreover have "flushed buf plan 0 master" "untouched master plan 0 master"
    using hits by (simp_all add: flushed_def untouched_def)
  moreover have "free_block_list idx = free_block_list idx0" using inv by (simp add: pass1_inv_def)
  ultimately show ?thesis using False m by (simp add: alloc_and_flush_def)
next
  case True
  obtain idx1 nxt' blks where a: "allocate_batch_storage_first idx mc nxt = (idx1, nxt', blks)" by (metis prod_cases3)
  have "unat nxt + length plan < 2 ^ 64" using b by simp
  from stage_spec [OF inv this a] obtain idx2 plan' where as: "assign_blocks idx1 plan blks = Some (idx2, plan')"
    and st: "staged SHA512 buf start nxt' idx0 idx2 plan'" and sp: "map strip plan' = map strip plan"
    and fl: "free_block_list idx2 = drop mc (free_block_list idx0)"
    and nx: "unat nxt' = unat nxt + (mc - length (free_block_list idx0))" by blast
  note sc = map_strip_cong [OF sp]
  have mc: "mc = length (misses plan')" using inv sc(7) by (simp add: pass1_inv_def)
  have "unat nxt' \<le> MAX_BLOCKS" using nx b mc sc(7) length_misses [of plan] by linarith
  moreover have "unat (master_blk e) < unat nxt'" if "e \<in> set plan'" "is_miss e" for e
  proof -
    have "master_blk e \<in> miss_slots plan'" using that by (auto simp: miss_slots_def)
    then have "master_blk e \<in> {s. s < nxt'}" using st unfolding staged_def slots_ok_def by blast
    then show ?thesis by (simp add: word_less_nat_alt)
  qed
  ultimately have small': "\<forall>e \<in> set plan'. is_miss e \<longrightarrow> unat (master_blk e) < unat nxt'" "unat nxt' \<le> MAX_BLOCKS" by blast+
  then have small: "\<forall>e \<in> set plan'. is_miss e \<longrightarrow> unat (master_blk e) < MAX_BLOCKS" by fastforce
  have pay: "\<forall>k < length plan'. payload (plan' ! k) = k * BLOCK_SIZE"
    using st by (simp add: staged_def plan_ok_def entry_ok_def)
  have ds: "distinct (map master_blk (misses plan'))" using st by (simp add: staged_def)
  obtain rc master' io' where f: "flush_plan master buf plan' 0 io = Some (rc, master', io')" "untouched master plan' 0 master'"
    "errno_contract io \<longrightarrow> rc < 0 \<or> rc = 0 \<and> flushed buf plan' 0 master'" "io = [] \<longrightarrow> rc = 0"
    using flush_plan_spec [OF small pay _ ds, of buf 0 master io] len sc(4) by auto
  have lm: "length master \<le> length master' \<and> length master' \<le> max (length master) (unat nxt' * BLOCK_SIZE)"
    using flush_plan_length [OF small' pay _ _ f(1)] len sc(4) by simp
  have "tight master' nxt'" if "rc = 0" "index_inv nxt idx0" "tight master nxt"
    using f(3) io that nx lm len sc(4) staged_old_slots [OF st that(2)] fl
    by (intro flush_tight [OF st _ _ that(3)]) (auto dest: in_set_dropD)
  then show ?thesis using True a as st sc(4) io nx fl mc f by (simp add: alloc_and_flush_def Let_def)
qed

text \<open>The state after a write that failed, and after one that succeeded.\<close>

definition rolled_back :: "Index \<Rightarrow> Index \<Rightarrow> bool" where
  "rolled_back idx idx' \<longleftrightarrow> file_to_master idx' = file_to_master idx \<and> hash_to_master idx' = hash_to_master idx \<and>
     file_to_sizes idx' = file_to_sizes idx \<and> minfos idx' = minfos idx"

text \<open>The blocks that allocated objects stand for.\<close>

definition stored_blocks :: "byte list \<Rightarrow> Index \<Rightarrow> byte list set" where
  "stored_blocks master idx = (\<lambda>p. block_at master (unat (slot_of idx p))) ` dom (minfos idx)"

text \<open>A write of \<open>n\<close> blocks, up to the hash: every block of the range holds a block with the hash of its
  payload, taken from the blocks stored before or from the request; every other block is unchanged.\<close>

definition write_blocks ::
    "(byte list \<Rightarrow> digest) \<Rightarrow> byte list set \<Rightarrow> path \<Rightarrow> u64 \<Rightarrow> byte list \<Rightarrow> nat \<Rightarrow>
     (path \<Rightarrow> u64 \<Rightarrow> byte list option) \<Rightarrow> (path \<Rightarrow> u64 \<Rightarrow> byte list option) \<Rightarrow> bool" where
  "write_blocks SHA512 known path start buf n fs fs' \<longleftrightarrow>
     (\<forall>k < n. \<exists>blk. fs' path (start + of_nat k) = Some blk \<and> length blk = BLOCK_SIZE \<and>
        hash SHA512 blk = hash SHA512 (block_at buf k) \<and> blk \<in> known \<union> block_at buf ` {..<n}) \<and>
     (\<forall>g b. g \<noteq> path \<or> (\<forall>k < n. b \<noteq> start + of_nat k) \<longrightarrow> fs' g b = fs g b)"

lemma write_pass3_blocks:
  assumes st: "staged SHA512 buf start nxt idx0 idx plan" and d: "data_ok SHA512 master {} idx0"
    and u: "untouched master plan 0 master'" and fl: "flushed buf plan 0 master'" and small: "length plan < 2 ^ 64"
    and i: "tables_ok {} idx'" "data_ok SHA512 master' {} idx'" "sub_infos idx idx'"
      "file_to_master idx' = file_to_master idx0 ++ plan_map path plan"
      "\<forall>k p. file_to_master idx' k = Some p \<longrightarrow> slot_of idx' p = slot_of idx p"
  shows "write_blocks SHA512 (stored_blocks master idx0) path start buf (length plan) (fs_block master idx0) (fs_block master' idx')"
proof -
  have po: "plan_ok SHA512 buf start idx plan" and o: "only_new (miss_infos plan) idx0 idx"
    and sl: "\<forall>e \<in> set (misses plan). slot_of idx (info e) = master_blk e"
    using st unfolding staged_def by blast+
  have known: "block_at master' (unat (slot_of idx p)) \<in> stored_blocks master idx0 \<union> block_at buf ` {..<length plan}"
    if p: "p \<in> dom (minfos idx)" for p
  proof (cases "p \<in> miss_infos plan")
    case True
    then obtain l where l: "l < length plan" "is_miss (plan ! l)" "info (plan ! l) = p"
      by (auto simp: miss_infos_def in_set_conv_nth)
    then have "slot_of idx p = master_blk (plan ! l)" using sl by auto
    then show ?thesis using fl l by (simp add: flushed_def)
  next
    case False
    then have "p \<in> published (miss_infos plan) idx" using p by (simp add: published_def)
    from staged_old_blocks [OF st d u this] only_new_slot_of [OF o False]
    have "block_at master' (unat (slot_of idx p)) = block_at master (unat (slot_of idx0 p))" by simp
    moreover have "p \<in> dom (minfos idx0)" using p only_newD(6) [OF o False] by (cases "minfos idx0 p") auto
    ultimately show ?thesis by (auto simp: stored_blocks_def)
  qed
  have "\<exists>blk. fs_block master' idx' path (start + of_nat k) = Some blk \<and> length blk = BLOCK_SIZE \<and>
        hash SHA512 blk = hash SHA512 (block_at buf k) \<and> blk \<in> stored_blocks master idx0 \<union> block_at buf ` {..<length plan}"
    if k: "k < length plan" for k
  proof -
    let ?p = "info (plan ! k)"
    have f: "file_to_master idx' (bkey path (start + of_nat k)) = Some ?p"
      unfolding i(4) using plan_map_nth [OF plan_ok_logical [OF po] small k] by (simp add: map_add_def)
    then obtain mi' where mi': "minfos idx' ?p = Some mi'" by (rule file_mapped_allocated [OF i(1)])
    then obtain mi where "minfos idx ?p = Some mi" "info_hash mi' = info_hash mi" using i(3) unfolding sub_infos_def by blast
    then have "info_hash mi' = hash SHA512 (block_at buf k)"
      using po k by (auto simp: plan_ok_def entry_ok_def)
    moreover have "slot_of idx' ?p = slot_of idx ?p" using i(5) f by blast
    moreover have "?p \<in> dom (minfos idx)" using po k by (auto simp: plan_ok_def entry_ok_def)
    moreover have "length (block_at master' (unat (masterBlockIndex mi'))) = BLOCK_SIZE"
      "hash SHA512 (block_at master' (unat (masterBlockIndex mi'))) = info_hash mi'"
      using i(2) mi' by (simp_all add: data_ok_def)
    ultimately show ?thesis
      using mi' f known [of ?p] by (simp add: fs_block_def lookup_by_file_block_def)
  qed
  moreover have "fs_block master' idx' g b = fs_block master idx0 g b" if "g \<noteq> path \<or> (\<forall>k < length plan. b \<noteq> start + of_nat k)" for g b
  proof (rule staged_fs_block [OF st d u])
    show "file_to_master idx' (bkey g b) = file_to_master idx0 (bkey g b)"
      unfolding i(4) using plan_map_other [OF plan_ok_logical [OF po] that] by (simp add: map_add_def)
  qed (use i(5) in blast)
  ultimately show ?thesis unfolding write_blocks_def by blast
qed

lemma write_dedup_spec:
  fixes off :: u64 and path :: path
  assumes inv: "index_inv nxt idx" and d: "data_ok SHA512 master {} idx"
    and sz: "unat sz = n * BLOCK_SIZE" "0 < n" and len: "unat sz \<le> length buf" and io: "errno_contract io"
    and rb: "card (dom (file_to_master idx)) + n < 2 ^ 32" and nb: "unat nxt + n \<le> MAX_BLOCKS"
  defines "start \<equiv> off_div_block off"
  shows "\<exists>r idx' master' nxt'. write_dedup SHA512 io (idx, master, nxt) path buf sz off = Some (r, (idx', master', nxt')) \<and>
    index_inv nxt' idx' \<and> data_ok SHA512 master' {} idx' \<and> unat nxt \<le> unat nxt' \<and> unat nxt' \<le> unat nxt + n \<and>
    (io \<noteq> [] \<and> r < 0 \<and> rolled_back idx idx' \<and> (\<forall>g b. fs_block master' idx' g b = fs_block master idx g b) \<or>
     r = c_int (of_nat n * BLOCK_SIZE64) \<and> (tight master nxt \<longrightarrow> tight master' nxt') \<and>
     write_blocks SHA512 (stored_blocks master idx) path start buf n (fs_block master idx) (fs_block master' idx') \<and>
     file_to_sizes idx' = (file_to_sizes idx)(path \<mapsto>
       (case file_to_sizes idx path of None \<Rightarrow> (start + of_nat n) * BLOCK_SIZE64
        | Some s \<Rightarrow> max s ((start + of_nat n) * BLOCK_SIZE64))))"
proof -
  have i0: "tables_ok {} idx" "counts_ok (\<lambda>_. 0) idx" using inv by (simp_all add: index_inv_def)
  have "refs idx p + length ([] :: PlanEntry list) + n < 2 ^ 32" for p
    using refs_le_dom [OF tables_ok_finite [OF i0(1)], of p] rb by simp
  moreover have lb: "n * BLOCK_SIZE \<le> length buf" using sz len by simp
  ultimately obtain idx1 pending plan mc where p1: "plan_pass SHA512 buf start [0..<n] (idx, Map.empty, [], 0) = Some (idx1, pending, plan, mc)"
    and i1: "pass1_inv SHA512 buf start nxt idx (idx1, pending, plan, mc)" and ln: "length plan = n"
    using plan_pass_spec [OF pass1_inv_start [OF inv], of n buf SHA512 start] by auto
  obtain rc plan' idx2 master' nxt' where af: "alloc_and_flush io buf (idx1, master, nxt) plan mc = Some (rc, plan', (idx2, master', nxt'))"
    and st: "staged SHA512 buf start nxt' idx idx2 plan'" and ln': "length plan' = n" and ut: "untouched master plan' 0 master'"
    and rc: "rc < 0 \<or> rc = 0 \<and> flushed buf plan' 0 master'" "io = [] \<longrightarrow> rc = 0"
    and nx: "unat nxt' = unat nxt + (length (misses plan') - length (free_block_list idx))"
    and ti: "rc = 0 \<longrightarrow> tight master nxt \<longrightarrow> tight master' nxt'"
    using inv alloc_and_flush_spec [OF i1 _ _ io, of master] nb ln lb by auto
  have nle: "unat nxt \<le> unat nxt'" "unat nxt' \<le> unat nxt + n" using nx length_misses [of plan'] ln' by linarith+
  have nz: "sz \<noteq> 0" "unat sz div BLOCK_SIZE = n" "unat sz mod BLOCK_SIZE = 0" using sz by auto
  have run: "write_dedup SHA512 io (idx, master, nxt) path buf sz off =
      (if rc < 0 then map_option (\<lambda>idx3. (rc, (idx3, master', nxt'))) (rollback_allocations idx2 plan')
       else map_option (\<lambda>idx3. (c_int (of_nat n * BLOCK_SIZE64), (idx3, master', nxt')))
              (write_pass3 idx2 path plan' ((start + of_nat n) * BLOCK_SIZE64)))"
    unfolding write_dedup_def Let_def prod.case nz start_def [symmetric] using nz(1) sz(2) p1 af by simp
  show ?thesis
  proof (cases "rc < 0")
    case True
    obtain idx' where rb: "rollback_allocations idx2 plan' = Some idx'" and inv': "index_inv nxt' idx'" and same: "rolled_back idx idx'"
      using rollback_spec [OF st i0(2)] unfolding rolled_back_def by blast
    have m: "minfos idx' = minfos idx" "file_to_master idx' = file_to_master idx" using same by (simp_all add: rolled_back_def)
    have t2: "tables_ok (miss_infos plan') idx2" and o2: "only_new (miss_infos plan') idx idx2"
      using st unfolding staged_def by blast+
    have "fs_block master' idx' g b = fs_block master idx g b" for g b
    proof (rule staged_fs_block [OF st d ut])
      fix p assume "file_to_master idx' (bkey g b) = Some p"
      then have "p \<notin> miss_infos plan'"
        using tables_ok_file [OF t2] only_newD(1) [OF o2] m(2) by (fastforce simp: published_def)
      then show "slot_of idx' p = slot_of idx2 p" using only_new_slot_of [OF o2] m(1) by (simp add: slot_of_def)
    qed (simp add: m)
    moreover have "data_ok SHA512 master' {} idx'"
      unfolding data_ok_def
    proof (intro allI impI)
      fix p mi assume p: "minfos idx' p = Some mi"
      then have np: "p \<notin> miss_infos plan'" using m(1) only_newD(4) [OF o2] by auto
      obtain mj where "minfos idx2 p = Some mj" "info_hash mj = info_hash mi" "masterBlockIndex mj = masterBlockIndex mi"
        using info_key_eqD [OF only_newD(6) [OF o2 np, symmetric], of mi] p m(1) by auto
      then show "length (block_at master' (unat (masterBlockIndex mi))) = BLOCK_SIZE \<and>
          hash SHA512 (block_at master' (unat (masterBlockIndex mi))) = info_hash mi"
        using staged_data_ok [OF st d ut] np unfolding data_ok_def by metis
    qed
    ultimately show ?thesis using run rb True inv' same nle rc(2) by auto
  next
    case False
    then have fl: "flushed buf plan' 0 master'" using rc by simp
    have ls: "length plan' < 2 ^ 64" using ln' nb by simp
    obtain idx' where w3: "write_pass3 idx2 path plan' ((start + of_nat n) * BLOCK_SIZE64) = Some idx'" and inv': "index_inv nxt' idx'"
      and d': "data_ok SHA512 master' {} idx'" and sub: "sub_infos idx2 idx'"
      and fm: "file_to_master idx' = file_to_master idx ++ plan_map path plan'"
      and so: "\<forall>k p. file_to_master idx' k = Some p \<longrightarrow> slot_of idx' p = slot_of idx2 p"
      and sz': "file_to_sizes idx' = (file_to_sizes idx)(path \<mapsto>
       (case file_to_sizes idx path of None \<Rightarrow> (start + of_nat n) * BLOCK_SIZE64
        | Some s \<Rightarrow> max s ((start + of_nat n) * BLOCK_SIZE64)))"
      using write_pass3_spec [OF st d ut fl _ ls, of path "(start + of_nat n) * BLOCK_SIZE64"] ln' lb by auto
    have "tables_ok {} idx'" using inv' by (simp add: index_inv_def)
    from write_pass3_blocks [OF st d ut fl ls this d' sub fm so]
    show ?thesis using run w3 False inv' d' nle sz' ln' rc(1) ti by auto
  qed
qed

end
