(* ===== verification/Dedup_Spec.thy ===== *)
theory Dedup_Spec
  imports Dedup_Write
begin

text \<open>
  The contract of the deduplication layer as a whole. The abstract state of the store is what its
  users see: the contents of every mapped block and the logical size of every file. A write or a
  removal on the concrete state (index, master file, next slot) does to the abstract state what
  the specification says, as long as SHA-512 has no collision among the blocks involved; the
  invariant itself needs no such hypothesis and holds in every reachable state, for every outcome of
  the system calls.
\<close>

section \<open>Abstract states\<close>

record fs_view =
  view_block :: "path \<Rightarrow> u64 \<Rightarrow> byte list option"
  view_size :: "path \<rightharpoonup> u64"

fun view :: "store \<Rightarrow> fs_view" where
  "view (idx, master, nxt) = \<lparr>view_block = fs_block master idx, view_size = file_to_sizes idx\<rparr>"

definition in_range :: "u64 \<Rightarrow> nat \<Rightarrow> u64 \<Rightarrow> bool" where
  "in_range start n b \<longleftrightarrow> unat start \<le> unat b \<and> unat b < unat start + n"

definition spec_write :: "path \<Rightarrow> u64 \<Rightarrow> byte list list \<Rightarrow> fs_view \<Rightarrow> fs_view" where
  "spec_write path start blks v =
     (let end_byte = (start + of_nat (length blks)) * BLOCK_SIZE64 in
      v\<lparr>view_block := (\<lambda>f b. if f = path \<and> in_range start (length blks) b then Some (blks ! (unat b - unat start))
                              else view_block v f b),
        view_size := (view_size v)(path \<mapsto> (case view_size v path of None \<Rightarrow> end_byte | Some s \<Rightarrow> max s end_byte))\<rparr>)"

definition spec_remove :: "path \<Rightarrow> u64 \<Rightarrow> u64 \<Rightarrow> fs_view \<Rightarrow> fs_view" where
  "spec_remove path s e v =
     v\<lparr>view_block := (\<lambda>f b. if f = path \<and> s \<le> b \<and> b < e then None else view_block v f b)\<rparr>"

section \<open>Well-formed stores and requests\<close>

fun store_ok :: "(byte list \<Rightarrow> digest) \<Rightarrow> store \<Rightarrow> bool" where
  "store_ok SHA512 (idx, master, nxt) \<longleftrightarrow>
     index_inv nxt idx \<and> data_ok SHA512 master {} idx \<and> sizes_ok idx \<and> unat nxt \<le> MAX_BLOCKS"

text \<open>The limits of the machine types: fewer than \<open>2 ^ 32\<close> references (the counter is 32 bits
  wide), fewer than \<open>2 ^ 51\<close> slots and a file offset that fits \<^verbatim>\<open>off_t\<close>.\<close>

fun request_fits :: "store \<Rightarrow> u64 \<Rightarrow> u64 \<Rightarrow> bool" where
  "request_fits (idx, master, nxt) sz off \<longleftrightarrow>
     card (dom (file_to_master idx)) + unat sz div BLOCK_SIZE < 2 ^ 32 \<and>
     unat nxt + unat sz div BLOCK_SIZE \<le> MAX_BLOCKS \<and> unat off + unat sz < 2 ^ 63"

lemma request_start:
  assumes "unat off + n * BLOCK_SIZE < 2 ^ 63"
  shows "unat (off_div_block off) + n < MAX_BLOCKS" "unat (off_div_block off) * BLOCK_SIZE \<le> unat off"
proof -
  have u: "unat (off_div_block off) = unat off div BLOCK_SIZE"
    using assms by (intro unat_off_div_block) simp
  show "unat (off_div_block off) * BLOCK_SIZE \<le> unat off" unfolding u by (rule div_times_less_eq_dividend)
  then have "(unat (off_div_block off) + n) * BLOCK_SIZE < 2 ^ 63" using assms by (simp add: add_mult_distrib)
  also have "(2 :: nat) ^ 63 = 2 ^ 51 * BLOCK_SIZE" by (simp add: BLOCK_SIZE_def)
  finally show "unat (off_div_block off) + n < MAX_BLOCKS" by (simp only: mult_less_cancel2)
qed

lemma in_range_iff:
  assumes "unat start + n < 2 ^ 64"
  shows "in_range start n b \<longleftrightarrow> (\<exists>k < n. b = start + of_nat k)"
proof
  assume r: "in_range start n b"
  have "unat start + (unat b - unat start) < 2 ^ 64" using r unat_less_2_64 [of b] by (simp add: in_range_def)
  then have "unat (start + of_nat (unat b - unat start)) = unat start + (unat b - unat start)"
    by (rule unat_plus_of_nat)
  then have "b = start + of_nat (unat b - unat start)" using r by (simp add: u64_eq_iff_unat in_range_def)
  moreover have "unat b - unat start < n" using r by (auto simp: in_range_def)
  ultimately show "\<exists>k < n. b = start + of_nat k" by blast
next
  assume "\<exists>k < n. b = start + of_nat k"
  then obtain k where k: "k < n" "b = start + of_nat k" by blast
  have "unat b = unat start + k" unfolding k(2) using assms k(1) by (intro unat_plus_of_nat) simp
  with k show "in_range start n b" by (simp add: in_range_def)
qed

section \<open>Sizes\<close>

lemma new_end_unat:
  assumes "unat start + n < MAX_BLOCKS"
  shows "unat ((start + of_nat n) * BLOCK_SIZE64) = (unat start + n) * BLOCK_SIZE"
proof -
  have "unat (start + of_nat n) = unat start + n" using assms by (intro unat_plus_of_nat) simp
  then show ?thesis using unat_mult_BLOCK_SIZE [of "start + of_nat n"] assms by simp
qed

lemma sizes_ok_write:
  assumes ok: "sizes_ok idx" and b: "unat start + n < MAX_BLOCKS"
    and f: "\<And>g b. file_to_master idx' (bkey g b) \<noteq> None \<Longrightarrow>
       file_to_master idx (bkey g b) \<noteq> None \<or> g = path \<and> in_range start n b"
    and z: "file_to_sizes idx' = (file_to_sizes idx)(path \<mapsto>
       (case file_to_sizes idx path of None \<Rightarrow> (start + of_nat n) * BLOCK_SIZE64
        | Some s \<Rightarrow> max s ((start + of_nat n) * BLOCK_SIZE64)))"
  shows "sizes_ok idx'"
proof -
  let ?e = "(start + of_nat n) * BLOCK_SIZE64"
  note e = new_end_unat [OF b]
  have grow: "\<exists>s'. file_to_sizes idx' g = Some s' \<and> unat s \<le> unat s'" if "file_to_sizes idx g = Some s" for g s
    using that by (auto simp: z max_def word_le_nat_alt)
  have cov: "\<exists>s. file_to_sizes idx' path = Some s \<and> unat ?e \<le> unat s"
    by (auto simp: z max_def word_le_nat_alt split: option.split)
  have "\<exists>s. file_to_sizes idx' (key_path k) = Some s \<and> unat (key_offset k) * BLOCK_SIZE < unat s"
    if k: "file_to_master idx' k = Some p" for k p
  proof -
    obtain g b' where kk: "k = bkey g b'" by (cases k) simp
    from f [of g b'] k kk consider (old) q where "file_to_master idx (bkey g b') = Some q" | (new) "g = path" "in_range start n b'"
      by auto
    then show ?thesis
    proof cases
      case old
      then obtain s where "file_to_sizes idx g = Some s" "unat b' * BLOCK_SIZE < unat s"
        using ok unfolding sizes_ok_def by fastforce
      with grow [of g s] kk show ?thesis by fastforce
    next
      case new
      then have lt: "unat b' * BLOCK_SIZE < (unat start + n) * BLOCK_SIZE" by (simp add: in_range_def)
      from cov obtain s where s: "file_to_sizes idx' path = Some s" "unat ?e \<le> unat s" by blast
      have "unat b' * BLOCK_SIZE < unat s" using lt s(2) e by linarith
      then show ?thesis using s(1) new(1) kk by simp
    qed
  qed
  moreover have "unat s mod BLOCK_SIZE = 0" if "file_to_sizes idx' g = Some s" for g s
    using that ok e unfolding z sizes_ok_def by (auto simp: max_def split: if_splits option.splits)
  ultimately show ?thesis unfolding sizes_ok_def by blast
qed

section \<open>Writes\<close>

text \<open>The blocks of a buffer.\<close>

definition buf_blocks :: "byte list \<Rightarrow> nat \<Rightarrow> byte list list" where
  "buf_blocks buf n = map (block_at buf) [0..<n]"

lemma length_buf_blocks [simp]: "length (buf_blocks buf n) = n"
  by (simp add: buf_blocks_def)

lemma write_blocks_mapped:
  assumes w: "write_blocks SHA512 known path start buf n fs fs'" and b: "unat start + n < 2 ^ 64" and f: "fs' g b \<noteq> None"
  shows "fs g b \<noteq> None \<or> g = path \<and> in_range start n b"
  using w f in_range_iff [OF b, of b] unfolding write_blocks_def by metis

lemma write_blocks_exact:
  assumes w: "write_blocks SHA512 known path start buf n fs fs'" and b: "unat start + n < 2 ^ 64"
    and nc: "no_collision SHA512 (known \<union> set (buf_blocks buf n))"
  shows "fs' = (\<lambda>g b. if g = path \<and> in_range start n b then Some (buf_blocks buf n ! (unat b - unat start)) else fs g b)"
proof (intro ext)
  fix g b'
  show "fs' g b' = (if g = path \<and> in_range start n b' then Some (buf_blocks buf n ! (unat b' - unat start)) else fs g b')"
  proof (cases "g = path \<and> in_range start n b'")
    case True
    then obtain k where k: "k < n" "b' = start + of_nat k" using in_range_iff [OF b] by blast
    have u: "unat b' - unat start = k"
      unfolding k(2) using b k(1) unat_plus_of_nat [of start k] by simp
    obtain blk where blk: "fs' path b' = Some blk" "hash SHA512 blk = hash SHA512 (block_at buf k)"
      "blk \<in> known \<union> block_at buf ` {..<n}"
      using w k unfolding write_blocks_def by blast
    have "set (buf_blocks buf n) = block_at buf ` {..<n}" by (auto simp: buf_blocks_def)
    then have "blk = block_at buf k"
      using no_collisionD [OF nc _ _ blk(2)] blk(3) k(1) by auto
    then show ?thesis using True blk(1) u k(1) by (simp add: buf_blocks_def)
  next
    case False
    then have "g \<noteq> path \<or> (\<forall>k < n. b' \<noteq> start + of_nat k)" using in_range_iff [OF b] by blast
    then have "fs' g b' = fs g b'" using w unfolding write_blocks_def by blast
    then show ?thesis using False by auto
  qed
qed

fun stored :: "store \<Rightarrow> byte list set" where
  "stored (idx, master, nxt) = stored_blocks master idx"

text \<open>One lemma for all outcomes of an aligned write.\<close>

lemma write_dedup_store:
  fixes off :: u64 and path :: path
  assumes ok: "store_ok SHA512 st" and fits: "request_fits st sz off" and sz: "unat sz = n * BLOCK_SIZE" "0 < n"
    and len: "unat sz \<le> length buf" and io: "errno_contract io"
  shows "\<exists>r st'. write_dedup SHA512 io st path buf sz off = Some (r, st') \<and> store_ok SHA512 st' \<and>
    (io \<noteq> [] \<and> r < 0 \<and> view st' = view st \<and> rolled_back (fst st) (fst st') \<or>
     r = c_int (of_nat n * BLOCK_SIZE64) \<and>
     write_blocks SHA512 (stored st) path (off_div_block off) buf n (view_block (view st)) (view_block (view st')) \<and>
     (no_collision SHA512 (stored st \<union> set (buf_blocks buf n)) \<longrightarrow>
        view st' = spec_write path (off_div_block off) (buf_blocks buf n) (view st)))"
proof -
  obtain idx master nxt where st: "st = (idx, master, nxt)" by (cases st)
  have i: "index_inv nxt idx" "data_ok SHA512 master {} idx" "sizes_ok idx" using ok by (simp_all add: st)
  have n: "unat sz div BLOCK_SIZE = n" using sz by simp
  have f: "card (dom (file_to_master idx)) + n < 2 ^ 32" "unat nxt + n \<le> MAX_BLOCKS" "unat off + n * BLOCK_SIZE < 2 ^ 63"
    using fits n sz(1) by (simp_all add: st)
  let ?start = "off_div_block off"
  have sn: "unat ?start + n < MAX_BLOCKS" by (rule request_start(1) [OF f(3)])
  then have sn64: "unat ?start + n < 2 ^ 64" by simp
  obtain r idx' master' nxt' where w: "write_dedup SHA512 io (idx, master, nxt) path buf sz off = Some (r, (idx', master', nxt'))"
    and inv': "index_inv nxt' idx'" "data_ok SHA512 master' {} idx'" and nx: "unat nxt' \<le> unat nxt + n"
    and cases: "io \<noteq> [] \<and> r < 0 \<and> rolled_back idx idx' \<and> (\<forall>g b. fs_block master' idx' g b = fs_block master idx g b) \<or>
     r = c_int (of_nat n * BLOCK_SIZE64) \<and>
     write_blocks SHA512 (stored_blocks master idx) path ?start buf n (fs_block master idx) (fs_block master' idx') \<and>
     file_to_sizes idx' = (file_to_sizes idx)(path \<mapsto>
       (case file_to_sizes idx path of None \<Rightarrow> (?start + of_nat n) * BLOCK_SIZE64
        | Some s \<Rightarrow> max s ((?start + of_nat n) * BLOCK_SIZE64)))"
    using write_dedup_spec [OF i(1,2) sz len io f(1,2), of path off] by blast
  have nm: "unat nxt' \<le> MAX_BLOCKS" using nx f(2) by linarith
  from cases show ?thesis
  proof (elim disjE conjE)
    assume fail: "io \<noteq> []" "r < 0" "rolled_back idx idx'" "\<forall>g b. fs_block master' idx' g b = fs_block master idx g b"
    then have "sizes_ok idx'" "fs_block master' idx' = fs_block master idx" "file_to_sizes idx' = file_to_sizes idx"
      using i(3) by (auto simp: rolled_back_def sizes_ok_def)
    then show ?thesis using w inv' nm fail by (simp add: st)
  next
    assume r: "r = c_int (of_nat n * BLOCK_SIZE64)"
      and wb: "write_blocks SHA512 (stored_blocks master idx) path ?start buf n (fs_block master idx) (fs_block master' idx')"
      and z: "file_to_sizes idx' = (file_to_sizes idx)(path \<mapsto>
       (case file_to_sizes idx path of None \<Rightarrow> (?start + of_nat n) * BLOCK_SIZE64
        | Some s \<Rightarrow> max s ((?start + of_nat n) * BLOCK_SIZE64)))"
    have "sizes_ok idx'"
    proof (rule sizes_ok_write [OF i(3) sn _ z])
      fix g b assume "file_to_master idx' (bkey g b) \<noteq> None"
      then show "file_to_master idx (bkey g b) \<noteq> None \<or> g = path \<and> in_range ?start n b"
        using write_blocks_mapped [OF wb sn64, of g b] by (simp add: fs_block_def lookup_by_file_block_def)
    qed
    moreover have "view (idx', master', nxt') = spec_write path ?start (buf_blocks buf n) (view (idx, master, nxt))"
      if "no_collision SHA512 (stored_blocks master idx \<union> set (buf_blocks buf n))"
      using write_blocks_exact [OF wb sn64 that] z by (simp add: spec_write_def Let_def cong: if_cong)
    ultimately show ?thesis using w inv' nm r wb by (simp add: st)
  qed
qed

text \<open>A write that does not fail keeps the master file exactly as long as the slots handed out need.\<close>

fun store_tight :: "store \<Rightarrow> bool" where
  "store_tight (idx, master, nxt) \<longleftrightarrow> tight master nxt"

lemma write_dedup_tight:
  assumes ok: "store_ok SHA512 st" and fits: "request_fits st sz off" and sz: "unat sz = n * BLOCK_SIZE" "0 < n"
    and len: "unat sz \<le> length buf" and io: "errno_contract io"
    and w: "write_dedup SHA512 io st path buf sz off = Some (r, st')" and r: "0 \<le> r \<or> io = []"
    and t: "store_tight st"
  shows "store_tight st'"
proof -
  obtain idx master nxt where st: "st = (idx, master, nxt)" by (cases st)
  have i: "index_inv nxt idx" "data_ok SHA512 master {} idx" using ok by (simp_all add: st)
  have f: "card (dom (file_to_master idx)) + n < 2 ^ 32" "unat nxt + n \<le> MAX_BLOCKS" using fits sz by (simp_all add: st)
  show ?thesis
    using write_dedup_spec [OF i sz len io f, of path off] w r t unfolding st by auto
qed

lemma write_dedup_guards:
  "sz = 0 \<Longrightarrow> write_dedup SHA512 io st path buf sz off = Some (0, st)"
  "sz \<noteq> 0 \<Longrightarrow> unat sz mod BLOCK_SIZE \<noteq> 0 \<Longrightarrow> write_dedup SHA512 io st path buf sz off = Some (- EOPNOTSUPP, st)"
  by (cases st, simp add: write_dedup_def Let_def)+

section \<open>Removals as an interface\<close>

text \<open>What the handlers of the file system rely on when they drop the blocks of a file: the removal
  always returns, keeps the invariant and clears exactly the range.\<close>

locale block_remover =
  fixes inv :: "'st \<Rightarrow> bool" and get :: "'st \<Rightarrow> path \<Rightarrow> u64 \<Rightarrow> byte list option"
    and rm :: "'st \<Rightarrow> path \<Rightarrow> u64 \<Rightarrow> u64 \<Rightarrow> 'st option"
  assumes rm_total: "inv st \<Longrightarrow> \<exists>st'. rm st path s e = Some st'"
    and rm_inv: "inv st \<Longrightarrow> rm st path s e = Some st' \<Longrightarrow> inv st'"
    and rm_get: "inv st \<Longrightarrow> rm st path s e = Some st' \<Longrightarrow>
      get st' f b = (if f = path \<and> s \<le> b \<and> b < e then None else get st f b)"
begin

lemma rm_twice:
  assumes "inv st" "rm st path s e = Some st1" "rm st1 path s e = Some st2"
  shows "get st2 = get st1"
  using rm_get [OF rm_inv [OF assms(1,2)] assms(3)] rm_get [OF assms(1,2)] by (intro ext) simp

lemma rm_adjacent:
  assumes "inv st" "rm st path s m = Some st1" "rm st1 path m e = Some st2" "rm st path s e = Some st3" "s \<le> m" "m \<le> e"
  shows "get st2 = get st3"
proof (intro ext)
  fix f b
  have "get st2 f b = (if f = path \<and> (s \<le> b \<and> b < m \<or> m \<le> b \<and> b < e) then None else get st f b)"
    using rm_get [OF rm_inv [OF assms(1,2)] assms(3), of f b] rm_get [OF assms(1,2), of f b] by auto
  also have "(s \<le> b \<and> b < m \<or> m \<le> b \<and> b < e) = (s \<le> b \<and> b < e)" using assms(5,6) by auto
  finally show "get st2 f b = get st3 f b" using rm_get [OF assms(1,4)] by simp
qed

lemma rm_commute:
  assumes "inv st" "rm st p s e = Some st1" "rm st1 q s' e' = Some st2" "rm st q s' e' = Some st3" "rm st3 p s e = Some st4"
  shows "get st2 = get st4"
  using rm_get [OF rm_inv [OF assms(1,2)] assms(3)] rm_get [OF assms(1,2)]
    rm_get [OF rm_inv [OF assms(1,4)] assms(5)] rm_get [OF assms(1,4)]
  by (intro ext) simp

lemma rm_all:
  assumes "inv st" "rm st path 0 e = Some st'" "\<And>b. get st path b \<noteq> None \<Longrightarrow> b < e"
  shows "get st' path b = None"
  using rm_get [OF assms(1,2), of path b] assms(3) [of b] by (cases "get st path b") auto

end

fun store_remove :: "store \<Rightarrow> path \<Rightarrow> u64 \<Rightarrow> u64 \<Rightarrow> store option" where
  "store_remove (idx, master, nxt) path s e =
     map_option (\<lambda>idx'. (idx', master, nxt)) (remove_blocks_dedup_batch idx path s e)"

lemma sizes_ok_sub:
  assumes "sizes_ok idx" "file_to_sizes idx' = file_to_sizes idx"
    and "\<And>f b. fs_block master idx' f b \<noteq> None \<Longrightarrow> fs_block master idx f b \<noteq> None"
  shows "sizes_ok idx'"
  unfolding sizes_ok_def
proof (intro conjI allI impI)
  fix k p assume "file_to_master idx' k = Some p"
  then have "file_to_master idx k \<noteq> None"
    using assms(3) [of "key_path k" "key_offset k"] by (cases k) (simp add: fs_block_def lookup_by_file_block_def)
  then show "\<exists>s. file_to_sizes idx' (key_path k) = Some s \<and> unat (key_offset k) * BLOCK_SIZE < unat s"
    using assms(1,2) unfolding sizes_ok_def by auto
qed (use assms(1,2) in \<open>simp add: sizes_ok_def\<close>)

lemma store_remove_spec:
  assumes "store_ok SHA512 st"
  shows "\<exists>st'. store_remove st path s e = Some st' \<and> store_ok SHA512 st' \<and> view st' = spec_remove path s e (view st)"
proof -
  obtain idx master nxt where st: "st = (idx, master, nxt)" by (cases st)
  have i: "index_inv nxt idx" "data_ok SHA512 master {} idx" "sizes_ok idx" "unat nxt \<le> MAX_BLOCKS"
    using assms by (simp_all add: st)
  obtain idx' where r: "remove_blocks_dedup_batch idx path s e = Some idx'" "index_inv nxt idx'" "sub_infos idx idx'"
    "file_to_sizes idx' = file_to_sizes idx"
    and f: "\<And>g b. fs_block master idx' g b = (if g = path \<and> s \<le> b \<and> b < e then None else fs_block master idx g b)"
    using remove_batch_spec [OF i(1), of path s e master] by blast
  have "sizes_ok idx'" by (rule sizes_ok_sub [OF i(3) r(4), of master]) (simp add: f split: if_splits)
  moreover have "fs_block master idx' = (\<lambda>g b. if g = path \<and> s \<le> b \<and> b < e then None else fs_block master idx g b)"
    by (intro ext) (rule f)
  ultimately show ?thesis
    using r i(4) sub_infos_data_ok [OF r(3) i(2)] by (simp add: st spec_remove_def cong: if_cong)
qed

lemma store_remove_get:
  assumes "store_ok SHA512 st" "store_remove st path s e = Some st'"
  shows "store_ok SHA512 st'" "view st' = spec_remove path s e (view st)"
  using store_remove_spec [OF assms(1), of path s e] assms(2) by auto

interpretation batch: block_remover "store_ok SHA512" "\<lambda>st. view_block (view st)" store_remove
  for SHA512
proof
  fix st :: store and path s e st' f b
  assume ok: "store_ok SHA512 st"
  show "\<exists>st'. store_remove st path s e = Some st'" using store_remove_spec [OF ok] by blast
  assume r: "store_remove st path s e = Some st'"
  show "store_ok SHA512 st'" by (rule store_remove_get(1) [OF ok r])
  show "view_block (view st') f b = (if f = path \<and> s \<le> b \<and> b < e then None else view_block (view st) f b)"
    using store_remove_get(2) [OF ok r] by (simp add: spec_remove_def)
qed

section \<open>Reachable states\<close>

text \<open>The states the layer can get into: an empty store, then any sequence of writes (with any
  outcome of the system calls) and removals.\<close>

inductive store_reach :: "(byte list \<Rightarrow> digest) \<Rightarrow> store \<Rightarrow> bool" for SHA512 where
  reach_init: "store_reach SHA512 (empty_index, [], 0)"
| reach_write: "store_reach SHA512 st \<Longrightarrow> write_dedup SHA512 io st path buf sz off = Some (r, st') \<Longrightarrow>
     errno_contract io \<Longrightarrow> unat sz \<le> length buf \<Longrightarrow> request_fits st sz off \<Longrightarrow> store_reach SHA512 st'"
| reach_remove: "store_reach SHA512 st \<Longrightarrow> store_remove st path s e = Some st' \<Longrightarrow> store_reach SHA512 st'"

inductive_cases store_reachE: "store_reach SHA512 st"

lemma write_dedup_keeps_ok:
  assumes ok: "store_ok SHA512 st" and w: "write_dedup SHA512 io st path buf sz off = Some (r, st')"
    and io: "errno_contract io" and len: "unat sz \<le> length buf" and fits: "request_fits st sz off"
  shows "store_ok SHA512 st'"
proof -
  consider (zero) "sz = 0" | (part) "sz \<noteq> 0" "unat sz mod BLOCK_SIZE \<noteq> 0"
    | (blocks) n where "unat sz = n * BLOCK_SIZE" "0 < n"
    using unat_gt_0 [of sz] by (metis div_mult_mod_eq add.right_neutral mult_is_0 neq0_conv)
  then show ?thesis
  proof cases
    case zero
    then show ?thesis using ok w write_dedup_guards(1) [of sz] by simp
  next
    case part
    then show ?thesis using ok w write_dedup_guards(2) [of sz] by simp
  next
    case blocks
    then show ?thesis using write_dedup_store [OF ok fits blocks len io, of path] w by auto
  qed
qed

lemma store_ok_empty: "store_ok SHA512 (empty_index, [], 0)"
  using index_inv_empty by (simp add: data_ok_def sizes_ok_def empty_index_def)

lemma store_reach_ok: "store_reach SHA512 st \<Longrightarrow> store_ok SHA512 st"
proof (induction rule: store_reach.induct)
  case reach_init
  show ?case by (rule store_ok_empty)
next
  case (reach_write st io path buf sz off r st')
  show ?case by (rule write_dedup_keeps_ok [OF reach_write.IH reach_write.hyps(2-5)])
next
  case (reach_remove st path s e st')
  then show ?case using store_remove_get(1) by blast
qed

text \<open>No slot is lost: every slot below \<^verbatim>\<open>nextBlockIndex\<close> is either on the free list or the slot of
  exactly one object, and every object has its own digest.\<close>

lemma index_inv_conservation:
  assumes "index_inv nxt idx"
  shows "card (dom (minfos idx)) + length (free_block_list idx) = unat nxt"
    "inj_on (\<lambda>p. info_hash (the (minfos idx p))) (dom (minfos idx))"
proof -
  have s: "slots_ok {} {} [] nxt idx" and t: "tables_ok {} idx" using assms by (simp_all add: index_inv_def)
  have p: "published {} idx = dom (minfos idx)" by (simp add: published_def)
  have inj: "inj_on (slot_of idx) (dom (minfos idx))" and d: "distinct (free_block_list idx)"
    and disj: "slot_of idx ` dom (minfos idx) \<inter> set (free_block_list idx) = {}"
    and all: "slot_of idx ` dom (minfos idx) \<union> set (free_block_list idx) = {s. s < nxt}"
    using s unfolding slots_ok_def p by simp_all
  have "unat ` {s. s < nxt} = {..<unat nxt}"
  proof (intro set_eqI iffI)
    fix k assume "k \<in> {..<unat nxt}"
    then have k: "k < unat nxt" by simp
    then have "unat (of_nat k :: u64) = k" using unat_less_2_64 [of nxt] by (intro unat_of_nat_u64) linarith
    then show "k \<in> unat ` {s. s < nxt}" using k by (intro image_eqI [of _ _ "of_nat k"]) (simp_all add: word_less_nat_alt)
  qed (auto simp: word_less_nat_alt)
  moreover have "inj_on unat {s. s < nxt}" by (auto simp: inj_on_def u64_eq_iff_unat)
  ultimately have c: "card {s. s < nxt} = unat nxt" by (metis card_image card_lessThan)
  have fin: "finite (slot_of idx ` dom (minfos idx))" by (rule finite_subset [of _ UNIV]) simp_all
  have "card {s. s < nxt} = card (slot_of idx ` dom (minfos idx)) + card (set (free_block_list idx))"
    unfolding all [symmetric] by (rule card_Un_disjoint [OF fin _ disj]) simp
  then show "card (dom (minfos idx)) + length (free_block_list idx) = unat nxt"
    using c card_image [OF inj] distinct_card [OF d] by simp
  show "inj_on (\<lambda>p. info_hash (the (minfos idx p))) (dom (minfos idx))"
    using published_hash_unique [OF t] by (fastforce simp: inj_on_def)
qed

section \<open>Reads\<close>

text \<open>The blocks a read delivers: the leading blocks of the range that are mapped.\<close>

definition view_prefix :: "fs_view \<Rightarrow> path \<Rightarrow> u64 \<Rightarrow> nat \<Rightarrow> byte list list" where
  "view_prefix v path start n =
     map (\<lambda>i. the (view_block v path (start + of_nat i)))
       (takeWhile (\<lambda>i. view_block v path (start + of_nat i) \<noteq> None) [0..<n])"

lemma view_prefix_mapped:
  "view_prefix (view (idx, master, nxt)) path start n =
     map (\<lambda>i. the (fs_block master idx path (start + of_nat i))) [0..<mapped_prefix idx path start n]"
proof -
  have p: "(\<lambda>i. fs_block master idx path (start + of_nat i) \<noteq> None) =
      (\<lambda>i. lookup_by_file_block idx path (start + of_nat i) \<noteq> None)"
    by (simp add: fs_block_def)
  show ?thesis
    unfolding view_prefix_def view.simps fs_view.simps mapped_prefix_def p
    by (subst takeWhile_upt) simp
qed

lemma read_dedup_view:
  fixes path :: path and off :: u64
  assumes ok: "store_ok SHA512 (idx, master, nxt)" and q: "qsort_contract qsort cmp_master_idx"
    and sz: "unat sz = n * BLOCK_SIZE" "0 < n" and len: "unat sz \<le> length buf"
  defines "blks \<equiv> view_prefix (view (idx, master, nxt)) path (off_div_block off) n"
  shows "\<exists>r buf'. read_dedup qsort mok io idx master path buf sz off = Some (r, buf') \<and>
    (r = c_int (of_nat (length blks) * BLOCK_SIZE64) \<and> buf' = concat blks @ drop (length blks * BLOCK_SIZE) buf \<or>
     blks \<noteq> [] \<and> length buf' = length buf \<and> (r = - EIO \<and> io \<noteq> [] \<or> r = - ENOMEM \<and> \<not> mok))"
proof -
  have i: "tables_ok {} idx" "slots_ok {} {} [] nxt idx" "data_ok SHA512 master {} idx" "unat nxt \<le> MAX_BLOCKS"
    using ok by (simp_all add: index_inv_def)
  have b: "blks = map (\<lambda>i. the (fs_block master idx path (off_div_block off + of_nat i)))
      [0..<mapped_prefix idx path (off_div_block off) n]"
    unfolding blks_def by (rule view_prefix_mapped)
  then have "length blks = mapped_prefix idx path (off_div_block off) n" by simp
  then show ?thesis
    using read_dedup_spec [OF i q sz len, of mok io path off] b by fastforce
qed

lemma read_written:
  assumes ok: "store_ok SHA512 (idx, master, nxt)"
    and v: "view (idx, master, nxt) = spec_write path (off_div_block off) (buf_blocks buf n) v0"
    and fits: "request_fits st sz off" and sz: "unat sz = n * BLOCK_SIZE" "0 < n" and len: "length buf = unat sz"
    and q: "qsort_contract qsort cmp_master_idx" and out: "length out = unat sz"
  shows "read_dedup qsort True [] idx master path out sz off = Some (c_int (of_nat n * BLOCK_SIZE64), buf)"
proof -
  have "unat off + n * BLOCK_SIZE < 2 ^ 63" using fits sz(1) by (cases st) simp
  then have sn: "unat (off_div_block off) + n < 2 ^ 64" using request_start(1) by fastforce
  have at: "view_block (view (idx, master, nxt)) path (off_div_block off + of_nat i) = Some (block_at buf i)" if "i < n" for i
  proof -
    have "in_range (off_div_block off) n (off_div_block off + of_nat i)" using in_range_iff [OF sn] that by blast
    moreover have "unat (off_div_block off + of_nat i) - unat (off_div_block off) = i"
      using unat_plus_of_nat [of "off_div_block off" i] sn that by simp
    ultimately show ?thesis unfolding v using that by (simp add: spec_write_def Let_def buf_blocks_def)
  qed
  then have tw: "takeWhile (\<lambda>i. view_block (view (idx, master, nxt)) path (off_div_block off + of_nat i) \<noteq> None) [0..<n] = [0..<n]"
    by (intro takeWhile_eq_all_conv [THEN iffD2]) auto
  have p: "view_prefix (view (idx, master, nxt)) path (off_div_block off) n = map (block_at buf) [0..<n]"
    unfolding view_prefix_def tw using at by (intro map_cong) auto
  have "concat (map (block_at buf) [0..<n]) = buf" using len sz(1) by (intro concat_block_at) simp
  then show ?thesis
    using read_dedup_view [OF ok q sz, of out True "[]" path off] out sz(1) p by auto
qed

end
