(* ===== verification/Section_Frames.thy ===== *)
theory Section_Frames
  imports Dedup_Spec
begin

text \<open>
  The passes of a write next to other operations. A lock of the index protects each pass, so other
  operations run between the passes and not inside them; what they hold is a frame: \<open>pend0\<close>,
  \<open>pins0\<close>, \<open>resv0\<close> and \<open>rel0\<close>, the objects, references and slots in flight elsewhere. The lemmas
  here say that each pass does its work and keeps the invariant of the index under every frame. They differ
  from the lemmas of a write that runs alone in that the hash of a new block may have been published
  meanwhile, and that an object may lose its last other reference while the write holds it.
\<close>

section \<open>Slots\<close>

lemma slots_ok_mset:
  assumes "mset rel = mset rel'"
  shows "slots_ok pend resv rel nxt idx = slots_ok pend resv rel' nxt idx"
proof -
  have "set rel = set rel'" "distinct rel = distinct rel'"
    using assms by (auto dest: mset_eq_setD mset_eq_imp_distinct_iff)
  then show ?thesis by (simp add: slots_ok_def)
qed

lemma slots_ok_take:
  assumes s: "slots_ok pend resv rel nxt idx" and fl: "free_block_list idx = xs @ rest"
  shows "slots_ok pend (resv \<union> set xs) rel nxt (idx\<lparr>free_block_list := rest\<rparr>)" "distinct xs" "set xs \<inter> resv = {}"
  using s fl unfolding slots_ok_def by auto

lemma slots_ok_give:
  assumes "slots_ok pend resv (own @ rel) nxt idx"
  shows "slots_ok pend resv rel nxt (idx\<lparr>free_block_list := own @ free_block_list idx\<rparr>)"
proof -
  have "slots_ok pend resv (rel @ own) nxt idx" using assms slots_ok_mset [of "own @ rel" "rel @ own"] by simp
  then show ?thesis by (simp add: slots_ok_def)
qed

lemma only_new_data_frame:
  assumes "only_new pend idx0 idx" and d: "data_ok SHA512 master pend0 idx0"
  shows "data_ok SHA512 master (pend0 \<union> pend) idx"
  unfolding data_ok_def
proof (intro allI impI)
  fix p mi assume p: "minfos idx p = Some mi" "p \<notin> pend0 \<union> pend"
  obtain mj where "minfos idx0 p = Some mj" "info_hash mj = info_hash mi" "masterBlockIndex mj = masterBlockIndex mi"
    using info_key_eqD [OF only_newD(6) [OF assms(1)] p(1)] p(2) by blast
  with d p(2) show "length (block_at master (unat (masterBlockIndex mi))) = BLOCK_SIZE \<and>
        hash SHA512 (block_at master (unat (masterBlockIndex mi))) = info_hash mi"
    unfolding data_ok_def by (metis UnI1)
qed

section \<open>Pass 1\<close>

definition planned ::
    "(byte list \<Rightarrow> digest) \<Rightarrow> byte list \<Rightarrow> u64 \<Rightarrow> ptr set \<Rightarrow> Index \<Rightarrow> PlanEntry list \<Rightarrow> bool" where
  "planned SHA512 buf start pend idx plan \<longleftrightarrow>
     (\<forall>k < length plan. entry_ok SHA512 buf start idx k (plan ! k)) \<and>
     length plan * BLOCK_SIZE \<le> length buf \<and> unat start + length plan < MAX_BLOCKS \<and>
     (\<forall>e \<in> set plan. \<not> is_miss e \<longrightarrow> info e \<notin> pend)"

definition framed_pass1 ::
    "(byte list \<Rightarrow> digest) \<Rightarrow> byte list \<Rightarrow> u64 \<Rightarrow> ptr set \<Rightarrow> (ptr \<Rightarrow> nat) \<Rightarrow> u64 set \<Rightarrow> u64 list \<Rightarrow> u64 \<Rightarrow> Index \<Rightarrow>
     pass1_state \<Rightarrow> bool" where
  "framed_pass1 SHA512 buf start pend0 pins0 resv0 rel0 nxt idx0 st \<longleftrightarrow>
     (case st of (idx, pending, plan, mc) \<Rightarrow>
        tables_ok (pend0 \<union> miss_infos plan) idx \<and> counts_ok (\<lambda>p. pins_of plan p + pins0 p) idx \<and>
        slots_ok (pend0 \<union> miss_infos plan) resv0 rel0 nxt idx \<and>
        (\<forall>k < length plan. entry_ok SHA512 buf start idx k (plan ! k)) \<and>
        distinct (map info (misses plan)) \<and> miss_infos plan \<inter> pend0 = {} \<and>
        (\<forall>e \<in> set plan. \<not> is_miss e \<longrightarrow> info e \<notin> pend0 \<union> miss_infos plan) \<and>
        only_new (miss_infos plan) idx0 idx \<and> free_block_list idx = free_block_list idx0 \<and>
        (\<forall>h p. pending h = Some p \<longrightarrow> h \<in> phash ` set plan) \<and> mc = length (misses plan))"

lemma framed_hit_step:
  assumes inv: "framed_pass1 SHA512 buf start pend0 pins0 resv0 rel0 nxt idx0 (idx, pending, plan, mc)"
    and h: "hash_to_master idx (hash SHA512 (block_at buf (length plan))) = Some p"
    and b: "refs idx p + pins_of plan p + pins0 p + 1 < 2 ^ 32"
  defines "e \<equiv> \<lparr>kind = PLAN_HIT, logical_blk = start + of_nat (length plan), master_blk = 0,
     payload = length plan * BLOCK_SIZE, phash = hash SHA512 (block_at buf (length plan)), info = p\<rparr>"
  shows "\<exists>idx'. refcount_inc idx p = Some idx' \<and>
    framed_pass1 SHA512 buf start pend0 pins0 resv0 rel0 nxt idx0 (idx', pending, plan @ [e], mc)"
proof -
  note i = inv [unfolded framed_pass1_def prod.case]
  have e: "\<not> is_miss e" "info e = p" by (simp_all add: e_def is_miss_def)
  have t: "tables_ok (pend0 \<union> miss_infos plan) idx" using i by blast
  obtain mi where mi: "minfos idx p = Some mi" "info_hash mi = hash SHA512 (block_at buf (length plan))"
    and np: "p \<notin> pend0 \<union> miss_infos plan"
    using h tables_ok_hash [OF t] by blast
  let ?pins = "\<lambda>p. pins_of plan p + pins0 p"
  obtain idx' where r: "refcount_inc idx p = Some idx'" and same: "same_infos idx idx'"
    and c: "counts_ok (?pins(p := ?pins p + 1)) idx'"
    by (rule pin_step [of ?pins idx p]) (use i mi b in auto)
  have "entry_ok SHA512 buf start idx (length plan) e" using mi by (simp add: entry_ok_def e_def)
  moreover have "entry_ok SHA512 buf start idx' k f = entry_ok SHA512 buf start idx k f" for k f
    unfolding entry_ok_def same_infos_hash_iff [OF same] ..
  ultimately have "\<forall>k < length (plan @ [e]). entry_ok SHA512 buf start idx' k ((plan @ [e]) ! k)"
    using i by (auto simp: nth_append less_Suc_eq)
  moreover have "?pins(p := ?pins p + 1) = (\<lambda>q. pins_of (plan @ [e]) q + pins0 q)"
    using e by (auto simp: pins_of_snoc fun_eq_iff)
  ultimately have "framed_pass1 SHA512 buf start pend0 pins0 resv0 rel0 nxt idx0 (idx', pending, plan @ [e], mc)"
    unfolding framed_pass1_def prod.case
    using i e c np only_new_same_infos [OF _ same] same_infos_ok [OF same] same_infosD [OF same] by auto
  with r show ?thesis by blast
qed

lemma framed_miss_step:
  assumes inv: "framed_pass1 SHA512 buf start pend0 pins0 resv0 rel0 nxt idx0 (idx, pending, plan, mc)"
    and n: "info_new idx \<lparr>info_hash = h, masterBlockIndex = 0, refcount = 1\<rparr> = (idx', p)"
    and h: "h = hash SHA512 (block_at buf (length plan))"
  defines "e \<equiv> \<lparr>kind = PLAN_MISS, logical_blk = start + of_nat (length plan), master_blk = 0,
     payload = length plan * BLOCK_SIZE, phash = h, info = p\<rparr>"
  shows "framed_pass1 SHA512 buf start pend0 pins0 resv0 rel0 nxt idx0 (idx', pending(h \<mapsto> p), plan @ [e], Suc mc)"
proof -
  note i = inv [unfolded framed_pass1_def prod.case]
  have t: "tables_ok (pend0 \<union> miss_infos plan) idx" and c: "counts_ok (\<lambda>p. pins_of plan p + pins0 p) idx"
    and s: "slots_ok (pend0 \<union> miss_infos plan) resv0 rel0 nxt idx" and o: "only_new (miss_infos plan) idx0 idx"
    and en: "\<forall>k < length plan. entry_ok SHA512 buf start idx k (plan ! k)"
    using i by blast+
  have e: "is_miss e" "info e = p" "phash e = h" by (simp_all add: e_def is_miss_def)
  note st = new_step [OF n _ t c s]
  note fl = info_new_fields [OF n]
  have dis: "p \<notin> dom (minfos idx)" "p \<notin> miss_infos plan" "pins_of plan p = 0" "pins0 p = 0" "p \<notin> pend0"
    using st(4-6) by auto
  have en': "entry_ok SHA512 buf start idx' k (plan ! k)" if "k < length plan" for k
    using en that dis(1) fl(1,2) unfolding entry_ok_def by (metis domI fun_upd_other)
  moreover have "entry_ok SHA512 buf start idx' (length plan) e"
    using fl(2) h by (simp add: entry_ok_def e_def)
  ultimately have "\<forall>k < length (plan @ [e]). entry_ok SHA512 buf start idx' k ((plan @ [e]) ! k)"
    by (auto simp: nth_append less_Suc_eq)
  moreover have "(\<lambda>q. pins_of plan q + pins0 q)(p := 1) = (\<lambda>q. pins_of (plan @ [e]) q + pins0 q)"
    using dis e by (auto simp: pins_of_snoc fun_eq_iff)
  moreover have "info f \<noteq> p" if "f \<in> set plan" for f
    using dis(3) pins_of_pos_iff [of plan p] that by auto
  moreover have "insert p (pend0 \<union> miss_infos plan) = pend0 \<union> miss_infos (plan @ [e])" using e by auto
  moreover have "only_new (miss_infos (plan @ [e])) idx0 idx'"
    using only_new_info_new [OF o n dis(1,2)] e by simp
  moreover have "tables_ok (insert p (pend0 \<union> miss_infos plan)) idx'" "counts_ok ((\<lambda>q. pins_of plan q + pins0 q)(p := 1)) idx'"
    "slots_ok (insert p (pend0 \<union> miss_infos plan)) resv0 rel0 nxt idx'" using st(1-3) by simp_all
  ultimately show ?thesis
    unfolding framed_pass1_def prod.case
    using i e dis fl(6) by (auto simp: miss_infos_def)
qed

lemma framed_plan_block:
  assumes inv: "framed_pass1 SHA512 buf start pend0 pins0 resv0 rel0 nxt idx0 (idx, pending, plan, mc)"
    and b: "\<And>p. refs idx0 p + length plan + pins0 p + 1 < 2 ^ 32" and blk: "length (block_at buf (length plan)) = BLOCK_SIZE"
    and new: "hash SHA512 (block_at buf (length plan)) \<notin> phash ` set plan"
  shows "\<exists>idx' pending' e mc'. plan_block SHA512 buf start (length plan) (idx, pending, plan, mc) =
      Some (idx', pending', plan @ [e], mc') \<and> phash e = hash SHA512 (block_at buf (length plan)) \<and>
    framed_pass1 SHA512 buf start pend0 pins0 resv0 rel0 nxt idx0 (idx', pending', plan @ [e], mc')"
proof -
  note i = inv [unfolded framed_pass1_def prod.case]
  let ?h = "hash SHA512 (block_at buf (length plan))"
  have np: "pending ?h = None" using i new by (cases "pending ?h") blast+
  have pb: "plan_block SHA512 buf start (length plan) (idx, pending, plan, mc) =
      (case hash_to_master idx ?h of
         Some p \<Rightarrow> (case refcount_inc idx p of None \<Rightarrow> None | Some idx' \<Rightarrow>
            Some (idx', pending, plan @ [\<lparr>kind = PLAN_HIT, logical_blk = start + of_nat (length plan), master_blk = 0,
                                payload = length plan * BLOCK_SIZE, phash = ?h, info = p\<rparr>], mc))
       | None \<Rightarrow> (let (idx', p) = info_new idx \<lparr>info_hash = ?h, masterBlockIndex = 0, refcount = 1\<rparr>
            in Some (idx', pending(?h \<mapsto> p), plan @ [\<lparr>kind = PLAN_MISS, logical_blk = start + of_nat (length plan),
                      master_blk = 0, payload = length plan * BLOCK_SIZE, phash = ?h, info = p\<rparr>], mc + 1)))"
    unfolding plan_block.simps Let_def lookup_by_hash_def block_at_def [symmetric]
    using blk np by (simp split: option.split)
  have "refs idx = refs idx0" using i only_newD(5) by blast
  then have b': "refs idx p + pins_of plan p + pins0 p + 1 < 2 ^ 32" for p
    using b [of p] pins_of_le [of plan p] by simp
  show ?thesis
  proof (cases "hash_to_master idx ?h")
    case (Some p)
    then show ?thesis using framed_hit_step [OF inv Some b'] pb by auto
  next
    case None
    obtain idx' p where n: "info_new idx \<lparr>info_hash = ?h, masterBlockIndex = 0, refcount = 1\<rparr> = (idx', p)" by force
    then show ?thesis using framed_miss_step [OF inv n refl] pb None by auto
  qed
qed

lemma framed_plan_pass:
  assumes "framed_pass1 SHA512 buf start pend0 pins0 resv0 rel0 nxt idx0 (idx, pending, plan, mc)"
    and "\<And>p. refs idx0 p + length plan + pins0 p + n < 2 ^ 32" and "(length plan + n) * BLOCK_SIZE \<le> length buf"
    and dist: "distinct (map (\<lambda>k. hash SHA512 (block_at buf k)) [0..<length plan + n])"
    and "\<forall>k < length plan. phash (plan ! k) = hash SHA512 (block_at buf k)"
  shows "\<exists>idx' pending' plan' mc'.
    plan_pass SHA512 buf start [length plan..<length plan + n] (idx, pending, plan, mc) = Some (idx', pending', plan', mc') \<and>
    framed_pass1 SHA512 buf start pend0 pins0 resv0 rel0 nxt idx0 (idx', pending', plan', mc') \<and> length plan' = length plan + n"
  using assms
proof (induction n arbitrary: idx pending plan mc)
  case 0
  then show ?case by auto
next
  case (Suc n)
  let ?l = "length plan"
  have "Suc ?l * BLOCK_SIZE \<le> (?l + Suc n) * BLOCK_SIZE" by (intro mult_le_mono1) simp
  also note Suc.prems(3)
  finally have blk: "length (block_at buf ?l) = BLOCK_SIZE" unfolding full_block_iff .
  have inj: "inj_on (\<lambda>k. hash SHA512 (block_at buf k)) {0..<?l + Suc n}" using Suc.prems(4) unfolding distinct_map set_upt by blast
  have "hash SHA512 (block_at buf ?l) \<noteq> phash (plan ! k)" if "k < ?l" for k
    using inj_onD [OF inj, of ?l k] Suc.prems(5) that by fastforce
  then have new: "hash SHA512 (block_at buf ?l) \<notin> phash ` set plan" by (metis imageE in_set_conv_nth)
  have b: "refs idx0 p + ?l + pins0 p + 1 < 2 ^ 32" for p using Suc.prems(2) [of p] by linarith
  obtain idx1 pending1 e mc1 where
    s: "plan_block SHA512 buf start ?l (idx, pending, plan, mc) = Some (idx1, pending1, plan @ [e], mc1)"
    and he: "phash e = hash SHA512 (block_at buf ?l)"
    and i1: "framed_pass1 SHA512 buf start pend0 pins0 resv0 rel0 nxt idx0 (idx1, pending1, plan @ [e], mc1)"
    using framed_plan_block [OF Suc.prems(1) b blk new] by blast
  have "\<exists>idx' pending' plan' mc'.
    plan_pass SHA512 buf start [length (plan @ [e])..<length (plan @ [e]) + n] (idx1, pending1, plan @ [e], mc1) =
      Some (idx', pending', plan', mc') \<and>
    framed_pass1 SHA512 buf start pend0 pins0 resv0 rel0 nxt idx0 (idx', pending', plan', mc') \<and> length plan' = length (plan @ [e]) + n"
  proof (rule Suc.IH [OF i1])
    show "refs idx0 p + length (plan @ [e]) + pins0 p + n < 2 ^ 32" for p using Suc.prems(2) [of p] by simp
    show "\<forall>k < length (plan @ [e]). phash ((plan @ [e]) ! k) = hash SHA512 (block_at buf k)"
      using Suc.prems(5) he by (auto simp: nth_append less_Suc_eq)
  qed (use Suc.prems(3,4) in simp_all)
  moreover have "[?l..<?l + Suc n] = ?l # [length (plan @ [e])..<length (plan @ [e]) + n]"
    by (simp add: upt_conv_Cons del: upt_Suc)
  ultimately show ?case using s by (simp del: upt_Suc)
qed

section \<open>The rollback\<close>

lemma framed_rollback_hits:
  assumes "tables_ok pend idx" and "counts_ok (\<lambda>p. pins_of plan p + extra p) idx" and "slots_ok pend resv rel nxt idx"
    and "\<forall>e \<in> set plan. \<not> is_miss e \<longrightarrow> info e \<notin> pend"
  shows "\<exists>idx' rel'. rollback_hits idx plan rel = Some (idx', rel') \<and> tables_ok pend idx' \<and>
    counts_ok (\<lambda>p. pins_of (misses plan) p + extra p) idx' \<and> slots_ok pend resv rel' nxt idx' \<and> sub_infos idx idx' \<and>
    file_to_master idx' = file_to_master idx \<and> file_to_sizes idx' = file_to_sizes idx \<and>
    free_block_list idx' = free_block_list idx"
  using assms
proof (induction plan arbitrary: idx rel extra)
  case Nil
  then show ?case by simp
next
  case (Cons e plan)
  show ?case
  proof (cases "is_miss e")
    case True
    let ?extra = "extra(info e := extra (info e) + 1)"
    have p: "(\<lambda>p. pins_of (e # plan) p + extra p) = (\<lambda>p. pins_of plan p + ?extra p)"
      "(\<lambda>p. pins_of (misses (e # plan)) p + extra p) = (\<lambda>p. pins_of (misses plan) p + ?extra p)"
      using True by (auto simp: pins_of_Cons fun_eq_iff)
    show ?thesis using Cons.IH [of idx ?extra rel] Cons.prems True unfolding p by (simp add: is_miss_def)
  next
    case False
    let ?pins = "\<lambda>p. pins_of (e # plan) p + extra p"
    have pp: "0 < ?pins (info e)" "info e \<notin> pend \<or> 1 < ?pins (info e)"
      using Cons.prems(4) False by (auto simp: pins_of_Cons)
    have pe: "?pins(info e := ?pins (info e) - 1) = (\<lambda>p. pins_of plan p + extra p)"
      by (auto simp: pins_of_Cons fun_eq_iff)
    obtain idx1 rel1 where r: "release_info idx rel (info e) = Some (idx1, rel1)" "tables_ok pend idx1"
      "counts_ok (?pins(info e := ?pins (info e) - 1)) idx1" "slots_ok pend resv rel1 nxt idx1" "sub_infos idx idx1"
      "file_to_master idx1 = file_to_master idx" "file_to_sizes idx1 = file_to_sizes idx"
      "free_block_list idx1 = free_block_list idx"
      by (rule release_step [OF Cons.prems(1-3) pp])
    have "\<forall>e \<in> set plan. \<not> is_miss e \<longrightarrow> info e \<notin> pend" using Cons.prems(4) by simp
    from Cons.IH [OF r(2) r(3) [unfolded pe] r(4) this]
    obtain idx' rel' where IH: "rollback_hits idx1 plan rel1 = Some (idx', rel')" "tables_ok pend idx'"
      "counts_ok (\<lambda>p. pins_of (misses plan) p + extra p) idx'" "slots_ok pend resv rel' nxt idx'" "sub_infos idx1 idx'"
      "file_to_master idx' = file_to_master idx1" "file_to_sizes idx' = file_to_sizes idx1"
      "free_block_list idx' = free_block_list idx1" by blast
    have "kind e = PLAN_HIT" using False by (cases "kind e") (simp_all add: is_miss_def)
    then show ?thesis using r IH False sub_infos_trans [OF r(5) IH(5)] by simp
  qed
qed

lemma framed_rollback_misses:
  assumes "tables_ok (miss_infos plan \<union> pend0) idx" and "counts_ok (\<lambda>p. pins_of (misses plan) p + pins0 p) idx"
    and "slots_ok (miss_infos plan \<union> pend0) (miss_slots plan \<union> resv0) rel nxt idx"
    and "distinct (map info (misses plan))" "distinct (map master_blk (misses plan))"
    and "miss_infos plan \<inter> pend0 = {}" "miss_slots plan \<inter> resv0 = {}" "\<forall>p \<in> miss_infos plan. pins0 p = 0"
  shows "\<exists>idx'. rollback_misses idx plan = Some idx' \<and> tables_ok pend0 idx' \<and> counts_ok pins0 idx' \<and>
    slots_ok pend0 resv0 rel nxt idx' \<and> sub_infos idx idx' \<and>
    file_to_master idx' = file_to_master idx \<and> file_to_sizes idx' = file_to_sizes idx"
  using assms
proof (induction plan arbitrary: idx)
  case Nil
  then show ?case by (simp add: miss_slots_def)
next
  case (Cons e plan)
  show ?case
  proof (cases "is_miss e")
    case False
    then show ?thesis using Cons by (simp add: is_miss_def miss_slots_def)
  next
    case True
    let ?i = "idx\<lparr>free_block_list := master_blk e # free_block_list idx\<rparr>"
    let ?pend = "insert (info e) (miss_infos plan \<union> pend0)" and ?pins = "\<lambda>p. pins_of (e # misses plan) p + pins0 p"
    have t: "tables_ok ?pend ?i" using Cons.prems(1) True by (simp add: tables_ok_def published_def)
    have c: "counts_ok ?pins ?i" using Cons.prems(2) True by (simp add: counts_ok_def refs_def)
    have ms: "miss_slots (e # plan) = insert (master_blk e) (miss_slots plan)" "master_blk e \<notin> miss_slots plan"
      "info e \<notin> miss_infos plan" "master_blk e \<notin> resv0" "info e \<notin> pend0" "pins0 (info e) = 0"
      using True Cons.prems(4-8) by (auto simp: miss_slots_def miss_infos_def)
    have "slots_ok ?pend (insert (master_blk e) (miss_slots plan \<union> resv0)) rel nxt idx"
      using Cons.prems(3) True ms(1) by simp
    from slots_ok_unreserve [OF this, of "master_blk e"]
    have "slots_ok ?pend (miss_slots plan \<union> resv0) ([master_blk e] @ rel) nxt idx" using ms(2,4) by simp
    from slots_ok_give [OF this] have s: "slots_ok ?pend (miss_slots plan \<union> resv0) rel nxt ?i" by simp
    obtain idx1 where d: "info_free ?i (info e) = Some idx1" "tables_ok (?pend - {info e}) idx1"
      "counts_ok (?pins(info e := 0)) idx1" "slots_ok (?pend - {info e}) (miss_slots plan \<union> resv0) rel nxt idx1"
      "sub_infos ?i idx1" "file_to_master idx1 = file_to_master idx" "file_to_sizes idx1 = file_to_sizes idx"
      by (rule discard_step [OF _ t c s, of "info e"]) simp_all
    have pd: "?pend - {info e} = miss_infos plan \<union> pend0" using ms(3,5) by auto
    have "pins_of (misses plan) (info e) = 0"
      using ms(3) pins_of_pos_iff [of "misses plan" "info e"] by (auto simp: miss_infos_def)
    then have pe: "?pins(info e := 0) = (\<lambda>p. pins_of (misses plan) p + pins0 p)"
      using ms(6) by (auto simp: pins_of_Cons fun_eq_iff)
    have "\<exists>idx'. rollback_misses idx1 plan = Some idx' \<and> tables_ok pend0 idx' \<and> counts_ok pins0 idx' \<and>
      slots_ok pend0 resv0 rel nxt idx' \<and> sub_infos idx1 idx' \<and>
      file_to_master idx' = file_to_master idx1 \<and> file_to_sizes idx' = file_to_sizes idx1"
      using d(2-4) Cons.prems(4-8) True ms(1) unfolding pd pe by (intro Cons.IH) auto
    moreover have "sub_infos idx idx1" using d(5) by (simp add: sub_infos_def)
    ultimately show ?thesis using d True sub_infos_trans [of idx idx1] by (auto simp: is_miss_def)
  qed
qed

section \<open>Pass 3\<close>

lemma info_key_fun: "info_key = (\<lambda>mi. (info_hash mi, masterBlockIndex mi))"
  by (rule ext) (simp add: info_key_def)

lemma data_ok_discard:
  assumes "data_ok SHA512 master pend idx" "minfos idx' = (minfos idx)(p := None)"
  shows "data_ok SHA512 master (pend - {p}) idx'"
  using assms unfolding data_ok_def by (metis DiffI domD domIff empty_iff fun_upd_apply insert_iff option.simps(3))

text \<open>An object that is still pinned keeps its hash and its slot.\<close>

lemma sub_infos_pinned:
  assumes "sub_infos idx idx'" "counts_ok pins idx'" "0 < pins p"
  shows "map_option info_key (minfos idx' p) = map_option info_key (minfos idx p)" "p \<in> dom (minfos idx')"
proof -
  show d: "p \<in> dom (minfos idx')" using assms(2,3) by (simp add: counts_ok_def)
  then obtain mi' where "minfos idx' p = Some mi'" by blast
  then show "map_option info_key (minfos idx' p) = map_option info_key (minfos idx p)"
    using assms(1) unfolding sub_infos_def info_key_def by fastforce
qed

lemma framed_publish:
  assumes "tables_ok (miss_infos plan \<union> pend0) idx" and "counts_ok (\<lambda>p. pins_of plan p + extra p) idx"
    and "slots_ok (miss_infos plan \<union> pend0) (miss_slots plan \<union> resv0) slots nxt idx"
    and "data_ok SHA512 master (miss_infos plan \<union> pend0) idx"
    and "distinct (map info (misses plan))" "distinct (map master_blk (misses plan))"
    and "miss_infos plan \<inter> pend0 = {}" "miss_slots plan \<inter> resv0 = {}" "\<forall>p \<in> miss_infos plan. extra p = 0"
    and "\<forall>e \<in> set plan. (\<exists>mi. minfos idx (info e) = Some mi \<and> info_hash mi = phash e \<and> (is_miss e \<longrightarrow> masterBlockIndex mi = master_blk e)) \<and>
       (if is_miss e then length (block_at master (unat (master_blk e))) = BLOCK_SIZE \<and>
          hash SHA512 (block_at master (unat (master_blk e))) = phash e
        else info e \<notin> miss_infos plan \<union> pend0)"
    and "\<And>p. refs idx p + length plan + extra p < 2 ^ 32"
  shows "\<exists>idx' plan' slots'. publish_pass idx plan slots = Some (idx', plan', slots') \<and> tables_ok pend0 idx' \<and>
    counts_ok (\<lambda>p. pins_of plan' p + extra p) idx' \<and> slots_ok pend0 resv0 slots' nxt idx' \<and>
    data_ok SHA512 master pend0 idx' \<and> sub_infos idx idx' \<and> file_to_master idx' = file_to_master idx \<and>
    file_to_sizes idx' = file_to_sizes idx \<and> free_block_list idx' = free_block_list idx \<and>
    map logical_blk plan' = map logical_blk plan \<and> map phash plan' = map phash plan \<and>
    (\<forall>e \<in> set plan'. info e \<notin> pend0 \<and> (\<exists>mi. minfos idx' (info e) = Some mi \<and> info_hash mi = phash e))"
  using assms
proof (induction plan arbitrary: idx slots extra)
  case Nil
  then show ?case by (simp add: miss_slots_def)
next
  case (Cons e plan)
  note t = Cons.prems(1) and c = Cons.prems(2) and s = Cons.prems(3) and d = Cons.prems(4) and en = Cons.prems(10)
  have rest: "distinct (map info (misses plan))" "distinct (map master_blk (misses plan))" "miss_infos plan \<inter> pend0 = {}"
    "miss_slots plan \<inter> resv0 = {}"
    using Cons.prems(5-8) by (auto simp: miss_slots_def miss_infos_def split: if_splits)
  obtain mi where mi: "minfos idx (info e) = Some mi" "info_hash mi = phash e" "is_miss e \<Longrightarrow> masterBlockIndex mi = master_blk e"
    using en by auto
  have pub: "hash_to_master idx (info_hash mi) = Some w \<Longrightarrow> w \<in> dom (minfos idx) \<and> w \<notin> miss_infos (e # plan) \<union> pend0" for w
    using tables_ok_hash [OF t] by blast
  have tail: "(\<exists>mj. minfos idx (info f) = Some mj \<and> info_hash mj = phash f \<and> (is_miss f \<longrightarrow> masterBlockIndex mj = master_blk f)) \<and>
       (if is_miss f then length (block_at master (unat (master_blk f))) = BLOCK_SIZE \<and>
          hash SHA512 (block_at master (unat (master_blk f))) = phash f
        else info f \<notin> miss_infos plan \<union> pend0)" if "f \<in> set plan" for f
    using en that by (auto split: if_splits)
  text \<open>The entry keeps or gets an object \<open>w\<close> outside the pending ones; the rest follows by induction.\<close>
  have step: ?case if run: "publish_pass idx (e # plan) slots =
      map_option (\<lambda>(i, p, s). (i, e\<lparr>info := w\<rparr> # p, s)) (publish_pass idx1 plan slots1)"
    and t1: "tables_ok (miss_infos plan \<union> pend0) idx1"
    and c1: "counts_ok (\<lambda>p. pins_of plan p + (extra(w := extra w + 1)) p) idx1"
    and s1: "slots_ok (miss_infos plan \<union> pend0) (miss_slots plan \<union> resv0) slots1 nxt idx1"
    and d1: "data_ok SHA512 master (miss_infos plan \<union> pend0) idx1"
    and w: "w \<notin> miss_infos plan \<union> pend0" "\<exists>mj. minfos idx1 w = Some mj \<and> info_hash mj = phash e"
    and sub: "sub_infos idx idx1" "file_to_master idx1 = file_to_master idx" "file_to_sizes idx1 = file_to_sizes idx"
      "free_block_list idx1 = free_block_list idx"
    and keep: "\<forall>f \<in> set plan. map_option info_key (minfos idx1 (info f)) = map_option info_key (minfos idx (info f))"
    for idx1 w slots1
  proof -
    let ?extra = "extra(w := extra w + 1)"
    have ex: "\<forall>p \<in> miss_infos plan. ?extra p = 0" using Cons.prems(9) w(1) by auto
    have b: "refs idx1 p + length plan + ?extra p < 2 ^ 32" for p
      using Cons.prems(11) [of p] refs_cong [OF sub(2)] by auto
    have en1: "\<forall>f \<in> set plan. (\<exists>mj. minfos idx1 (info f) = Some mj \<and> info_hash mj = phash f \<and> (is_miss f \<longrightarrow> masterBlockIndex mj = master_blk f)) \<and>
       (if is_miss f then length (block_at master (unat (master_blk f))) = BLOCK_SIZE \<and>
          hash SHA512 (block_at master (unat (master_blk f))) = phash f
        else info f \<notin> miss_infos plan \<union> pend0)"
    proof
      fix f assume f: "f \<in> set plan"
      then obtain mj where mj: "minfos idx (info f) = Some mj" "info_hash mj = phash f" "is_miss f \<longrightarrow> masterBlockIndex mj = master_blk f"
        using tail by blast
      obtain mk where "minfos idx1 (info f) = Some mk" "info_hash mk = info_hash mj" "masterBlockIndex mk = masterBlockIndex mj"
        using info_key_eqD [OF keep [rule_format, OF f, symmetric] mj(1)] .
      then show "(\<exists>mj. minfos idx1 (info f) = Some mj \<and> info_hash mj = phash f \<and> (is_miss f \<longrightarrow> masterBlockIndex mj = master_blk f)) \<and>
       (if is_miss f then length (block_at master (unat (master_blk f))) = BLOCK_SIZE \<and>
          hash SHA512 (block_at master (unat (master_blk f))) = phash f
        else info f \<notin> miss_infos plan \<union> pend0)" using mj tail [OF f] by auto
    qed
    obtain idx' plan' slots' where IH: "publish_pass idx1 plan slots1 = Some (idx', plan', slots')" "tables_ok pend0 idx'"
      "counts_ok (\<lambda>p. pins_of plan' p + ?extra p) idx'" "slots_ok pend0 resv0 slots' nxt idx'" "data_ok SHA512 master pend0 idx'"
      "sub_infos idx1 idx'" "file_to_master idx' = file_to_master idx1" "file_to_sizes idx' = file_to_sizes idx1"
      "free_block_list idx' = free_block_list idx1" "map logical_blk plan' = map logical_blk plan" "map phash plan' = map phash plan"
      "\<forall>e \<in> set plan'. info e \<notin> pend0 \<and> (\<exists>mi. minfos idx' (info e) = Some mi \<and> info_hash mi = phash e)"
      using Cons.IH [OF t1 c1 s1 d1 rest ex en1 b] by blast
    have "map_option info_key (minfos idx' w) = map_option info_key (minfos idx1 w)"
      by (rule sub_infos_pinned(1) [OF IH(6,3)]) simp
    then obtain mj where wj: "minfos idx' w = Some mj" "info_hash mj = phash e"
      using w(2) info_key_eqD [of "minfos idx1 w" "minfos idx' w"] by metis
    have pe: "(\<lambda>p. pins_of plan' p + ?extra p) = (\<lambda>p. pins_of (e\<lparr>info := w\<rparr> # plan') p + extra p)"
      by (auto simp: pins_of_Cons fun_eq_iff)
    show ?thesis
      unfolding run IH(1)
      using IH(2,4,5) IH(3) [unfolded pe] sub_infos_trans [OF sub(1) IH(6)] IH(7-12) sub w(1) wj by auto
  qed
  show ?case
  proof (cases "is_miss e")
    case False
    have "info e \<notin> miss_infos plan \<union> pend0" using en False by auto
    moreover have "(\<lambda>p. pins_of plan p + (extra(info e := extra (info e) + 1)) p) = (\<lambda>p. pins_of (e # plan) p + extra p)"
      by (auto simp: pins_of_Cons fun_eq_iff)
    moreover have "kind e \<noteq> PLAN_MISS" using False by (simp add: is_miss_def)
    ultimately show ?thesis
      using t c s d mi False by (intro step [of "info e" idx slots]) (simp_all add: miss_slots_def)
  next
    case True
    then have km: "kind e = PLAN_MISS" by (simp add: is_miss_def)
    have ms: "miss_slots (e # plan) = insert (master_blk e) (miss_slots plan)" "master_blk e \<notin> miss_slots plan \<union> resv0"
      "info e \<notin> miss_infos plan \<union> pend0" "extra (info e) = 0"
      using True Cons.prems(5-9) by (auto simp: miss_slots_def miss_infos_def)
    have own: "pins_of plan (info e) = 0"
    proof (rule ccontr)
      assume "pins_of plan (info e) \<noteq> 0"
      then obtain f where f: "f \<in> set plan" "info f = info e" using pins_of_pos_iff [of plan "info e"] by auto
      then have "is_miss f" using en True by (metis UnI1 insertI1 list.set_intros(2) miss_infos_simps(2))
      then show False using f ms(3) by (auto simp: miss_infos_def image_iff)
    qed
    have diff: "(miss_infos (e # plan) \<union> pend0) - {info e} = miss_infos plan \<union> pend0"
      "(miss_slots (e # plan) \<union> resv0) - {master_blk e} = miss_slots plan \<union> resv0"
      using True ms by auto
    have pend: "info e \<in> miss_infos (e # plan) \<union> pend0" "master_blk e \<in> miss_slots (e # plan) \<union> resv0" using True ms(1) by simp_all
    show ?thesis
    proof (cases "hash_to_master idx (info_hash mi)")
      case None
      let ?i = "insert_hash idx (info_hash mi) (info e)"
      have r: "masterBlockIndex mi \<in> miss_slots (e # plan) \<union> resv0" using pend(2) mi(3) True by simp
      note ps = publish_step [OF mi(1) pend(1) None t s r]
      have blk: "length (block_at master (unat (masterBlockIndex mi))) = BLOCK_SIZE"
        "hash SHA512 (block_at master (unat (masterBlockIndex mi))) = info_hash mi" using en True mi by auto
      have "tables_ok (miss_infos plan \<union> pend0) ?i" "slots_ok (miss_infos plan \<union> pend0) (miss_slots plan \<union> resv0) slots nxt ?i"
        "data_ok SHA512 master (miss_infos plan \<union> pend0) ?i" "counts_ok (\<lambda>p. pins_of (e # plan) p + extra p) ?i"
        using ps(1,2) ps(3) [OF c] ps(4) [OF d blk] mi(3) [OF True] by (simp_all only: diff)
      moreover have "(\<lambda>p. pins_of plan p + (extra(info e := extra (info e) + 1)) p) = (\<lambda>p. pins_of (e # plan) p + extra p)"
        by (auto simp: pins_of_Cons fun_eq_iff)
      moreover have "e\<lparr>info := info e\<rparr> = e" by simp
      moreover have "sub_infos idx ?i" by (simp add: sub_infos_def)
      ultimately show ?thesis
        using mi ms(3) km None by (intro step [of "info e" ?i slots]) (simp_all add: lookup_by_hash_def)
    next
      case (Some w)
      note wp = pub [OF Some]
      have we: "w \<noteq> info e" "w \<notin> miss_infos plan \<union> pend0" using wp True by auto
      have s': "slots_ok (miss_infos (e # plan) \<union> pend0) (miss_slots plan \<union> resv0) (master_blk e # slots) nxt idx"
        using slots_ok_unreserve [OF s pend(2)] by (simp only: diff)
      let ?pins = "\<lambda>p. pins_of (e # plan) p + extra p"
      obtain idx1 where f: "info_free idx (info e) = Some idx1" "tables_ok (miss_infos (e # plan) \<union> pend0 - {info e}) idx1"
        "counts_ok (?pins(info e := 0)) idx1"
        "slots_ok (miss_infos (e # plan) \<union> pend0 - {info e}) (miss_slots plan \<union> resv0) (master_blk e # slots) nxt idx1"
        "sub_infos idx idx1" "file_to_master idx1 = file_to_master idx" "file_to_sizes idx1 = file_to_sizes idx"
        "free_block_list idx1 = free_block_list idx" "minfos idx1 = (minfos idx)(info e := None)"
        by (rule discard_step [OF pend(1) t c s'])
      have pe: "?pins(info e := 0) = (\<lambda>p. pins_of plan p + extra p)"
        using own ms(4) by (auto simp: pins_of_Cons fun_eq_iff)
      have "refs idx1 w + (pins_of plan w + extra w) + 1 < 2 ^ 32"
        using Cons.prems(11) [of w] pins_of_le [of plan w] refs_cong [OF f(6)] by simp
      moreover have "w \<in> dom (minfos idx1)" using wp we(1) f(9) by simp
      ultimately obtain idx2 where r: "refcount_inc idx1 w = Some idx2" "same_infos idx1 idx2"
        "counts_ok ((\<lambda>p. pins_of plan p + extra p)(w := pins_of plan w + extra w + 1)) idx2"
        using pin_step [OF f(3) [unfolded pe], of w] by blast
      note sD = same_infosD [OF r(2)] and ok = same_infos_ok [OF r(2)]
      have key: "map_option info_key (minfos idx2 p) = map_option info_key (minfos idx p)" if "p \<noteq> info e" for p
        using r(2) f(9) that by (simp add: same_infos_def info_key_fun)
      obtain mw where "minfos idx w = Some mw" "info_hash mw = phash e" using Some mi(2) tables_ok_hash [OF t] by metis
      then have wh: "\<exists>mj. minfos idx2 w = Some mj \<and> info_hash mj = phash e"
        using info_key_eqD [OF key [OF we(1), symmetric]] by metis
      have "(\<lambda>p. pins_of plan p + extra p)(w := pins_of plan w + extra w + 1) = (\<lambda>p. pins_of plan p + (extra(w := extra w + 1)) p)"
        by (auto simp: fun_eq_iff)
      moreover have "info g \<noteq> info e" if "g \<in> set plan" for g
        using own pins_of_pos_iff [of plan "info e"] imageI [OF that, of info] by auto
      moreover have "sub_infos idx idx2" by (rule sub_infos_trans [OF f(5) same_infos_sub [OF r(2)]])
      ultimately show ?thesis
        using ok(1) [OF f(2)] ok(2) [OF f(4)] ok(3) [OF data_ok_discard [OF d f(9)]] r(3) f(6-8) sD key we(2) wh mi km Some f(1) r(1)
        unfolding diff
        by (intro step [of w idx2 "master_blk e # slots"]) (simp_all add: lookup_by_hash_def option.case_eq_if)
    qed
  qed
qed

end
