(* ===== verification/Interleaving.thy ===== *)
theory Interleaving
  imports Section_Frames
begin

text \<open>
  Several operations of the deduplication layer at once. FUSE calls \<^verbatim>\<open>write_dedup\<close> and
  \<^verbatim>\<open>remove_blocks_dedup_batch\<close> from several threads; \<^verbatim>\<open>metadata_rwlock\<close>, \<^verbatim>\<open>freelist_mutex\<close> and the atomic
  \<^verbatim>\<open>nextBlockIndex\<close> make each of their sections atomic, and between two sections any other thread may
  run. A thread is what an operation remembers between its sections; \<open>thread_step\<close> runs the next
  section. The state is the shared store and the multiset of the running threads. The invariant of
  the index holds with the ghost state of all threads added up, and the contents of the files
  change exactly when a write runs its third pass or a removal its loop.
\<close>

section \<open>Model\<close>

text \<open>What a thread holds between two sections: after pass 1, after the free list was drained, before
  the next \<^verbatim>\<open>pwrite\<close> of \<^verbatim>\<open>flush_plan\<close> (at position \<open>i\<close> of the plan) or pass 3, after a failed \<^verbatim>\<open>pwrite\<close>, after the HIT
  entries were rolled back, after their slots were given back, and before the last slots are given
  back.\<close>

datatype thread =
    Planned path "byte list" u64 "PlanEntry list" nat
  | Drained path "byte list" u64 "PlanEntry list" nat "u64 list"
  | Flushing path "byte list" u64 "PlanEntry list" nat
  | Failed int "PlanEntry list"
  | Rolled int "PlanEntry list" "u64 list"
  | Discarding int "PlanEntry list"
  | Releasing int "u64 list"

datatype event =
    Commit path u64 "byte list list"
  | Dropped path u64 u64
  | Returned int

definition give_back :: "Index \<Rightarrow> u64 list \<Rightarrow> Index" where
  "give_back idx slots = (if slots \<noteq> [] then idx\<lparr>free_block_list := slots @ free_block_list idx\<rparr> else idx)"

text \<open>Pass 3 under the write lock.\<close>

definition commit_section :: "Index \<Rightarrow> path \<Rightarrow> PlanEntry list \<Rightarrow> u64 \<Rightarrow> (Index \<times> u64 list) option" where
  "commit_section idx path plan new_end =
     (case publish_pass idx plan [] of
        None \<Rightarrow> None
      | Some (idx1, plan', slots) \<Rightarrow>
          map_option (\<lambda>(idx2, slots_to_release). (update_size idx2 path new_end, slots_to_release))
            (map_pass idx1 path plan' slots))"

text \<open>One iteration of \<^verbatim>\<open>flush_plan\<close>: \<open>None\<close> for a payload outside the buffer, else the master file and
  \<open>Inl rc\<close> after a failure or \<open>Inr i\<close>, the position after the run.\<close>

definition flush_run ::
    "io_outcome \<Rightarrow> byte list \<Rightarrow> byte list \<Rightarrow> PlanEntry list \<Rightarrow> nat \<Rightarrow> (byte list \<times> (int + nat)) option" where
  "flush_run out master buf plan run_start =
     (let i' = run_extend plan (Suc run_start);
          bytes = (i' - run_start) * BLOCK_SIZE;
          d = take bytes (drop (payload (plan ! run_start)) buf)
      in if length d \<noteq> bytes then None
         else
           let (master', written, errno) = pwrite out master d (master_blk (plan ! run_start) * BLOCK_SIZE64)
           in Some (master', if written \<noteq> int bytes then Inl (if written < 0 then - errno else - EIO) else Inr i'))"

fun thread_step :: "io_outcome \<Rightarrow> thread \<Rightarrow> store \<Rightarrow> (event list \<times> thread option \<times> store) option" where
  "thread_step out (Planned path buf start plan miss_count) (idx, master, nxt) =
     (if miss_count = 0 then Some ([], Some (Flushing path buf start plan (length plan)), (idx, master, nxt))
      else
        let (taken, fl) = drain_free_list miss_count (free_block_list idx)
        in Some ([], Some (Drained path buf start plan miss_count taken), (idx\<lparr>free_block_list := fl\<rparr>, master, nxt)))"
| "thread_step out (Drained path buf start plan miss_count taken) (idx, master, nxt) =
     (let remaining = miss_count - length taken
      in map_option (\<lambda>(idx', plan'). ([], Some (Flushing path buf start plan' 0), (idx', master, nxt + of_nat remaining)))
           (assign_blocks idx plan (taken @ map (\<lambda>i. nxt + of_nat i) [0..<remaining])))"
| "thread_step out (Flushing path buf start plan i) (idx, master, nxt) =
     (let run_start = skip_hits plan i
      in if run_start \<ge> length plan then
           map_option (\<lambda>(idx', slots). ([Commit path start (buf_blocks buf (length plan))],
                 Some (Releasing (c_int (of_nat (length plan) * BLOCK_SIZE64)) slots), (idx', master, nxt)))
             (commit_section idx path plan ((start + of_nat (length plan)) * BLOCK_SIZE64))
         else
           map_option (\<lambda>(master', r). ([], Some (case r of Inr i' \<Rightarrow> Flushing path buf start plan i'
                 | Inl rc \<Rightarrow> if rc < 0 then Failed rc plan else Flushing path buf start plan (length plan)), (idx, master', nxt)))
             (flush_run out master buf plan run_start))"
| "thread_step out (Failed rc plan) (idx, master, nxt) =
     map_option (\<lambda>(idx', hit_slots). ([], Some (Rolled rc plan hit_slots), (idx', master, nxt))) (rollback_hits idx plan [])"
| "thread_step out (Rolled rc plan hit_slots) (idx, master, nxt) =
     Some ([], Some (Discarding rc plan), (give_back idx hit_slots, master, nxt))"
| "thread_step out (Discarding rc plan) (idx, master, nxt) =
     map_option (\<lambda>idx'. ([Returned rc], None, (idx', master, nxt))) (rollback_misses idx plan)"
| "thread_step out (Releasing rc slots) (idx, master, nxt) =
     Some ([Returned rc], None, (give_back idx slots, master, nxt))"

declare thread_step.simps [simp del]

text \<open>The first sections: pass 1 under the read lock and the loop of a removal under the write lock.\<close>

fun begin_write :: "(byte list \<Rightarrow> digest) \<Rightarrow> path \<Rightarrow> byte list \<Rightarrow> u64 \<Rightarrow> u64 \<Rightarrow> store \<Rightarrow> (thread \<times> store) option" where
  "begin_write SHA512 path buf sz offset (idx, master, nxt) =
     (let num_blocks = unat sz div BLOCK_SIZE; start_block = off_div_block offset
      in map_option (\<lambda>(idx', pending_hashes, plan, miss_count).
             (Planned path buf start_block plan miss_count, (idx', master, nxt)))
           (plan_pass SHA512 buf start_block [0..<num_blocks] (idx, Map.empty, [], 0)))"

fun begin_remove :: "path \<Rightarrow> u64 \<Rightarrow> u64 \<Rightarrow> store \<Rightarrow> (thread \<times> store) option" where
  "begin_remove path start_block end_block (idx, master, nxt) =
     map_option (\<lambda>(idx', to_release). (Releasing 0 to_release, (idx', master, nxt)))
       (remove_loop idx path (block_range start_block end_block) [])"

section \<open>What a thread holds\<close>

fun t_pend :: "thread \<Rightarrow> ptr list" where
  "t_pend (Planned path buf start plan mc) = map info (misses plan)"
| "t_pend (Drained path buf start plan mc taken) = map info (misses plan)"
| "t_pend (Flushing path buf start plan i) = map info (misses plan)"
| "t_pend (Failed rc plan) = map info (misses plan)"
| "t_pend (Rolled rc plan slots) = map info (misses plan)"
| "t_pend (Discarding rc plan) = map info (misses plan)"
| "t_pend (Releasing rc slots) = []"

fun t_pins :: "thread \<Rightarrow> ptr list" where
  "t_pins (Planned path buf start plan mc) = map info plan"
| "t_pins (Drained path buf start plan mc taken) = map info plan"
| "t_pins (Flushing path buf start plan i) = map info plan"
| "t_pins (Failed rc plan) = map info plan"
| "t_pins (Rolled rc plan slots) = map info (misses plan)"
| "t_pins (Discarding rc plan) = map info (misses plan)"
| "t_pins (Releasing rc slots) = []"

fun t_resv :: "thread \<Rightarrow> u64 list" where
  "t_resv (Planned path buf start plan mc) = []"
| "t_resv (Drained path buf start plan mc taken) = taken"
| "t_resv (Flushing path buf start plan i) = map master_blk (misses plan)"
| "t_resv (Failed rc plan) = map master_blk (misses plan)"
| "t_resv (Rolled rc plan slots) = map master_blk (misses plan)"
| "t_resv (Discarding rc plan) = map master_blk (misses plan)"
| "t_resv (Releasing rc slots) = []"

fun t_rel :: "thread \<Rightarrow> u64 list" where
  "t_rel (Rolled rc plan slots) = slots"
| "t_rel (Releasing rc slots) = slots"
| "t_rel _ = []"

definition pool :: "(thread \<Rightarrow> 'a list) \<Rightarrow> thread multiset \<Rightarrow> 'a multiset" where
  "pool f T = (\<Sum>t \<in># T. mset (f t))"

lemma pool_simps [simp]: "pool f {#} = {#}" "pool f (add_mset t T) = mset (f t) + pool f T"
  by (simp_all add: pool_def)

lemma pool_mem: "t \<in># T \<Longrightarrow> x \<in> set (f t) \<Longrightarrow> x \<in># pool f T"
  by (induction T) auto

definition flushed_to :: "byte list \<Rightarrow> byte list \<Rightarrow> PlanEntry list \<Rightarrow> nat \<Rightarrow> bool" where
  "flushed_to master buf plan i \<longleftrightarrow>
     (\<forall>k < i. k < length plan \<longrightarrow> is_miss (plan ! k) \<longrightarrow> block_at master (unat (master_blk (plan ! k))) = block_at buf k)"

fun thread_ok :: "(byte list \<Rightarrow> digest) \<Rightarrow> ptr set \<Rightarrow> byte list \<Rightarrow> Index \<Rightarrow> thread \<Rightarrow> bool" where
  "thread_ok SHA512 pend master idx (Planned path buf start plan mc) \<longleftrightarrow>
     planned SHA512 buf start pend idx plan \<and> mc = length (misses plan)"
| "thread_ok SHA512 pend master idx (Drained path buf start plan mc taken) \<longleftrightarrow>
     planned SHA512 buf start pend idx plan \<and> mc = length (misses plan) \<and> length taken \<le> mc"
| "thread_ok SHA512 pend master idx (Flushing path buf start plan i) \<longleftrightarrow>
     planned SHA512 buf start pend idx plan \<and> i \<le> length plan \<and>
     (\<forall>e \<in> set (misses plan). slot_of idx (info e) = master_blk e) \<and> flushed_to master buf plan i"
| "thread_ok SHA512 pend master idx (Failed rc plan) \<longleftrightarrow> rc < 0 \<and> (\<forall>e \<in> set plan. \<not> is_miss e \<longrightarrow> info e \<notin> pend)"
| "thread_ok SHA512 pend master idx (Rolled rc plan slots) \<longleftrightarrow> rc < 0"
| "thread_ok SHA512 pend master idx (Discarding rc plan) \<longleftrightarrow> rc < 0"
| "thread_ok SHA512 pend master idx (Releasing rc slots) \<longleftrightarrow> True"

section \<open>The invariant\<close>

text \<open>Every published block is one of a given set; with it the contents are followed back to the writes.\<close>

definition data_in :: "byte list set \<Rightarrow> byte list \<Rightarrow> ptr set \<Rightarrow> Index \<Rightarrow> bool" where
  "data_in K master pend idx \<longleftrightarrow>
     (\<forall>p mi. minfos idx p = Some mi \<longrightarrow> p \<notin> pend \<longrightarrow> block_at master (unat (masterBlockIndex mi)) \<in> K)"

text \<open>The invariant with what one operation holds (four lists) next to the pool of the others.\<close>

definition own_inv ::
    "(byte list \<Rightarrow> digest) \<Rightarrow> byte list set \<Rightarrow> thread multiset \<Rightarrow> ptr list \<Rightarrow> ptr list \<Rightarrow> u64 list \<Rightarrow> u64 list \<Rightarrow> store \<Rightarrow> bool" where
  "own_inv SHA512 K T own_pend own_pins own_resv own_rel st \<longleftrightarrow>
     (case st of (idx, master, nxt) \<Rightarrow>
       let pend = set own_pend \<union> set_mset (pool t_pend T) in
       tables_ok pend idx \<and> counts_ok (\<lambda>p. count_list own_pins p + count (pool t_pins T) p) idx \<and>
       (\<exists>rel. mset rel = pool t_rel T \<and> slots_ok pend (set own_resv \<union> set_mset (pool t_resv T)) (own_rel @ rel) nxt idx) \<and>
       data_ok SHA512 master pend idx \<and> data_in K master pend idx \<and>
       distinct own_pend \<and> set own_pend \<inter> set_mset (pool t_pend T) = {} \<and> (\<forall>p. count (pool t_pend T) p \<le> 1) \<and>
       distinct own_resv \<and> set own_resv \<inter> set_mset (pool t_resv T) = {} \<and> (\<forall>x. count (pool t_resv T) x \<le> 1) \<and>
       (\<forall>t \<in># T. thread_ok SHA512 pend master idx t) \<and>
       card (dom (file_to_master idx)) + length own_pins + size (pool t_pins T) < 2 ^ 32 \<and> unat nxt \<le> MAX_BLOCKS)"

definition conc_inv :: "(byte list \<Rightarrow> digest) \<Rightarrow> byte list set \<Rightarrow> thread multiset \<Rightarrow> store \<Rightarrow> bool" where
  "conc_inv SHA512 K T st \<longleftrightarrow> own_inv SHA512 K T [] [] [] [] st"

lemma count_mset_list: "count (mset xs) = count_list xs"
  by (rule ext, induction xs) auto

lemma distinct_union_iff:
  "(\<forall>x. count (mset xs + M) x \<le> 1) \<longleftrightarrow> distinct xs \<and> set xs \<inter> set_mset M = {} \<and> (\<forall>x. count M x \<le> 1)"
proof -
  have d: "distinct xs \<longleftrightarrow> (\<forall>x. count (mset xs) x \<le> 1)"
    unfolding distinct_count_atmost_1
  proof (intro iffI allI)
    fix x assume "\<forall>a. count (mset xs) a = (if a \<in> set xs then 1 else 0)"
    then show "count (mset xs) x \<le> 1" by simp
  next
    fix x assume "\<forall>x. count (mset xs) x \<le> 1"
    then have le: "count (mset xs) x \<le> 1" by blast
    show "count (mset xs) x = (if x \<in> set xs then 1 else 0)"
    proof (cases "x \<in> set xs")
      case True
      then have "0 < count (mset xs) x" by (rule count_mset_gt_0)
      with le have "count (mset xs) x = 1" by linarith
      with True show ?thesis by simp
    qed simp
  qed
  have "count (mset xs + M) x \<le> 1 \<longleftrightarrow> count (mset xs) x \<le> 1 \<and> count M x \<le> 1 \<and> \<not> (x \<in> set xs \<and> x \<in># M)" for x
  proof -
    have "x \<in> set xs \<longleftrightarrow> count (mset xs) x \<noteq> 0" "x \<in># M \<longleftrightarrow> count M x \<noteq> 0" by simp_all
    then show ?thesis unfolding count_union by arith
  qed
  then show ?thesis unfolding d by blast
qed

text \<open>A thread of the pool can be singled out.\<close>

lemma conc_inv_add:
  "conc_inv SHA512 K (add_mset t T) (idx, master, nxt) \<longleftrightarrow>
     own_inv SHA512 K T (t_pend t) (t_pins t) (t_resv t) (t_rel t) (idx, master, nxt) \<and>
     thread_ok SHA512 (set (t_pend t) \<union> set_mset (pool t_pend T)) master idx t"
proof -
  let ?slots = "slots_ok (set (t_pend t) \<union> set_mset (pool t_pend T)) (set (t_resv t) \<union> set_mset (pool t_resv T))"
  have rel: "(\<exists>rel. mset rel = mset (t_rel t) + pool t_rel T \<and> ?slots rel nxt idx) \<longleftrightarrow>
      (\<exists>rel. mset rel = pool t_rel T \<and> ?slots (t_rel t @ rel) nxt idx)" (is "?l \<longleftrightarrow> ?r")
  proof
    assume ?l
    then obtain rel where r: "mset rel = mset (t_rel t) + pool t_rel T" "?slots rel nxt idx" by blast
    obtain rel0 where r0: "mset rel0 = pool t_rel T" using ex_mset by blast
    then have "?slots (t_rel t @ rel0) nxt idx" using r slots_ok_mset [of rel "t_rel t @ rel0"] by simp
    with r0 show ?r by blast
  next
    assume ?r
    then obtain rel where "mset rel = pool t_rel T" "?slots (t_rel t @ rel) nxt idx" by blast
    then show ?l by (intro exI [of _ "t_rel t @ rel"]) simp
  qed
  show ?thesis
    unfolding conc_inv_def own_inv_def pool_simps prod.case Let_def distinct_union_iff
    by (auto simp: rel count_mset_list add.assoc add.left_commute)
qed

section \<open>Frames\<close>

text \<open>A thread only depends on the objects it has pinned and on the blocks in its own slots.\<close>

lemma planned_frame:
  assumes ok: "planned SHA512 buf start pend idx plan"
    and key: "\<And>p. p \<in> info ` set plan \<Longrightarrow> map_option info_key (minfos idx' p) = map_option info_key (minfos idx p)"
    and pend: "\<And>p. p \<in> info ` set plan \<Longrightarrow> p \<in> pend' \<Longrightarrow> p \<in> pend"
  shows "planned SHA512 buf start pend' idx' plan"
proof -
  have "entry_ok SHA512 buf start idx' k (plan ! k)" if k: "k < length plan" for k
  proof -
    have e: "entry_ok SHA512 buf start idx k (plan ! k)" using ok k by (simp add: planned_def)
    then obtain mi where mi: "minfos idx (info (plan ! k)) = Some mi" "info_hash mi = phash (plan ! k)" by (auto simp: entry_ok_def)
    obtain mj where "minfos idx' (info (plan ! k)) = Some mj" "info_hash mj = info_hash mi"
      using info_key_eqD [OF key [symmetric] mi(1)] k by auto
    with e mi(2) show ?thesis by (simp add: entry_ok_def)
  qed
  then show ?thesis using ok pend by (auto simp: planned_def)
qed

lemma planned_full:
  assumes "planned SHA512 buf start pend idx plan" "k < length plan"
  shows "length (block_at buf k) = BLOCK_SIZE"
proof -
  have "Suc k * BLOCK_SIZE \<le> length plan * BLOCK_SIZE" using assms(2) by (intro mult_le_mono1) simp
  also have "\<dots> \<le> length buf" using assms(1) by (simp add: planned_def)
  finally show ?thesis unfolding full_block_iff .
qed

lemma info_key_slot:
  "map_option info_key (minfos idx' p) = map_option info_key (minfos idx p) \<Longrightarrow> slot_of idx' p = slot_of idx p"
  by (cases "minfos idx p"; cases "minfos idx' p") (auto simp: slot_of_def info_key_def)

lemma flushed_to_frame:
  assumes ok: "flushed_to master buf plan i" and pl: "planned SHA512 buf start pend idx plan"
    and blk: "\<And>s. s \<in> miss_slots plan \<Longrightarrow> length (block_at master (unat s)) = BLOCK_SIZE \<Longrightarrow>
       block_at master' (unat s) = block_at master (unat s)"
  shows "flushed_to master' buf plan i"
  unfolding flushed_to_def
proof (intro allI impI)
  fix k assume k: "k < i" "k < length plan" "is_miss (plan ! k)"
  then have e: "block_at master (unat (master_blk (plan ! k))) = block_at buf k" using ok by (simp add: flushed_to_def)
  have "master_blk (plan ! k) \<in> miss_slots plan" using k by (auto simp: miss_slots_def)
  then show "block_at master' (unat (master_blk (plan ! k))) = block_at buf k"
    using blk e planned_full [OF pl k(2)] by simp
qed

lemma thread_ok_frame:
  assumes ok: "thread_ok SHA512 pend master idx t"
    and key: "\<And>p. p \<in> set (t_pins t) \<Longrightarrow> map_option info_key (minfos idx' p) = map_option info_key (minfos idx p)"
    and pend: "\<And>p. p \<in> set (t_pins t) \<Longrightarrow> p \<in> pend' \<Longrightarrow> p \<in> pend"
    and blk: "\<And>s. s \<in> set (t_resv t) \<Longrightarrow> length (block_at master (unat s)) = BLOCK_SIZE \<Longrightarrow>
       block_at master' (unat s) = block_at master (unat s)"
  shows "thread_ok SHA512 pend' master' idx' t"
proof (cases t)
  case (Flushing path buf start plan i)
  note k = key [unfolded Flushing t_pins.simps set_map] and p = pend [unfolded Flushing t_pins.simps set_map]
  have pl: "planned SHA512 buf start pend idx plan" using ok Flushing by simp
  have "flushed_to master' buf plan i"
    by (rule flushed_to_frame [OF _ pl blk]) (use ok Flushing in \<open>simp_all add: miss_slots_def\<close>)
  moreover have "slot_of idx' (info e) = slot_of idx (info e)" if "e \<in> set plan" for e
    using that by (intro info_key_slot k) simp
  moreover have "planned SHA512 buf start pend' idx' plan" by (rule planned_frame [OF pl k p])
  ultimately show ?thesis using ok Flushing by simp
next
  case (Planned path buf start plan mc)
  note k = key [unfolded Planned t_pins.simps set_map] and p = pend [unfolded Planned t_pins.simps set_map]
  have "planned SHA512 buf start pend' idx' plan" by (rule planned_frame [OF _ k p]) (use ok Planned in simp)
  then show ?thesis using ok Planned by simp
next
  case (Drained path buf start plan mc taken)
  note k = key [unfolded Drained t_pins.simps set_map] and p = pend [unfolded Drained t_pins.simps set_map]
  have "planned SHA512 buf start pend' idx' plan" by (rule planned_frame [OF _ k p]) (use ok Drained in simp)
  then show ?thesis using ok Drained by simp
next
  case (Failed rc plan)
  then show ?thesis using ok pend by auto
qed (use ok in simp_all)

lemma others_frame:
  assumes "\<forall>t \<in># T. thread_ok SHA512 pend master idx t"
    and "\<And>p. 0 < count (pool t_pins T) p \<Longrightarrow> map_option info_key (minfos idx' p) = map_option info_key (minfos idx p)"
    and "\<And>p. 0 < count (pool t_pins T) p \<Longrightarrow> p \<in> pend' \<Longrightarrow> p \<in> pend"
    and "\<And>s. s \<in># pool t_resv T \<Longrightarrow> length (block_at master (unat s)) = BLOCK_SIZE \<Longrightarrow>
       block_at master' (unat s) = block_at master (unat s)"
  shows "\<forall>t \<in># T. thread_ok SHA512 pend' master' idx' t"
proof
  fix t assume t: "t \<in># T"
  show "thread_ok SHA512 pend' master' idx' t"
  proof (rule thread_ok_frame)
    show "thread_ok SHA512 pend master idx t" using assms(1) t by blast
  qed (use assms(2-4) pool_mem [OF t, of _ t_pins] pool_mem [OF t, of _ t_resv] in simp_all)
qed

text \<open>Blocks of files and the origin of blocks, when objects only disappear or the master file changes
  outside the published slots.\<close>

lemma data_in_sub: "sub_infos idx idx' \<Longrightarrow> data_in K master pend idx \<Longrightarrow> data_in K master pend idx'"
  unfolding sub_infos_def data_in_def by metis

lemma data_in_mono: "data_in K master pend idx \<Longrightarrow> K \<subseteq> K' \<Longrightarrow> data_in K' master pend idx"
  unfolding data_in_def by blast

lemma fs_block_sub:
  assumes t: "tables_ok pend' idx'" and sub: "sub_infos idx idx'" and f: "file_to_master idx' = file_to_master idx"
  shows "fs_block master idx' = fs_block master idx"
proof (intro ext fs_block_cong)
  fix g b p assume "file_to_master idx (bkey g b) = Some p"
  then have "file_to_master idx' (bkey g b) = Some p" by (simp add: f)
  then obtain mi where mi: "minfos idx' p = Some mi" by (rule file_mapped_allocated [OF t])
  then show "slot_of idx' p = slot_of idx p" using sub unfolding sub_infos_def by fastforce
qed (simp add: f)

end
