(* ===== verification/Interleaving_Steps.thy ===== *)
theory Interleaving_Steps
  imports Interleaving
begin

text \<open>
  Every section keeps the invariant of the interleaved operations, never touches memory that is not
  allocated, and leaves the contents of the files alone unless it is a commit or a removal.
\<close>

section \<open>Taking the invariant apart\<close>

lemma own_invD:
  assumes "own_inv SHA512 K T own_pend own_pins own_resv own_rel (idx, master, nxt)"
  shows own_tables: "tables_ok (set own_pend \<union> set_mset (pool t_pend T)) idx"
    and own_counts: "counts_ok (\<lambda>p. count_list own_pins p + count (pool t_pins T) p) idx"
    and own_slots: "\<exists>rel. mset rel = pool t_rel T \<and>
       slots_ok (set own_pend \<union> set_mset (pool t_pend T)) (set own_resv \<union> set_mset (pool t_resv T)) (own_rel @ rel) nxt idx"
    and own_data: "data_ok SHA512 master (set own_pend \<union> set_mset (pool t_pend T)) idx"
      "data_in K master (set own_pend \<union> set_mset (pool t_pend T)) idx"
    and own_pend: "distinct own_pend" "set own_pend \<inter> set_mset (pool t_pend T) = {}" "\<forall>p. count (pool t_pend T) p \<le> 1"
    and own_resv: "distinct own_resv" "set own_resv \<inter> set_mset (pool t_resv T) = {}" "\<forall>x. count (pool t_resv T) x \<le> 1"
    and own_others: "\<forall>t \<in># T. thread_ok SHA512 (set own_pend \<union> set_mset (pool t_pend T)) master idx t"
    and own_room: "card (dom (file_to_master idx)) + length own_pins + size (pool t_pins T) < 2 ^ 32" "unat nxt \<le> MAX_BLOCKS"
  using assms unfolding own_inv_def prod.case Let_def by blast+

lemma own_slotsE:
  assumes "own_inv SHA512 K T own_pend own_pins own_resv own_rel (idx, master, nxt)"
  obtains rel where "mset rel = pool t_rel T"
    "slots_ok (set own_pend \<union> set_mset (pool t_pend T)) (set own_resv \<union> set_mset (pool t_resv T)) (own_rel @ rel) nxt idx"
  by (rule exE [OF own_slots [OF assms]]) (elim conjE, rule that)

lemma own_invI:
  assumes "tables_ok (set own_pend \<union> set_mset (pool t_pend T)) idx"
    and "counts_ok (\<lambda>p. count_list own_pins p + count (pool t_pins T) p) idx"
    and "mset rel = pool t_rel T"
      "slots_ok (set own_pend \<union> set_mset (pool t_pend T)) (set own_resv \<union> set_mset (pool t_resv T)) (own_rel @ rel) nxt idx"
    and "data_ok SHA512 master (set own_pend \<union> set_mset (pool t_pend T)) idx"
      "data_in K master (set own_pend \<union> set_mset (pool t_pend T)) idx"
    and "distinct own_pend" "set own_pend \<inter> set_mset (pool t_pend T) = {}" "\<forall>p. count (pool t_pend T) p \<le> 1"
    and "distinct own_resv" "set own_resv \<inter> set_mset (pool t_resv T) = {}" "\<forall>x. count (pool t_resv T) x \<le> 1"
    and "\<forall>t \<in># T. thread_ok SHA512 (set own_pend \<union> set_mset (pool t_pend T)) master idx t"
    and "card (dom (file_to_master idx)) + length own_pins + size (pool t_pins T) < 2 ^ 32" "unat nxt \<le> MAX_BLOCKS"
  shows "own_inv SHA512 K T own_pend own_pins own_resv own_rel (idx, master, nxt)"
  unfolding own_inv_def prod.case Let_def using assms by blast

lemma refs_room:
  assumes "own_inv SHA512 K T own_pend own_pins own_resv own_rel (idx, master, nxt)"
  shows "refs idx p + length own_pins + count (pool t_pins T) p < 2 ^ 32"
proof -
  have "refs idx p \<le> card (dom (file_to_master idx))"
    by (rule refs_le_dom [OF tables_ok_finite [OF own_tables [OF assms]]])
  moreover have "count (pool t_pins T) p \<le> size (pool t_pins T)" by (rule count_le_size)
  ultimately show ?thesis using own_room(1) [OF assms] by linarith
qed

lemma fs_block_keys:
  assumes "file_to_master idx' = file_to_master idx"
    and "\<And>k p. file_to_master idx k = Some p \<Longrightarrow> map_option info_key (minfos idx' p) = map_option info_key (minfos idx p)"
  shows "fs_block master idx' = fs_block master idx"
proof (intro ext, rule fs_block_cong)
  fix g b p assume "file_to_master idx (bkey g b) = Some p"
  then show "slot_of idx' p = slot_of idx p" by (intro info_key_slot assms(2))
qed (simp add: assms(1))

lemma free_list_frame [simp]:
  "tables_ok pend (idx\<lparr>free_block_list := fl\<rparr>) = tables_ok pend idx"
  "counts_ok pins (idx\<lparr>free_block_list := fl\<rparr>) = counts_ok pins idx"
  "data_ok SHA512 master pend (idx\<lparr>free_block_list := fl\<rparr>) = data_ok SHA512 master pend idx"
  "data_in K master pend (idx\<lparr>free_block_list := fl\<rparr>) = data_in K master pend idx"
  by (simp_all add: tables_ok_def published_def counts_ok_def refs_def data_ok_def data_in_def)

lemma data_cong:
  assumes "\<And>p. p \<notin> pend \<Longrightarrow> minfos idx' p = minfos idx p"
  shows "data_ok SHA512 master pend idx \<Longrightarrow> data_ok SHA512 master pend idx'"
    and "data_in K master pend idx \<Longrightarrow> data_in K master pend idx'"
  using assms unfolding data_ok_def data_in_def by metis+

lemma data_smaller:
  assumes "\<And>p. p \<in> dom (minfos idx) \<Longrightarrow> p \<notin> A"
  shows "data_ok SHA512 master (A \<union> B) idx \<Longrightarrow> data_ok SHA512 master B idx"
    and "data_in K master (A \<union> B) idx \<Longrightarrow> data_in K master B idx"
  using assms unfolding data_ok_def data_in_def by (metis Un_iff domI)+

text \<open>Objects only disappear: what the others have pinned stays.\<close>

lemma others_sub:
  assumes "\<forall>t \<in># T. thread_ok SHA512 pend master idx t" and sub: "sub_infos idx idx'"
    and c: "counts_ok (\<lambda>p. c p + count (pool t_pins T) p) idx'" and "pend' \<subseteq> pend"
  shows "\<forall>t \<in># T. thread_ok SHA512 pend' master idx' t"
proof (rule others_frame [OF assms(1)])
  fix p assume "0 < count (pool t_pins T) p"
  then show "map_option info_key (minfos idx' p) = map_option info_key (minfos idx p)"
    by (intro sub_infos_pinned(1) [OF sub c]) simp
qed (use assms(4) in auto)

section \<open>The lists of slots to release are accumulators\<close>

lemma map_append_SomeE:
  assumes "map_option (\<lambda>(i, r). (i, r @ rel)) Y = Some (i', r')"
  obtains r where "Y = Some (i', r)" "r' = r @ rel"
  using assms by (cases Y) auto

lemma release_info_append:
  "release_info idx (own @ rel) p = map_option (\<lambda>(i, r). (i, r @ rel)) (release_info idx own p)"
  unfolding release_info_rel [of idx "own @ rel"] release_info_rel [of idx own]
  by (cases "release_info idx [] p") auto

lemma remove_loop_append:
  "remove_loop idx path is (own @ rel) = map_option (\<lambda>(i, r). (i, r @ rel)) (remove_loop idx path is own)"
proof (induction "is" arbitrary: idx own)
  case (Cons i "is")
  show ?case
  proof (cases "lookup_by_file_block idx path i")
    case None
    then show ?thesis using Cons.IH [of idx own] by simp
  next
    case (Some p)
    then show ?thesis
      using Cons.IH release_info_append [of "remove_file_block idx path i" own rel p]
      by (cases "release_info (remove_file_block idx path i) own p") auto
  qed
qed simp

lemma rollback_hits_append:
  "rollback_hits idx plan (own @ rel) = map_option (\<lambda>(i, r). (i, r @ rel)) (rollback_hits idx plan own)"
proof (induction plan arbitrary: idx own)
  case (Cons e plan)
  then show ?case
    using release_info_append [of idx own rel "info e"] by (cases "release_info idx own (info e)") auto
qed simp

lemma map_pass_append:
  "map_pass idx path plan (own @ rel) = map_option (\<lambda>(i, r). (i, r @ rel)) (map_pass idx path plan own)"
proof (induction plan arbitrary: idx own)
  case (Cons e plan)
  show ?case
  proof (cases "lookup_by_file_block idx path (logical_blk e)")
    case None
    then show ?thesis using Cons.IH by simp
  next
    case (Some p)
    then show ?thesis
      using Cons.IH release_info_append [of idx own rel p] by (cases "release_info idx own p") auto
  qed
qed simp

lemma publish_pass_append:
  "publish_pass idx plan (own @ rel) = map_option (\<lambda>(i, p, r). (i, p, r @ rel)) (publish_pass idx plan own)"
proof (induction plan arbitrary: idx own)
  case (Cons e plan)
  have IH: "publish_pass idx1 plan (x # own @ rel) = map_option (\<lambda>(i, p, r). (i, p, r @ rel)) (publish_pass idx1 plan (x # own))"
    for idx1 x using Cons.IH [of idx1 "x # own"] by simp
  show ?case
    by (simp add: Cons.IH IH option.map_comp comp_def case_prod_beta split: option.split)
qed simp

section \<open>The first pass\<close>

text \<open>The limits of the machine types, with the references that running operations hold, and blocks
  that differ from each other.\<close>

fun conc_request :: "(byte list \<Rightarrow> digest) \<Rightarrow> thread multiset \<Rightarrow> store \<Rightarrow> byte list \<Rightarrow> u64 \<Rightarrow> u64 \<Rightarrow> bool" where
  "conc_request SHA512 T (idx, master, nxt) buf sz off \<longleftrightarrow>
     sz \<noteq> 0 \<and> unat sz mod BLOCK_SIZE = 0 \<and> unat sz \<le> length buf \<and> unat off + unat sz < 2 ^ 63 \<and>
     card (dom (file_to_master idx)) + size (pool t_pins T) + unat sz div BLOCK_SIZE < 2 ^ 32 \<and>
     distinct (map (hash SHA512) (buf_blocks buf (unat sz div BLOCK_SIZE)))"

lemma begin_write_inv:
  assumes inv: "conc_inv SHA512 K T (idx, master, nxt)" and req: "conc_request SHA512 T (idx, master, nxt) buf sz off"
  shows "\<exists>t idx'. begin_write SHA512 path buf sz off (idx, master, nxt) = Some (t, (idx', master, nxt)) \<and>
    conc_inv SHA512 K (add_mset t T) (idx', master, nxt) \<and> fs_block master idx' = fs_block master idx \<and>
    file_to_sizes idx' = file_to_sizes idx \<and> file_to_master idx' = file_to_master idx \<and>
    (\<forall>p \<in> dom (minfos idx). map_option info_key (minfos idx' p) = map_option info_key (minfos idx p))"
proof -
  let ?n = "unat sz div BLOCK_SIZE" and ?start = "off_div_block off"
  let ?pend0 = "set_mset (pool t_pend T)" and ?pins0 = "count (pool t_pins T)" and ?resv0 = "set_mset (pool t_resv T)"
  note own = inv [unfolded conc_inv_def]
  note D = own_invD [OF own, simplified]
  obtain rel where rel: "mset rel = pool t_rel T" "slots_ok ?pend0 ?resv0 rel nxt idx" using D(3) by blast
  have r: "unat sz = ?n * BLOCK_SIZE" "?n * BLOCK_SIZE \<le> length buf" "unat off + ?n * BLOCK_SIZE < 2 ^ 63"
    "card (dom (file_to_master idx)) + size (pool t_pins T) + ?n < 2 ^ 32"
    "distinct (map (\<lambda>k. hash SHA512 (block_at buf k)) [0..<?n])"
    using req by (auto simp: buf_blocks_def comp_def)
  have st: "framed_pass1 SHA512 buf ?start ?pend0 ?pins0 ?resv0 rel nxt idx (idx, Map.empty, [], 0)"
    using D(1,2) rel(2) by (simp add: framed_pass1_def only_new_def)
  have b: "refs idx p + length ([] :: PlanEntry list) + ?pins0 p + ?n < 2 ^ 32" for p
    using refs_le_dom [OF tables_ok_finite [OF D(1)], of p] count_le_size [of "pool t_pins T" p] r(4) by simp
  obtain idx' pending plan mc where
    run: "plan_pass SHA512 buf ?start [0..<?n] (idx, Map.empty, [], 0) = Some (idx', pending, plan, mc)"
    and fr: "framed_pass1 SHA512 buf ?start ?pend0 ?pins0 ?resv0 rel nxt idx (idx', pending, plan, mc)" and ln: "length plan = ?n"
    using framed_plan_pass [OF st b] r(2,5) by auto
  let ?t = "Planned path buf ?start plan mc"
  note F = fr [unfolded framed_pass1_def prod.case]
  have o: "only_new (miss_infos plan) idx idx'" using F by blast
  have pe: "set (t_pend ?t) \<union> ?pend0 = ?pend0 \<union> miss_infos plan" by (auto simp: miss_infos_def)
  have pinned: "p \<notin> miss_infos plan" if "p \<in> dom (minfos idx)" for p using only_newD(4) [OF o] that by blast
  have key: "map_option info_key (minfos idx' p) = map_option info_key (minfos idx p)" if "p \<in> dom (minfos idx)" for p
    using only_newD(6) [OF o pinned [OF that]] .
  have "thread_ok SHA512 (set (t_pend ?t) \<union> ?pend0) master idx' ?t"
    using F ln r request_start(1) [OF r(3)] unfolding pe by (simp add: planned_def)
  moreover have "own_inv SHA512 K T (t_pend ?t) (t_pins ?t) (t_resv ?t) (t_rel ?t) (idx', master, nxt)"
  proof (rule own_invI [OF _ _ rel(1)])
    show "tables_ok (set (t_pend ?t) \<union> ?pend0) idx'" unfolding pe using F by blast
    show "counts_ok (\<lambda>p. count_list (t_pins ?t) p + ?pins0 p) idx'"
      using F by (simp add: pins_of_def [abs_def])
    show "slots_ok (set (t_pend ?t) \<union> ?pend0) (set (t_resv ?t) \<union> ?resv0) (t_rel ?t @ rel) nxt idx'"
      unfolding pe using F by simp
    show "data_ok SHA512 master (set (t_pend ?t) \<union> ?pend0) idx'"
      unfolding pe by (rule only_new_data_frame [OF o D(4)])
    show "data_in K master (set (t_pend ?t) \<union> ?pend0) idx'"
      unfolding pe data_in_def
    proof (intro allI impI)
      fix p mi assume p: "minfos idx' p = Some mi" "p \<notin> ?pend0 \<union> miss_infos plan"
      then obtain mj where "minfos idx p = Some mj" "masterBlockIndex mj = masterBlockIndex mi"
        using info_key_eqD [OF only_newD(6) [OF o] p(1)] by auto
      then show "block_at master (unat (masterBlockIndex mi)) \<in> K" using D(5) p(2) by (metis UnI1 data_in_def)
    qed
    show "\<forall>t \<in># T. thread_ok SHA512 (set (t_pend ?t) \<union> ?pend0) master idx' t"
    proof (rule others_frame [OF D(12)])
      fix p assume "0 < ?pins0 p"
      then have p: "p \<in> dom (minfos idx)" using D(2) by (simp add: counts_ok_def)
      show "map_option info_key (minfos idx' p) = map_option info_key (minfos idx p)" by (rule key [OF p])
      show "p \<in> ?pend0" if "p \<in> set (t_pend ?t) \<union> ?pend0" using that pinned [OF p] unfolding pe by blast
    qed simp
    show "card (dom (file_to_master idx')) + length (t_pins ?t) + size (pool t_pins T) < 2 ^ 32"
      using r(4) ln only_newD(1) [OF o] by simp
  qed (use F D in \<open>auto simp: miss_infos_def\<close>)
  moreover have "fs_block master idx' = fs_block master idx"
  proof (rule fs_block_keys [OF only_newD(1) [OF o] key])
    fix k p assume "file_to_master idx k = Some p"
    then show "p \<in> dom (minfos idx)" using tables_ok_file [OF D(1)] by (simp add: published_def)
  qed
  moreover have "file_to_sizes idx' = file_to_sizes idx" by (rule only_newD(3) [OF o])
  ultimately show ?thesis
    using run key only_newD(1) [OF o] by (intro exI [of _ ?t] exI [of _ idx']) (simp add: conc_inv_add)
qed

section \<open>Removals\<close>

lemma begin_remove_inv:
  assumes inv: "conc_inv SHA512 K T (idx, master, nxt)"
  shows "\<exists>t idx'. begin_remove path s e (idx, master, nxt) = Some (t, (idx', master, nxt)) \<and>
    conc_inv SHA512 K (add_mset t T) (idx', master, nxt) \<and>
    fs_block master idx' = (\<lambda>f b. if f = path \<and> s \<le> b \<and> b < e then None else fs_block master idx f b) \<and>
    file_to_sizes idx' = file_to_sizes idx"
proof -
  let ?pend = "set_mset (pool t_pend T)" and ?pins = "count (pool t_pins T)" and ?resv = "set_mset (pool t_resv T)"
  note own = inv [unfolded conc_inv_def]
  note D = own_invD [OF own, simplified]
  obtain rel where rel: "mset rel = pool t_rel T" "slots_ok ?pend ?resv rel nxt idx" using D(3) by blast
  obtain idx' rel' where R: "remove_loop idx path (block_range s e) rel = Some (idx', rel')"
      "tables_ok ?pend idx'" "counts_ok ?pins idx'" "slots_ok ?pend ?resv rel' nxt idx'" "sub_infos idx idx'"
    and F: "file_to_master idx' = (\<lambda>k. if key_path k = path \<and> key_offset k \<in> set (block_range s e) then None else file_to_master idx k)"
    and Z: "file_to_sizes idx' = file_to_sizes idx"
    and S: "\<forall>k p. file_to_master idx' k = Some p \<longrightarrow> slot_of idx' p = slot_of idx p"
    using remove_loop_spec [OF D(1,2) rel(2), of path "block_range s e"] by blast
  have "map_option (\<lambda>(i, r). (i, r @ rel)) (remove_loop idx path (block_range s e) []) = Some (idx', rel')"
    using R(1) remove_loop_append [of idx path "block_range s e" "[]" rel] by simp
  then obtain slots where run: "remove_loop idx path (block_range s e) [] = Some (idx', slots)" and r': "rel' = slots @ rel"
    by (rule map_append_SomeE)
  let ?t = "Releasing 0 slots"
  have "own_inv SHA512 K T (t_pend ?t) (t_pins ?t) (t_resv ?t) (t_rel ?t) (idx', master, nxt)"
  proof (rule own_invI [OF _ _ rel(1)])
    show "\<forall>t \<in># T. thread_ok SHA512 (set (t_pend ?t) \<union> ?pend) master idx' t"
      by (rule others_sub [OF D(12) R(5), where c = "\<lambda>_. 0"]) (use R(3) in simp_all)
    have "dom (file_to_master idx') \<subseteq> dom (file_to_master idx)" by (auto simp: F split: if_splits)
    then have "card (dom (file_to_master idx')) \<le> card (dom (file_to_master idx))"
      using tables_ok_finite [OF D(1)] by (rule card_mono [rotated])
    then show "card (dom (file_to_master idx')) + length (t_pins ?t) + size (pool t_pins T) < 2 ^ 32" using D(13) by simp
  qed (use R(2-4) r' D sub_infos_data_ok [OF R(5)] data_in_sub [OF R(5)] in simp_all)
  moreover have "fs_block master idx' f b = (if f = path \<and> s \<le> b \<and> b < e then None else fs_block master idx f b)" for f b
  proof (cases "f = path \<and> s \<le> b \<and> b < e")
    case True
    then show ?thesis using F by (simp add: fs_block_def lookup_by_file_block_def set_block_range)
  next
    case False
    then have "file_to_master idx' (bkey f b) = file_to_master idx (bkey f b)" using F by (auto simp: set_block_range)
    moreover have "slot_of idx' p = slot_of idx p" if "file_to_master idx (bkey f b) = Some p" for p
      using calculation S that by simp
    ultimately have "fs_block master idx' f b = fs_block master idx f b" by (rule fs_block_cong)
    then show ?thesis using False by auto
  qed
  ultimately show ?thesis using run Z by (intro exI [of _ ?t] exI [of _ idx']) (simp add: conc_inv_add fun_eq_iff)
qed

section \<open>Allocation\<close>

lemma planned_step_inv:
  assumes inv: "conc_inv SHA512 K (add_mset (Planned path buf start plan mc) T) (idx, master, nxt)"
  shows "\<exists>t idx'. thread_step out (Planned path buf start plan mc) (idx, master, nxt) = Some ([], Some t, (idx', master, nxt)) \<and>
    conc_inv SHA512 K (add_mset t T) (idx', master, nxt) \<and> fs_block master idx' = fs_block master idx \<and>
    file_to_sizes idx' = file_to_sizes idx"
proof -
  let ?old = "Planned path buf start plan mc"
  note own = inv [unfolded conc_inv_add, THEN conjunct1] and ok = inv [unfolded conc_inv_add, THEN conjunct2]
  note D = own_invD [OF own]
  show ?thesis
  proof (cases "mc = 0")
    case True
    then have m: "misses plan = []" using ok by simp
    let ?t = "Flushing path buf start plan (length plan)"
    have "\<not> is_miss (plan ! k)" if "k < length plan" for k using m nth_mem [OF that] misses_simps(4) [of plan] by auto
    then have "conc_inv SHA512 K (add_mset ?t T) (idx, master, nxt)"
      using own ok m by (simp add: conc_inv_add flushed_to_def)
    then show ?thesis using True by (simp add: thread_step.simps)
  next
    case False
    let ?fl = "free_block_list idx" and ?taken = "take mc (free_block_list idx)"
    let ?t = "Drained path buf start plan mc ?taken" and ?i = "idx\<lparr>free_block_list := drop mc (free_block_list idx)\<rparr>"
    obtain rel where rel: "mset rel = pool t_rel T" "slots_ok (set (t_pend ?old) \<union> set_mset (pool t_pend T))
        (set (t_resv ?old) \<union> set_mset (pool t_resv T)) (t_rel ?old @ rel) nxt idx" by (rule own_slotsE [OF own])
    note take = slots_ok_take [OF rel(2), of ?taken "drop mc ?fl"]
    have "own_inv SHA512 K T (t_pend ?t) (t_pins ?t) (t_resv ?t) (t_rel ?t) (?i, master, nxt)"
    proof (rule own_invI [OF _ _ rel(1)])
      show "\<forall>t \<in># T. thread_ok SHA512 (set (t_pend ?t) \<union> set_mset (pool t_pend T)) master ?i t"
        by (rule others_frame [OF D(12)]) simp_all
      show "slots_ok (set (t_pend ?t) \<union> set_mset (pool t_pend T)) (set (t_resv ?t) \<union> set_mset (pool t_resv T)) (t_rel ?t @ rel) nxt ?i"
        using take(1) by (simp add: Un_commute)
      show "distinct (t_resv ?t)" "set (t_resv ?t) \<inter> set_mset (pool t_resv T) = {}" using take(2,3) by simp_all
    qed (use D in simp_all)
    moreover have "thread_ok SHA512 (set (t_pend ?t) \<union> set_mset (pool t_pend T)) master ?i ?t"
      using thread_ok_frame [OF ok, of ?i "set (t_pend ?t) \<union> set_mset (pool t_pend T)" master] by auto
    ultimately have "conc_inv SHA512 K (add_mset ?t T) (?i, master, nxt)" by (simp only: conc_inv_add simp_thms)
    moreover have "fs_block master ?i = fs_block master idx" by (rule fs_block_keys) simp_all
    ultimately show ?thesis using False by (auto simp: thread_step.simps drain_free_list_eq Let_def)
  qed
qed

lemma fresh_slots:
  assumes "unat nxt + k < 2 ^ 64"
  shows "distinct (map (\<lambda>i. nxt + of_nat i :: u64) [0..<k])" "x \<in> set (map (\<lambda>i. nxt + of_nat i) [0..<k]) \<Longrightarrow> \<not> x < nxt"
proof -
  have ui: "unat (nxt + of_nat i) = unat nxt + i" if "i < k" for i
    using that assms by (intro unat_plus_of_nat) linarith
  have "inj_on (\<lambda>i. nxt + of_nat i) {0..<k}"
  proof (rule inj_onI)
    fix i j assume ij: "i \<in> {0..<k}" "j \<in> {0..<k}" "nxt + of_nat i = nxt + of_nat j"
    then have "unat (nxt + of_nat i) = unat (nxt + of_nat j)" by (simp only:)
    then show "i = j" using ij(1,2) ui by simp
  qed
  then show "distinct (map (\<lambda>i. nxt + of_nat i :: u64) [0..<k])" by (simp add: distinct_map)
  show "\<not> x < nxt" if "x \<in> set (map (\<lambda>i. nxt + of_nat i) [0..<k])"
    using that ui by (auto simp: word_less_nat_alt)
qed

lemma planned_strip:
  assumes sp: "map strip plan' = map strip plan" and ok: "planned SHA512 buf start pend idx plan"
  shows "planned SHA512 buf start pend idx plan'"
proof -
  note c = map_strip_cong [OF sp]
  have e: "entry_ok SHA512 buf start idx k (plan' ! k)" "\<not> is_miss (plan' ! k) \<longrightarrow> info (plan' ! k) \<notin> pend" if "k < length plan'" for k
  proof -
    have k: "k < length plan" using that c(4) by simp
    then have "entry_ok SHA512 buf start idx k (plan ! k)" using ok by (simp add: planned_def)
    then show "entry_ok SHA512 buf start idx k (plan' ! k)" unfolding entry_ok_def strip_eqD [OF c(8) [OF k]] .
    show "\<not> is_miss (plan' ! k) \<longrightarrow> info (plan' ! k) \<notin> pend"
      unfolding strip_eqD [OF c(8) [OF k]] using ok k by (simp add: planned_def)
  qed
  then have "\<forall>e \<in> set plan'. \<not> is_miss e \<longrightarrow> info e \<notin> pend" by (metis in_set_conv_nth)
  then show ?thesis using e(1) ok c(4) unfolding planned_def by metis
qed

text \<open>A pending object is pinned by its own thread only.\<close>

lemma thread_pins_cases:
  "thread_ok SHA512 pend master idx t \<Longrightarrow> p \<in> set (t_pins t) \<Longrightarrow> p \<in> set (t_pend t) \<or> p \<notin> pend"
  by (cases t) (auto simp: planned_def)

lemma pool_memD: "x \<in># pool f T \<Longrightarrow> \<exists>t. t \<in># T \<and> x \<in> set (f t)"
  by (induction T) auto

lemma own_pend_unpinned:
  assumes own: "own_inv SHA512 K T own_pend own_pins own_resv own_rel (idx, master, nxt)" and p: "p \<in> set own_pend"
  shows "count (pool t_pins T) p = 0"
proof (rule ccontr)
  assume "count (pool t_pins T) p \<noteq> 0"
  then obtain t where t: "t \<in># T" "p \<in> set (t_pins t)" using pool_memD [of p t_pins T] by auto
  have "thread_ok SHA512 (set own_pend \<union> set_mset (pool t_pend T)) master idx t" using own_others [OF own] t(1) by blast
  then have "p \<in> set (t_pend t)" using thread_pins_cases [OF _ t(2)] p by blast
  then have "p \<in># pool t_pend T" by (rule pool_mem [OF t(1)])
  then show False using own_pend(2) [OF own] p by blast
qed

lemma drained_step_inv:
  assumes inv: "conc_inv SHA512 K (add_mset (Drained path buf start plan mc taken) T) (idx, master, nxt)"
    and room: "unat nxt + mc \<le> MAX_BLOCKS"
  shows "\<exists>t idx' nxt'. thread_step out (Drained path buf start plan mc taken) (idx, master, nxt) = Some ([], Some t, (idx', master, nxt')) \<and>
    conc_inv SHA512 K (add_mset t T) (idx', master, nxt') \<and> fs_block master idx' = fs_block master idx \<and>
    file_to_sizes idx' = file_to_sizes idx"
proof -
  let ?old = "Drained path buf start plan mc taken"
  let ?pend = "set (t_pend ?old) \<union> set_mset (pool t_pend T)" and ?resv = "set_mset (pool t_resv T)"
  let ?pins = "\<lambda>p. count_list (t_pins ?old) p + count (pool t_pins T) p"
  note own = inv [unfolded conc_inv_add, THEN conjunct1] and ok = inv [unfolded conc_inv_add, THEN conjunct2]
  note D = own_invD [OF own]
  obtain rel where rel: "mset rel = pool t_rel T" "slots_ok ?pend (set (t_resv ?old) \<union> ?resv) (t_rel ?old @ rel) nxt idx"
    by (rule own_slotsE [OF own])
  let ?k = "mc - length taken"
  let ?new = "map (\<lambda>i. nxt + of_nat i :: u64) [0..<?k]" and ?nxt = "nxt + of_nat ?k :: u64"
  have k: "unat nxt + ?k < 2 ^ 64" using room by simp
  have nx: "unat ?nxt = unat nxt + ?k" by (rule unat_plus_of_nat [OF k])
  have old: "x < nxt" if "x \<in> set taken \<union> ?resv" for x
  proof -
    have "x \<in> {s. s < nxt}" using rel(2) that unfolding slots_ok_def by auto
    then show ?thesis by simp
  qed
  have app: "slots_ok ?pend (set (taken @ ?new) \<union> ?resv) rel ?nxt idx"
    using slots_ok_append [OF rel(2) k] by (simp add: Un_ac)
  have dist: "distinct (taken @ ?new)" "set (taken @ ?new) \<inter> ?resv = {}"
    using D(9,10) fresh_slots [OF k] old by fastforce+
  have mc: "mc = length (misses plan)" "length taken \<le> mc" and pl: "planned SHA512 buf start ?pend idx plan" using ok by simp_all
  have pre: "distinct (map info (misses plan))" "miss_infos plan \<subseteq> ?pend" "?pend \<subseteq> dom (minfos idx)"
    "length (taken @ ?new) = length (misses plan)"
    using D(6) tables_ok_pend [OF D(1)] mc by (simp_all add: miss_infos_def)
  obtain idx' plan' where as: "assign_blocks idx plan (taken @ ?new) = Some (idx', plan')" "map strip plan' = map strip plan"
    and ms: "map master_blk (misses plan') = taken @ ?new" "\<forall>e \<in> set (misses plan'). slot_of idx' (info e) = master_blk e"
    and keep: "\<forall>p. p \<notin> miss_infos plan \<longrightarrow> minfos idx' p = minfos idx p"
      "\<forall>p. map_option info_hash (minfos idx' p) = map_option info_hash (minfos idx p)"
      "idx'\<lparr>minfos := Map.empty\<rparr> = idx\<lparr>minfos := Map.empty\<rparr>"
    and ok': "tables_ok ?pend idx'" "counts_ok ?pins idx'" "slots_ok ?pend (set (taken @ ?new) \<union> ?resv) rel ?nxt idx'"
    using assign_blocks_spec [OF pre, of ?pins "set (taken @ ?new) \<union> ?resv" rel ?nxt] D(1,2) app by blast
  note sc = map_strip_cong [OF as(2)]
  let ?t = "Flushing path buf start plan' 0"
  have f: "file_to_master idx' = file_to_master idx" "file_to_sizes idx' = file_to_sizes idx"
    using keep(3) by (cases idx', cases idx, simp)+
  have pe: "set (t_pend ?t) \<union> set_mset (pool t_pend T) = ?pend" using arg_cong [OF sc(2), of set] by simp
  have out: "minfos idx' p = minfos idx p" if "p \<notin> ?pend" for p using keep(1) that pre(2) by blast
  have own': "own_inv SHA512 K T (t_pend ?t) (t_pins ?t) (t_resv ?t) (t_rel ?t) (idx', master, ?nxt)"
  proof (rule own_invI [OF _ _ rel(1)])
    show "tables_ok (set (t_pend ?t) \<union> set_mset (pool t_pend T)) idx'" unfolding pe by (rule ok')
    show "counts_ok (\<lambda>p. count_list (t_pins ?t) p + count (pool t_pins T) p) idx'" using ok'(2) sc(1) by simp
    show "slots_ok (set (t_pend ?t) \<union> set_mset (pool t_pend T)) (set (t_resv ?t) \<union> ?resv) (t_rel ?t @ rel) ?nxt idx'"
      unfolding pe using ok'(3) ms(1) by simp
    show "data_ok SHA512 master (set (t_pend ?t) \<union> set_mset (pool t_pend T)) idx'"
      unfolding pe by (rule data_cong(1) [OF out D(4)])
    show "data_in K master (set (t_pend ?t) \<union> set_mset (pool t_pend T)) idx'"
      unfolding pe by (rule data_cong(2) [OF out D(5)])
    show "\<forall>t \<in># T. thread_ok SHA512 (set (t_pend ?t) \<union> set_mset (pool t_pend T)) master idx' t"
      unfolding pe
    proof (rule others_frame [OF D(12)])
      fix p assume p: "0 < count (pool t_pins T) p"
      have "p \<notin> miss_infos plan" using own_pend_unpinned [OF own, of p] p by (auto simp: miss_infos_def)
      then show "map_option info_key (minfos idx' p) = map_option info_key (minfos idx p)" using keep(1) by simp
    qed simp_all
    show "distinct (t_pend ?t)" "set (t_pend ?t) \<inter> set_mset (pool t_pend T) = {}" using D(6,7) by (simp_all only: t_pend.simps sc(2))
    show "distinct (t_resv ?t)" "set (t_resv ?t) \<inter> ?resv = {}" using dist by (simp_all only: t_resv.simps ms(1))
    show "card (dom (file_to_master idx')) + length (t_pins ?t) + size (pool t_pins T) < 2 ^ 32" using D(13) f(1) sc(4) by simp
    show "unat ?nxt \<le> MAX_BLOCKS" using nx room D(14) by linarith
  qed (use D in simp_all)
  have "planned SHA512 buf start ?pend idx' plan"
  proof -
    have "(\<exists>mi. minfos idx' p = Some mi \<and> info_hash mi = h) = (\<exists>mi. minfos idx p = Some mi \<and> info_hash mi = h)" for p h
      using keep(2) [rule_format, of p] by (cases "minfos idx p"; cases "minfos idx' p") auto
    then have "entry_ok SHA512 buf start idx' q e = entry_ok SHA512 buf start idx q e" for q e by (simp only: entry_ok_def)
    then show ?thesis using pl by (simp add: planned_def)
  qed
  then have "thread_ok SHA512 (set (t_pend ?t) \<union> set_mset (pool t_pend T)) master idx' ?t"
    unfolding pe using planned_strip [OF as(2)] ms(2) by (simp add: flushed_to_def)
  with own' have "conc_inv SHA512 K (add_mset ?t T) (idx', master, ?nxt)" by (simp only: conc_inv_add simp_thms)
  moreover have "fs_block master idx' = fs_block master idx"
  proof (rule fs_block_keys [OF f(1)])
    fix q p assume "file_to_master idx q = Some p"
    then have "p \<notin> ?pend" using tables_ok_file [OF D(1)] by (auto simp: published_def)
    then show "map_option info_key (minfos idx' p) = map_option info_key (minfos idx p)" using out by simp
  qed
  ultimately show ?thesis using as(1) f(2) by (auto simp: thread_step.simps Let_def)
qed

section \<open>Flushing\<close>

text \<open>\<^verbatim>\<open>errno\<close> is positive after a failed call.\<close>

definition outcome_ok :: "io_outcome \<Rightarrow> bool" where
  "outcome_ok out \<longleftrightarrow> (\<forall>e. out = IoErr e \<longrightarrow> 0 < e)"

lemma flush_run_spec:
  assumes small: "\<forall>e \<in> set plan. is_miss e \<longrightarrow> unat (master_blk e) < MAX_BLOCKS"
    and pl: "planned SHA512 buf start pend idx plan" and dist: "distinct (map master_blk (misses plan))"
    and i: "i \<le> length plan" and lt: "skip_hits plan i < length plan" and fl: "flushed_to master buf plan i" and out: "outcome_ok out"
  shows "\<exists>master' r. flush_run out master buf plan (skip_hits plan i) = Some (master', r) \<and> untouched master plan 0 master' \<and>
    (case r of Inl rc \<Rightarrow> rc < 0 | Inr j \<Rightarrow> j \<le> length plan \<and> i < j \<and> flushed_to master' buf plan j)"
proof -
  let ?s = "skip_hits plan i" and ?j = "run_extend plan (Suc (skip_hits plan i))"
  let ?d = "take ((?j - ?s) * BLOCK_SIZE) (drop (payload (plan ! ?s)) buf)" and ?off = "master_blk (plan ! ?s) * BLOCK_SIZE64"
  note sk = skip_hits_spec [OF i]
  have s: "?s < length plan" "is_miss (plan ! ?s)" using sk lt by simp_all
  have pay: "\<forall>k < length plan. payload (plan ! k) = k * BLOCK_SIZE" and len: "length plan * BLOCK_SIZE \<le> length buf"
    using pl by (simp_all add: planned_def entry_ok_def)
  obtain master' w e where w: "pwrite out master ?d ?off = (master', w, e)" by (metis prod_cases3)
  note rw = run_write [OF small pay len s w]
  have ge: "i \<le> ?s" "Suc ?s \<le> ?j" "?j \<le> length plan"
    using skip_hits_ge run_extend_ge run_extend_spec [of "Suc ?s" plan] s by auto
  let ?r = "if w \<noteq> int ((?j - ?s) * BLOCK_SIZE) then Inl (if w < 0 then - e else - EIO) else Inr ?j"
  have run: "flush_run out master buf plan ?s = Some (master', ?r)"
    using rw(1) w by (simp add: flush_run_def Let_def)
  have neg: "(if w < 0 then - e else - EIO) < 0"
  proof -
    have "0 \<le> sint ?off" using small s by (intro sint_mult_BLOCK_SIZE_nonneg) simp
    then show ?thesis using pwrite_errno [OF w] out by (auto simp: outcome_ok_def EIO_def)
  qed
  have "flushed_to master' buf plan ?j" if full: "w = int ((?j - ?s) * BLOCK_SIZE)"
    unfolding flushed_to_def
  proof (intro allI impI)
    fix k assume k: "k < ?j" "k < length plan" "is_miss (plan ! k)"
    show "block_at master' (unat (master_blk (plan ! k))) = block_at buf k"
    proof (cases "?s \<le> k")
      case True
      then show ?thesis using rw(1,3) k full by simp
    next
      case False
      then have ki: "k < i" using sk k(3) by (meson linorder_not_le)
      then have b: "block_at master (unat (master_blk (plan ! k))) = block_at buf k" using fl k by (simp add: flushed_to_def)
      have "unat (master_blk (plan ! k)) \<noteq> unat (master_blk (plan ! l))" if "?s \<le> l" "l < length plan" "is_miss (plan ! l)" for l
        using distinct_misses_inj [OF dist k(2) that(2) k(3) that(3)] that(1) False by (auto simp: u64_eq_iff_unat)
      then show ?thesis using rw(2) b planned_full [OF pl k(2)] unfolding untouched_def by simp
    qed
  qed
  then show ?thesis using run neg ge untouched_mono [OF rw(2), of 0] by (intro exI [of _ master'] exI [of _ ?r]) simp
qed

text \<open>A change of the master file that stays inside the slots of one thread.\<close>

lemma untouched_other:
  assumes "untouched master plan 0 master'" "x \<notin> miss_slots plan" "length (block_at master (unat x)) = BLOCK_SIZE"
  shows "block_at master' (unat x) = block_at master (unat x)"
proof -
  have "unat x \<noteq> unat (master_blk (plan ! k))" if "k < length plan" "is_miss (plan ! k)" for k
    using assms(2) that by (auto simp: miss_slots_def u64_eq_iff_unat)
  then show ?thesis using assms(1,3) unfolding untouched_def by blast
qed

lemma own_inv_untouched:
  assumes own: "own_inv SHA512 K T own_pend own_pins own_resv own_rel (idx, master, nxt)"
    and u: "untouched master plan 0 master'" and m: "miss_slots plan = set own_resv"
  shows "own_inv SHA512 K T own_pend own_pins own_resv own_rel (idx, master', nxt)" "fs_block master' idx = fs_block master idx"
proof -
  let ?pend = "set own_pend \<union> set_mset (pool t_pend T)"
  note D = own_invD [OF own]
  obtain rel where rel: "mset rel = pool t_rel T" "slots_ok ?pend (set own_resv \<union> set_mset (pool t_resv T)) (own_rel @ rel) nxt idx"
    by (rule own_slotsE [OF own])
  have blk: "block_at master' (unat (slot_of idx p)) = block_at master (unat (slot_of idx p))" if p: "p \<in> published ?pend idx" for p
  proof (rule untouched_other [OF u])
    show "slot_of idx p \<notin> miss_slots plan" using rel(2) p unfolding m slots_ok_def by blast
    obtain mi where "minfos idx p = Some mi" "p \<notin> ?pend" using p by (auto simp: published_def)
    then show "length (block_at master (unat (slot_of idx p))) = BLOCK_SIZE" using D(4) by (simp add: data_ok_def)
  qed
  have b': "block_at master' (unat (masterBlockIndex mi)) = block_at master (unat (masterBlockIndex mi))"
    if "minfos idx p = Some mi" "p \<notin> ?pend" for p mi
    using blk [of p] that by (auto simp: published_def)
  show "own_inv SHA512 K T own_pend own_pins own_resv own_rel (idx, master', nxt)"
  proof (rule own_invI [OF D(1,2) rel])
    show "data_ok SHA512 master' ?pend idx" using D(4) b' unfolding data_ok_def by metis
    show "data_in K master' ?pend idx" using D(5) b' unfolding data_in_def by metis
    show "\<forall>t \<in># T. thread_ok SHA512 ?pend master' idx t"
    proof (rule others_frame [OF D(12)])
      fix x assume x: "x \<in># pool t_resv T" "length (block_at master (unat x)) = BLOCK_SIZE"
      then show "block_at master' (unat x) = block_at master (unat x)"
        using D(10) by (intro untouched_other [OF u]) (auto simp: m)
    qed simp_all
  qed (use D in simp_all)
  show "fs_block master' idx = fs_block master idx"
  proof (intro ext)
    fix g b show "fs_block master' idx g b = fs_block master idx g b"
      using blk tables_ok_file [OF D(1)]
      by (cases "file_to_master idx (bkey g b)") (simp_all add: fs_block_def lookup_by_file_block_def)
  qed
qed

lemma flush_step_inv:
  assumes inv: "conc_inv SHA512 K (add_mset (Flushing path buf start plan i) T) (idx, master, nxt)"
    and out: "outcome_ok out" and lt: "skip_hits plan i < length plan"
  shows "\<exists>t master'. thread_step out (Flushing path buf start plan i) (idx, master, nxt) = Some ([], Some t, (idx, master', nxt)) \<and>
    conc_inv SHA512 K (add_mset t T) (idx, master', nxt) \<and> fs_block master' idx = fs_block master idx"
proof -
  let ?old = "Flushing path buf start plan i"
  let ?pend = "set (t_pend ?old) \<union> set_mset (pool t_pend T)"
  note own = inv [unfolded conc_inv_add, THEN conjunct1] and ok = inv [unfolded conc_inv_add, THEN conjunct2]
  note D = own_invD [OF own]
  obtain rel where rel: "slots_ok ?pend (set (t_resv ?old) \<union> set_mset (pool t_resv T)) (t_rel ?old @ rel) nxt idx"
    by (rule own_slotsE [OF own])
  have pl: "planned SHA512 buf start ?pend idx plan" "i \<le> length plan" "flushed_to master buf plan i"
    and sl: "\<forall>e \<in> set (misses plan). slot_of idx (info e) = master_blk e" using ok by simp_all
  have small: "unat (master_blk e) < MAX_BLOCKS" if e: "e \<in> set plan" "is_miss e" for e
  proof -
    have "master_blk e \<in> set (t_resv ?old)" using e by simp
    then have "master_blk e \<in> {s. s < nxt}" using rel unfolding slots_ok_def by blast
    then show ?thesis using D(14) by (simp add: word_less_nat_alt)
  qed
  then have small': "\<forall>e \<in> set plan. is_miss e \<longrightarrow> unat (master_blk e) < MAX_BLOCKS" by blast
  obtain master' r where f: "flush_run out master buf plan (skip_hits plan i) = Some (master', r)" "untouched master plan 0 master'"
    and r: "case r of Inl rc \<Rightarrow> rc < 0 | Inr j \<Rightarrow> j \<le> length plan \<and> i < j \<and> flushed_to master' buf plan j"
    using flush_run_spec [OF small' pl(1) D(9) [unfolded t_resv.simps] pl(2) lt pl(3) out] by blast
  have ms: "miss_slots plan = set (t_resv ?old)" by (simp add: miss_slots_def)
  note u = own_inv_untouched [OF own f(2) ms]
  let ?t = "case r of Inr i' \<Rightarrow> Flushing path buf start plan i' | Inl rc \<Rightarrow> Failed rc plan"
  have "conc_inv SHA512 K (add_mset ?t T) (idx, master', nxt)"
  proof (cases r)
    case (Inl rc)
    then show ?thesis using u(1) r pl(1) by (simp add: conc_inv_add planned_def)
  next
    case (Inr j)
    then show ?thesis using u(1) r pl(1) sl by (simp add: conc_inv_add)
  qed
  moreover have "(case r of Inr i' \<Rightarrow> Flushing path buf start plan i'
      | Inl rc \<Rightarrow> if rc < 0 then Failed rc plan else Flushing path buf start plan (length plan)) = ?t"
    using r by (cases r) simp_all
  ultimately show ?thesis using f(1) u(2) lt by (intro exI [of _ ?t] exI [of _ master']) (simp add: thread_step.simps Let_def)
qed

section \<open>The rollback\<close>

lemma failed_step_inv:
  assumes inv: "conc_inv SHA512 K (add_mset (Failed rc plan) T) (idx, master, nxt)"
  shows "\<exists>slots idx'. thread_step out (Failed rc plan) (idx, master, nxt) = Some ([], Some (Rolled rc plan slots), (idx', master, nxt)) \<and>
    conc_inv SHA512 K (add_mset (Rolled rc plan slots) T) (idx', master, nxt) \<and> fs_block master idx' = fs_block master idx \<and>
    file_to_sizes idx' = file_to_sizes idx"
proof -
  let ?old = "Failed rc plan"
  let ?pend = "set (t_pend ?old) \<union> set_mset (pool t_pend T)" and ?pins0 = "count (pool t_pins T)"
  let ?resv = "set (t_resv ?old) \<union> set_mset (pool t_resv T)"
  note own = inv [unfolded conc_inv_add, THEN conjunct1] and ok = inv [unfolded conc_inv_add, THEN conjunct2]
  note D = own_invD [OF own]
  obtain rel where rel: "mset rel = pool t_rel T" "slots_ok ?pend ?resv (t_rel ?old @ rel) nxt idx" by (rule own_slotsE [OF own])
  have c: "counts_ok (\<lambda>p. pins_of plan p + ?pins0 p) idx" using D(2) by (simp add: pins_of_def)
  have h: "\<forall>e \<in> set plan. \<not> is_miss e \<longrightarrow> info e \<notin> ?pend" using ok by simp
  obtain idx' rel' where R: "rollback_hits idx plan (t_rel ?old @ rel) = Some (idx', rel')" "tables_ok ?pend idx'"
      "counts_ok (\<lambda>p. pins_of (misses plan) p + ?pins0 p) idx'" "slots_ok ?pend ?resv rel' nxt idx'" "sub_infos idx idx'"
      "file_to_master idx' = file_to_master idx" "file_to_sizes idx' = file_to_sizes idx"
    using framed_rollback_hits [OF D(1) c rel(2) h] by blast
  have "map_option (\<lambda>(i, r). (i, r @ rel)) (rollback_hits idx plan []) = Some (idx', rel')"
    using R(1) rollback_hits_append [of idx plan "[]" rel] by simp
  then obtain slots where run: "rollback_hits idx plan [] = Some (idx', slots)" and r': "rel' = slots @ rel" by (rule map_append_SomeE)
  let ?t = "Rolled rc plan slots"
  have "own_inv SHA512 K T (t_pend ?t) (t_pins ?t) (t_resv ?t) (t_rel ?t) (idx', master, nxt)"
  proof (rule own_invI [OF _ _ rel(1)])
    show "\<forall>t \<in># T. thread_ok SHA512 (set (t_pend ?t) \<union> set_mset (pool t_pend T)) master idx' t"
      by (rule others_sub [OF D(12) R(5,3)]) simp
    show "counts_ok (\<lambda>p. count_list (t_pins ?t) p + ?pins0 p) idx'" using R(3) by (simp add: pins_of_def)
    show "card (dom (file_to_master idx')) + length (t_pins ?t) + size (pool t_pins T) < 2 ^ 32"
      using D(13) R(6) length_misses [of plan] by simp
  qed (use R(2,4) r' D sub_infos_data_ok [OF R(5)] data_in_sub [OF R(5)] in simp_all)
  then have "conc_inv SHA512 K (add_mset ?t T) (idx', master, nxt)" using ok by (simp add: conc_inv_add)
  then show ?thesis using run R(7) fs_block_sub [OF R(2,5,6)] by (simp add: thread_step.simps)
qed

lemma give_back_inv:
  assumes own: "own_inv SHA512 K T own_pend own_pins own_resv own_rel (idx, master, nxt)"
  shows "own_inv SHA512 K T own_pend own_pins own_resv [] (give_back idx own_rel, master, nxt)"
    "fs_block master (give_back idx own_rel) = fs_block master idx" "file_to_sizes (give_back idx own_rel) = file_to_sizes idx"
proof -
  have g: "give_back idx own_rel = idx\<lparr>free_block_list := own_rel @ free_block_list idx\<rparr>" by (simp add: give_back_def)
  note D = own_invD [OF own]
  obtain rel where rel: "mset rel = pool t_rel T"
    "slots_ok (set own_pend \<union> set_mset (pool t_pend T)) (set own_resv \<union> set_mset (pool t_resv T)) (own_rel @ rel) nxt idx"
    by (rule own_slotsE [OF own])
  show "own_inv SHA512 K T own_pend own_pins own_resv [] (give_back idx own_rel, master, nxt)"
    unfolding g
  proof (rule own_invI [OF _ _ rel(1)])
    show "\<forall>t \<in># T. thread_ok SHA512 (set own_pend \<union> set_mset (pool t_pend T)) master (idx\<lparr>free_block_list := own_rel @ free_block_list idx\<rparr>) t"
      by (rule others_frame [OF D(12)]) simp_all
  qed (use D slots_ok_give [OF rel(2)] in simp_all)
  show "fs_block master (give_back idx own_rel) = fs_block master idx" unfolding g by (rule fs_block_keys) simp_all
qed (simp add: give_back_def)

lemma discarding_step_inv:
  assumes inv: "conc_inv SHA512 K (add_mset (Discarding rc plan) T) (idx, master, nxt)"
  shows "\<exists>idx'. thread_step out (Discarding rc plan) (idx, master, nxt) = Some ([Returned rc], None, (idx', master, nxt)) \<and>
    conc_inv SHA512 K T (idx', master, nxt) \<and> fs_block master idx' = fs_block master idx \<and> file_to_sizes idx' = file_to_sizes idx"
proof -
  let ?old = "Discarding rc plan"
  let ?pend0 = "set_mset (pool t_pend T)" and ?pins0 = "count (pool t_pins T)" and ?resv0 = "set_mset (pool t_resv T)"
  note own = inv [unfolded conc_inv_add, THEN conjunct1]
  note D = own_invD [OF own]
  obtain rel where rel: "mset rel = pool t_rel T" "slots_ok (set (t_pend ?old) \<union> ?pend0) (set (t_resv ?old) \<union> ?resv0) (t_rel ?old @ rel) nxt idx"
    by (rule own_slotsE [OF own])
  have e: "set (t_pend ?old) = miss_infos plan" "set (t_resv ?old) = miss_slots plan" by (simp_all add: miss_infos_def miss_slots_def)
  have s: "slots_ok (miss_infos plan \<union> ?pend0) (miss_slots plan \<union> ?resv0) rel nxt idx" using rel(2) e by simp
  have c: "counts_ok (\<lambda>p. pins_of (misses plan) p + ?pins0 p) idx" using D(2) by (simp add: pins_of_def)
  have un: "\<forall>p \<in> miss_infos plan. ?pins0 p = 0" using own_pend_unpinned [OF own] e(1) by blast
  obtain idx' where R: "rollback_misses idx plan = Some idx'" "tables_ok ?pend0 idx'" "counts_ok ?pins0 idx'"
      "slots_ok ?pend0 ?resv0 rel nxt idx'" "sub_infos idx idx'"
      "file_to_master idx' = file_to_master idx" "file_to_sizes idx' = file_to_sizes idx"
    using framed_rollback_misses [OF D(1) [unfolded e] c s D(6,9) [unfolded t_pend.simps t_resv.simps] D(7,10) [unfolded e] un] by blast
  have gone: "p \<notin> miss_infos plan" if dom: "p \<in> dom (minfos idx')" for p
  proof
    assume "p \<in> miss_infos plan"
    then have "p \<notin> published ?pend0 idx' \<or> refs idx' p + ?pins0 p = 0"
      using refs_unallocated [OF D(1), of p] refs_cong [OF R(6)] un e(1) by (auto simp: published_def)
    moreover have "p \<notin> ?pend0" using D(7) \<open>p \<in> miss_infos plan\<close> e(1) by blast
    ultimately have "refs idx' p + ?pins0 p = 0" using dom by (simp add: published_def)
    moreover obtain mi where "minfos idx' p = Some mi" using dom by blast
    ultimately have "unat (refcount mi) = 0" "refcount mi \<noteq> 0" using R(3) by (simp_all add: counts_ok_def)
    then show False by (simp add: unat_eq_zero)
  qed
  have "own_inv SHA512 K T [] [] [] [] (idx', master, nxt)"
  proof (rule own_invI [OF _ _ rel(1)])
    show "\<forall>t \<in># T. thread_ok SHA512 (set [] \<union> ?pend0) master idx' t"
      by (rule others_sub [OF D(12) R(5), where c = "\<lambda>_. 0"]) (use R(3) in simp_all)
    show "data_ok SHA512 master (set [] \<union> ?pend0) idx'" "data_in K master (set [] \<union> ?pend0) idx'"
      using data_smaller(1) [OF gone sub_infos_data_ok [OF R(5) D(4) [unfolded e]]]
        data_smaller(2) [OF gone data_in_sub [OF R(5) D(5) [unfolded e]]] by simp_all
  qed (use R D in simp_all)
  then show ?thesis using R(1,7) fs_block_sub [OF R(2,5,6)] by (simp add: thread_step.simps conc_inv_def)
qed

section \<open>The third pass\<close>

lemma commit_section_spec:
  assumes own: "own_inv SHA512 K T (map info (misses plan)) (map info plan) (map master_blk (misses plan)) [] (idx, master, nxt)"
    and pl: "planned SHA512 buf start (miss_infos plan \<union> set_mset (pool t_pend T)) idx plan"
    and sl: "\<forall>e \<in> set (misses plan). slot_of idx (info e) = master_blk e"
    and fl: "\<forall>k < length plan. is_miss (plan ! k) \<longrightarrow> block_at master (unat (master_blk (plan ! k))) = block_at buf k"
  defines "new_end \<equiv> (start + of_nat (length plan)) * BLOCK_SIZE64" and "K' \<equiv> K \<union> set (buf_blocks buf (length plan))"
  shows "\<exists>idx' slots. commit_section idx path plan new_end = Some (idx', slots) \<and>
    own_inv SHA512 K' T [] [] [] slots (idx', master, nxt) \<and>
    write_blocks SHA512 K path start buf (length plan) (fs_block master idx) (fs_block master idx') \<and>
    file_to_sizes idx' = (file_to_sizes idx)(path \<mapsto> (case file_to_sizes idx path of None \<Rightarrow> new_end | Some s \<Rightarrow> max s new_end))"
proof -
  let ?pend0 = "set_mset (pool t_pend T)" and ?pins0 = "count (pool t_pins T)" and ?resv0 = "set_mset (pool t_resv T)"
  note D = own_invD [OF own]
  obtain rel where rel: "mset rel = pool t_rel T"
    "slots_ok (set (map info (misses plan)) \<union> ?pend0) (set (map master_blk (misses plan)) \<union> ?resv0) ([] @ rel) nxt idx"
    by (rule own_slotsE [OF own])
  note e = miss_infos_def [of plan, symmetric] miss_slots_def [of plan, symmetric]
  have c: "counts_ok (\<lambda>p. pins_of plan p + ?pins0 p) idx" using D(2) by (simp add: pins_of_def)
  have s: "slots_ok (miss_infos plan \<union> ?pend0) (miss_slots plan \<union> ?resv0) rel nxt idx" using rel(2) unfolding e by simp
  have un: "\<forall>p \<in> miss_infos plan. ?pins0 p = 0" using own_pend_unpinned [OF own] unfolding e by blast
  have small: "length plan < 2 ^ 64" using pl by (simp add: planned_def)
  have log: "logical_blk (plan ! k) = start + of_nat k" "phash (plan ! k) = hash SHA512 (block_at buf k)" if "k < length plan" for k
    using pl that by (simp_all add: planned_def entry_ok_def)
  have en: "\<forall>e \<in> set plan. (\<exists>mi. minfos idx (info e) = Some mi \<and> info_hash mi = phash e \<and> (is_miss e \<longrightarrow> masterBlockIndex mi = master_blk e)) \<and>
       (if is_miss e then length (block_at master (unat (master_blk e))) = BLOCK_SIZE \<and>
          hash SHA512 (block_at master (unat (master_blk e))) = phash e
        else info e \<notin> miss_infos plan \<union> ?pend0)"
  proof
    fix x assume x: "x \<in> set plan"
    then obtain k where k: "k < length plan" "plan ! k = x" by (auto simp: in_set_conv_nth)
    then have "entry_ok SHA512 buf start idx k x" using pl by (auto simp: planned_def)
    then obtain mi where mi: "minfos idx (info x) = Some mi" "info_hash mi = phash x" by (auto simp: entry_ok_def)
    moreover have "masterBlockIndex mi = master_blk x" if "is_miss x" using sl that mi(1) x by auto
    moreover have "block_at master (unat (master_blk x)) = block_at buf k" if "is_miss x" using fl k that by auto
    ultimately show "(\<exists>mi. minfos idx (info x) = Some mi \<and> info_hash mi = phash x \<and> (is_miss x \<longrightarrow> masterBlockIndex mi = master_blk x)) \<and>
       (if is_miss x then length (block_at master (unat (master_blk x))) = BLOCK_SIZE \<and>
          hash SHA512 (block_at master (unat (master_blk x))) = phash x
        else info x \<notin> miss_infos plan \<union> ?pend0)"
      using planned_full [OF pl k(1)] log(2) [OF k(1)] k(2) pl x by (auto simp: planned_def)
  qed
  have b: "refs idx p + length plan + ?pins0 p < 2 ^ 32" for p using refs_room [OF own, of p] by simp
  obtain idx1 plan' rel1 where P: "publish_pass idx plan rel = Some (idx1, plan', rel1)" "tables_ok ?pend0 idx1"
      "counts_ok (\<lambda>p. pins_of plan' p + ?pins0 p) idx1" "slots_ok ?pend0 ?resv0 rel1 nxt idx1" "data_ok SHA512 master ?pend0 idx1"
      "sub_infos idx idx1" "file_to_master idx1 = file_to_master idx" "file_to_sizes idx1 = file_to_sizes idx"
      "map logical_blk plan' = map logical_blk plan" "map phash plan' = map phash plan"
    and live: "\<forall>e \<in> set plan'. info e \<notin> ?pend0 \<and> (\<exists>mi. minfos idx1 (info e) = Some mi \<and> info_hash mi = phash e)"
    using framed_publish [OF D(1) [unfolded e] c s D(4) [unfolded e] D(6,9) D(7,10) [unfolded e] un en b] by blast
  have ln: "length plan' = length plan" using P(9) by (rule map_eq_imp_length_eq)
  have log': "logical_blk (plan' ! k) = start + of_nat k" "phash (plan' ! k) = hash SHA512 (block_at buf k)" if "k < length plan'" for k
    using that log [of k] ln nth_map [of k plan' logical_blk] nth_map [of k plan logical_blk]
      nth_map [of k plan' phash] nth_map [of k plan phash] unfolding P(9,10) by simp_all
  have small': "length plan' < 2 ^ 64" using small ln by simp
  have dl: "distinct (map logical_blk plan')" by (rule distinct_logical [OF log'(1) small'])
  have np: "\<forall>e \<in> set plan'. info e \<notin> ?pend0" using live by blast
  obtain idx2 rel2 where M: "map_pass idx1 path plan' rel1 = Some (idx2, rel2)" "tables_ok ?pend0 idx2" "counts_ok ?pins0 idx2"
      "slots_ok ?pend0 ?resv0 rel2 nxt idx2" "sub_infos idx1 idx2" "file_to_master idx2 = file_to_master idx1 ++ plan_map path plan'"
      "file_to_sizes idx2 = file_to_sizes idx1"
    using map_pass_spec [OF P(2,3,4) dl np, of path] by blast
  obtain own1 where r1: "publish_pass idx plan [] = Some (idx1, plan', own1)" "rel1 = own1 @ rel"
    using P(1) publish_pass_append [of idx plan "[]" rel] by (cases "publish_pass idx plan []") auto
  have "map_option (\<lambda>(i, r). (i, r @ rel)) (map_pass idx1 path plan' own1) = Some (idx2, rel2)"
    using M(1) map_pass_append [of idx1 path plan' own1 rel] by (simp add: r1(2))
  then obtain slots where r2: "map_pass idx1 path plan' own1 = Some (idx2, slots)" "rel2 = slots @ rel" by (rule map_append_SomeE)
  let ?i = "update_size idx2 path new_end"
  have run: "commit_section idx path plan new_end = Some (?i, slots)" using r1(1) r2(1) by (simp add: commit_section_def)
  have sub: "sub_infos idx ?i" "sub_infos idx1 ?i"
    using sub_infos_trans [OF P(6) M(5)] M(5) by (simp_all add: sub_infos_def)
  have t': "tables_ok ?pend0 ?i" "counts_ok ?pins0 ?i" "data_ok SHA512 master ?pend0 ?i"
    using M(2,3) sub_infos_data_ok [OF sub(2) P(5)] by (simp_all add: tables_ok_def published_def counts_ok_def refs_def)
  have fm: "file_to_master ?i = file_to_master idx ++ plan_map path plan'" using M(6) P(7) by simp
  have din: "data_in K' master ?pend0 ?i"
    unfolding data_in_def
  proof (intro allI impI)
    fix p mi' assume p: "minfos ?i p = Some mi'" "p \<notin> ?pend0"
    then obtain mi where mi: "minfos idx p = Some mi" "masterBlockIndex mi' = masterBlockIndex mi" using sub(1) unfolding sub_infos_def by metis
    show "block_at master (unat (masterBlockIndex mi')) \<in> K'"
    proof (cases "p \<in> miss_infos plan")
      case True
      then obtain k where k: "k < length plan" "is_miss (plan ! k)" "info (plan ! k) = p"
        by (auto simp: miss_infos_def in_set_conv_nth)
      then have "masterBlockIndex mi = master_blk (plan ! k)" using sl mi(1) by (metis (mono_tags, lifting) mem_Collect_eq misses_simps(4) nth_mem slot_of_Some)
      then show ?thesis using fl k mi(2) by (auto simp: K'_def buf_blocks_def)
    next
      case False
      then show ?thesis using D(5) [unfolded e] mi p(2) by (simp add: data_in_def K'_def)
    qed
  qed
  have cd: "card (dom (file_to_master ?i)) \<le> card (dom (file_to_master idx)) + length plan"
  proof -
    have "dom (plan_map path plan') \<subseteq> (\<lambda>e. bkey path (logical_blk e)) ` set plan'"
      by (auto simp: plan_map_def dom_map_of_conv_image_fst)
    then have "card (dom (plan_map path plan')) \<le> card ((\<lambda>e. bkey path (logical_blk e)) ` set plan')"
      by (rule card_mono [rotated]) simp
    also have "\<dots> \<le> length plan'" using card_image_le [of "set plan'"] card_length [of plan'] le_trans by blast
    finally show ?thesis unfolding fm dom_map_add ln [symmetric] using card_Un_le [of "dom (plan_map path plan')" "dom (file_to_master idx)"] by linarith
  qed
  have own': "own_inv SHA512 K' T [] [] [] slots (?i, master, nxt)"
  proof (rule own_invI [OF _ _ rel(1)])
    show "\<forall>t \<in># T. thread_ok SHA512 (set [] \<union> ?pend0) master ?i t"
      by (rule others_sub [OF D(12) sub(1), where c = "\<lambda>_. 0"]) (use t'(2) in simp_all)
    show "slots_ok (set [] \<union> ?pend0) (set [] \<union> ?resv0) (slots @ rel) nxt ?i"
      using M(4) r2(2) slots_data_ok_frame(1) [of ?i idx2] by simp
    show "card (dom (file_to_master ?i)) + length ([] :: ptr list) + size (pool t_pins T) < 2 ^ 32" using cd D(13) by simp
  qed (use t' din D in simp_all)
  have slot: "slot_of ?i p = slot_of idx p" if "file_to_master ?i k = Some p" for k p
    using sub(1) file_mapped_allocated [OF t'(1) that] unfolding sub_infos_def by (metis slot_of_Some)
  have "write_blocks SHA512 K path start buf (length plan) (fs_block master idx) (fs_block master ?i)"
    unfolding write_blocks_def
  proof (intro conjI allI impI)
    fix k assume k: "k < length plan"
    let ?p = "info (plan' ! k)"
    have f: "file_to_master ?i (bkey path (start + of_nat k)) = Some ?p"
      unfolding fm using plan_map_nth [OF log'(1) small', of k path] k ln by (simp add: map_add_def)
    obtain mi' where mi': "minfos ?i ?p = Some mi'" "?p \<notin> ?pend0" by (rule file_mapped_allocated [OF t'(1) f])
    obtain mi where "minfos idx1 ?p = Some mi" "info_hash mi = phash (plan' ! k)" using live k ln by (metis nth_mem)
    then have "info_hash mi' = hash SHA512 (block_at buf k)" using sub(2) mi'(1) log'(2) [of k] k ln unfolding sub_infos_def by fastforce
    moreover have "length (block_at master (unat (masterBlockIndex mi'))) = BLOCK_SIZE"
      "hash SHA512 (block_at master (unat (masterBlockIndex mi'))) = info_hash mi'"
      using t'(3) mi' by (simp_all add: data_ok_def)
    moreover have "block_at master (unat (masterBlockIndex mi')) \<in> K \<union> block_at buf ` {..<length plan}"
      using din mi' unfolding data_in_def K'_def buf_blocks_def set_map set_upt atLeast0LessThan by blast
    ultimately show "\<exists>blk. fs_block master ?i path (start + of_nat k) = Some blk \<and> length blk = BLOCK_SIZE \<and>
        hash SHA512 blk = hash SHA512 (block_at buf k) \<and> blk \<in> K \<union> block_at buf ` {..<length plan}"
      using f mi'(1) by (simp add: fs_block_def lookup_by_file_block_def)
  next
    fix g b assume "g \<noteq> path \<or> (\<forall>k < length plan. b \<noteq> start + of_nat k)"
    then have f: "file_to_master ?i (bkey g b) = file_to_master idx (bkey g b)"
      unfolding fm using plan_map_other [OF log'(1), of g path b] ln by (simp add: map_add_def)
    show "fs_block master ?i g b = fs_block master idx g b"
      by (rule fs_block_cong [OF f]) (use slot f in auto)
  qed
  then show ?thesis using run own' M(7) P(8) by (auto simp: file_to_sizes_update_size)
qed

lemma commit_step_inv:
  assumes inv: "conc_inv SHA512 K (add_mset (Flushing path buf start plan i) T) (idx, master, nxt)"
    and ge: "\<not> skip_hits plan i < length plan"
  defines "blks \<equiv> buf_blocks buf (length plan)"
  shows "\<exists>slots rc idx'. thread_step out (Flushing path buf start plan i) (idx, master, nxt) =
      Some ([Commit path start blks], Some (Releasing rc slots), (idx', master, nxt)) \<and>
    conc_inv SHA512 (K \<union> set blks) (add_mset (Releasing rc slots) T) (idx', master, nxt) \<and>
    (no_collision SHA512 (K \<union> set blks) \<longrightarrow> view (idx', master, nxt) = spec_write path start blks (view (idx, master, nxt))) \<and>
    (sizes_ok idx \<longrightarrow> sizes_ok idx')"
proof -
  note own = inv [unfolded conc_inv_add, THEN conjunct1, unfolded t_pend.simps t_pins.simps t_resv.simps t_rel.simps]
  note ok = inv [unfolded conc_inv_add, THEN conjunct2, unfolded t_pend.simps miss_infos_def [symmetric]]
  have pl: "planned SHA512 buf start (miss_infos plan \<union> set_mset (pool t_pend T)) idx plan" "i \<le> length plan"
    and sl: "\<forall>e \<in> set (misses plan). slot_of idx (info e) = master_blk e" and fl: "flushed_to master buf plan i" using ok by simp_all
  have all: "\<forall>k < length plan. is_miss (plan ! k) \<longrightarrow> block_at master (unat (master_blk (plan ! k))) = block_at buf k"
  proof (intro allI impI)
    fix k assume k: "k < length plan" "is_miss (plan ! k)"
    have "k < i" using skip_hits_spec [OF pl(2)] ge k by (meson linorder_not_le order_less_le_trans)
    then show "block_at master (unat (master_blk (plan ! k))) = block_at buf k" using fl k by (simp add: flushed_to_def)
  qed
  let ?new_end = "(start + of_nat (length plan)) * BLOCK_SIZE64" and ?rc = "c_int (of_nat (length plan) * BLOCK_SIZE64)"
  obtain idx' slots where C: "commit_section idx path plan ?new_end = Some (idx', slots)"
    "own_inv SHA512 (K \<union> set blks) T [] [] [] slots (idx', master, nxt)"
    "write_blocks SHA512 K path start buf (length plan) (fs_block master idx) (fs_block master idx')"
    "file_to_sizes idx' = (file_to_sizes idx)(path \<mapsto> (case file_to_sizes idx path of None \<Rightarrow> ?new_end | Some s \<Rightarrow> max s ?new_end))"
    using commit_section_spec [OF own pl(1) sl all, of path] unfolding blks_def by blast
  have "unat start + length plan < 2 ^ 64" using pl(1) by (simp add: planned_def)
  then have "view (idx', master, nxt) = spec_write path start blks (view (idx, master, nxt))" if "no_collision SHA512 (K \<union> set blks)"
    using write_blocks_exact [OF C(3) _ that [unfolded blks_def]] C(4) by (simp add: spec_write_def Let_def blks_def cong: if_cong)
  moreover have "conc_inv SHA512 (K \<union> set blks) (add_mset (Releasing ?rc slots) T) (idx', master, nxt)"
    using C(2) by (simp add: conc_inv_add)
  moreover have "sizes_ok idx'" if "sizes_ok idx"
  proof (rule sizes_ok_write [OF that _ _ C(4)])
    show "unat start + length plan < MAX_BLOCKS" using pl(1) by (simp add: planned_def)
    then have b: "unat start + length plan < 2 ^ 64" by simp
    fix g b assume "file_to_master idx' (bkey g b) \<noteq> None"
    then show "file_to_master idx (bkey g b) \<noteq> None \<or> g = path \<and> in_range start (length plan) b"
      using write_blocks_mapped [OF C(3) b, of g b] by (simp add: fs_block_def lookup_by_file_block_def)
  qed
  ultimately show ?thesis using C(1) ge by (intro exI [of _ slots] exI [of _ ?rc] exI [of _ idx']) (simp add: thread_step.simps Let_def blks_def)
qed

end
