(* ===== verification/Interleaving_Runs.thy ===== *)
theory Interleaving_Runs
  imports Interleaving_Steps
begin

text \<open>
  One lemma for all sections of writes and removals, whatever else is running: a section touches only
  allocated memory, keeps the invariant of all running operations and changes the contents as its
  events say. Every operation ends after a bounded number of its own sections, and an operation that
  runs alone is the sequential function.
\<close>

section \<open>Model\<close>

fun thread_fits :: "thread \<Rightarrow> store \<Rightarrow> bool" where
  "thread_fits (Drained path buf start plan miss_count taken) (idx, master, nxt) \<longleftrightarrow> unat nxt + miss_count \<le> MAX_BLOCKS"
| "thread_fits _ st \<longleftrightarrow> True"

definition continue :: "thread option \<Rightarrow> thread multiset \<Rightarrow> thread multiset" where
  "continue t T = (case t of None \<Rightarrow> T | Some t' \<Rightarrow> add_mset t' T)"

fun apply_event :: "event \<Rightarrow> fs_view \<Rightarrow> fs_view" where
  "apply_event (Commit path start blks) v = spec_write path start blks v"
| "apply_event (Dropped path s e) v = spec_remove path s e v"
| "apply_event (Returned rc) v = v"

fun event_blocks :: "event \<Rightarrow> byte list set" where
  "event_blocks (Commit path start blks) = set blks"
| "event_blocks _ = {}"

definition committed :: "event list \<Rightarrow> byte list set" where
  "committed evs = (\<Union>e \<in> set evs. event_blocks e)"

lemma committed_simps [simp]: "committed [] = {}" "committed (e # evs) = event_blocks e \<union> committed evs"
  "committed (evs @ evs') = committed evs \<union> committed evs'"
  by (auto simp: committed_def)

section \<open>Every section\<close>

lemma sizes_ok_less:
  assumes "sizes_ok idx" "file_to_sizes idx' = file_to_sizes idx"
    and f: "\<And>g b. fs_block master' idx' g b \<noteq> None \<Longrightarrow> fs_block master idx g b \<noteq> None"
  shows "sizes_ok idx'"
proof -
  have "file_to_master idx k \<noteq> None" if "file_to_master idx' k \<noteq> None" for k
    using f [of "key_path k" "key_offset k"] that by (cases k) (simp add: fs_block_def lookup_by_file_block_def)
  then show ?thesis using assms(1,2) unfolding sizes_ok_def by (metis option.exhaust option.simps(3))
qed

text \<open>One lemma for all sections: they return, keep the invariant, and change the contents as their
  events say.\<close>

definition section_ok :: "(byte list \<Rightarrow> digest) \<Rightarrow> byte list set \<Rightarrow> store \<Rightarrow> event list \<Rightarrow> thread multiset \<Rightarrow> store \<Rightarrow> bool" where
  "section_ok SHA512 K st evs T st' \<longleftrightarrow>
     conc_inv SHA512 (K \<union> committed evs) T st' \<and>
     (no_collision SHA512 (K \<union> committed evs) \<longrightarrow> view st' = fold apply_event evs (view st)) \<and>
     (sizes_ok (fst st) \<longrightarrow> sizes_ok (fst st'))"

lemma quiet_section:
  assumes "conc_inv SHA512 K T (idx', master', nxt')" "fs_block master' idx' = fs_block master idx"
    "file_to_sizes idx' = file_to_sizes idx" "committed evs = {}" "fold apply_event evs = id"
  shows "section_ok SHA512 K (idx, master, nxt) evs T (idx', master', nxt')"
  using assms sizes_ok_less [of idx idx' master' master] by (simp add: section_ok_def)

lemma thread_step_ok:
  assumes inv: "conc_inv SHA512 K (add_mset t T) st" and out: "outcome_ok out" and fits: "thread_fits t st"
  shows "\<exists>evs t' st'. thread_step out t st = Some (evs, t', st') \<and> section_ok SHA512 K st evs (continue t' T) st'"
proof -
  obtain idx master nxt where st: "st = (idx, master, nxt)" by (cases st)
  note inv = inv [unfolded st]
  show ?thesis
  proof (cases t)
    case (Planned path buf start plan mc)
    then show ?thesis using planned_step_inv [OF inv [unfolded Planned], of out]
      by (fastforce simp: st continue_def intro!: quiet_section)
  next
    case (Drained path buf start plan mc taken)
    then show ?thesis using drained_step_inv [OF inv [unfolded Drained], of out] fits
      by (fastforce simp: st continue_def intro!: quiet_section)
  next
    case (Flushing path buf start plan i)
    show ?thesis
    proof (cases "skip_hits plan i < length plan")
      case True
      then show ?thesis using flush_step_inv [OF inv [unfolded Flushing] out True] Flushing
        by (fastforce simp: st continue_def intro!: quiet_section)
    next
      case False
      then show ?thesis using commit_step_inv [OF inv [unfolded Flushing] False, of out] Flushing
        by (fastforce simp: st continue_def section_ok_def)
    qed
  next
    case (Failed rc plan)
    then show ?thesis using failed_step_inv [OF inv [unfolded Failed], of out]
      by (fastforce simp: st continue_def intro!: quiet_section)
  next
    case (Rolled rc plan slots)
    have "own_inv SHA512 K T (t_pend t) (t_pins t) (t_resv t) slots (idx, master, nxt)" "rc < 0"
      using inv Rolled by (simp_all add: conc_inv_add)
    note g = give_back_inv [OF this(1)]
    then have "conc_inv SHA512 K (add_mset (Discarding rc plan) T) (give_back idx slots, master, nxt)"
      using \<open>rc < 0\<close> Rolled by (simp add: conc_inv_add)
    then show ?thesis using g(2,3) Rolled
      by (fastforce simp: st continue_def thread_step.simps intro!: quiet_section)
  next
    case (Discarding rc plan)
    then show ?thesis using discarding_step_inv [OF inv [unfolded Discarding], of out]
      by (fastforce simp: st continue_def intro!: quiet_section)
  next
    case (Releasing rc slots)
    then have "own_inv SHA512 K T [] [] [] slots (idx, master, nxt)" using inv by (simp add: conc_inv_add)
    note g = give_back_inv [OF this]
    then show ?thesis using Releasing
      by (fastforce simp: st continue_def thread_step.simps conc_inv_def intro!: quiet_section)
  qed
qed

lemma begin_write_ok:
  assumes "conc_inv SHA512 K T st" and "conc_request SHA512 T st buf sz off"
  shows "\<exists>t st'. begin_write SHA512 path buf sz off st = Some (t, st') \<and> section_ok SHA512 K st [] (add_mset t T) st'"
proof -
  obtain idx master nxt where st: "st = (idx, master, nxt)" by (cases st)
  show ?thesis using begin_write_inv [OF assms [unfolded st], of path]
    unfolding st by (fastforce intro!: quiet_section simp del: begin_write.simps)
qed

lemma begin_remove_ok:
  assumes "conc_inv SHA512 K T st"
  shows "\<exists>t st'. begin_remove path s e st = Some (t, st') \<and> section_ok SHA512 K st [Dropped path s e] (add_mset t T) st'"
proof -
  obtain idx master nxt where st: "st = (idx, master, nxt)" by (cases st)
  obtain t idx' where r: "begin_remove path s e (idx, master, nxt) = Some (t, (idx', master, nxt))"
    "conc_inv SHA512 K (add_mset t T) (idx', master, nxt)"
    "fs_block master idx' = (\<lambda>f b. if f = path \<and> s \<le> b \<and> b < e then None else fs_block master idx f b)"
    "file_to_sizes idx' = file_to_sizes idx"
    using begin_remove_inv [OF assms [unfolded st], of path s e] by blast
  have "sizes_ok idx'" if "sizes_ok idx"
    by (rule sizes_ok_less [OF that r(4), of master master]) (simp add: r(3) split: if_splits)
  then have "section_ok SHA512 K (idx, master, nxt) [Dropped path s e] (add_mset t T) (idx', master, nxt)"
    using r(2-4) by (simp add: section_ok_def spec_remove_def cong: if_cong)
  then show ?thesis unfolding st using r(1) by blast
qed

section \<open>The start of a run\<close>

fun conc_init :: "(byte list \<Rightarrow> digest) \<Rightarrow> store \<Rightarrow> bool" where
  "conc_init SHA512 (idx, master, nxt) \<longleftrightarrow> store_ok SHA512 (idx, master, nxt) \<and> card (dom (file_to_master idx)) < 2 ^ 32"

lemma conc_init_inv:
  assumes "conc_init SHA512 st"
  shows "conc_inv SHA512 (stored st) {#} st" "sizes_ok (fst st)"
proof -
  obtain idx master nxt where st: "st = (idx, master, nxt)" by (cases st)
  have ok: "store_ok SHA512 (idx, master, nxt)" "card (dom (file_to_master idx)) < 2 ^ 32" using assms by (simp_all add: st)
  have "data_in (stored_blocks master idx) master {} idx"
    unfolding data_in_def stored_blocks_def by (metis domI imageI slot_of_Some)
  then have "own_inv SHA512 (stored_blocks master idx) {#} [] [] [] [] (idx, master, nxt)"
    using ok by (intro own_invI [where rel = "[]"]) (simp_all add: index_inv_def)
  then show "conc_inv SHA512 (stored st) {#} st" "sizes_ok (fst st)" using ok by (simp_all add: st conc_inv_def)
qed

section \<open>Every operation ends\<close>

text \<open>The number of sections a thread still has to run, at most.\<close>

fun t_work :: "thread \<Rightarrow> nat" where
  "t_work (Planned path buf start plan miss_count) = length plan + 6"
| "t_work (Drained path buf start plan miss_count taken) = length plan + 5"
| "t_work (Flushing path buf start plan i) = (length plan - i) + 4"
| "t_work (Failed rc plan) = 3"
| "t_work (Rolled rc plan slots) = 2"
| "t_work (Discarding rc plan) = 1"
| "t_work (Releasing rc slots) = 1"

lemma assign_blocks_length: "assign_blocks idx plan blks = Some (idx', plan') \<Longrightarrow> length plan' = length plan"
  by (induction idx plan blks arbitrary: plan' rule: assign_blocks.induct) (auto split: if_splits list.splits option.splits prod.splits)

lemma flush_run_position: "flush_run out master buf plan s = Some (master', Inr j) \<Longrightarrow> s < j"
  using run_extend_ge [of "Suc s" plan] by (auto simp: flush_run_def Let_def split: if_splits prod.splits)

lemma thread_step_work:
  assumes "thread_step out t st = Some (evs, Some t', st')"
  shows "t_work t' < t_work t"
proof -
  obtain idx master nxt where st: "st = (idx, master, nxt)" by (cases st)
  show ?thesis
  proof (cases t)
    case (Flushing path buf start plan i)
    let ?s = "skip_hits plan i"
    have ge: "i \<le> ?s" by (rule skip_hits_ge)
    show ?thesis
    proof (cases "?s < length plan")
      case True
      then obtain master' r where f: "flush_run out master buf plan ?s = Some (master', r)"
        and t': "t' = (case r of Inr i' \<Rightarrow> Flushing path buf start plan i'
                 | Inl rc \<Rightarrow> if rc < 0 then Failed rc plan else Flushing path buf start plan (length plan))"
        using assms Flushing st by (auto simp: thread_step.simps Let_def)
      show ?thesis
      proof (cases r)
        case (Inr j)
        then have "?s < j" using flush_run_position f by simp
        then show ?thesis using t' Inr True ge Flushing by simp
      qed (use t' True ge Flushing in auto)
    qed (use assms Flushing st in \<open>auto simp: thread_step.simps Let_def\<close>)
  qed (use assms st assign_blocks_length in \<open>auto simp: thread_step.simps Let_def split: if_splits prod.splits dest: assign_blocks_length\<close>)
qed

section \<open>An operation that runs alone\<close>

definition at_pwrite :: "thread \<Rightarrow> bool" where
  "at_pwrite t = (case t of Flushing path buf start plan i \<Rightarrow> skip_hits plan i < length plan | _ \<Rightarrow> False)"

definition return_value :: "event list \<Rightarrow> int" where
  "return_value evs = (case evs of [Returned rc] \<Rightarrow> rc | _ \<Rightarrow> 0)"

text \<open>All sections of one thread in a row; each \<^verbatim>\<open>pwrite\<close> takes the next outcome.\<close>

fun finish :: "nat \<Rightarrow> io_outcome list \<Rightarrow> thread \<Rightarrow> store \<Rightarrow> (int \<times> store) option" where
  "finish 0 io t st = None"
| "finish (Suc fuel) io t st =
     (let (out, io') = (if at_pwrite t then next_io io else (IoOk, io))
      in case thread_step out t st of
           None \<Rightarrow> None
         | Some (evs, None, st') \<Rightarrow> Some (return_value evs, st')
         | Some (evs, Some t', st') \<Rightarrow> finish fuel io' t' st')"

lemma finish_rollback:
  assumes "3 \<le> fuel"
  shows "finish fuel io (Failed rc plan) (idx, master, nxt) =
    map_option (\<lambda>idx'. (rc, (idx', master, nxt))) (rollback_allocations idx plan)"
proof -
  obtain n where "fuel = Suc (Suc (Suc n))" using assms by (metis add_Suc_right add_0_right le_add_diff_inverse numeral_3_eq_3 plus_nat.simps(2))
  then show ?thesis
    by (auto simp: thread_step.simps at_pwrite_def rollback_allocations_def give_back_def return_value_def split: option.split)
qed

lemma finish_commit:
  assumes "2 \<le> fuel" and "\<not> skip_hits plan i < length plan"
  shows "finish fuel io (Flushing path buf start plan i) (idx, master, nxt) =
    map_option (\<lambda>idx'. (c_int (of_nat (length plan) * BLOCK_SIZE64), (idx', master, nxt)))
      (write_pass3 idx path plan ((start + of_nat (length plan)) * BLOCK_SIZE64))"
proof -
  obtain n where "fuel = Suc (Suc n)" using assms(1) by (metis Suc_le_D numeral_2_eq_2 Suc_le_mono)
  then show ?thesis using assms(2)
    by (auto simp: thread_step.simps at_pwrite_def commit_section_def write_pass3_def give_back_def return_value_def Let_def split: option.split)
qed

lemma skip_hits_length [simp]: "skip_hits plan (length plan) = length plan"
  by (simp add: skip_hits.simps)

lemma finish_flush:
  assumes "i \<le> length plan" and "t_work (Flushing path buf start plan i) \<le> fuel"
  shows "finish fuel io (Flushing path buf start plan i) (idx, master, nxt) =
    (case flush_plan master buf plan i io of
       None \<Rightarrow> None
     | Some (rc, master', io') \<Rightarrow>
         if rc < 0 then map_option (\<lambda>idx'. (rc, (idx', master', nxt))) (rollback_allocations idx plan)
         else map_option (\<lambda>idx'. (c_int (of_nat (length plan) * BLOCK_SIZE64), (idx', master', nxt)))
                (write_pass3 idx path plan ((start + of_nat (length plan)) * BLOCK_SIZE64)))"
  using assms
proof (induction "length plan - i" arbitrary: i master io fuel rule: less_induct)
  case less
  let ?s = "skip_hits plan i"
  show ?case
  proof (cases "?s < length plan")
    case False
    then have "flush_plan master buf plan i io = Some (0, master, io)"
      by (simp add: flush_plan.simps [of master buf plan i io])
    then show ?thesis using finish_commit [OF _ False] less.prems(2) by simp
  next
    case True
    let ?j = "run_extend plan (Suc ?s)"
    let ?bytes = "(?j - ?s) * BLOCK_SIZE"
    let ?d = "take ?bytes (drop (payload (plan ! ?s)) buf)" and ?off = "master_blk (plan ! ?s) * BLOCK_SIZE64"
    obtain n where n: "fuel = Suc n" "3 \<le> n" using less.prems(2) by (cases fuel) auto
    obtain out io1 where o: "next_io io = (out, io1)" by force
    obtain master1 w e where w: "pwrite out master ?d ?off = (master1, w, e)" by (metis prod_cases3)
    have ge: "i \<le> ?s" "Suc ?s \<le> ?j" "?j \<le> length plan"
      using skip_hits_ge run_extend_ge run_extend_spec [of "Suc ?s" plan] True by auto
    let ?rc = "if w < 0 then - e else - EIO"
    have fp: "flush_plan master buf plan i io =
        (if length ?d \<noteq> ?bytes then None else if w \<noteq> int ?bytes then Some (?rc, master1, io1) else flush_plan master1 buf plan ?j io1)"
      using True o w by (simp add: flush_plan.simps [of master buf plan i io] Let_def)
    have st: "thread_step out (Flushing path buf start plan i) (idx, master, nxt) =
        (if length ?d \<noteq> ?bytes then None else Some ([], Some (if w \<noteq> int ?bytes then (if ?rc < 0 then Failed ?rc plan
            else Flushing path buf start plan (length plan)) else Flushing path buf start plan ?j), (idx, master1, nxt)))"
      using True w by (simp add: thread_step.simps Let_def flush_run_def)
    have fin: "finish fuel io (Flushing path buf start plan i) (idx, master, nxt) =
        (if length ?d \<noteq> ?bytes then None else finish n io1 (if w \<noteq> int ?bytes then (if ?rc < 0 then Failed ?rc plan
            else Flushing path buf start plan (length plan)) else Flushing path buf start plan ?j) (idx, master1, nxt))"
      using True o st by (simp add: n(1) at_pwrite_def)
    have more: "t_work (Flushing path buf start plan ?j) \<le> n" using ge less.prems n(1) True by simp
    consider "length ?d \<noteq> ?bytes" | "\<not> length ?d \<noteq> ?bytes" "w \<noteq> int ?bytes" | "\<not> length ?d \<noteq> ?bytes" "\<not> w \<noteq> int ?bytes" by blast
    then show ?thesis
    proof cases
      case 1
      show ?thesis unfolding fin fp if_P [OF 1] by simp
    next
      case 2
      note unf = fin fp if_not_P [OF 2(1)] if_P [OF 2(2)] option.case prod.case
      show ?thesis
      proof (cases "?rc < 0")
        case True
        show ?thesis unfolding unf if_P [OF True] by (rule finish_rollback [OF n(2)])
      next
        case False
        show ?thesis unfolding unf if_not_P [OF False] by (rule finish_commit) (use n(2) in simp_all)
      qed
    next
      case 3
      show ?thesis unfolding fin fp if_not_P [OF 3(1)] if_not_P [OF 3(2)]
        by (rule less.hyps) (use ge True more in simp_all)
    qed
  qed
qed

lemma finish_planned:
  assumes "length plan + 6 \<le> fuel"
  shows "finish fuel io (Planned path buf start plan mc) (idx, master, nxt) =
    (case alloc_and_flush io buf (idx, master, nxt) plan mc of
       None \<Rightarrow> None
     | Some (rc, plan', (idx2, master', nxt')) \<Rightarrow>
         if rc < 0 then map_option (\<lambda>idx3. (rc, (idx3, master', nxt'))) (rollback_allocations idx2 plan')
         else map_option (\<lambda>idx3. (c_int (of_nat (length plan) * BLOCK_SIZE64), (idx3, master', nxt')))
                (write_pass3 idx2 path plan' ((start + of_nat (length plan)) * BLOCK_SIZE64)))"
proof (cases "mc = 0")
  case True
  obtain n where n: "fuel = Suc n" "2 \<le> n" using assms by (cases fuel) auto
  then show ?thesis using True finish_commit [OF n(2), of plan "length plan"]
    by (simp add: thread_step.simps at_pwrite_def alloc_and_flush_def)
next
  case False
  obtain n where n: "fuel = Suc (Suc n)" "length plan + 4 \<le> n" using assms by (cases fuel; cases "fuel - 1") auto
  let ?fl = "free_block_list idx"
  let ?i = "idx\<lparr>free_block_list := drop mc ?fl\<rparr>" and ?blks = "take mc ?fl @ map (\<lambda>i. nxt + of_nat i) [0..<mc - length ?fl]"
  have len: "mc - length (take mc ?fl) = mc - length ?fl" by simp
  show ?thesis
  proof (cases "assign_blocks ?i plan ?blks")
    case None
    then show ?thesis using False n(1) len
      by (simp add: thread_step.simps at_pwrite_def alloc_and_flush_def allocate_eq drain_free_list_eq Let_def)
  next
    case (Some r)
    obtain idx2 plan' where r: "r = (idx2, plan')" by force
    have lp: "length plan' = length plan" using assign_blocks_length Some r by blast
    have "t_work (Flushing path buf start plan' 0) \<le> n" using n(2) lp by simp
    from finish_flush [OF _ this] show ?thesis using False n(1) len Some r lp
      by (simp add: thread_step.simps at_pwrite_def alloc_and_flush_def allocate_eq drain_free_list_eq Let_def split: option.split)
  qed
qed

lemma plan_pass_length:
  "plan_pass SHA512 buf start is (idx, pending, plan, mc) = Some (idx', pending', plan', mc') \<Longrightarrow> length plan' = length plan + length is"
proof (induction "is" arbitrary: idx pending plan mc)
  case (Cons i "is")
  obtain idx1 pending1 plan1 mc1 where b: "plan_block SHA512 buf start i (idx, pending, plan, mc) = Some (idx1, pending1, plan1, mc1)"
    "plan_pass SHA512 buf start is (idx1, pending1, plan1, mc1) = Some (idx', pending', plan', mc')"
    using Cons.prems by (auto split: option.splits)
  have "length plan1 = Suc (length plan)"
    using b(1) by (auto simp: plan_block.simps Let_def split: if_splits option.splits prod.splits)
  then show ?case using Cons.IH [OF b(2)] by simp
qed simp

lemma write_dedup_sections:
  assumes "sz \<noteq> 0" "unat sz mod BLOCK_SIZE = 0" and fuel: "unat sz div BLOCK_SIZE + 6 \<le> fuel"
  shows "write_dedup SHA512 io st path buf sz off =
    (case begin_write SHA512 path buf sz off st of None \<Rightarrow> None | Some (t, st') \<Rightarrow> finish fuel io t st')"
proof -
  obtain idx master nxt where st: "st = (idx, master, nxt)" by (cases st)
  let ?n = "unat sz div BLOCK_SIZE" and ?start = "off_div_block off"
  have n: "?n \<noteq> 0"
  proof
    assume "?n = 0"
    then have "unat sz = 0" using assms(2) div_mult_mod_eq [of "unat sz" BLOCK_SIZE] by simp
    then show False using assms(1) by (simp add: unat_eq_zero)
  qed
  show ?thesis
  proof (cases "plan_pass SHA512 buf ?start [0..<?n] (idx, Map.empty, [], 0)")
    case None
    then show ?thesis using assms(1,2) n by (simp add: st write_dedup_def Let_def)
  next
    case (Some r)
    obtain idx1 pending plan mc where r: "r = (idx1, pending, plan, mc)" by (metis prod_cases4)
    have ln: "length plan = ?n" using plan_pass_length Some r by fastforce
    then have "length plan + 6 \<le> fuel" using fuel by simp
    from finish_planned [OF this, unfolded ln] show ?thesis using assms(1,2) n Some r
      by (simp add: st write_dedup_def Let_def)
  qed
qed

end
