(* ===== verification/Buffered_IO.thy ===== *)
theory Buffered_IO
  imports Metaindex
begin

text \<open>
  The buffered reader and writer of \<^verbatim>\<open>src/persistence.c\<close>. The record holds what the C struct holds;
  \<open>fd_file\<close> is the contents of the file behind \<^verbatim>\<open>fd\<close>. Copies into the buffer are bounds-checked, so
  \<open>None\<close> means that the C code writes past its allocation. Under calls that succeed the writer is an
  append-only stream and the reader a stream of the bytes of the file; the reader is so even when the
  kernel delivers the bytes in small pieces.
\<close>

section \<open>Model\<close>

text \<open>\<^verbatim>\<open>#define BUFFER_SIZE 10485760\<close>\<close>

definition BUFFER_SIZE :: nat where
  "BUFFER_SIZE = 10485760"

record BufferedIOCtx =
  fd_file :: "byte list"
  buffer :: "byte list"
  buffer_size :: nat
  buffer_pos :: nat
  buffer_end :: nat
  file_offset :: u64

text \<open>The allocation \<^verbatim>\<open>malloc(buffer_size)\<close> may fail; the fresh buffer is only read after it was
  written, so its contents do not matter and are taken as zeros.\<close>

definition buffered_io_init :: "bool \<Rightarrow> byte list \<Rightarrow> nat \<Rightarrow> BufferedIOCtx option" where
  "buffered_io_init malloc_ok f sz =
     (if malloc_ok then Some \<lparr>fd_file = f, buffer = replicate sz 0, buffer_size = sz, buffer_pos = 0, buffer_end = 0,
        file_offset = 0\<rparr> else None)"

definition flush_write_buffer :: "BufferedIOCtx \<Rightarrow> io_outcome list \<Rightarrow> BufferedIOCtx \<times> io_outcome list" where
  "flush_write_buffer ctx io =
     (if buffer_pos ctx = 0 then (ctx, io)
      else
        let (out, io') = next_io io;
            (f, written, errno) = pwrite out (fd_file ctx) (take (buffer_pos ctx) (buffer ctx)) (file_offset ctx);
            ctx' = ctx\<lparr>fd_file := f\<rparr>
        in if written = int (buffer_pos ctx) then
             (ctx'\<lparr>file_offset := file_offset ctx + of_nat (buffer_pos ctx), buffer_pos := 0\<rparr>, io')
           else if written > 0 then
             let w = nat written; remaining = buffer_pos ctx - w
             in (ctx'\<lparr>file_offset := file_offset ctx + of_nat w,
                      buffer := take remaining (drop w (buffer ctx)) @ drop remaining (buffer ctx),
                      buffer_pos := remaining\<rparr>, io')
           else (ctx', io'))"

definition refill_read_buffer :: "BufferedIOCtx \<Rightarrow> io_outcome list \<Rightarrow> bool \<times> BufferedIOCtx \<times> io_outcome list" where
  "refill_read_buffer ctx io =
     (let (out, io') = next_io io;
          (nread, d) = pread out (fd_file ctx) (buffer_size ctx) (file_offset ctx)
      in if nread \<le> 0 then (False, ctx, io')
         else (True, ctx\<lparr>buffer := d @ drop (length d) (buffer ctx), buffer_end := nat nread, buffer_pos := 0,
                         file_offset := file_offset ctx + of_nat (nat nread)\<rparr>, io'))"

text \<open>The loop of \<^verbatim>\<open>buffered_write\<close>. A buffer of size 0 would make it run forever, which is \<open>None\<close> too.\<close>

function buffered_write :: "BufferedIOCtx \<Rightarrow> byte list \<Rightarrow> io_outcome list \<Rightarrow> (BufferedIOCtx \<times> io_outcome list) option" where
  "buffered_write ctx src io =
     (if src = [] then Some (ctx, io)
      else
        let available = buffer_size ctx - buffer_pos ctx;
            (ctx1, io1) = (if available = 0 then flush_write_buffer ctx io else (ctx, io));
            available1 = (if available = 0 then buffer_size ctx else available);
            to_copy = (if length src < available1 then length src else available1)
        in if to_copy = 0 then None
           else
             (case memcpy_at (buffer ctx1) (buffer_pos ctx1) (take to_copy src) of
                None \<Rightarrow> None
              | Some b \<Rightarrow>
                  buffered_write (ctx1\<lparr>buffer := b, buffer_pos := buffer_pos ctx1 + to_copy\<rparr>) (drop to_copy src) io1))"
  by pat_completeness auto
termination
  by (relation "measure (\<lambda>(ctx, src, io). length src)") (auto split: if_splits)

text \<open>The loop of \<^verbatim>\<open>buffered_read\<close>: the bytes delivered, or \<open>None\<close> for \<^verbatim>\<open>FALSE\<close>.\<close>

function buffered_read ::
    "BufferedIOCtx \<Rightarrow> nat \<Rightarrow> io_outcome list \<Rightarrow> byte list option \<times> BufferedIOCtx \<times> io_outcome list" where
  "buffered_read ctx sz io =
     (if sz = 0 then (Some [], ctx, io)
      else
        let available = buffer_end ctx - buffer_pos ctx;
            (ok, ctx1, io1) = (if available = 0 then refill_read_buffer ctx io else (True, ctx, io));
            available1 = buffer_end ctx1 - buffer_pos ctx1;
            to_copy = (if sz < available1 then sz else available1)
        in if \<not> ok \<or> available1 = 0 then (None, ctx1, io1)
           else
             let piece = take to_copy (drop (buffer_pos ctx1) (buffer ctx1));
                 (rest, ctx', io') = buffered_read (ctx1\<lparr>buffer_pos := buffer_pos ctx1 + to_copy\<rparr>) (sz - to_copy) io1
             in (map_option (\<lambda>r. piece @ r) rest, ctx', io'))"
  by pat_completeness auto
termination
  by (relation "measure (\<lambda>(ctx, sz, io). sz)") (auto split: if_splits)

declare buffered_write.simps [simp del] buffered_read.simps [simp del]

section \<open>The writer as a stream\<close>

text \<open>What has been written so far: the file, then the filled part of the buffer.\<close>

definition out_stream :: "BufferedIOCtx \<Rightarrow> byte list" where
  "out_stream ctx = fd_file ctx @ take (buffer_pos ctx) (buffer ctx)"

definition writer_ok :: "BufferedIOCtx \<Rightarrow> bool" where
  "writer_ok ctx \<longleftrightarrow> length (fd_file ctx) = unat (file_offset ctx) \<and> length (buffer ctx) = buffer_size ctx \<and>
     buffer_pos ctx \<le> buffer_size ctx \<and> 0 < buffer_size ctx"

lemma overlay_append: "overlay f (length f) d = f @ d"
  by (simp add: overlay_def)

lemma flush_ok:
  assumes w: "writer_ok ctx" and b: "length (out_stream ctx) < 2 ^ 63"
  shows "\<exists>ctx'. flush_write_buffer ctx [] = (ctx', []) \<and> writer_ok ctx' \<and> out_stream ctx' = out_stream ctx \<and>
    fd_file ctx' = out_stream ctx \<and> buffer_pos ctx' = 0 \<and> buffer_size ctx' = buffer_size ctx"
proof (cases "buffer_pos ctx = 0")
  case True
  then show ?thesis using w by (simp add: flush_write_buffer_def out_stream_def)
next
  case False
  let ?d = "take (buffer_pos ctx) (buffer ctx)"
  have ld: "length ?d = buffer_pos ctx" using w by (simp add: writer_ok_def)
  have off: "unat (file_offset ctx) = length (fd_file ctx)" using w by (simp add: writer_ok_def)
  have sum: "unat (file_offset ctx) + buffer_pos ctx < 2 ^ 63" using b ld off by (simp add: out_stream_def)
  then have nn: "\<not> sint (file_offset ctx) < 0" using sint_nonneg_of_unat [of "file_offset ctx"] by simp
  have u: "unat (file_offset ctx + of_nat (buffer_pos ctx)) = unat (file_offset ctx) + buffer_pos ctx"
    using sum by (intro unat_plus_of_nat) simp
  have "pwrite IoOk (fd_file ctx) ?d (file_offset ctx) = (fd_file ctx @ ?d, int (buffer_pos ctx), 0)"
    using nn ld by (simp add: pwrite_def off overlay_append)
  then show ?thesis
    using False w u off ld by (simp add: flush_write_buffer_def writer_ok_def out_stream_def)
qed

lemma buffered_write_ok:
  assumes "writer_ok ctx" and "length (out_stream ctx) + length src < 2 ^ 63"
  shows "\<exists>ctx'. buffered_write ctx src [] = Some (ctx', []) \<and> writer_ok ctx' \<and>
    out_stream ctx' = out_stream ctx @ src \<and> buffer_size ctx' = buffer_size ctx"
  using assms
proof (induction "length src" arbitrary: ctx src rule: less_induct)
  case less
  show ?case
  proof (cases "src = []")
    case True
    then show ?thesis using less.prems by (simp add: buffered_write.simps)
  next
    case False
    let ?av = "buffer_size ctx - buffer_pos ctx"
    obtain ctx1 where c1: "(if ?av = 0 then flush_write_buffer ctx [] else (ctx, [])) = (ctx1, [])"
      and w1: "writer_ok ctx1" and s1: "out_stream ctx1 = out_stream ctx" and bs: "buffer_size ctx1 = buffer_size ctx"
      and p1: "buffer_size ctx - buffer_pos ctx1 = (if ?av = 0 then buffer_size ctx else ?av)"
      using flush_ok [OF less.prems(1)] less.prems by (cases "?av = 0") auto
    define av1 where "av1 = (if ?av = 0 then buffer_size ctx else ?av)"
    define n where "n = (if length src < av1 then length src else av1)"
    have "0 < av1" using less.prems(1) by (simp add: writer_ok_def av1_def)
    then have n: "0 < n" "n \<le> length src" "n \<le> av1" using False by (auto simp: n_def)
    have fit: "buffer_pos ctx1 + n \<le> buffer_size ctx1"
      using n(3) p1 [folded av1_def] w1 bs unfolding writer_ok_def by linarith
    let ?b = "take (buffer_pos ctx1) (buffer ctx1) @ take n src @ drop (buffer_pos ctx1 + n) (buffer ctx1)"
    have cp: "memcpy_at (buffer ctx1) (buffer_pos ctx1) (take n src) = Some ?b"
      using fit n(2) w1 by (simp add: memcpy_at_def writer_ok_def)
    let ?c2 = "ctx1\<lparr>buffer := ?b, buffer_pos := buffer_pos ctx1 + n\<rparr>"
    have nz: "(n = 0) = False" using n(1) by simp
    have step: "buffered_write ctx src [] = buffered_write ?c2 (drop n src) []"
      by (subst buffered_write.simps)
        (simp only: Let_def c1 prod.case cp option.case False if_False av1_def [symmetric] n_def [symmetric] nz)
    have w2: "writer_ok ?c2" using w1 fit n(2) by (simp add: writer_ok_def)
    have s2: "out_stream ?c2 = out_stream ctx @ take n src"
      using s1 w1 n(2) fit by (simp add: out_stream_def writer_ok_def)
    have "length (out_stream ?c2) + length (drop n src) < 2 ^ 63" unfolding s2 using less.prems(2) n(2) by simp
    then have "\<exists>ctx'. buffered_write ?c2 (drop n src) [] = Some (ctx', []) \<and> writer_ok ctx' \<and>
      out_stream ctx' = out_stream ?c2 @ drop n src \<and> buffer_size ctx' = buffer_size ?c2"
      using n(1,2) w2 by (intro less.hyps) simp_all
    then show ?thesis unfolding step s2 using bs by simp
  qed
qed

text \<open>A copy that fits the rest of the buffer makes no system call.\<close>

lemma buffered_write_fits:
  assumes w: "writer_ok ctx" and fit: "length src \<le> buffer_size ctx - buffer_pos ctx"
  shows "\<exists>ctx'. buffered_write ctx src io = Some (ctx', io) \<and> writer_ok ctx' \<and> out_stream ctx' = out_stream ctx @ src \<and>
    buffer_size ctx' = buffer_size ctx \<and> buffer_pos ctx' = buffer_pos ctx + length src \<and> fd_file ctx' = fd_file ctx \<and>
    file_offset ctx' = file_offset ctx"
proof (cases "src = []")
  case True
  then show ?thesis using w by (simp add: buffered_write.simps)
next
  case False
  let ?b = "take (buffer_pos ctx) (buffer ctx) @ src @ drop (buffer_pos ctx + length src) (buffer ctx)"
  have le: "buffer_pos ctx + length src \<le> buffer_size ctx" and pos: "0 < length src"
    using fit w False by (auto simp: writer_ok_def)
  have "buffer_pos ctx < buffer_size ctx" using le pos by linarith
  then have av: "(buffer_size ctx - buffer_pos ctx = 0) = False" "(length src = 0) = False" using pos by simp_all
  have n: "(if length src < buffer_size ctx - buffer_pos ctx then length src else buffer_size ctx - buffer_pos ctx) = length src"
    using fit by simp
  have cp: "memcpy_at (buffer ctx) (buffer_pos ctx) src = Some ?b"
    using le w by (simp add: memcpy_at_def writer_ok_def)
  have "buffered_write ctx src io = buffered_write (ctx\<lparr>buffer := ?b, buffer_pos := buffer_pos ctx + length src\<rparr>) [] io"
    by (subst buffered_write.simps)
      (simp only: Let_def False av if_False n prod.case take_all order_refl drop_all cp option.case)
  then show ?thesis using w le by (simp add: buffered_write.simps [of _ "[]"] writer_ok_def out_stream_def)
qed

text \<open>When the flush of a full buffer fails, \<^verbatim>\<open>buffer_pos\<close> stays at the end, yet the loop copies on as
  if the whole buffer were free: the copy leaves the allocation.\<close>

lemma buffered_write_overflow:
  assumes w: "writer_ok ctx" and full: "buffer_pos ctx = buffer_size ctx" and src: "src \<noteq> []"
    and off: "0 \<le> sint (file_offset ctx)"
  shows "buffered_write ctx src (IoErr e # io) = None"
proof -
  have pos: "0 < buffer_size ctx" "length (buffer ctx) = buffer_size ctx" using w by (simp_all add: writer_ok_def)
  have fl: "flush_write_buffer ctx (IoErr e # io) = (ctx, io)"
    using full off pos by (simp add: flush_write_buffer_def pwrite_def)
  define n where "n = (if length src < buffer_size ctx then length src else buffer_size ctx)"
  have n: "0 < n" "n \<le> length src" using pos src by (auto simp: n_def)
  have cp: "memcpy_at (buffer ctx) (buffer_size ctx) (take n src) = None" using pos n by (simp add: memcpy_at_def)
  have z: "(buffer_size ctx - buffer_size ctx = 0) = True" "(n = 0) = False" using n by simp_all
  show ?thesis
    by (subst buffered_write.simps)
      (simp only: Let_def src full z if_True if_False fl prod.case n_def [symmetric] cp option.case)
qed

section \<open>The reader as a stream\<close>

text \<open>What is left to read: the unread part of the buffer, then the rest of the file.\<close>

definition in_stream :: "BufferedIOCtx \<Rightarrow> byte list" where
  "in_stream ctx = drop (buffer_pos ctx) (take (buffer_end ctx) (buffer ctx)) @ drop (unat (file_offset ctx)) (fd_file ctx)"

definition reader_ok :: "BufferedIOCtx \<Rightarrow> bool" where
  "reader_ok ctx \<longleftrightarrow> length (buffer ctx) = buffer_size ctx \<and> 0 < buffer_size ctx \<and>
     buffer_pos ctx \<le> buffer_end ctx \<and> buffer_end ctx \<le> buffer_size ctx \<and>
     unat (file_offset ctx) \<le> length (fd_file ctx) \<and> length (fd_file ctx) < 2 ^ 63"

text \<open>Calls that deliver something whenever there is something to deliver.\<close>

definition io_delivers :: "io_outcome list \<Rightarrow> bool" where
  "io_delivers io \<longleftrightarrow> (\<forall>x \<in> set io. x = IoOk \<or> (\<exists>k > 0. x = IoShort k))"

lemma io_delivers_next:
  assumes "io_delivers io" "next_io io = (out, io')"
  shows "io_delivers io'" "out = IoOk \<or> (\<exists>k > 0. out = IoShort k)"
  using assms by (cases io; auto simp: io_delivers_def)+

lemma pread_delivers:
  assumes "out = IoOk \<or> (\<exists>k > 0. out = IoShort k)" and "unat off \<le> length f" "length f < 2 ^ 63" "0 < n"
  shows "\<exists>m. pread out f n off = (int (length (take m (drop (unat off) f))), take m (drop (unat off) f)) \<and> m \<le> n \<and> 0 < m"
proof -
  have "\<not> sint off < 0" using sint_nonneg_of_unat [of off] assms(2,3) by simp
  then show ?thesis
    using assms(1,4) by (auto simp: pread_def Let_def intro: exI [of _ n] exI [of _ "min _ n"])
qed

lemma refill_ok:
  assumes r: "reader_ok ctx" and e: "buffer_end ctx - buffer_pos ctx = 0" and io: "io_delivers io"
  shows "\<exists>ok ctx' io'. refill_read_buffer ctx io = (ok, ctx', io') \<and> reader_ok ctx' \<and> io_delivers io' \<and>
    in_stream ctx' = in_stream ctx \<and> (in_stream ctx = [] \<longrightarrow> \<not> ok) \<and>
    (in_stream ctx \<noteq> [] \<longrightarrow> ok \<and> 0 < buffer_end ctx' - buffer_pos ctx')"
proof -
  let ?off = "unat (file_offset ctx)"
  obtain out io' where n: "next_io io = (out, io')" by force
  note nx = io_delivers_next [OF io n]
  have ro: "?off \<le> length (fd_file ctx)" "length (fd_file ctx) < 2 ^ 63" "0 < buffer_size ctx"
      "length (buffer ctx) = buffer_size ctx" "buffer_end ctx \<le> buffer_size ctx" "buffer_end ctx = buffer_pos ctx"
    using r e by (simp_all add: reader_ok_def)
  obtain m where m: "pread out (fd_file ctx) (buffer_size ctx) (file_offset ctx) =
      (int (length (take m (drop ?off (fd_file ctx)))), take m (drop ?off (fd_file ctx)))" "m \<le> buffer_size ctx" "0 < m"
    using pread_delivers [OF nx(2) ro(1-3)] by blast
  define d where "d = take m (drop ?off (fd_file ctx))"
  have st: "in_stream ctx = drop ?off (fd_file ctx)" using ro by (simp add: in_stream_def)
  show ?thesis
  proof (cases "d = []")
    case True
    then have "in_stream ctx = []" using m(3) st by (simp add: d_def)
    moreover have "refill_read_buffer ctx io = (False, ctx, io')"
      using True m(1) [folded d_def] n by (simp add: refill_read_buffer_def)
    ultimately show ?thesis using nx(1) r by (intro exI [of _ False] exI [of _ ctx]) simp
  next
    case False
    let ?c = "ctx\<lparr>buffer := d @ drop (length d) (buffer ctx), buffer_end := length d, buffer_pos := 0,
        file_offset := file_offset ctx + of_nat (length d)\<rparr>"
    have le: "length d \<le> buffer_size ctx" "?off + length d \<le> length (fd_file ctx)" "0 < length d"
      using m(2) ro(1) False by (auto simp: d_def)
    have u: "unat (file_offset ctx + of_nat (length d)) = ?off + length d"
      using le(2) ro(2) by (intro unat_plus_of_nat) simp
    have rf: "refill_read_buffer ctx io = (True, ?c, io')"
      using m(1) [folded d_def] le(3) n by (simp add: refill_read_buffer_def)
    have "in_stream ?c = d @ drop (?off + length d) (fd_file ctx)" by (simp add: in_stream_def u)
    also have "\<dots> = drop ?off (fd_file ctx)"
    proof (cases "m \<le> length (fd_file ctx) - ?off")
      case True
      then have "length d = m" by (simp add: d_def)
      then have "d @ drop (?off + length d) (fd_file ctx) = take m (drop ?off (fd_file ctx)) @ drop m (drop ?off (fd_file ctx))"
        by (simp add: d_def add.commute)
      then show ?thesis by (simp only: append_take_drop_id)
    qed (simp add: d_def)
    finally have "in_stream ?c = in_stream ctx" using st by simp
    moreover have "reader_ok ?c"
      unfolding reader_ok_def using ro(2-4) le(1,2) u by (intro conjI) simp_all
    moreover have "in_stream ctx \<noteq> []" using False st by (auto simp: d_def)
    ultimately show ?thesis using rf nx(1) le(3) by (intro exI [of _ True] exI [of _ ?c]) simp
  qed
qed

lemma buffered_read_ok:
  assumes "reader_ok ctx" and "io_delivers io"
  shows "\<exists>res ctx' io'. buffered_read ctx sz io = (res, ctx', io') \<and> reader_ok ctx' \<and> io_delivers io' \<and>
    (if sz \<le> length (in_stream ctx) then res = Some (take sz (in_stream ctx)) \<and> in_stream ctx' = drop sz (in_stream ctx)
     else res = None)"
  using assms
proof (induction sz arbitrary: ctx io rule: less_induct)
  case (less sz)
  show ?case
  proof (cases "sz = 0")
    case True
    then show ?thesis using less.prems by (simp add: buffered_read.simps)
  next
    case False
    let ?e = "buffer_end ctx - buffer_pos ctx = 0"
    obtain ok ctx1 io1 where c1: "(if ?e then refill_read_buffer ctx io else (True, ctx, io)) = (ok, ctx1, io1)"
      and r1: "reader_ok ctx1" and d1: "io_delivers io1" and s1: "in_stream ctx1 = in_stream ctx"
      and fail: "in_stream ctx = [] \<longrightarrow> \<not> ok \<or> buffer_end ctx1 - buffer_pos ctx1 = 0"
      and go: "in_stream ctx \<noteq> [] \<longrightarrow> ok \<and> 0 < buffer_end ctx1 - buffer_pos ctx1"
    proof (cases ?e)
      case True
      then show ?thesis using refill_ok [OF less.prems(1) True less.prems(2)] that by auto
    next
      case False
      then show ?thesis using less.prems that [of True ctx io] by (auto simp: in_stream_def reader_ok_def)
    qed
    define av where "av = buffer_end ctx1 - buffer_pos ctx1"
    define n where "n = (if sz < av then sz else av)"
    show ?thesis
    proof (cases "in_stream ctx = []")
      case True
      then have "buffered_read ctx sz io = (None, ctx1, io1)"
        using fail False by (subst buffered_read.simps) (simp only: Let_def c1 prod.case if_False simp_thms if_True split: if_split)
      then show ?thesis using True False r1 d1 by simp
    next
      case ne: False
      then have ok: ok "0 < av" using go by (simp_all add: av_def)
      then have n: "0 < n" "n \<le> sz" "n \<le> av" using False by (auto simp: n_def)
      let ?piece = "take n (drop (buffer_pos ctx1) (buffer ctx1))"
      let ?c = "ctx1\<lparr>buffer_pos := buffer_pos ctx1 + n\<rparr>"
      have bnd: "buffer_pos ctx1 + n \<le> buffer_end ctx1" "buffer_end ctx1 \<le> length (buffer ctx1)"
        using n(3) ok(2) r1 by (simp_all add: av_def reader_ok_def)
      let ?live = "drop (buffer_pos ctx1) (take (buffer_end ctx1) (buffer ctx1))"
      have "take n ?live = ?piece" using bnd by (simp add: drop_take min_def)
      then have "?live = ?piece @ drop n ?live" by (metis append_take_drop_id)
      then have "?live = ?piece @ drop (buffer_pos ctx1 + n) (take (buffer_end ctx1) (buffer ctx1))"
        by (simp only: drop_drop add.commute)
      then have sp: "in_stream ctx = ?piece @ in_stream ?c" using s1 by (simp add: in_stream_def)
      have lp: "length ?piece = n" using bnd by simp
      have rc: "reader_ok ?c" using r1 bnd by (simp add: reader_ok_def)
      obtain res ctx' io' where IH: "buffered_read ?c (sz - n) io1 = (res, ctx', io')" "reader_ok ctx'" "io_delivers io'"
        "if sz - n \<le> length (in_stream ?c) then res = Some (take (sz - n) (in_stream ?c)) \<and> in_stream ctx' = drop (sz - n) (in_stream ?c)
         else res = None"
        using less.IH [of "sz - n" ?c io1] n(1,2) rc d1 by auto
      have no: "(\<not> ok \<or> av = 0) = False" using ok by simp
      have run: "buffered_read ctx sz io = (map_option (\<lambda>r. ?piece @ r) res, ctx', io')"
        by (subst buffered_read.simps)
          (simp only: Let_def c1 prod.case False if_False av_def [symmetric] n_def [symmetric] no IH(1))
      have "length (in_stream ctx) = n + length (in_stream ?c)" by (subst sp) (simp only: length_append lp)
      then have cond: "sz \<le> length (in_stream ctx) \<longleftrightarrow> sz - n \<le> length (in_stream ?c)" using n by linarith
      show ?thesis
      proof (cases "sz \<le> length (in_stream ctx)")
        case True
        then have "res = Some (take (sz - n) (in_stream ?c))" "in_stream ctx' = drop (sz - n) (in_stream ?c)"
          using IH(4) cond by simp_all
        moreover have "take sz (in_stream ctx) = ?piece @ take (sz - n) (in_stream ?c)"
          "drop sz (in_stream ctx) = drop (sz - n) (in_stream ?c)"
          using n(2) by (subst sp, simp only: take_append drop_append lp, simp add: lp)+
        ultimately show ?thesis using run IH(2,3) True by simp
      next
        case False
        then show ?thesis using run IH cond by simp
      qed
    qed
  qed
qed

end
