(* ===== verification/Codecs.thy ===== *)
theory Codecs
  imports Buffered_IO
begin

text \<open>
  The encoders and decoders of \<^verbatim>\<open>src/metaindex.c\<close>: how the objects of the index are laid out as bytes.
  A decoder gets the bytes of an element and their number as an \<^verbatim>\<open>int\<close>; its result is \<open>None\<close> where the C
  code would read outside the element, \<open>Some None\<close> for \<^verbatim>\<open>NULL\<close> and \<open>Some (Some x)\<close> otherwise. The locale
  \<open>codec\<close> is what the save and load functions need of a pair; it is interpreted on all the pairs of the
  source.
\<close>

section \<open>Integers and strings as bytes\<close>

fun le_bytes :: "nat \<Rightarrow> nat \<Rightarrow> byte list" where
  "le_bytes 0 n = []"
| "le_bytes (Suc k) n = of_nat n # le_bytes k (n div 256)"

definition u64_bytes :: "u64 \<Rightarrow> byte list" where
  "u64_bytes x = le_bytes 8 (unat x)"

definition u64_of :: "byte list \<Rightarrow> u64" where
  "u64_of bs = of_nat (le_nat (take 8 bs))"

definition int_bytes :: "int \<Rightarrow> byte list" where
  "int_bytes n = le_bytes 4 (unat (word_of_int n :: u32))"

definition int_of :: "byte list \<Rightarrow> int" where
  "int_of bs = sint (of_nat (le_nat (take 4 bs)) :: u32)"

text \<open>A C string: the characters and the terminating zero. Reading one stops at the first zero; there
  has to be one.\<close>

definition c_byte :: "char \<Rightarrow> byte" where
  "c_byte c = of_nat (of_char c)"

definition c_bytes :: "string \<Rightarrow> byte list" where
  "c_bytes s = map c_byte s @ [0]"

definition c_string :: "byte list \<Rightarrow> string option" where
  "c_string bs = (if 0 \<in> set bs then Some (map (\<lambda>b. char_of (unat b)) (takeWhile (\<lambda>b. b \<noteq> 0) bs)) else None)"

lemma length_le_bytes [simp]: "length (le_bytes k n) = k"
  by (induction k arbitrary: n) simp_all

lemma le_nat_le_bytes: "le_nat (le_bytes k n) = n mod 256 ^ k"
proof (induction k arbitrary: n)
  case 0
  then show ?case by simp
next
  case (Suc k)
  have "le_nat (le_bytes (Suc k) n) = n mod 256 + 256 * (n div 256 mod 256 ^ k)"
    by (simp add: Suc unat_of_nat)
  then show ?case by (simp add: mod_mult2_eq)
qed

lemma u64_roundtrip: "u64_of (u64_bytes x @ rest) = x"
proof -
  have "unat x mod 256 ^ 8 = unat x" using unat_less_2_64 [of x] by simp
  then show ?thesis by (simp add: u64_of_def u64_bytes_def le_nat_le_bytes)
qed

lemma int_roundtrip:
  assumes "- (2 ^ 31) \<le> n" "n < 2 ^ 31"
  shows "int_of (int_bytes n @ rest) = n"
proof -
  have "unat (word_of_int n :: u32) mod 256 ^ 4 = unat (word_of_int n :: u32)"
    using unsigned_less [of "word_of_int n :: u32", where 'a = nat] by simp
  then have "int_of (int_bytes n @ rest) = sint (word_of_int n :: u32)"
    by (simp add: int_of_def int_bytes_def le_nat_le_bytes)
  also have "\<dots> = n" using assms by (simp add: signed_of_int signed_take_bit_int_eq_self)
  finally show ?thesis .
qed

lemma length_u64_bytes [simp]: "length (u64_bytes x) = 8" by (simp add: u64_bytes_def)
lemma length_int_bytes [simp]: "length (int_bytes n) = 4" by (simp add: int_bytes_def)
lemma length_c_bytes [simp]: "length (c_bytes s) = Suc (length s)" by (simp add: c_bytes_def)

definition no_nul :: "string \<Rightarrow> bool" where
  "no_nul s \<longleftrightarrow> char_of (0 :: nat) \<notin> set s"

lemma unat_c_byte: "unat (c_byte c) = of_char c"
proof -
  have "(of_char c :: nat) < 256" by simp
  then show ?thesis by (simp add: c_byte_def unat_of_nat)
qed

lemma char_of_c_byte: "char_of (unat (c_byte c)) = c"
  by (simp add: unat_c_byte)

lemma c_byte_0: "c_byte c = 0 \<longleftrightarrow> c = char_of (0 :: nat)"
proof
  assume "c_byte c = 0"
  then have "char_of (unat (c_byte c)) = char_of (0 :: nat)" by simp
  then show "c = char_of (0 :: nat)" by (simp only: char_of_c_byte)
qed (simp add: c_byte_def)

lemma c_string_roundtrip:
  assumes "no_nul s"
  shows "c_string (c_bytes s) = Some s"
proof -
  have "\<forall>b \<in> set (map c_byte s). b \<noteq> 0"
    using assms by (auto simp: no_nul_def c_byte_0)
  then have "takeWhile (\<lambda>b. b \<noteq> 0) (c_bytes s) = map c_byte s"
    unfolding c_bytes_def by (subst takeWhile_append2) auto
  then show ?thesis by (simp add: c_string_def c_bytes_def char_of_c_byte comp_def)
qed

section \<open>Model\<close>

type_synonym 'a decoder = "byte list \<Rightarrow> int \<Rightarrow> 'a option option"

text \<open>\<^verbatim>\<open>memcpy(dst, data + off, n)\<close> out of an element.\<close>

definition bytes_at :: "byte list \<Rightarrow> nat \<Rightarrow> nat \<Rightarrow> byte list option" where
  "bytes_at data off n = (if off + n \<le> length data then Some (take n (drop off data)) else None)"

text \<open>\<^verbatim>\<open>MasterInfo\<close> is saved as it lies in memory: 64 bytes of hash, 8 of slot, 4 of counter and 4 of
  padding, whatever the padding holds.\<close>

definition SIZEOF_MasterInfo :: nat where
  "SIZEOF_MasterInfo = 80"

definition encode_master_info :: "u32 \<Rightarrow> MasterInfo \<Rightarrow> byte list" where
  "encode_master_info padding m =
     take HASH_SIZE (info_hash m) @ u64_bytes (masterBlockIndex m) @ le_bytes 4 (unat (refcount m)) @ le_bytes 4 (unat padding)"

definition decode_master_info :: "MasterInfo decoder" where
  "decode_master_info data sz =
     (if sz \<noteq> int SIZEOF_MasterInfo then Some None
      else case bytes_at data 0 SIZEOF_MasterInfo of
             None \<Rightarrow> None
           | Some m \<Rightarrow> Some (Some \<lparr>info_hash = take HASH_SIZE m, masterBlockIndex = u64_of (drop HASH_SIZE m),
                                   refcount = of_nat (le_nat (take 4 (drop (HASH_SIZE + 8) m)))\<rparr>))"

definition encode_hash :: "digest \<Rightarrow> byte list" where
  "encode_hash h = take HASH_SIZE h"

definition decode_hash :: "digest decoder" where
  "decode_hash data sz =
     (if sz \<noteq> int HASH_SIZE then Some None else map_option Some (bytes_at data 0 HASH_SIZE))"

definition encode_block_indice :: "BlockIndice \<Rightarrow> byte list" where
  "encode_block_indice b =
     (let path_len = length (key_path b) + 1
      in int_bytes (int path_len) @ c_bytes (key_path b) @ u64_bytes (key_offset b))"

definition decode_block_indice :: "BlockIndice decoder" where
  "decode_block_indice data sz =
     (case bytes_at data 0 4 of
        None \<Rightarrow> None
      | Some lb \<Rightarrow>
          (let path_len = int_of lb
           in if path_len < 0 then None
              else
                (case (bytes_at data 4 (nat path_len), bytes_at data (4 + nat path_len) 8) of
                   (Some pb, Some ob) \<Rightarrow>
                     (case c_string pb of
                        None \<Rightarrow> None
                      | Some path \<Rightarrow> Some (Some \<lparr>key_path = path, key_offset = u64_of ob\<rparr>))
                 | _ \<Rightarrow> None)))"

definition encode_free_block :: "u64 \<Rightarrow> byte list" where
  "encode_free_block x = u64_bytes x"

definition decode_free_block :: "u64 decoder" where
  "decode_free_block data sz =
     (if sz \<noteq> 8 then Some None else map_option (\<lambda>b. Some (u64_of b)) (bytes_at data 0 8))"

definition encode_size :: "u64 \<Rightarrow> byte list" where
  "encode_size x = u64_bytes x"

definition decode_size :: "u64 decoder" where
  "decode_size data sz = map_option (\<lambda>b. Some (u64_of b)) (bytes_at data 0 8)"

definition encode_str :: "string \<Rightarrow> byte list" where
  "encode_str s = c_bytes s"

definition decode_str :: "string decoder" where
  "decode_str data sz =
     (if sz < 0 then None
      else case bytes_at data 0 (nat sz) of
             None \<Rightarrow> None
           | Some b \<Rightarrow> map_option Some (c_string b))"

definition encode_size_elem :: "u64 \<Rightarrow> byte list" where
  "encode_size_elem x = u64_bytes x"

definition decode_size_elem :: "u64 decoder" where
  "decode_size_elem data sz =
     (if sz \<noteq> 8 then Some None else map_option (\<lambda>b. Some (u64_of b)) (bytes_at data 0 8))"

section \<open>What save and load need of a pair\<close>

locale codec =
  fixes valid :: "'a \<Rightarrow> bool" and enc :: "'a \<Rightarrow> byte list" and dec :: "'a decoder"
  assumes dec_enc: "valid x \<Longrightarrow> dec (enc x) (int (length (enc x))) = Some (Some x)"
    and enc_short: "valid x \<Longrightarrow> length (enc x) < 2 ^ 31"
begin

lemma enc_inj: "inj_on enc {x. valid x}"
proof (rule inj_onI)
  fix x y assume v: "x \<in> {x. valid x}" "y \<in> {x. valid x}" and e: "enc x = enc y"
  have "dec (enc x) (int (length (enc x))) = Some (Some y)" unfolding e using v(2) by (simp only: dec_enc mem_Collect_eq)
  then show "x = y" using dec_enc [of x] v(1) by simp
qed

end

definition valid_digest :: "digest \<Rightarrow> bool" where
  "valid_digest h \<longleftrightarrow> length h = HASH_SIZE"

definition valid_info :: "MasterInfo \<Rightarrow> bool" where
  "valid_info m \<longleftrightarrow> length (info_hash m) = HASH_SIZE"

text \<open>A path without a zero byte, short enough for an \<^verbatim>\<open>int\<close> length.\<close>

definition valid_path :: "path \<Rightarrow> bool" where
  "valid_path s \<longleftrightarrow> no_nul s \<and> length s + 13 < 2 ^ 31"

lemma bytes_at_all: "bytes_at bs 0 (length bs) = Some bs"
  by (simp add: bytes_at_def)

interpretation hash_codec: codec valid_digest encode_hash decode_hash
  by unfold_locales (auto simp: valid_digest_def encode_hash_def decode_hash_def bytes_at_def HASH_SIZE_def)

interpretation free_block_codec: codec "\<lambda>_. True" encode_free_block decode_free_block
  using u64_roundtrip [of _ "[]"]
  by unfold_locales (simp_all add: encode_free_block_def decode_free_block_def bytes_at_def)

interpretation size_codec: codec "\<lambda>_. True" encode_size decode_size
  using u64_roundtrip [of _ "[]"]
  by unfold_locales (simp_all add: encode_size_def decode_size_def bytes_at_def)

interpretation size_elem_codec: codec "\<lambda>_. True" encode_size_elem decode_size_elem
  using u64_roundtrip [of _ "[]"]
  by unfold_locales (simp_all add: encode_size_elem_def decode_size_elem_def bytes_at_def)

interpretation str_codec: codec valid_path encode_str decode_str
proof
  fix s assume v: "valid_path s"
  show "decode_str (encode_str s) (int (length (encode_str s))) = Some (Some s)"
    using v c_string_roundtrip [of s]
    by (simp add: decode_str_def encode_str_def valid_path_def bytes_at_all del: length_c_bytes of_nat_Suc)
  show "length (encode_str s) < 2 ^ 31" using v by (simp add: encode_str_def valid_path_def)
qed

interpretation master_info_codec: codec valid_info "encode_master_info padding" decode_master_info
  for padding
proof
  fix m assume "valid_info m"
  then have h: "length (info_hash m) = HASH_SIZE" by (simp add: valid_info_def)
  have len: "length (encode_master_info padding m) = SIZEOF_MasterInfo"
    using h by (simp add: encode_master_info_def SIZEOF_MasterInfo_def HASH_SIZE_def)
  have r: "of_nat (unat (refcount m) mod 4294967296) = refcount m"
    using unsigned_less [of "refcount m", where 'a = nat] by simp
  have "take HASH_SIZE (encode_master_info padding m) = info_hash m"
    "drop HASH_SIZE (encode_master_info padding m) = u64_bytes (masterBlockIndex m) @ le_bytes 4 (unat (refcount m)) @ le_bytes 4 (unat padding)"
    "take 4 (drop (HASH_SIZE + 8) (encode_master_info padding m)) = le_bytes 4 (unat (refcount m))"
    using h by (simp_all add: encode_master_info_def)
  then show "decode_master_info (encode_master_info padding m) (int (length (encode_master_info padding m))) = Some (Some m)"
    unfolding decode_master_info_def len [symmetric] bytes_at_all
    by (simp add: u64_roundtrip le_nat_le_bytes r MasterInfo.equality)
  show "length (encode_master_info padding m) < 2 ^ 31" by (simp add: len SIZEOF_MasterInfo_def)
qed

interpretation block_indice_codec: codec "\<lambda>b. valid_path (key_path b)" encode_block_indice decode_block_indice
proof
  fix b :: BlockIndice assume v: "valid_path (key_path b)"
  let ?p = "c_bytes (key_path b)" and ?n = "length (key_path b) + 1"
  have "int_of (int_bytes (int ?n) @ []) = int ?n"
    using v by (intro int_roundtrip) (simp_all add: valid_path_def)
  then have n: "int_of (int_bytes (int ?n)) = int ?n" by simp
  have e: "encode_block_indice b = int_bytes (int ?n) @ ?p @ u64_bytes (key_offset b)"
    by (simp add: encode_block_indice_def Let_def)
  have "bytes_at (encode_block_indice b) 0 4 = Some (int_bytes (int ?n))"
    "bytes_at (encode_block_indice b) 4 ?n = Some ?p"
    "bytes_at (encode_block_indice b) (4 + ?n) 8 = Some (u64_bytes (key_offset b))"
    by (simp_all add: e bytes_at_def)
  then show "decode_block_indice (encode_block_indice b) (int (length (encode_block_indice b))) = Some (Some b)"
    using v n c_string_roundtrip [of "key_path b"] u64_roundtrip [of "key_offset b" "[]"]
    by (simp add: decode_block_indice_def valid_path_def Let_def del: of_nat_Suc of_nat_add)
  show "length (encode_block_indice b) < 2 ^ 31" using v by (simp add: e valid_path_def)
qed

end
