(* ===== verification/Persistence.thy ===== *)
theory Persistence
  imports Codecs
begin

text \<open>
  Saving and loading tables and lists (\<^verbatim>\<open>src/persistence.c\<close>). A file is a 32-bit count followed by
  elements, each prefixed by its length in eight bytes. A hash table is saved in the order in which
  GLib enumerates it, which is the list argument of the save functions; it is loaded into a map. The
  flags say whether \<^verbatim>\<open>open\<close> and \<^verbatim>\<open>malloc\<close> succeed.
\<close>

section \<open>Model\<close>

definition write_elem_buffered ::
    "BufferedIOCtx \<Rightarrow> byte list \<Rightarrow> io_outcome list \<Rightarrow> (BufferedIOCtx \<times> io_outcome list) option" where
  "write_elem_buffered ctx b io =
     (case buffered_write ctx (u64_bytes (of_nat (length b))) io of
        None \<Rightarrow> None
      | Some (ctx1, io1) \<Rightarrow> buffered_write ctx1 b io1)"

definition read_elem_buffered ::
    "BufferedIOCtx \<Rightarrow> 'a decoder \<Rightarrow> io_outcome list \<Rightarrow> ('a option \<times> BufferedIOCtx \<times> io_outcome list) option" where
  "read_elem_buffered ctx dec io =
     (case buffered_read ctx 8 io of
        (None, ctx1, io1) \<Rightarrow> Some (None, ctx1, io1)
      | (Some sb, ctx1, io1) \<Rightarrow>
          (let sz = u64_of sb
           in case buffered_read ctx1 (unat sz) io1 of
                (None, ctx2, io2) \<Rightarrow> Some (None, ctx2, io2)
              | (Some buf, ctx2, io2) \<Rightarrow>
                  map_option (\<lambda>e. (e, ctx2, io2)) (dec buf (c_int sz))))"

text \<open>The unbuffered variants that the header exports: the file and the offset are updated in
  place.\<close>

definition write_elem :: "byte list \<Rightarrow> byte list \<Rightarrow> u64 \<Rightarrow> io_outcome list \<Rightarrow> byte list \<times> u64 \<times> io_outcome list" where
  "write_elem f b offset io =
     (let (o1, io1) = next_io io; (f1, w1, e1) = pwrite o1 f (u64_bytes (of_nat (length b))) offset
      in if w1 \<noteq> 8 then (f1, offset, io1)
         else let (o2, io2) = next_io io1; (f2, w2, e2) = pwrite o2 f1 b (offset + 8)
              in if w2 \<noteq> int (length b) then (f2, offset + 8, io2)
                 else (f2, offset + 8 + of_nat (length b), io2))"

definition read_elem :: "byte list \<Rightarrow> 'a decoder \<Rightarrow> u64 \<Rightarrow> io_outcome list \<Rightarrow> ('a option \<times> u64 \<times> io_outcome list) option" where
  "read_elem f dec offset io =
     (let (o1, io1) = next_io io; (r1, d1) = pread o1 f 8 offset
      in if r1 \<noteq> 8 then Some (None, offset, io1)
         else let sz = u64_of d1; (o2, io2) = next_io io1; (r2, d2) = pread o2 f (unat sz) (offset + 8)
              in if r2 \<noteq> int (unat sz) then Some (None, offset + 8, io2)
                 else map_option (\<lambda>e. (e, offset + 8 + sz, io2)) (dec d2 (c_int sz)))"

text \<open>The frame of every save function: open and truncate, allocate, write, flush, close.\<close>

definition write_file ::
    "bool \<Rightarrow> bool \<Rightarrow> byte list \<Rightarrow> io_outcome list \<Rightarrow>
     (BufferedIOCtx \<Rightarrow> io_outcome list \<Rightarrow> (BufferedIOCtx \<times> io_outcome list) option) \<Rightarrow> byte list option" where
  "write_file open_ok malloc_ok old io body =
     (if \<not> open_ok then Some old
      else case buffered_io_init malloc_ok [] BUFFER_SIZE of
             None \<Rightarrow> Some []
           | Some ctx \<Rightarrow>
               (case body ctx io of
                  None \<Rightarrow> None
                | Some (ctx', io') \<Rightarrow> Some (fd_file (fst (flush_write_buffer ctx' io')))))"

text \<open>The frame of every load function; \<open>nothing\<close> is what it returns when it cannot start.\<close>

definition read_file ::
    "bool \<Rightarrow> bool \<Rightarrow> byte list \<Rightarrow> io_outcome list \<Rightarrow> 'r \<Rightarrow>
     (int \<Rightarrow> BufferedIOCtx \<Rightarrow> io_outcome list \<Rightarrow> 'r option) \<Rightarrow> 'r option" where
  "read_file open_ok malloc_ok f io nothing body =
     (if \<not> open_ok then Some nothing
      else case buffered_io_init malloc_ok f BUFFER_SIZE of
             None \<Rightarrow> Some nothing
           | Some ctx \<Rightarrow>
               (case buffered_read ctx 4 io of
                  (None, ctx', io') \<Rightarrow> Some nothing
                | (Some nb, ctx', io') \<Rightarrow> body (int_of nb) ctx' io'))"

fun write_elems :: "byte list list \<Rightarrow> BufferedIOCtx \<Rightarrow> io_outcome list \<Rightarrow> (BufferedIOCtx \<times> io_outcome list) option" where
  "write_elems [] ctx io = Some (ctx, io)"
| "write_elems (b # bs) ctx io =
     (case write_elem_buffered ctx b io of None \<Rightarrow> None | Some (ctx', io') \<Rightarrow> write_elems bs ctx' io')"

definition write_count_elems ::
    "nat \<Rightarrow> byte list list \<Rightarrow> BufferedIOCtx \<Rightarrow> io_outcome list \<Rightarrow> (BufferedIOCtx \<times> io_outcome list) option" where
  "write_count_elems n bs ctx io =
     (case buffered_write ctx (int_bytes (int n)) io of None \<Rightarrow> None | Some (ctx', io') \<Rightarrow> write_elems bs ctx' io')"

text \<open>\<^verbatim>\<open>save_entry\<close>: the key, then the value.\<close>

definition save_entry :: "('k \<Rightarrow> byte list) \<Rightarrow> ('v \<Rightarrow> byte list) \<Rightarrow> 'k \<times> 'v \<Rightarrow> byte list list" where
  "save_entry encode_key encode_val e = [encode_key (fst e), encode_val (snd e)]"

definition ghash_save ::
    "bool \<Rightarrow> bool \<Rightarrow> byte list \<Rightarrow> io_outcome list \<Rightarrow> ('k \<times> 'v) list \<Rightarrow> ('k \<Rightarrow> byte list) \<Rightarrow> ('v \<Rightarrow> byte list) \<Rightarrow>
     byte list option" where
  "ghash_save open_ok malloc_ok old io entries encode_key encode_val =
     write_file open_ok malloc_ok old io
       (write_count_elems (length entries) (concat (map (save_entry encode_key encode_val) entries)))"

definition gslist_save ::
    "bool \<Rightarrow> bool \<Rightarrow> byte list \<Rightarrow> io_outcome list \<Rightarrow> 'a list \<Rightarrow> ('a \<Rightarrow> byte list) \<Rightarrow> byte list option" where
  "gslist_save open_ok malloc_ok old io elems encode_elem =
     write_file open_ok malloc_ok old io (write_count_elems (length elems) (map encode_elem elems))"

fun load_entries ::
    "nat \<Rightarrow> 'k decoder \<Rightarrow> 'v decoder \<Rightarrow> ('k \<rightharpoonup> 'v) \<Rightarrow> BufferedIOCtx \<Rightarrow> io_outcome list \<Rightarrow> ('k \<rightharpoonup> 'v) option" where
  "load_entries 0 dk dv ht ctx io = Some ht"
| "load_entries (Suc n) dk dv ht ctx io =
     (case read_elem_buffered ctx dk io of
        None \<Rightarrow> None
      | Some (key, ctx1, io1) \<Rightarrow>
          (case read_elem_buffered ctx1 dv io1 of
             None \<Rightarrow> None
           | Some (val, ctx2, io2) \<Rightarrow>
               (case (key, val) of
                  (Some k, Some v) \<Rightarrow> load_entries n dk dv (ht(k \<mapsto> v)) ctx2 io2
                | _ \<Rightarrow> Some ht)))"

definition ghash_load ::
    "bool \<Rightarrow> bool \<Rightarrow> byte list \<Rightarrow> io_outcome list \<Rightarrow> 'k decoder \<Rightarrow> 'v decoder \<Rightarrow> ('k \<rightharpoonup> 'v) option" where
  "ghash_load open_ok malloc_ok f io decode_key decode_val =
     read_file open_ok malloc_ok f io Map.empty
       (\<lambda>n ctx io'. load_entries (nat n) decode_key decode_val Map.empty ctx io')"

fun load_elems :: "nat \<Rightarrow> 'a decoder \<Rightarrow> 'a list \<Rightarrow> BufferedIOCtx \<Rightarrow> io_outcome list \<Rightarrow> 'a list option" where
  "load_elems 0 d xs ctx io = Some xs"
| "load_elems (Suc n) d xs ctx io =
     (case read_elem_buffered ctx d io of
        None \<Rightarrow> None
      | Some (None, ctx', io') \<Rightarrow> Some xs
      | Some (Some x, ctx', io') \<Rightarrow> load_elems n d (xs @ [x]) ctx' io')"

definition gslist_load :: "bool \<Rightarrow> bool \<Rightarrow> byte list \<Rightarrow> io_outcome list \<Rightarrow> 'a decoder \<Rightarrow> 'a list option" where
  "gslist_load open_ok malloc_ok f io decode_elem =
     read_file open_ok malloc_ok f io [] (\<lambda>n ctx io'. load_elems (nat n) decode_elem [] ctx io')"

text \<open>The values of two tables that share them: \<^verbatim>\<open>save_values_array\<close> and \<^verbatim>\<open>load_values_array\<close>.\<close>

definition save_values_array ::
    "bool \<Rightarrow> bool \<Rightarrow> byte list \<Rightarrow> io_outcome list \<Rightarrow> 'v list \<Rightarrow> ('v \<Rightarrow> byte list) \<Rightarrow> byte list option" where
  "save_values_array open_ok malloc_ok old io vals encode_value =
     write_file open_ok malloc_ok old io (write_count_elems (length vals) (map encode_value vals))"

definition load_values_array :: "bool \<Rightarrow> bool \<Rightarrow> byte list \<Rightarrow> io_outcome list \<Rightarrow> 'v decoder \<Rightarrow> 'v list option" where
  "load_values_array open_ok malloc_ok f io decode_value =
     read_file open_ok malloc_ok f io [] (\<lambda>n ctx io'. load_elems (nat n) decode_value [] ctx io')"

section \<open>Writing\<close>

definition elem_bytes :: "byte list \<Rightarrow> byte list" where
  "elem_bytes b = u64_bytes (of_nat (length b)) @ b"

lemma write_elem_ok:
  assumes "writer_ok ctx" and "length (out_stream ctx) + length (elem_bytes b) < 2 ^ 63"
  shows "\<exists>ctx'. write_elem_buffered ctx b [] = Some (ctx', []) \<and> writer_ok ctx' \<and> out_stream ctx' = out_stream ctx @ elem_bytes b"
proof -
  let ?h = "u64_bytes (of_nat (length b))"
  have l: "length (elem_bytes b) = 8 + length b" by (simp add: elem_bytes_def)
  obtain c1 where c1: "buffered_write ctx ?h [] = Some (c1, [])" "writer_ok c1" "out_stream c1 = out_stream ctx @ ?h"
    using buffered_write_ok [OF assms(1), of ?h] assms(2) l by auto
  obtain c2 where "buffered_write c1 b [] = Some (c2, [])" "writer_ok c2" "out_stream c2 = out_stream c1 @ b"
    using buffered_write_ok [OF c1(2), of b] assms(2) l c1(3) by auto
  then show ?thesis using c1 by (simp add: write_elem_buffered_def elem_bytes_def)
qed

lemma write_elems_ok:
  assumes "writer_ok ctx" and "length (out_stream ctx) + length (concat (map elem_bytes bs)) < 2 ^ 63"
  shows "\<exists>ctx'. write_elems bs ctx [] = Some (ctx', []) \<and> writer_ok ctx' \<and>
    out_stream ctx' = out_stream ctx @ concat (map elem_bytes bs)"
  using assms
proof (induction bs arbitrary: ctx)
  case Nil
  then show ?case by simp
next
  case (Cons b bs)
  obtain c1 where c1: "write_elem_buffered ctx b [] = Some (c1, [])" "writer_ok c1" "out_stream c1 = out_stream ctx @ elem_bytes b"
    using write_elem_ok [OF Cons.prems(1), of b] Cons.prems(2) by auto
  obtain c2 where "write_elems bs c1 [] = Some (c2, [])" "writer_ok c2" "out_stream c2 = out_stream c1 @ concat (map elem_bytes bs)"
    using Cons.IH [OF c1(2)] Cons.prems(2) c1(3) by auto
  then show ?case using c1 by simp
qed

text \<open>The bytes of a file with a count and its elements.\<close>

definition file_bytes :: "nat \<Rightarrow> byte list list \<Rightarrow> byte list" where
  "file_bytes n bs = int_bytes (int n) @ concat (map elem_bytes bs)"

lemma write_file_ok:
  assumes "length (file_bytes n bs) < 2 ^ 63"
  shows "write_file True True old [] (write_count_elems n bs) = Some (file_bytes n bs)"
proof -
  let ?c = "\<lparr>fd_file = [], buffer = replicate BUFFER_SIZE 0, buffer_size = BUFFER_SIZE, buffer_pos = 0, buffer_end = 0,
        file_offset = 0\<rparr> :: BufferedIOCtx"
  have w: "writer_ok ?c" and s: "out_stream ?c = []" by (simp_all add: writer_ok_def out_stream_def BUFFER_SIZE_def)
  have l: "length (file_bytes n bs) = 4 + length (concat (map elem_bytes bs))" by (simp add: file_bytes_def)
  obtain c1 where c1: "buffered_write ?c (int_bytes (int n)) [] = Some (c1, [])" "writer_ok c1" "out_stream c1 = int_bytes (int n)"
    using buffered_write_ok [OF w, of "int_bytes (int n)"] s by auto
  have "length (out_stream c1) + length (concat (map elem_bytes bs)) < 2 ^ 63"
    unfolding c1(3) using assms unfolding l by (simp only: length_int_bytes)
  then obtain c2 where c2: "write_elems bs c1 [] = Some (c2, [])" "writer_ok c2" "out_stream c2 = file_bytes n bs"
    using write_elems_ok [OF c1(2)] c1(3) by (auto simp: file_bytes_def)
  obtain c3 where "flush_write_buffer c2 [] = (c3, [])" "fd_file c3 = file_bytes n bs"
    using flush_ok [OF c2(2)] c2(3) assms by auto
  then show ?thesis
    using c1(1) c2(1) by (simp add: write_file_def buffered_io_init_def write_count_elems_def)
qed

text \<open>A file that fits the buffer is written by the single flush at the end, whose result nobody looks
  at: whatever the kernel takes of it is the file.\<close>

lemma write_elem_fits:
  assumes "writer_ok ctx" and "length (elem_bytes b) \<le> buffer_size ctx - buffer_pos ctx"
  shows "\<exists>ctx'. write_elem_buffered ctx b io = Some (ctx', io) \<and> writer_ok ctx' \<and> out_stream ctx' = out_stream ctx @ elem_bytes b \<and>
    buffer_size ctx' = buffer_size ctx \<and> buffer_pos ctx' = buffer_pos ctx + length (elem_bytes b) \<and>
    fd_file ctx' = fd_file ctx \<and> file_offset ctx' = file_offset ctx"
proof -
  let ?h = "u64_bytes (of_nat (length b))"
  have l: "length (elem_bytes b) = 8 + length b" by (simp add: elem_bytes_def)
  have "length ?h \<le> buffer_size ctx - buffer_pos ctx" using assms(2) l by simp
  from buffered_write_fits [OF assms(1) this, of io] obtain c1 where
    c1: "buffered_write ctx ?h io = Some (c1, io)" "writer_ok c1" "out_stream c1 = out_stream ctx @ ?h"
      "buffer_size c1 = buffer_size ctx" "buffer_pos c1 = buffer_pos ctx + 8" "fd_file c1 = fd_file ctx"
      "file_offset c1 = file_offset ctx" by auto
  have "length b \<le> buffer_size c1 - buffer_pos c1" using assms(2) l c1(4,5) by simp
  from buffered_write_fits [OF c1(2) this, of io] show ?thesis
    using c1 l by (auto simp: write_elem_buffered_def elem_bytes_def)
qed

lemma write_elems_fits:
  assumes "writer_ok ctx" and "length (concat (map elem_bytes bs)) \<le> buffer_size ctx - buffer_pos ctx"
  shows "\<exists>ctx'. write_elems bs ctx io = Some (ctx', io) \<and> writer_ok ctx' \<and>
    out_stream ctx' = out_stream ctx @ concat (map elem_bytes bs) \<and> fd_file ctx' = fd_file ctx \<and> file_offset ctx' = file_offset ctx"
  using assms
proof (induction bs arbitrary: ctx)
  case (Cons b bs)
  have "length (elem_bytes b) \<le> buffer_size ctx - buffer_pos ctx" using Cons.prems(2) by simp
  from write_elem_fits [OF Cons.prems(1) this, of io] obtain c1 where
    c1: "write_elem_buffered ctx b io = Some (c1, io)" "writer_ok c1" "out_stream c1 = out_stream ctx @ elem_bytes b"
      "buffer_size c1 = buffer_size ctx" "buffer_pos c1 = buffer_pos ctx + length (elem_bytes b)" "fd_file c1 = fd_file ctx"
      "file_offset c1 = file_offset ctx" by auto
  have "length (concat (map elem_bytes bs)) \<le> buffer_size c1 - buffer_pos c1" using Cons.prems(2) c1(4,5) by simp
  from Cons.IH [OF c1(2) this] show ?case using c1 by auto
qed simp

lemma write_file_one_flush:
  assumes "length (file_bytes n bs) \<le> BUFFER_SIZE"
  shows "write_file True True old (out # io) (write_count_elems n bs) =
    Some (case out of IoOk \<Rightarrow> file_bytes n bs | IoShort k \<Rightarrow> take k (file_bytes n bs) | IoErr e \<Rightarrow> [])"
proof -
  let ?c = "\<lparr>fd_file = [], buffer = replicate BUFFER_SIZE 0, buffer_size = BUFFER_SIZE, buffer_pos = 0, buffer_end = 0,
        file_offset = 0\<rparr> :: BufferedIOCtx"
  have w: "writer_ok ?c" and s: "out_stream ?c = []" by (simp_all add: writer_ok_def out_stream_def BUFFER_SIZE_def)
  have l: "length (file_bytes n bs) = 4 + length (concat (map elem_bytes bs))" by (simp add: file_bytes_def)
  have "length (int_bytes (int n)) \<le> buffer_size ?c - buffer_pos ?c" using assms l by simp
  from buffered_write_fits [OF w this, of "out # io"] obtain c1 where
    c1: "buffered_write ?c (int_bytes (int n)) (out # io) = Some (c1, out # io)" "writer_ok c1" "out_stream c1 = int_bytes (int n)"
      "buffer_size c1 = BUFFER_SIZE" "buffer_pos c1 = 4" "fd_file c1 = []" "file_offset c1 = 0" using s by auto
  have "length (concat (map elem_bytes bs)) \<le> buffer_size c1 - buffer_pos c1" using assms l c1(4,5) by simp
  from write_elems_fits [OF c1(2) this, of "out # io"] obtain c2 where
    c2: "write_elems bs c1 (out # io) = Some (c2, out # io)" "out_stream c2 = file_bytes n bs" "fd_file c2 = []" "file_offset c2 = 0"
    using c1(3,6,7) by (auto simp: file_bytes_def)
  have b: "take (buffer_pos c2) (buffer c2) = file_bytes n bs" using c2(2,3) by (simp add: out_stream_def)
  have "file_bytes n bs \<noteq> []" using l by auto
  then have p: "buffer_pos c2 \<noteq> 0" using b by (metis take_0)
  have ov: "overlay [] 0 d = d" for d :: "byte list" using overlay_append [of "[]" d] by simp
  have "fd_file (fst (flush_write_buffer c2 (out # io))) =
      (case out of IoOk \<Rightarrow> file_bytes n bs | IoShort k \<Rightarrow> take k (file_bytes n bs) | IoErr e \<Rightarrow> [])"
    using b p c2(3,4) by (cases out) (auto simp: flush_write_buffer_def pwrite_def ov Let_def)
  then show ?thesis
    using c1(1) c2(1) by (simp add: write_file_def buffered_io_init_def write_count_elems_def)
qed

section \<open>Reading\<close>

lemma map_of_rev_distinct:
  assumes "distinct (map fst es)"
  shows "map_of (rev es) = map_of es"
  using assms by (intro map_of_inject_set [THEN iffD2]) (simp_all flip: rev_map)

lemma read_elem_ok:
  assumes r: "reader_ok ctx" "io_delivers io" and st: "in_stream ctx = elem_bytes b @ rest"
    and b: "length b < 2 ^ 31" and d: "dec b (int (length b)) = Some (Some x)"
  shows "\<exists>ctx' io'. read_elem_buffered ctx dec io = Some (Some x, ctx', io') \<and> reader_ok ctx' \<and> io_delivers io' \<and>
    in_stream ctx' = rest"
proof -
  let ?h = "u64_bytes (of_nat (length b))"
  obtain res1 c1 io1 where c1: "buffered_read ctx 8 io = (res1, c1, io1)" "reader_ok c1" "io_delivers io1"
    "res1 = Some (take 8 (in_stream ctx))" "in_stream c1 = drop 8 (in_stream ctx)"
    using buffered_read_ok [OF r, of 8] st by (auto simp: elem_bytes_def)
  have h: "take 8 (in_stream ctx) = ?h" "drop 8 (in_stream ctx) = b @ rest"
    unfolding st elem_bytes_def by simp_all
  have sz: "u64_of ?h = of_nat (length b)" using u64_roundtrip [of "of_nat (length b)" "[]"] by simp
  have u: "unat (of_nat (length b) :: u64) = length b" using b by (intro unat_of_nat_u64) simp
  have ci: "c_int (of_nat (length b)) = int (length b)" using c_int_small [OF b] .
  obtain res2 c2 io2 where c2: "buffered_read c1 (length b) io1 = (res2, c2, io2)" "reader_ok c2" "io_delivers io2"
    "res2 = Some (take (length b) (in_stream c1))" "in_stream c2 = drop (length b) (in_stream c1)"
    using buffered_read_ok [OF c1(2,3), of "length b"] c1(5) h(2) by auto
  have "take (length b) (in_stream c1) = b" "drop (length b) (in_stream c1) = rest" using c1(5) h(2) by simp_all
  then show ?thesis
    using c1 c2 h(1) sz u ci d by (simp add: read_elem_buffered_def Let_def)
qed

lemma read_file_ok:
  assumes f: "f = int_bytes (int n) @ rest" "length f < 2 ^ 63" and n: "n < 2 ^ 31" and io: "io_delivers io"
  obtains ctx io' where "read_file True True f io nothing body = body (int n) ctx io'" "reader_ok ctx" "io_delivers io'"
    "in_stream ctx = rest"
proof -
  let ?c = "\<lparr>fd_file = f, buffer = replicate BUFFER_SIZE 0, buffer_size = BUFFER_SIZE, buffer_pos = 0, buffer_end = 0,
        file_offset = 0\<rparr> :: BufferedIOCtx"
  have r: "reader_ok ?c" and s: "in_stream ?c = f" using f(2) by (simp_all add: reader_ok_def in_stream_def BUFFER_SIZE_def)
  obtain res c1 io1 where c1: "buffered_read ?c 4 io = (res, c1, io1)" "reader_ok c1" "io_delivers io1"
    "res = Some (take 4 f)" "in_stream c1 = drop 4 f"
    using buffered_read_ok [OF r io, of 4] s f(1) by auto
  have "take 4 f = int_bytes (int n)" "drop 4 f = rest" unfolding f(1) by simp_all
  moreover have "int_of (int_bytes (int n)) = int n" using int_roundtrip [of "int n" "[]"] n by simp
  ultimately show thesis using that [of c1 io1] c1 by (simp add: read_file_def buffered_io_init_def)
qed

context codec
begin

lemma read_enc:
  assumes "valid x" and "reader_ok ctx" "io_delivers io" and "in_stream ctx = elem_bytes (enc x) @ rest"
  shows "\<exists>ctx' io'. read_elem_buffered ctx dec io = Some (Some x, ctx', io') \<and> reader_ok ctx' \<and> io_delivers io' \<and>
    in_stream ctx' = rest"
  by (rule read_elem_ok [where b = "enc x", OF assms(2-4) enc_short [OF assms(1)]]) (rule dec_enc [OF assms(1)])

lemma load_elems_ok:
  assumes "\<forall>x \<in> set xs. valid x" and "reader_ok ctx" "io_delivers io"
    and "in_stream ctx = concat (map elem_bytes (map enc xs)) @ rest"
  shows "load_elems (length xs) dec acc ctx io = Some (acc @ xs)"
  using assms
proof (induction xs arbitrary: acc ctx io)
  case Nil
  then show ?case by simp
next
  case (Cons x xs)
  have v: "valid x" using Cons.prems(1) by simp
  obtain c1 io1 where c1: "read_elem_buffered ctx dec io = Some (Some x, c1, io1)" "reader_ok c1" "io_delivers io1"
    "in_stream c1 = concat (map elem_bytes (map enc xs)) @ rest"
    using read_enc [OF v Cons.prems(2,3), of "concat (map elem_bytes (map enc xs)) @ rest"] Cons.prems(4) by auto
  then show ?case using Cons.IH [OF _ c1(2-4), of "acc @ [x]"] Cons.prems(1) by simp
qed

lemma load_list_ok:
  assumes v: "\<forall>x \<in> set xs. valid x" and n: "length xs < 2 ^ 31" and l: "length (file_bytes (length xs) (map enc xs)) < 2 ^ 63"
    and io: "io_delivers io"
  shows "gslist_load True True (file_bytes (length xs) (map enc xs)) io dec = Some xs"
proof -
  obtain ctx io' where r: "read_file True True (file_bytes (length xs) (map enc xs)) io []
        (\<lambda>n ctx io'. load_elems (nat n) dec [] ctx io') = load_elems (nat (int (length xs))) dec [] ctx io'"
      "reader_ok ctx" "io_delivers io'" "in_stream ctx = concat (map elem_bytes (map enc xs))"
    by (rule read_file_ok [OF file_bytes_def l n io])
  have "load_elems (length xs) dec [] ctx io' = Some ([] @ xs)"
    using r(4) by (intro load_elems_ok [OF v r(2,3), of "[]"]) simp
  then show ?thesis using r(1) unfolding gslist_load_def by simp
qed

lemma save_list_ok:
  assumes "length (file_bytes (length xs) (map enc xs)) < 2 ^ 63"
  shows "gslist_save True True old [] xs enc = Some (file_bytes (length xs) (map enc xs))"
  unfolding gslist_save_def by (rule write_file_ok [OF assms])

end

locale table_codec = key: codec valid_k ek dk + val: codec valid_v ev dv
  for valid_k :: "'k \<Rightarrow> bool" and ek dk and valid_v :: "'v \<Rightarrow> bool" and ev dv
begin

lemma load_entries_ok:
  assumes "\<forall>e \<in> set es. valid_k (fst e) \<and> valid_v (snd e)" and "reader_ok ctx" "io_delivers io"
    and "in_stream ctx = concat (map elem_bytes (concat (map (save_entry ek ev) es))) @ rest"
  shows "load_entries (length es) dk dv ht ctx io = Some (ht ++ map_of (rev es))"
  using assms
proof (induction es arbitrary: ht ctx io)
  case Nil
  then show ?case by simp
next
  case (Cons e es)
  obtain k v where e: "e = (k, v)" by force
  have vk: "valid_k k" and vv: "valid_v v" using Cons.prems(1) e by simp_all
  let ?rest = "concat (map elem_bytes (concat (map (save_entry ek ev) es))) @ rest"
  have "save_entry ek ev e = [ek k, ev v]" by (simp add: e save_entry_def)
  then have st: "in_stream ctx = elem_bytes (ek k) @ elem_bytes (ev v) @ ?rest" using Cons.prems(4) by simp
  obtain c1 io1 where c1: "read_elem_buffered ctx dk io = Some (Some k, c1, io1)" "reader_ok c1" "io_delivers io1"
    "in_stream c1 = elem_bytes (ev v) @ ?rest"
    using key.read_enc [OF vk Cons.prems(2,3) st] by blast
  obtain c2 io2 where c2: "read_elem_buffered c1 dv io1 = Some (Some v, c2, io2)" "reader_ok c2" "io_delivers io2"
    "in_stream c2 = ?rest"
    using val.read_enc [OF vv c1(2-4)] by blast
  have "load_entries (length es) dk dv (ht(k \<mapsto> v)) c2 io2 = Some (ht(k \<mapsto> v) ++ map_of (rev es))"
    using Cons.IH [OF _ c2(2-4)] Cons.prems(1) by simp
  then show ?case using c1(1) c2(1) e by simp
qed

lemma load_table_ok:
  assumes v: "\<forall>e \<in> set es. valid_k (fst e) \<and> valid_v (snd e)" and d: "distinct (map fst es)" and n: "length es < 2 ^ 31"
    and l: "length (file_bytes (length es) (concat (map (save_entry ek ev) es))) < 2 ^ 63" and io: "io_delivers io"
  shows "ghash_load True True (file_bytes (length es) (concat (map (save_entry ek ev) es))) io dk dv = Some (map_of es)"
proof -
  let ?bs = "concat (map (save_entry ek ev) es)"
  obtain ctx io' where r: "read_file True True (file_bytes (length es) ?bs) io Map.empty
        (\<lambda>n ctx io'. load_entries (nat n) dk dv Map.empty ctx io') =
      load_entries (nat (int (length es))) dk dv Map.empty ctx io'" "reader_ok ctx" "io_delivers io'"
      "in_stream ctx = concat (map elem_bytes ?bs)"
    by (rule read_file_ok [OF file_bytes_def l n io])
  have "load_entries (length es) dk dv Map.empty ctx io' = Some (Map.empty ++ map_of (rev es))"
    using r(4) by (intro load_entries_ok [OF v r(2,3), of "[]"]) simp
  then show ?thesis using r(1) map_of_rev_distinct [OF d] unfolding ghash_load_def by simp
qed

lemma save_table_ok:
  assumes "length (file_bytes (length es) (concat (map (save_entry ek ev) es))) < 2 ^ 63"
  shows "ghash_save True True old [] es ek ev = Some (file_bytes (length es) (concat (map (save_entry ek ev) es)))"
  unfolding ghash_save_def by (rule write_file_ok [OF assms])

end

section \<open>The tables of the index\<close>

interpretation sizes_table: table_codec valid_path encode_str decode_str "\<lambda>_. True" encode_size decode_size ..

interpretation hash_table: table_codec valid_digest encode_hash decode_hash "\<lambda>_. True" encode_size_elem decode_size_elem ..

interpretation file_table: table_codec "\<lambda>b. valid_path (key_path b)" encode_block_indice decode_block_indice
    "\<lambda>_. True" encode_size_elem decode_size_elem ..

end
