(* ===== verification/Index_Persistence.thy ===== *)
theory Index_Persistence
  imports Persistence Dedup_Spec
begin

text \<open>
  The indexed pair of tables of \<^verbatim>\<open>src/persistence.c\<close> and the functions of \<^verbatim>\<open>src/metaindex.c\<close> that load
  the index at mount and save it at unmount. The two tables of the index share their objects, so they
  are saved as tables of numbers next to one file of objects; loading allocates the objects anew. What
  survives is the index up to a renaming of addresses (\<open>index_iso\<close>), and with it the invariant and the
  contents of all files.
\<close>

section \<open>Model\<close>

text \<open>What the environment grants for one file: whether \<^verbatim>\<open>open\<close> and \<^verbatim>\<open>malloc\<close> succeed, and the
  outcomes of the calls on it.\<close>

record file_env =
  open_ok :: bool
  malloc_ok :: bool
  env_io :: "io_outcome list"

type_synonym value_index = "(ptr \<rightharpoonup> nat) \<times> ptr list"

text \<open>\<^verbatim>\<open>GSIZE_TO_POINTER(idx + 1)\<close>: the table holds the index plus one.\<close>

fun get_or_create_value_index :: "value_index \<Rightarrow> ptr \<Rightarrow> nat \<times> value_index" where
  "get_or_create_value_index (value_to_index, vals) p =
     (case value_to_index p of
        Some existing \<Rightarrow> (existing - 1, (value_to_index, vals))
      | None \<Rightarrow> (length vals, (value_to_index(p \<mapsto> length vals + 1), vals @ [p])))"

definition collect_value_index :: "value_index \<Rightarrow> 'k \<times> ptr \<Rightarrow> value_index" where
  "collect_value_index st e = snd (get_or_create_value_index st (snd e))"

definition save_indexed_entry :: "('k \<Rightarrow> byte list) \<Rightarrow> (ptr \<rightharpoonup> nat) \<Rightarrow> 'k \<times> ptr \<Rightarrow> byte list list" where
  "save_indexed_entry encode_key value_to_index e =
     (case value_to_index (snd e) of
        None \<Rightarrow> []
      | Some i \<Rightarrow> [encode_key (fst e), encode_size_elem (of_nat (i - 1))])"

definition save_indexed_table ::
    "io_outcome list \<Rightarrow> ('k \<times> ptr) list \<Rightarrow> ('k \<Rightarrow> byte list) \<Rightarrow> (ptr \<rightharpoonup> nat) \<Rightarrow> byte list option" where
  "save_indexed_table io entries encode_key value_to_index =
     write_file True True [] io
       (write_count_elems (length entries) (concat (map (save_indexed_entry encode_key value_to_index) entries)))"

text \<open>\<^verbatim>\<open>ghash_save_indexed_pair\<close>: the three files before, the three files after.\<close>

definition ghash_save_indexed_pair ::
    "file_env \<Rightarrow> file_env \<Rightarrow> file_env \<Rightarrow> byte list \<times> byte list \<times> byte list \<Rightarrow> (ptr \<rightharpoonup> 'v) \<Rightarrow>
     ('a \<times> ptr) list \<Rightarrow> ('b \<times> ptr) list \<Rightarrow> ('a \<Rightarrow> byte list) \<Rightarrow> ('b \<Rightarrow> byte list) \<Rightarrow> ('v \<Rightarrow> byte list) \<Rightarrow>
     (byte list \<times> byte list \<times> byte list) option" where
  "ghash_save_indexed_pair env1 env2 envv files heap table1 table2 encode_key1 encode_key2 encode_value =
     (case files of (f1, f2, fv) \<Rightarrow>
        let (value_to_index, vals) =
              foldl collect_value_index (foldl collect_value_index (Map.empty, []) table1) table2
        in if \<not> open_ok env1 then Some files
           else if \<not> open_ok env2 then Some ([], f2, fv)
           else if \<not> malloc_ok env1 \<or> \<not> malloc_ok env2 then Some ([], [], fv)
           else if \<exists>p \<in> set vals. heap p = None then None
           else
             (case (save_values_array (open_ok envv) (malloc_ok envv) fv (env_io envv) (map (\<lambda>p. the (heap p)) vals) encode_value,
                    save_indexed_table (env_io env1) table1 encode_key1 value_to_index,
                    save_indexed_table (env_io env2) table2 encode_key2 value_to_index) of
                (Some fv', Some f1', Some f2') \<Rightarrow> Some (f1', f2', fv')
              | _ \<Rightarrow> None))"

text \<open>The loops that turn the numbers back into objects; an object is named by its position. A number
  out of range is skipped.\<close>

definition resolve :: "nat \<Rightarrow> ('k \<rightharpoonup> u64) \<Rightarrow> 'k \<rightharpoonup> ptr" where
  "resolve n table_idx k =
     (case table_idx k of None \<Rightarrow> None | Some i \<Rightarrow> if unat i \<ge> n then None else Some (unat i))"

definition ghash_load_indexed_pair ::
    "file_env \<Rightarrow> file_env \<Rightarrow> file_env \<Rightarrow> byte list \<times> byte list \<times> byte list \<Rightarrow>
     'a decoder \<Rightarrow> 'b decoder \<Rightarrow> 'v decoder \<Rightarrow> ('v list \<times> ('a \<rightharpoonup> ptr) \<times> ('b \<rightharpoonup> ptr)) option" where
  "ghash_load_indexed_pair env1 env2 envv files decode_key1 decode_key2 decode_value =
     (case files of (f1, f2, fv) \<Rightarrow>
        (case (load_values_array (open_ok envv) (malloc_ok envv) fv (env_io envv) decode_value,
               ghash_load (open_ok env1) (malloc_ok env1) f1 (env_io env1) decode_key1 decode_size_elem,
               ghash_load (open_ok env2) (malloc_ok env2) f2 (env_io env2) decode_key2 decode_size_elem) of
           (Some vals, Some table1_idx, Some table2_idx) \<Rightarrow>
             Some (vals, resolve (length vals) table1_idx, resolve (length vals) table2_idx)
         | _ \<Rightarrow> None))"

text \<open>The five files of the index, in the order of the path macros.\<close>

record index_disk =
  d_hash_to_master :: "byte list"
  d_file_to_master :: "byte list"
  d_master_infos :: "byte list"
  d_file_to_sizes :: "byte list"
  d_free_block_list :: "byte list"

record index_env =
  e_hash_to_master :: file_env
  e_file_to_master :: file_env
  e_master_infos :: file_env
  e_file_to_sizes :: file_env
  e_free_block_list :: file_env

definition index_init :: "index_env \<Rightarrow> index_disk \<Rightarrow> Index option" where
  "index_init env disk =
     (case (ghash_load_indexed_pair (e_hash_to_master env) (e_file_to_master env) (e_master_infos env)
              (d_hash_to_master disk, d_file_to_master disk, d_master_infos disk)
              decode_hash decode_block_indice decode_master_info,
            ghash_load (open_ok (e_file_to_sizes env)) (malloc_ok (e_file_to_sizes env)) (d_file_to_sizes disk)
              (env_io (e_file_to_sizes env)) decode_str decode_size,
            gslist_load (open_ok (e_free_block_list env)) (malloc_ok (e_free_block_list env)) (d_free_block_list disk)
              (env_io (e_free_block_list env)) decode_free_block) of
        (Some (vals, h2m, f2m), Some sizes, Some fl) \<Rightarrow>
          Some \<lparr>hash_to_master = h2m, file_to_master = f2m, free_block_list = fl, file_to_sizes = sizes,
                minfos = (\<lambda>p. if p < length vals then Some (vals ! p) else None), next_ptr = length vals\<rparr>
      | _ \<Rightarrow> None)"

text \<open>The enumeration orders of the three tables are arguments. The objects are freed afterwards; what
  remains of the index is the files.\<close>

definition index_destroy ::
    "index_env \<Rightarrow> u32 \<Rightarrow> index_disk \<Rightarrow> (digest \<times> ptr) list \<Rightarrow> (BlockIndice \<times> ptr) list \<Rightarrow> (path \<times> u64) list \<Rightarrow>
     Index \<Rightarrow> index_disk option" where
  "index_destroy env padding disk hs fs zs idx =
     (case (ghash_save_indexed_pair (e_hash_to_master env) (e_file_to_master env) (e_master_infos env)
              (d_hash_to_master disk, d_file_to_master disk, d_master_infos disk) (minfos idx) hs fs
              encode_hash encode_block_indice (encode_master_info padding),
            ghash_save (open_ok (e_file_to_sizes env)) (malloc_ok (e_file_to_sizes env)) (d_file_to_sizes disk)
              (env_io (e_file_to_sizes env)) zs encode_str encode_size,
            gslist_save (open_ok (e_free_block_list env)) (malloc_ok (e_free_block_list env)) (d_free_block_list disk)
              (env_io (e_free_block_list env)) (free_block_list idx) encode_free_block) of
        (Some (fh, ff, fv), Some fz, Some fl) \<Rightarrow>
          Some \<lparr>d_hash_to_master = fh, d_file_to_master = ff, d_master_infos = fv, d_file_to_sizes = fz,
                d_free_block_list = fl\<rparr>
      | _ \<Rightarrow> None)"

section \<open>Numbering the shared objects\<close>

definition numbered :: "value_index \<Rightarrow> bool" where
  "numbered st \<longleftrightarrow> distinct (snd st) \<and>
     (\<forall>p s. fst st p = Some s \<longleftrightarrow> (\<exists>i < length (snd st). snd st ! i = p \<and> s = i + 1))"

lemma get_or_create_spec:
  assumes "numbered st" and "get_or_create_value_index st p = (i, st')"
  shows "numbered st'" "set (snd st') = insert p (set (snd st))" "i < length (snd st')" "snd st' ! i = p"
proof -
  obtain m vs where st: "st = (m, vs)" by force
  have n: "distinct vs" "\<And>p s. m p = Some s \<longleftrightarrow> (\<exists>i < length vs. vs ! i = p \<and> s = i + 1)"
    using assms(1) by (simp_all add: numbered_def st)
  have "numbered st' \<and> set (snd st') = insert p (set (snd st)) \<and> i < length (snd st') \<and> snd st' ! i = p"
  proof (cases "m p")
    case None
    then have np: "p \<notin> set vs" using n(2) [of p] by (metis in_set_conv_nth option.distinct(1))
    have "(m(p \<mapsto> length vs + 1)) q = Some s \<longleftrightarrow> (\<exists>i < length (vs @ [p]). (vs @ [p]) ! i = q \<and> s = i + 1)" for q s
    proof (cases "q = p")
      case True
      then show ?thesis using np by (auto simp: nth_append less_Suc_eq in_set_conv_nth)
    next
      case False
      then show ?thesis using n(2) [of q s] by (auto simp: nth_append less_Suc_eq)
    qed
    then show ?thesis using assms(2) None n(1) np by (auto simp: st numbered_def)
  next
    case (Some s)
    then obtain j where "j < length vs" "vs ! j = p" "s = j + 1" using n(2) by blast
    then show ?thesis using assms Some by (auto simp: st)
  qed
  then show "numbered st'" "set (snd st') = insert p (set (snd st))" "i < length (snd st')" "snd st' ! i = p" by blast+
qed

lemma collect_spec:
  assumes "numbered st"
  shows "numbered (foldl collect_value_index st es) \<and>
    set (snd (foldl collect_value_index st es)) = set (snd st) \<union> snd ` set es"
  using assms
proof (induction es arbitrary: st)
  case Nil
  then show ?case by simp
next
  case (Cons e es)
  obtain i st' where g: "get_or_create_value_index st (snd e) = (i, st')"
    by (cases "get_or_create_value_index st (snd e)")
  have "numbered st'" "set (snd st') = insert (snd e) (set (snd st))" using get_or_create_spec [OF Cons.prems g] by blast+
  then show ?case using Cons.IH [of st'] g by (simp add: collect_value_index_def)
qed

text \<open>The number of an object.\<close>

definition number :: "(ptr \<rightharpoonup> nat) \<Rightarrow> ptr \<Rightarrow> nat" where
  "number m p = the (m p) - 1"

lemma numbered_number:
  assumes "numbered (m, vs)" and "p \<in> set vs"
  shows "m p = Some (number m p + 1)" "number m p < length vs" "vs ! number m p = p"
proof -
  obtain i where i: "i < length vs" "vs ! i = p" using assms(2) by (auto simp: in_set_conv_nth)
  then have "m p = Some (i + 1)" using assms(1) by (auto simp: numbered_def)
  then show "m p = Some (number m p + 1)" "number m p < length vs" "vs ! number m p = p"
    using i by (simp_all add: number_def)
qed

lemma number_bij:
  assumes "numbered (m, vs)"
  shows "bij_betw (number m) (set vs) {..<length vs}"
proof (rule bij_betw_byWitness [where f' = "\<lambda>i. vs ! i"])
  show "\<forall>x \<in> set vs. vs ! number m x = x" using numbered_number(3) [OF assms] by blast
  show "number m ` set vs \<subseteq> {..<length vs}" using numbered_number(2) [OF assms] by auto
  show "\<forall>y \<in> {..<length vs}. number m (vs ! y) = y"
  proof
    fix y assume "y \<in> {..<length vs}"
    then have "m (vs ! y) = Some (y + 1)" using assms by (auto simp: numbered_def)
    then show "number m (vs ! y) = y" by (simp add: number_def)
  qed
qed auto

lemma save_indexed_entries:
  assumes "numbered (m, vs)" and "\<forall>e \<in> set es. snd e \<in> set vs"
  shows "concat (map (save_indexed_entry ek m) es) =
    concat (map (save_entry ek encode_size_elem) (map (\<lambda>e. (fst e, of_nat (number m (snd e)))) es))"
proof -
  have "save_indexed_entry ek m e = save_entry ek encode_size_elem (fst e, of_nat (number m (snd e)))" if "e \<in> set es" for e
    using numbered_number(1) [OF assms(1), of "snd e"] assms(2) that
    by (simp add: save_indexed_entry_def save_entry_def)
  then have "map (save_indexed_entry ek m) es = map (save_entry ek encode_size_elem) (map (\<lambda>e. (fst e, of_nat (number m (snd e)))) es)"
    by simp
  then show ?thesis by (rule arg_cong)
qed

lemma map_of_map_snd: "map_of (map (\<lambda>e. (fst e, f (snd e))) es) = map_option f \<circ> map_of es"
  by (induction es) auto

lemma resolve_numbers:
  assumes n: "numbered (m, vs)" and r: "\<And>k p. t k = Some p \<Longrightarrow> p \<in> set vs" and l: "length vs < 2 ^ 64"
  shows "resolve (length vs) (map_option (\<lambda>p. of_nat (number m p)) \<circ> t) = map_option (number m) \<circ> t"
proof
  fix k
  show "resolve (length vs) (map_option (\<lambda>p. of_nat (number m p)) \<circ> t) k = (map_option (number m) \<circ> t) k"
  proof (cases "t k")
    case (Some p)
    have lt: "number m p < length vs" using numbered_number(2) [OF n r [OF Some]] .
    then have "unat (of_nat (number m p) :: u64) = number m p" using l by (intro unat_of_nat_u64) simp
    then show ?thesis using Some lt by (simp add: resolve_def)
  qed (simp add: resolve_def)
qed

section \<open>Indexes that differ in addresses only\<close>

definition index_iso :: "(ptr \<Rightarrow> ptr) \<Rightarrow> Index \<Rightarrow> Index \<Rightarrow> bool" where
  "index_iso ren idx idx' \<longleftrightarrow>
     bij_betw ren (dom (minfos idx)) (dom (minfos idx')) \<and>
     (\<forall>p \<in> dom (minfos idx). minfos idx' (ren p) = minfos idx p) \<and>
     hash_to_master idx' = map_option ren \<circ> hash_to_master idx \<and>
     file_to_master idx' = map_option ren \<circ> file_to_master idx \<and>
     free_block_list idx' = free_block_list idx \<and> file_to_sizes idx' = file_to_sizes idx \<and>
     (\<forall>p \<in> dom (minfos idx'). p < next_ptr idx')"

lemma index_isoD:
  assumes "index_iso ren idx idx'"
  shows "inj_on ren (dom (minfos idx))" "dom (minfos idx') = ren ` dom (minfos idx)"
    "p \<in> dom (minfos idx) \<Longrightarrow> minfos idx' (ren p) = minfos idx p"
    "hash_to_master idx' d = map_option ren (hash_to_master idx d)"
    "file_to_master idx' k = map_option ren (file_to_master idx k)"
    "free_block_list idx' = free_block_list idx" "file_to_sizes idx' = file_to_sizes idx"
    "p \<in> dom (minfos idx') \<Longrightarrow> p < next_ptr idx'"
    "p \<in> dom (minfos idx) \<Longrightarrow> slot_of idx' (ren p) = slot_of idx p"
  using assms unfolding index_iso_def by (auto simp: bij_betw_def slot_of_def)

lemma iso_tables_ok:
  assumes iso: "index_iso ren idx idx'" and t: "tables_ok {} idx"
  shows "tables_ok {} idx'"
proof -
  note D = index_isoD [OF iso]
  have dom_h: "p \<in> dom (minfos idx)" if "hash_to_master idx d = Some p" for d p
    using tables_ok_hash [OF t, of d p] that by auto
  have dom_f: "p \<in> dom (minfos idx)" if "file_to_master idx k = Some p" for k p
    using tables_ok_file [OF t that] by (simp add: published_def)
  have "hash_to_master idx' d = Some q \<longleftrightarrow> (\<exists>mi. minfos idx' q = Some mi \<and> info_hash mi = d)" for d q
  proof
    assume "hash_to_master idx' d = Some q"
    then obtain p where p: "hash_to_master idx d = Some p" "q = ren p" using D(4) by auto
    then show "\<exists>mi. minfos idx' q = Some mi \<and> info_hash mi = d"
      using tables_ok_hash [OF t, of d p] D(3) [OF dom_h [OF p(1)]] by auto
  next
    assume "\<exists>mi. minfos idx' q = Some mi \<and> info_hash mi = d"
    then obtain mi where mi: "minfos idx' q = Some mi" "info_hash mi = d" by blast
    then obtain p where p: "p \<in> dom (minfos idx)" "q = ren p" using D(2) by (metis domI imageE)
    then have "hash_to_master idx d = Some p" using tables_ok_hash [OF t, of d p] D(3) [OF p(1)] mi by auto
    then show "hash_to_master idx' d = Some q" using D(4) p(2) by simp
  qed
  moreover have "dom (file_to_master idx') = dom (file_to_master idx)" using D(5) by (auto simp: dom_def)
  moreover have "p \<in> dom (minfos idx')" if "file_to_master idx' k = Some p" for k p
    using that D(2,5) dom_f by auto
  ultimately show ?thesis
    using tables_ok_finite [OF t] D(8) by (auto simp: tables_ok_def published_def)
qed

lemma iso_refs:
  assumes iso: "index_iso ren idx idx'" and t: "tables_ok {} idx" and p: "p \<in> dom (minfos idx)"
  shows "refs idx' (ren p) = refs idx p"
proof -
  note D = index_isoD [OF iso]
  have "file_to_master idx' k = Some (ren p) \<longleftrightarrow> file_to_master idx k = Some p" for k
  proof
    assume "file_to_master idx' k = Some (ren p)"
    then obtain q where q: "file_to_master idx k = Some q" "ren q = ren p" using D(5) by auto
    then have "q \<in> dom (minfos idx)" using tables_ok_file [OF t q(1)] by (simp add: published_def)
    then show "file_to_master idx k = Some p" using q D(1) p by (auto dest: inj_onD)
  qed (simp add: D(5))
  then show ?thesis by (simp add: refs_def)
qed

lemma iso_index_inv:
  assumes iso: "index_iso ren idx idx'" and inv: "index_inv nxt idx"
  shows "index_inv nxt idx'"
proof -
  note D = index_isoD [OF iso]
  have t: "tables_ok {} idx" and c: "counts_ok (\<lambda>_. 0) idx" and s: "slots_ok {} {} [] nxt idx"
    using inv by (simp_all add: index_inv_def)
  have "unat (refcount mi) = refs idx' q \<and> refcount mi \<noteq> 0" if q: "minfos idx' q = Some mi" for q mi
  proof -
    obtain p where p: "p \<in> dom (minfos idx)" "q = ren p" using D(2) q by (metis domI imageE)
    then show ?thesis using c q D(3) [OF p(1)] iso_refs [OF iso t p(1)] by (simp add: counts_ok_def)
  qed
  then have c': "counts_ok (\<lambda>_. 0) idx'" by (simp add: counts_ok_def)
  have im: "slot_of idx' ` dom (minfos idx') = slot_of idx ` dom (minfos idx)"
    unfolding D(2) image_image using D(9) by (intro image_cong) simp_all
  have inj: "inj_on (slot_of idx') (dom (minfos idx'))"
    using s D(9) unfolding D(2) by (auto simp: slots_ok_def published_def inj_on_def)
  have "slots_ok {} {} [] nxt idx'"
    using s im inj D(6) by (simp add: slots_ok_def published_def)
  then show ?thesis using iso_tables_ok [OF iso t] c' by (simp add: index_inv_def)
qed

lemma iso_store:
  assumes iso: "index_iso ren idx idx'" and ok: "store_ok SHA512 (idx, master, nxt)"
  shows "store_ok SHA512 (idx', master, nxt)" "view (idx', master, nxt) = view (idx, master, nxt)"
proof -
  note D = index_isoD [OF iso]
  have inv: "index_inv nxt idx" and d: "data_ok SHA512 master {} idx" and z: "sizes_ok idx" using ok by simp_all
  have t: "tables_ok {} idx" using inv by (simp add: index_inv_def)
  have "data_ok SHA512 master {} idx'"
    unfolding data_ok_def
  proof (intro allI impI)
    fix q mi assume q: "minfos idx' q = Some mi"
    then obtain p where "p \<in> dom (minfos idx)" "q = ren p" using D(2) by (metis domI imageE)
    then have "minfos idx p = Some mi" using D(3) q by metis
    then show "length (block_at master (unat (masterBlockIndex mi))) = BLOCK_SIZE \<and>
        hash SHA512 (block_at master (unat (masterBlockIndex mi))) = info_hash mi"
      using d by (simp add: data_ok_def)
  qed
  moreover have "sizes_ok idx'" using z D(5,7) by (auto simp: sizes_ok_def)
  ultimately show "store_ok SHA512 (idx', master, nxt)" using ok iso_index_inv [OF iso inv] by simp
  have "fs_block master idx' f b = fs_block master idx f b" for f b
  proof (cases "file_to_master idx (bkey f b)")
    case (Some p)
    then have "p \<in> dom (minfos idx)" using tables_ok_file [OF t] by (fastforce simp: published_def)
    then show ?thesis using Some D(5,9) by (simp add: fs_block_def lookup_by_file_block_def)
  qed (simp add: fs_block_def lookup_by_file_block_def D(5))
  then show "view (idx', master, nxt) = view (idx, master, nxt)" using D(7) by auto
qed

section \<open>Saving and loading the index\<close>

definition enumerates :: "('k \<times> 'v) list \<Rightarrow> ('k \<rightharpoonup> 'v) \<Rightarrow> bool" where
  "enumerates es m \<longleftrightarrow> distinct (map fst es) \<and> map_of es = m"

definition can_save :: "file_env \<Rightarrow> bool" where
  "can_save env \<longleftrightarrow> open_ok env \<and> malloc_ok env \<and> env_io env = []"

definition can_load :: "file_env \<Rightarrow> bool" where
  "can_load env \<longleftrightarrow> open_ok env \<and> malloc_ok env \<and> io_delivers (env_io env)"

definition all_envs :: "(file_env \<Rightarrow> bool) \<Rightarrow> index_env \<Rightarrow> bool" where
  "all_envs P env \<longleftrightarrow> P (e_hash_to_master env) \<and> P (e_file_to_master env) \<and> P (e_master_infos env) \<and>
     P (e_file_to_sizes env) \<and> P (e_free_block_list env)"

text \<open>An index within the limits of the format: counts fit an \<^verbatim>\<open>int\<close>, digests have 64 bytes, paths are
  C strings.\<close>

definition persistable :: "Index \<Rightarrow> bool" where
  "persistable idx \<longleftrightarrow>
     (\<forall>p mi. minfos idx p = Some mi \<longrightarrow> valid_info mi) \<and>
     (\<forall>k \<in> dom (file_to_master idx). valid_path (key_path k)) \<and> (\<forall>f \<in> dom (file_to_sizes idx). valid_path f) \<and>
     card (dom (hash_to_master idx)) < 2 ^ 31 \<and> card (dom (file_to_master idx)) < 2 ^ 31 \<and>
     card (dom (file_to_sizes idx)) < 2 ^ 31 \<and> length (free_block_list idx) < 2 ^ 31"

lemma enumerates_facts:
  assumes "enumerates es m"
  shows "distinct (map fst es)" "map_of es = m" "length es = card (dom m)" "e \<in> set es \<Longrightarrow> m (fst e) = Some (snd e)"
    "snd ` set es = ran m"
proof -
  show d: "distinct (map fst es)" and m: "map_of es = m" using assms by (simp_all add: enumerates_def)
  have "card (dom m) = card (set (map fst es))" using m dom_map_of_conv_image_fst [of es] by auto
  then show "length es = card (dom m)" using distinct_card [OF d] by simp
  show "e \<in> set es \<Longrightarrow> m (fst e) = Some (snd e)" using map_of_is_SomeI [OF d, of "fst e" "snd e"] m by simp
  show "snd ` set es = ran m" using ran_distinct [OF d] m by simp
qed

lemma sum_list_bound: "(\<And>x. x \<in> set xs \<Longrightarrow> f x \<le> (c :: nat)) \<Longrightarrow> sum_list (map f xs) \<le> length xs * c"
  by (induction xs) (auto intro: add_mono)

lemma length_elems: "length (concat (map elem_bytes bs)) = sum_list (map (\<lambda>b. 8 + length b) bs)"
  by (induction bs) (simp_all add: elem_bytes_def)

lemma list_file_fits:
  assumes n: "length xs < 2 ^ 31" and b: "\<And>x. x \<in> set xs \<Longrightarrow> length (enc x) < 2 ^ 31"
  shows "length (file_bytes (length xs) (map enc xs)) < 2 ^ 63"
proof -
  have "sum_list (map (\<lambda>x. 8 + length (enc x)) xs) \<le> length xs * (2 ^ 31 + 8)"
    using b by (intro sum_list_bound) (simp add: less_imp_le)
  also have "\<dots> \<le> 2 ^ 31 * (2 ^ 31 + 8)" using n by (intro mult_le_mono1) simp
  finally show ?thesis using length_elems [of "map enc xs"] by (simp add: file_bytes_def comp_def)
qed

lemma table_file_fits:
  assumes n: "length es < 2 ^ 31" and k: "\<And>e. e \<in> set es \<Longrightarrow> length (ek (fst e)) < 2 ^ 31"
    and v: "\<And>x. length (ev x) = 8"
  shows "length (file_bytes (length es) (concat (map (save_entry ek ev) es))) < 2 ^ 63"
proof -
  have "sum_list (map (\<lambda>b. 8 + length b) (concat (map (save_entry ek ev) es))) = sum_list (map (\<lambda>e. 24 + length (ek (fst e))) es)"
    by (induction es) (simp_all add: save_entry_def v)
  also have "\<dots> \<le> length es * (2 ^ 31 + 24)"
    using k by (intro sum_list_bound) (simp add: less_imp_le)
  also have "\<dots> \<le> 2 ^ 31 * (2 ^ 31 + 24)" using n by (intro mult_le_mono1) simp
  finally show ?thesis by (simp add: file_bytes_def length_elems)
qed

text \<open>The five files, for a numbering of the objects.\<close>

definition num_entries :: "(ptr \<rightharpoonup> nat) \<Rightarrow> ('k \<times> ptr) list \<Rightarrow> ('k \<times> u64) list" where
  "num_entries m es = map (\<lambda>e. (fst e, of_nat (number m (snd e)))) es"

definition table_bytes :: "('k \<Rightarrow> byte list) \<Rightarrow> ('v \<Rightarrow> byte list) \<Rightarrow> ('k \<times> 'v) list \<Rightarrow> byte list" where
  "table_bytes ek ev es = file_bytes (length es) (concat (map (save_entry ek ev) es))"

definition list_bytes :: "('a \<Rightarrow> byte list) \<Rightarrow> 'a list \<Rightarrow> byte list" where
  "list_bytes enc xs = file_bytes (length xs) (map enc xs)"

definition index_files ::
    "u32 \<Rightarrow> value_index \<Rightarrow> (digest \<times> ptr) list \<Rightarrow> (BlockIndice \<times> ptr) list \<Rightarrow> (path \<times> u64) list \<Rightarrow> Index \<Rightarrow> index_disk" where
  "index_files padding st hs fs zs idx =
     \<lparr>d_hash_to_master = table_bytes encode_hash encode_size_elem (num_entries (fst st) hs),
      d_file_to_master = table_bytes encode_block_indice encode_size_elem (num_entries (fst st) fs),
      d_master_infos = list_bytes (encode_master_info padding) (map (\<lambda>p. the (minfos idx p)) (snd st)),
      d_file_to_sizes = table_bytes encode_str encode_size zs,
      d_free_block_list = list_bytes encode_free_block (free_block_list idx)\<rparr>"

text \<open>What the proofs below need of the arguments of \<^verbatim>\<open>index_destroy\<close>.\<close>

definition save_args ::
    "Index \<Rightarrow> (digest \<times> ptr) list \<Rightarrow> (BlockIndice \<times> ptr) list \<Rightarrow> (path \<times> u64) list \<Rightarrow> value_index \<Rightarrow> bool" where
  "save_args idx hs fs zs st \<longleftrightarrow>
     numbered st \<and> set (snd st) = dom (minfos idx) \<and> length (snd st) < 2 ^ 31 \<and>
     foldl collect_value_index (foldl collect_value_index (Map.empty, []) hs) fs = st \<and>
     enumerates hs (hash_to_master idx) \<and> enumerates fs (file_to_master idx) \<and> enumerates zs (file_to_sizes idx) \<and>
     persistable idx \<and> tables_ok {} idx"

lemma save_argsI:
  assumes t: "tables_ok {} idx" and pers: "persistable idx"
    and hs: "enumerates hs (hash_to_master idx)" and fs: "enumerates fs (file_to_master idx)"
    and zs: "enumerates zs (file_to_sizes idx)"
  obtains st where "save_args idx hs fs zs st"
proof -
  note H = enumerates_facts [OF hs] and F = enumerates_facts [OF fs]
  let ?s1 = "foldl collect_value_index (Map.empty, []) hs"
  let ?st = "foldl collect_value_index ?s1 fs"
  have n1: "numbered ?s1" and s1: "set (snd ?s1) = snd ` set hs"
    using collect_spec [of "(Map.empty, [])" hs] by (simp_all add: numbered_def)
  have nb: "numbered ?st" and s2: "set (snd ?st) = snd ` set hs \<union> snd ` set fs"
    using collect_spec [OF n1, of fs] s1 by simp_all
  have rh: "ran (hash_to_master idx) = dom (minfos idx)"
    using tables_ok_hash [OF t] by (auto simp: ran_def)
  have "ran (file_to_master idx) \<subseteq> dom (minfos idx)"
    using tables_ok_file [OF t] by (auto simp: ran_def published_def)
  then have svs: "set (snd ?st) = dom (minfos idx)" using s2 H(5) F(5) rh by auto
  have "length (snd ?st) = card (snd ` set hs)"
    using nb distinct_card [of "snd ?st"] svs H(5) rh by (simp add: numbered_def)
  also have "\<dots> \<le> card (set hs)" by (rule card_image_le) simp
  also have "\<dots> \<le> length hs" by (rule card_length)
  finally have "length (snd ?st) < 2 ^ 31" using pers H(3) by (simp add: persistable_def)
  then show thesis using that [of ?st] nb svs assms by (simp add: save_args_def)
qed

lemma valid_entries:
  assumes a: "save_args idx hs fs zs st"
  shows "\<forall>e \<in> set (num_entries m hs). valid_digest (fst e) \<and> True"
    "\<forall>e \<in> set (num_entries m fs). valid_path (key_path (fst e)) \<and> True"
    "\<forall>e \<in> set zs. valid_path (fst e) \<and> True"
    "\<forall>x \<in> set (map (\<lambda>p. the (minfos idx p)) (snd st)). valid_info x"
    "length (num_entries m hs) < 2 ^ 31" "length (num_entries m fs) < 2 ^ 31" "length zs < 2 ^ 31"
    "length (free_block_list idx) < 2 ^ 31"
proof -
  have pers: "persistable idx" and t: "tables_ok {} idx" and sv: "set (snd st) = dom (minfos idx)"
    and en: "enumerates hs (hash_to_master idx)" "enumerates fs (file_to_master idx)" "enumerates zs (file_to_sizes idx)"
    using a by (simp_all add: save_args_def)
  note H = enumerates_facts [OF en(1)] and F = enumerates_facts [OF en(2)] and Z = enumerates_facts [OF en(3)]
  show "\<forall>e \<in> set (num_entries m hs). valid_digest (fst e) \<and> True"
    using H(4) tables_ok_hash [OF t] pers
    by (fastforce simp: persistable_def valid_info_def valid_digest_def num_entries_def)
  show "\<forall>e \<in> set (num_entries m fs). valid_path (key_path (fst e)) \<and> True"
    using F(4) pers by (fastforce simp: persistable_def num_entries_def)
  show "\<forall>e \<in> set zs. valid_path (fst e) \<and> True" using Z(4) pers by (fastforce simp: persistable_def)
  show "\<forall>x \<in> set (map (\<lambda>p. the (minfos idx p)) (snd st)). valid_info x"
    using pers sv by (auto simp: persistable_def)
  show "length (num_entries m hs) < 2 ^ 31" "length (num_entries m fs) < 2 ^ 31" "length zs < 2 ^ 31"
    "length (free_block_list idx) < 2 ^ 31"
    using pers H(3) F(3) Z(3) by (simp_all add: persistable_def num_entries_def)
qed

lemma files_fit:
  assumes a: "save_args idx hs fs zs st"
  shows "length (table_bytes encode_hash encode_size_elem (num_entries m hs)) < 2 ^ 63"
    "length (table_bytes encode_block_indice encode_size_elem (num_entries m fs)) < 2 ^ 63"
    "length (table_bytes encode_str encode_size zs) < 2 ^ 63"
    "length (list_bytes (encode_master_info padding) (map (\<lambda>p. the (minfos idx p)) (snd st))) < 2 ^ 63"
    "length (list_bytes encode_free_block (free_block_list idx)) < 2 ^ 63"
proof -
  note v = valid_entries [OF a]
  have b8: "length (encode_size_elem x) = 8" "length (encode_size x) = 8" for x
    by (simp_all add: encode_size_elem_def encode_size_def)
  show "length (table_bytes encode_hash encode_size_elem (num_entries m hs)) < 2 ^ 63"
    unfolding table_bytes_def by (rule table_file_fits [OF v(5) hash_codec.enc_short b8(1)]) (use v(1) in blast)
  show "length (table_bytes encode_block_indice encode_size_elem (num_entries m fs)) < 2 ^ 63"
    unfolding table_bytes_def by (rule table_file_fits [OF v(6) block_indice_codec.enc_short b8(1)]) (use v(2) in blast)
  show "length (table_bytes encode_str encode_size zs) < 2 ^ 63"
    unfolding table_bytes_def by (rule table_file_fits [OF v(7) str_codec.enc_short b8(2)]) (use v(3) in blast)
  show "length (list_bytes (encode_master_info padding) (map (\<lambda>p. the (minfos idx p)) (snd st))) < 2 ^ 63"
    unfolding list_bytes_def
  proof (rule list_file_fits [OF _ master_info_codec.enc_short])
    show "length (map (\<lambda>p. the (minfos idx p)) (snd st)) < 2 ^ 31" using a by (simp add: save_args_def)
  qed (use v(4) in blast)
  show "length (list_bytes encode_free_block (free_block_list idx)) < 2 ^ 63"
    unfolding list_bytes_def by (rule list_file_fits [OF v(8) free_block_codec.enc_short]) simp
qed

lemma save_indexed_table_ok:
  assumes n: "numbered (m, vs)" and es: "\<forall>e \<in> set es. snd e \<in> set vs"
    and l: "length (table_bytes ek encode_size_elem (num_entries m es)) < 2 ^ 63"
  shows "save_indexed_table [] es ek m = Some (table_bytes ek encode_size_elem (num_entries m es))"
proof -
  have eq: "file_bytes (length es) (concat (map (save_indexed_entry ek m) es)) = table_bytes ek encode_size_elem (num_entries m es)"
    unfolding table_bytes_def num_entries_def save_indexed_entries [OF n es] by simp
  have "write_file True True [] [] (write_count_elems (length es) (concat (map (save_indexed_entry ek m) es))) =
      Some (file_bytes (length es) (concat (map (save_indexed_entry ek m) es)))"
    by (rule write_file_ok) (use l eq in simp)
  then show ?thesis unfolding save_indexed_table_def eq .
qed

lemma index_destroy_files:
  assumes a: "save_args idx hs fs zs st" and env: "all_envs can_save env"
  shows "index_destroy env padding disk hs fs zs idx = Some (index_files padding st hs fs zs idx)"
proof -
  obtain m vs where st: "st = (m, vs)" by force
  have n: "numbered (m, vs)" and sv: "set vs = dom (minfos idx)"
    and fold: "foldl collect_value_index (foldl collect_value_index (Map.empty, []) hs) fs = (m, vs)"
    and en: "enumerates hs (hash_to_master idx)" "enumerates fs (file_to_master idx)" and t: "tables_ok {} idx"
    using a by (simp_all add: save_args_def st)
  have h: "\<forall>e \<in> set hs. snd e \<in> set vs"
    using enumerates_facts(4) [OF en(1)] tables_ok_hash [OF t] sv by fastforce
  have f: "\<forall>e \<in> set fs. snd e \<in> set vs"
    using enumerates_facts(4) [OF en(2)] tables_ok_file [OF t] sv by (fastforce simp: published_def)
  note fit = files_fit [OF a]
  note sh = save_indexed_table_ok [OF n h fit(1)] and sf = save_indexed_table_ok [OF n f fit(2)]
  have svals: "save_values_array True True old [] (map (\<lambda>p. the (minfos idx p)) vs) (encode_master_info padding) =
      Some (list_bytes (encode_master_info padding) (map (\<lambda>p. the (minfos idx p)) vs))" for old
    unfolding save_values_array_def list_bytes_def
    using fit(4) [of padding] by (intro write_file_ok) (simp add: st list_bytes_def)
  have sz: "ghash_save True True old [] zs encode_str encode_size = Some (table_bytes encode_str encode_size zs)" for old
    unfolding table_bytes_def using fit(3) by (intro sizes_table.save_table_ok) (simp add: table_bytes_def)
  have sl: "gslist_save True True old [] (free_block_list idx) encode_free_block =
      Some (list_bytes encode_free_block (free_block_list idx))" for old
    unfolding list_bytes_def using fit(5) by (intro free_block_codec.save_list_ok) (simp add: list_bytes_def)
  have none: "\<not> (\<exists>p \<in> set vs. minfos idx p = None)" using sv by auto
  note ev = env [unfolded all_envs_def can_save_def]
  have pair: "ghash_save_indexed_pair (e_hash_to_master env) (e_file_to_master env) (e_master_infos env) (f1, f2, fv) (minfos idx) hs fs
      encode_hash encode_block_indice (encode_master_info padding) =
    Some (table_bytes encode_hash encode_size_elem (num_entries m hs),
          table_bytes encode_block_indice encode_size_elem (num_entries m fs),
          list_bytes (encode_master_info padding) (map (\<lambda>p. the (minfos idx p)) vs))" for f1 f2 fv
    unfolding ghash_save_indexed_pair_def prod.case fold Let_def
    by (simp only: ev none svals sh sf simp_thms if_False if_True not_True_eq_False option.case prod.case)
  show ?thesis
    unfolding index_destroy_def pair
    by (simp only: ev sz sl option.case prod.case index_files_def st fst_conv snd_conv)
qed

lemma load_numbered_table:
  assumes en: "enumerates es t" and n: "numbered (m, vs)" and l: "length vs < 2 ^ 31" and r: "\<And>k p. t k = Some p \<Longrightarrow> p \<in> set vs"
  shows "resolve (length vs) (map_of (num_entries m es)) = map_option (number m) \<circ> t" "distinct (map fst (num_entries m es))"
proof -
  have "map_of (num_entries m es) = map_option (\<lambda>p. of_nat (number m p)) \<circ> t"
    unfolding num_entries_def map_of_map_snd [of "\<lambda>p. of_nat (number m p)"] enumerates_facts(2) [OF en] ..
  then show "resolve (length vs) (map_of (num_entries m es)) = map_option (number m) \<circ> t"
    using resolve_numbers [OF n r] l by simp
  show "distinct (map fst (num_entries m es))"
    using enumerates_facts(1) [OF en] by (simp add: num_entries_def comp_def)
qed

lemma index_init_files:
  assumes a: "save_args idx hs fs zs (m, vs)" and env: "all_envs can_load env"
  shows "index_init env (index_files padding (m, vs) hs fs zs idx) =
    Some \<lparr>hash_to_master = map_option (number m) \<circ> hash_to_master idx,
          file_to_master = map_option (number m) \<circ> file_to_master idx,
          free_block_list = free_block_list idx, file_to_sizes = file_to_sizes idx,
          minfos = (\<lambda>p. if p < length vs then minfos idx (vs ! p) else None), next_ptr = length vs\<rparr>"
proof -
  have n: "numbered (m, vs)" and sv: "set vs = dom (minfos idx)" and lv: "length vs < 2 ^ 31"
    and en: "enumerates hs (hash_to_master idx)" "enumerates fs (file_to_master idx)" "enumerates zs (file_to_sizes idx)"
    and t: "tables_ok {} idx"
    using a by (simp_all add: save_args_def)
  note v = valid_entries [OF a] and fit = files_fit [OF a]
  have rh: "p \<in> set vs" if "hash_to_master idx d = Some p" for d p using tables_ok_hash [OF t] that sv by blast
  have rf: "p \<in> set vs" if "file_to_master idx k = Some p" for k p
    using tables_ok_file [OF t that] sv by (simp add: published_def)
  note nh = load_numbered_table [OF en(1) n lv rh] and nf = load_numbered_table [OF en(2) n lv rf]
  have lh: "ghash_load True True (table_bytes encode_hash encode_size_elem (num_entries m hs)) io decode_hash decode_size_elem =
      Some (map_of (num_entries m hs))" if "io_delivers io" for io
    unfolding table_bytes_def by (rule hash_table.load_table_ok [OF v(1) nh(2) v(5) fit(1) [unfolded table_bytes_def] that])
  have lf: "ghash_load True True (table_bytes encode_block_indice encode_size_elem (num_entries m fs)) io decode_block_indice
      decode_size_elem = Some (map_of (num_entries m fs))" if "io_delivers io" for io
    unfolding table_bytes_def by (rule file_table.load_table_ok [OF v(2) nf(2) v(6) fit(2) [unfolded table_bytes_def] that])
  have lz: "ghash_load True True (table_bytes encode_str encode_size zs) io decode_str decode_size = Some (file_to_sizes idx)"
    if "io_delivers io" for io
    unfolding table_bytes_def enumerates_facts(2) [OF en(3), symmetric]
    by (rule sizes_table.load_table_ok [OF v(3) enumerates_facts(1) [OF en(3)] v(7) fit(3) [unfolded table_bytes_def] that])
  have ll: "gslist_load True True (list_bytes encode_free_block (free_block_list idx)) io decode_free_block =
      Some (free_block_list idx)" if "io_delivers io" for io
    unfolding list_bytes_def
    by (rule free_block_codec.load_list_ok [OF _ v(8) fit(5) [unfolded list_bytes_def] that]) simp
  let ?vals = "map (\<lambda>p. the (minfos idx p)) vs"
  have vl: "load_values_array True True (list_bytes (encode_master_info padding) ?vals) io decode_master_info = Some ?vals"
    if "io_delivers io" for io
    using master_info_codec.load_list_ok [OF v(4) _ fit(4) [unfolded list_bytes_def] that] lv
    by (simp add: load_values_array_def gslist_load_def list_bytes_def)
  have mi: "(\<lambda>p. if p < length vs then Some (?vals ! p) else None) = (\<lambda>p. if p < length vs then minfos idx (vs ! p) else None)"
  proof
    fix p show "(if p < length vs then Some (?vals ! p) else None) = (if p < length vs then minfos idx (vs ! p) else None)"
      using sv nth_mem [of p vs] by (cases "p < length vs") auto
  qed
  note ev = env [unfolded all_envs_def can_load_def]
  have dio: "io_delivers (env_io (e_hash_to_master env))" "io_delivers (env_io (e_file_to_master env))"
    "io_delivers (env_io (e_master_infos env))" "io_delivers (env_io (e_file_to_sizes env))"
    "io_delivers (env_io (e_free_block_list env))" using ev by blast+
  have ok: "open_ok (e_hash_to_master env)" "open_ok (e_file_to_master env)" "open_ok (e_master_infos env)"
    "open_ok (e_file_to_sizes env)" "open_ok (e_free_block_list env)" "malloc_ok (e_hash_to_master env)"
    "malloc_ok (e_file_to_master env)" "malloc_ok (e_master_infos env)" "malloc_ok (e_file_to_sizes env)"
    "malloc_ok (e_free_block_list env)" using ev by blast+
  show ?thesis
    unfolding index_init_def index_files_def ghash_load_indexed_pair_def index_disk.simps fst_conv snd_conv
    by (simp only: ok lh [OF dio(1)] lf [OF dio(2)] vl [OF dio(3)] lz [OF dio(4)] ll [OF dio(5)] option.case prod.case
        length_map nh(1) nf(1) mi)
qed

lemma index_roundtrip:
  assumes t: "tables_ok {} idx" and pers: "persistable idx"
    and en: "enumerates hs (hash_to_master idx)" "enumerates fs (file_to_master idx)" "enumerates zs (file_to_sizes idx)"
    and sv: "all_envs can_save env" and ld: "all_envs can_load env'"
  shows "\<exists>disk' idx' ren. index_destroy env padding disk hs fs zs idx = Some disk' \<and>
    index_init env' disk' = Some idx' \<and> index_iso ren idx idx'"
proof -
  obtain st where a: "save_args idx hs fs zs st" by (rule save_argsI [OF t pers en])
  obtain m vs where st: "st = (m, vs)" by force
  have n: "numbered (m, vs)" and sv': "set vs = dom (minfos idx)" using a by (simp_all add: save_args_def st)
  let ?i = "\<lparr>hash_to_master = map_option (number m) \<circ> hash_to_master idx,
          file_to_master = map_option (number m) \<circ> file_to_master idx,
          free_block_list = free_block_list idx, file_to_sizes = file_to_sizes idx,
          minfos = (\<lambda>p. if p < length vs then minfos idx (vs ! p) else None), next_ptr = length vs\<rparr>"
  have d: "dom (\<lambda>p. if p < length vs then minfos idx (vs ! p) else None) = {..<length vs}"
    using sv' nth_mem [of _ vs] by (force simp: dom_def)
  have "index_iso (number m) idx ?i"
    using number_bij [OF n] numbered_number(2,3) [OF n] sv' d by (simp add: index_iso_def)
  then show ?thesis
    using index_destroy_files [OF a sv] index_init_files [OF a [unfolded st] ld] st by blast
qed

end
