(* ===== verification/Passthrough.thy ===== *)
theory Passthrough
  imports Index_Persistence
begin

text \<open>
  The FUSE handlers (\<^verbatim>\<open>src/passthrough.c\<close>, \<^verbatim>\<open>mknod_wrapper\<close> of \<^verbatim>\<open>includes/passthrough_helpers.h\<close>). The
  kernel underneath is a parameter: a function from its state and a system call to its next state
  and the result of the call, so every handler is modelled with the calls it makes, in order and with
  their arguments. The handlers that touch deduplicated data work on the \<^verbatim>\<open>Context\<close>: the index, the
  master file behind \<^verbatim>\<open>masterFd\<close>, \<^verbatim>\<open>nextBlockIndex\<close> and the debug counters. The log output goes
  nowhere in the model.
\<close>

section \<open>The kernel as a parameter\<close>

text \<open>The fields of \<^verbatim>\<open>struct stat\<close> that the handlers touch.\<close>

record stat =
  st_ino :: u64
  st_mode :: u32
  st_size :: u64

record dirent =
  d_ino :: u64
  d_type :: u32
  d_name :: string

datatype (plugins only: code size) syscall =
    Sys_lstat path | Sys_access path int | Sys_readlink path nat
  | Sys_opendir path | Sys_readdir | Sys_closedir
  | Sys_openat path int u32 | Sys_mkdirat path u32 | Sys_symlinkat string path | Sys_mkfifoat path u32
  | Sys_mknodat path u32 u64
  | Sys_unlink path | Sys_mkdir path u32 | Sys_rmdir path | Sys_symlink string path | Sys_rename path path
  | Sys_link path path | Sys_chmod path u32 | Sys_lchown path u32 u32
  | Sys_truncate path u64 | Sys_ftruncate int u64 | Sys_utimensat path "int \<times> int"
  | Sys_open path int "u32 option" | Sys_close int | Sys_statvfs path | Sys_fsync int | Sys_fdatasync int
  | Sys_posix_fallocate int u64 u64
  | Sys_lsetxattr path string "byte list" int | Sys_lgetxattr path string nat | Sys_llistxattr path nat
  | Sys_lremovexattr path string
  | Sys_copy_file_range int u64 int u64 u64 int | Sys_lseek int u64 int

record sys_result =
  sr_ret :: int
  sr_errno :: int
  sr_stat :: stat
  sr_bytes :: "byte list"
  sr_dirent :: "dirent option"

type_synonym 'b kernel = "'b \<Rightarrow> syscall \<Rightarrow> 'b \<times> sys_result"

text \<open>\<^verbatim>\<open>errno\<close> is positive after a call that returned -1.\<close>

definition kernel_contract :: "'b kernel \<Rightarrow> bool" where
  "kernel_contract k \<longleftrightarrow> (\<forall>b c. sr_ret (snd (k b c)) = -1 \<longrightarrow> 0 < sr_errno (snd (k b c)))"

section \<open>State\<close>

record Context =
  index :: Index
  masterFile :: "byte list"
  nextBlockIndex :: u64
  cnt_create :: u64
  cnt_open :: u64
  cnt_close :: u64
  cnt_write :: u64
  cnt_read :: u64
  cnt_getattr :: u64
  cnt_unlink :: u64

record 'b fs_state =
  p_ctx :: Context
  backend :: 'b

record fuse_file_info =
  fh :: int
  fi_flags :: int

definition store_of :: "Context \<Rightarrow> store" where
  "store_of c = (index c, masterFile c, nextBlockIndex c)"

definition set_store :: "Context \<Rightarrow> store \<Rightarrow> Context" where
  "set_store c st = c\<lparr>index := fst st, masterFile := fst (snd st), nextBlockIndex := snd (snd st)\<rparr>"

definition do_call :: "'b kernel \<Rightarrow> 'b fs_state \<Rightarrow> syscall \<Rightarrow> sys_result \<times> 'b fs_state" where
  "do_call k s c = (let (b', r) = k (backend s) c in (r, s\<lparr>backend := b'\<rparr>))"

text \<open>The body most handlers share: one call, \<^verbatim>\<open>-errno\<close> when it returned -1, else 0.\<close>

definition pass_call :: "'b kernel \<Rightarrow> 'b fs_state \<Rightarrow> syscall \<Rightarrow> int \<times> 'b fs_state" where
  "pass_call k s c = (let (r, s') = do_call k s c in (if sr_ret r = -1 then - sr_errno r else 0, s'))"

section \<open>Handlers without deduplicated data\<close>

definition xmp_access :: "'b kernel \<Rightarrow> path \<Rightarrow> int \<Rightarrow> 'b fs_state \<Rightarrow> int \<times> 'b fs_state" where
  "xmp_access k path msk s = pass_call k s (Sys_access path msk)"

text \<open>\<^verbatim>\<open>readlink(path, buf, size - 1)\<close>, then the terminating zero. \<open>None\<close>: the zero lands outside the
  buffer.\<close>

definition xmp_readlink :: "'b kernel \<Rightarrow> path \<Rightarrow> byte list \<Rightarrow> nat \<Rightarrow> 'b fs_state \<Rightarrow> (int \<times> byte list \<times> 'b fs_state) option" where
  "xmp_readlink k path buf sz s =
     (let (r, s') = do_call k s (Sys_readlink path (sz - 1))
      in if sr_ret r = -1 then Some (- sr_errno r, buf, s')
         else case memcpy_at buf 0 (sr_bytes r) of
                None \<Rightarrow> None
              | Some b1 \<Rightarrow> map_option (\<lambda>b2. (0, b2, s')) (memcpy_at b1 (nat (sr_ret r)) [0]))"

text \<open>The loop of \<^verbatim>\<open>xmp_readdir\<close>: \<open>filler\<close> is FUSE's callback, which collects entries and returns
  non-zero when its buffer is full. A directory stream has finitely many entries; \<open>n\<close> bounds them.\<close>

fun readdir_loop ::
    "nat \<Rightarrow> 'b kernel \<Rightarrow> ('f \<Rightarrow> string \<Rightarrow> stat \<Rightarrow> int \<Rightarrow> int \<times> 'f) \<Rightarrow> int \<Rightarrow> 'f \<Rightarrow> 'b fs_state \<Rightarrow> ('f \<times> 'b fs_state) option" where
  "readdir_loop 0 k filler fill_dir_plus acc s = None"
| "readdir_loop (Suc n) k filler fill_dir_plus acc s =
     (let (r, s') = do_call k s Sys_readdir
      in case sr_dirent r of
           None \<Rightarrow> Some (acc, s')
         | Some de \<Rightarrow>
             (let (full, acc') = filler acc (d_name de)
                    \<lparr>st_ino = d_ino de, st_mode = push_bit 12 (d_type de), st_size = 0\<rparr> fill_dir_plus
              in if full \<noteq> 0 then Some (acc', s') else readdir_loop n k filler fill_dir_plus acc' s'))"

definition xmp_readdir ::
    "nat \<Rightarrow> 'b kernel \<Rightarrow> ('f \<Rightarrow> string \<Rightarrow> stat \<Rightarrow> int \<Rightarrow> int \<times> 'f) \<Rightarrow> int \<Rightarrow> path \<Rightarrow> 'f \<Rightarrow> 'b fs_state \<Rightarrow>
     (int \<times> 'f \<times> 'b fs_state) option" where
  "xmp_readdir n k filler fill_dir_plus path acc s =
     (let (r, s1) = do_call k s (Sys_opendir path)
      in if sr_ret r = -1 then Some (- sr_errno r, acc, s1)
         else case readdir_loop n k filler fill_dir_plus acc s1 of
                None \<Rightarrow> None
              | Some (acc', s2) \<Rightarrow> let (r', s3) = do_call k s2 Sys_closedir in Some (0, acc', s3))"

text \<open>The file types of \<^verbatim>\<open>st_mode\<close>: \<^verbatim>\<open>S_ISREG\<close> and the like compare the bits of \<^verbatim>\<open>S_IFMT\<close>.\<close>

definition S_IFMT :: u32 where "S_IFMT = 61440"

definition is_type :: "u32 \<Rightarrow> u32 \<Rightarrow> bool" where
  "is_type t mode \<longleftrightarrow> and mode S_IFMT = t"

definition O_CREAT_EXCL_WRONLY :: int where "O_CREAT_EXCL_WRONLY = 193"

definition mknod_wrapper :: "'b kernel \<Rightarrow> path \<Rightarrow> string option \<Rightarrow> u32 \<Rightarrow> u64 \<Rightarrow> 'b fs_state \<Rightarrow> sys_result \<times> 'b fs_state" where
  "mknod_wrapper k path link mode rdev s =
     (if is_type 32768 mode then
        (let (r, s1) = do_call k s (Sys_openat path O_CREAT_EXCL_WRONLY mode)
         in if sr_ret r \<ge> 0 then do_call k s1 (Sys_close (sr_ret r)) else (r, s1))
      else if is_type 16384 mode then do_call k s (Sys_mkdirat path mode)
      else if is_type 40960 mode \<and> link \<noteq> None then do_call k s (Sys_symlinkat (the link) path)
      else if is_type 4096 mode then do_call k s (Sys_mkfifoat path mode)
      else do_call k s (Sys_mknodat path mode rdev))"

definition xmp_mknod :: "'b kernel \<Rightarrow> path \<Rightarrow> u32 \<Rightarrow> u64 \<Rightarrow> 'b fs_state \<Rightarrow> int \<times> 'b fs_state" where
  "xmp_mknod k path mode rdev s =
     (let (r, s') = mknod_wrapper k path None mode rdev s in (if sr_ret r = -1 then - sr_errno r else 0, s'))"

definition xmp_mkdir :: "'b kernel \<Rightarrow> path \<Rightarrow> u32 \<Rightarrow> 'b fs_state \<Rightarrow> int \<times> 'b fs_state" where
  "xmp_mkdir k path mode s = pass_call k s (Sys_mkdir path mode)"

definition xmp_rmdir :: "'b kernel \<Rightarrow> path \<Rightarrow> 'b fs_state \<Rightarrow> int \<times> 'b fs_state" where
  "xmp_rmdir k path s = pass_call k s (Sys_rmdir path)"

definition xmp_symlink :: "'b kernel \<Rightarrow> string \<Rightarrow> path \<Rightarrow> 'b fs_state \<Rightarrow> int \<times> 'b fs_state" where
  "xmp_symlink k from_path to_path s = pass_call k s (Sys_symlink from_path to_path)"

definition xmp_rename :: "'b kernel \<Rightarrow> path \<Rightarrow> path \<Rightarrow> u32 \<Rightarrow> 'b fs_state \<Rightarrow> int \<times> 'b fs_state" where
  "xmp_rename k from_path to_path flags s =
     (if flags \<noteq> 0 then (- EINVAL, s) else pass_call k s (Sys_rename from_path to_path))"

definition xmp_link :: "'b kernel \<Rightarrow> path \<Rightarrow> path \<Rightarrow> 'b fs_state \<Rightarrow> int \<times> 'b fs_state" where
  "xmp_link k from_path to_path s = pass_call k s (Sys_link from_path to_path)"

definition xmp_chmod :: "'b kernel \<Rightarrow> path \<Rightarrow> u32 \<Rightarrow> 'b fs_state \<Rightarrow> int \<times> 'b fs_state" where
  "xmp_chmod k path mode s = pass_call k s (Sys_chmod path mode)"

definition xmp_chown :: "'b kernel \<Rightarrow> path \<Rightarrow> u32 \<Rightarrow> u32 \<Rightarrow> 'b fs_state \<Rightarrow> int \<times> 'b fs_state" where
  "xmp_chown k path uid gid s = pass_call k s (Sys_lchown path uid gid)"

definition xmp_utimens :: "'b kernel \<Rightarrow> path \<Rightarrow> int \<times> int \<Rightarrow> 'b fs_state \<Rightarrow> int \<times> 'b fs_state" where
  "xmp_utimens k path ts s = pass_call k s (Sys_utimensat path ts)"

definition xmp_statfs :: "'b kernel \<Rightarrow> path \<Rightarrow> 'b fs_state \<Rightarrow> int \<times> 'b fs_state" where
  "xmp_statfs k path s = pass_call k s (Sys_statvfs path)"

text \<open>Unlike the others, \<^verbatim>\<open>xmp_release\<close> and \<^verbatim>\<open>xmp_fsync\<close> return the raw result of the call.\<close>

definition xmp_release :: "'b kernel \<Rightarrow> fuse_file_info \<Rightarrow> 'b fs_state \<Rightarrow> int \<times> 'b fs_state" where
  "xmp_release k fi s =
     (let s1 = s\<lparr>p_ctx := (p_ctx s)\<lparr>cnt_close := cnt_close (p_ctx s) + 1\<rparr>\<rparr>;
          (r, s2) = do_call k s1 (Sys_close (fh fi))
      in (sr_ret r, s2))"

definition xmp_fsync :: "'b kernel \<Rightarrow> int \<Rightarrow> fuse_file_info \<Rightarrow> 'b fs_state \<Rightarrow> int \<times> 'b fs_state" where
  "xmp_fsync k isdatasync fi s =
     (let (r, s') = do_call k s (if isdatasync = 0 then Sys_fsync (fh fi) else Sys_fdatasync (fh fi))
      in (sr_ret r, s'))"

definition xmp_setxattr :: "'b kernel \<Rightarrow> path \<Rightarrow> string \<Rightarrow> byte list \<Rightarrow> int \<Rightarrow> 'b fs_state \<Rightarrow> int \<times> 'b fs_state" where
  "xmp_setxattr k path name val flags s = pass_call k s (Sys_lsetxattr path name val flags)"

text \<open>The two handlers that return a length on success.\<close>

definition pass_length :: "'b kernel \<Rightarrow> 'b fs_state \<Rightarrow> syscall \<Rightarrow> int \<times> 'b fs_state" where
  "pass_length k s c = (let (r, s') = do_call k s c in (if sr_ret r = -1 then - sr_errno r else sr_ret r, s'))"

definition xmp_getxattr :: "'b kernel \<Rightarrow> path \<Rightarrow> string \<Rightarrow> nat \<Rightarrow> 'b fs_state \<Rightarrow> int \<times> 'b fs_state" where
  "xmp_getxattr k path name sz s = pass_length k s (Sys_lgetxattr path name sz)"

definition xmp_listxattr :: "'b kernel \<Rightarrow> path \<Rightarrow> nat \<Rightarrow> 'b fs_state \<Rightarrow> int \<times> 'b fs_state" where
  "xmp_listxattr k path sz s = pass_length k s (Sys_llistxattr path sz)"

definition xmp_removexattr :: "'b kernel \<Rightarrow> path \<Rightarrow> string \<Rightarrow> 'b fs_state \<Rightarrow> int \<times> 'b fs_state" where
  "xmp_removexattr k path name s = pass_call k s (Sys_lremovexattr path name)"

section \<open>Handlers with a file descriptor\<close>

definition O_RDONLY :: int where "O_RDONLY = 0"
definition O_WRONLY :: int where "O_WRONLY = 1"

text \<open>\<^verbatim>\<open>if (fi == NULL) fd = open(path, flags); else fd = fi->fh; if (fd == -1) return -errno;\<close>.
  The handle of an open file is never -1: \<^verbatim>\<open>xmp_open\<close> and \<^verbatim>\<open>xmp_create\<close> store it only after \<^verbatim>\<open>open\<close> succeeded.\<close>

definition get_fd :: "'b kernel \<Rightarrow> path \<Rightarrow> int \<Rightarrow> fuse_file_info option \<Rightarrow> 'b fs_state \<Rightarrow> (int + int) \<times> 'b fs_state" where
  "get_fd k path flags fi s =
     (case fi of
        None \<Rightarrow> (let (r, s') = do_call k s (Sys_open path flags None)
                in (if sr_ret r = -1 then Inl (- sr_errno r) else Inr (sr_ret r), s'))
      | Some f \<Rightarrow> (Inr (fh f), s))"

text \<open>\<^verbatim>\<open>if (fi == NULL) close(fd);\<close>\<close>

definition put_fd :: "'b kernel \<Rightarrow> int \<Rightarrow> fuse_file_info option \<Rightarrow> 'b fs_state \<Rightarrow> 'b fs_state" where
  "put_fd k fd fi s = (case fi of None \<Rightarrow> snd (do_call k s (Sys_close fd)) | Some f \<Rightarrow> s)"

definition xmp_create :: "'b kernel \<Rightarrow> path \<Rightarrow> u32 \<Rightarrow> fuse_file_info \<Rightarrow> 'b fs_state \<Rightarrow> int \<times> fuse_file_info \<times> 'b fs_state" where
  "xmp_create k path mode fi s =
     (let s1 = s\<lparr>p_ctx := (p_ctx s)\<lparr>cnt_create := cnt_create (p_ctx s) + 1\<rparr>\<rparr>;
          (r, s2) = do_call k s1 (Sys_open path (fi_flags fi) (Some mode))
      in if sr_ret r = -1 then (- sr_errno r, fi, s2) else (0, fi\<lparr>fh := sr_ret r\<rparr>, s2))"

definition xmp_open :: "'b kernel \<Rightarrow> path \<Rightarrow> fuse_file_info \<Rightarrow> 'b fs_state \<Rightarrow> int \<times> fuse_file_info \<times> 'b fs_state" where
  "xmp_open k path fi s =
     (let (r, s1) = do_call k s (Sys_open path (fi_flags fi) None);
          s2 = s1\<lparr>p_ctx := (p_ctx s1)\<lparr>cnt_open := cnt_open (p_ctx s1) + 1\<rparr>\<rparr>
      in if sr_ret r = -1 then (- sr_errno r, fi, s2) else (0, fi\<lparr>fh := sr_ret r\<rparr>, s2))"

text \<open>\<^verbatim>\<open>posix_fallocate\<close> returns the error number itself.\<close>

definition xmp_fallocate :: "'b kernel \<Rightarrow> path \<Rightarrow> int \<Rightarrow> u64 \<Rightarrow> u64 \<Rightarrow> fuse_file_info option \<Rightarrow> 'b fs_state \<Rightarrow> int \<times> 'b fs_state" where
  "xmp_fallocate k path mode offset len fi s =
     (if mode \<noteq> 0 then (- EOPNOTSUPP, s)
      else case get_fd k path O_WRONLY fi s of
             (Inl e, s1) \<Rightarrow> (e, s1)
           | (Inr fd, s1) \<Rightarrow>
               (let (r, s2) = do_call k s1 (Sys_posix_fallocate fd offset len)
                in (- sr_ret r, put_fd k fd fi s2)))"

text \<open>\<^verbatim>\<open>xmp_copy_file_range\<close> and \<^verbatim>\<open>xmp_lseek\<close> are defined in the source but commented out of its table of
  operations. The first closes \<^verbatim>\<open>fd_in\<close> when the second file cannot be opened, even one it did not open
  itself; \<^verbatim>\<open>errno\<close> is then the one of \<^verbatim>\<open>close\<close> if that fails.\<close>

definition xmp_copy_file_range ::
    "'b kernel \<Rightarrow> path \<Rightarrow> fuse_file_info option \<Rightarrow> u64 \<Rightarrow> path \<Rightarrow> fuse_file_info option \<Rightarrow> u64 \<Rightarrow> u64 \<Rightarrow> int \<Rightarrow>
     'b fs_state \<Rightarrow> int \<times> 'b fs_state" where
  "xmp_copy_file_range k path_in fi_in offset_in path_out fi_out offset_out len flags s =
     (case get_fd k path_in O_RDONLY fi_in s of
        (Inl e, s1) \<Rightarrow> (e, s1)
      | (Inr fd_in, s1) \<Rightarrow>
          (case get_fd k path_out O_WRONLY fi_out s1 of
             (Inl e, s2) \<Rightarrow>
               (let (r, s3) = do_call k s2 (Sys_close fd_in) in (if sr_ret r = -1 then - sr_errno r else e, s3))
           | (Inr fd_out, s2) \<Rightarrow>
               (let (r, s3) = do_call k s2 (Sys_copy_file_range fd_in offset_in fd_out offset_out len flags)
                in (if sr_ret r = -1 then - sr_errno r else sr_ret r,
                    put_fd k fd_in fi_in (put_fd k fd_out fi_out s3)))))"

definition xmp_lseek :: "'b kernel \<Rightarrow> path \<Rightarrow> u64 \<Rightarrow> int \<Rightarrow> fuse_file_info option \<Rightarrow> 'b fs_state \<Rightarrow> int \<times> 'b fs_state" where
  "xmp_lseek k path off whence fi s =
     (case get_fd k path O_RDONLY fi s of
        (Inl e, s1) \<Rightarrow> (e, s1)
      | (Inr fd, s1) \<Rightarrow>
          (let (r, s2) = do_call k s1 (Sys_lseek fd off whence)
           in (if sr_ret r = -1 then - sr_errno r else sr_ret r, put_fd k fd fi s2)))"

section \<open>Handlers on deduplicated data\<close>

text \<open>The result, what \<^verbatim>\<open>stbuf\<close> holds, the state.\<close>

definition xmp_getattr :: "'b kernel \<Rightarrow> path \<Rightarrow> 'b fs_state \<Rightarrow> int \<times> stat \<times> 'b fs_state" where
  "xmp_getattr k path s =
     (let s0 = s\<lparr>p_ctx := (p_ctx s)\<lparr>cnt_getattr := cnt_getattr (p_ctx s) + 1\<rparr>\<rparr>;
          (r, s1) = do_call k s0 (Sys_lstat path);
          st = (case file_to_sizes (index (p_ctx s1)) path of
                  None \<Rightarrow> sr_stat r | Some logical_size \<Rightarrow> (sr_stat r)\<lparr>st_size := logical_size\<rparr>)
      in (if sr_ret r = -1 then - sr_errno r else 0, st, s1))"

text \<open>\<^verbatim>\<open>(n + BLOCK_SIZE - 1) / BLOCK_SIZE\<close> on \<^verbatim>\<open>size_t\<close>.\<close>

definition blocks_up :: "u64 \<Rightarrow> u64" where
  "blocks_up n = (n + BLOCK_SIZE64 - 1) div BLOCK_SIZE64"

definition xmp_unlink :: "'b kernel \<Rightarrow> path \<Rightarrow> 'b fs_state \<Rightarrow> (int \<times> 'b fs_state) option" where
  "xmp_unlink k path s =
     (let c = (p_ctx s)\<lparr>cnt_unlink := cnt_unlink (p_ctx s) + 1\<rparr>
      in map_option (\<lambda>idx. pass_call k (s\<lparr>p_ctx := c\<lparr>index := idx\<rparr>\<rparr>) (Sys_unlink path))
           (case file_to_sizes (index c) path of
              None \<Rightarrow> Some (index c)
            | Some logical_size \<Rightarrow>
                map_option (\<lambda>i. i\<lparr>file_to_sizes := (file_to_sizes i)(path := None)\<rparr>)
                  (remove_blocks_dedup_batch (index c) path 0 (blocks_up logical_size))))"

definition xmp_truncate :: "'b kernel \<Rightarrow> path \<Rightarrow> u64 \<Rightarrow> fuse_file_info option \<Rightarrow> 'b fs_state \<Rightarrow> (int \<times> 'b fs_state) option" where
  "xmp_truncate k path sz fi s =
     (if sint sz < 0 \<or> sint sz smod int BLOCK_SIZE \<noteq> 0 then Some (- EOPNOTSUPP, s)
      else
        let c = p_ctx s
        in map_option (\<lambda>idx. pass_call k (s\<lparr>p_ctx := c\<lparr>index := idx\<rparr>\<rparr>)
                 (case fi of Some f \<Rightarrow> Sys_ftruncate (fh f) sz | None \<Rightarrow> Sys_truncate path sz))
             (case file_to_sizes (index c) path of
                None \<Rightarrow> Some (index c)
              | Some logical_size \<Rightarrow>
                  if sz < logical_size then
                    map_option (\<lambda>i. case file_to_sizes i path of
                        None \<Rightarrow> i
                      | Some ls \<Rightarrow> if sz < ls then i\<lparr>file_to_sizes := (file_to_sizes i)(path \<mapsto> sz)\<rparr> else i)
                      (remove_blocks_dedup_batch (index c) path (blocks_up sz) (blocks_up logical_size))
                  else Some (index c)))"

definition xmp_read ::
    "((BlockPair \<Rightarrow> BlockPair \<Rightarrow> int) \<Rightarrow> BlockPair list \<Rightarrow> BlockPair list) \<Rightarrow> bool \<Rightarrow> io_outcome list \<Rightarrow> 'b kernel \<Rightarrow>
     path \<Rightarrow> byte list \<Rightarrow> u64 \<Rightarrow> u64 \<Rightarrow> fuse_file_info option \<Rightarrow> 'b fs_state \<Rightarrow> (int \<times> byte list \<times> 'b fs_state) option" where
  "xmp_read qsort mok io k path buf sz offset fi s =
     (let s0 = s\<lparr>p_ctx := (p_ctx s)\<lparr>cnt_read := cnt_read (p_ctx s) + 1\<rparr>\<rparr>
      in case get_fd k path O_RDONLY fi s0 of
           (Inl e, s1) \<Rightarrow> Some (e, buf, s1)
         | (Inr fd, s1) \<Rightarrow>
             map_option (\<lambda>(total_read, buf'). (total_read, buf', put_fd k fd fi s1))
               (read_dedup qsort mok io (index (p_ctx s1)) (masterFile (p_ctx s1)) path buf sz offset))"

definition xmp_write ::
    "(byte list \<Rightarrow> digest) \<Rightarrow> io_outcome list \<Rightarrow> 'b kernel \<Rightarrow> path \<Rightarrow> byte list \<Rightarrow> u64 \<Rightarrow> u64 \<Rightarrow> fuse_file_info option \<Rightarrow>
     'b fs_state \<Rightarrow> (int \<times> 'b fs_state) option" where
  "xmp_write SHA512 io k path buf sz offset fi s =
     (let s0 = s\<lparr>p_ctx := (p_ctx s)\<lparr>cnt_write := cnt_write (p_ctx s) + 1\<rparr>\<rparr>
      in case get_fd k path O_WRONLY fi s0 of
           (Inl e, s1) \<Rightarrow> Some (e, s1)
         | (Inr fd, s1) \<Rightarrow>
             map_option (\<lambda>(res, st). (res, put_fd k fd fi (s1\<lparr>p_ctx := set_store (p_ctx s1) st\<rparr>)))
               (write_dedup SHA512 io (store_of (p_ctx s1)) path buf sz offset))"

section \<open>Mount and unmount\<close>

text \<open>What a mount finds: the files of the index and \<open>/masterFILE\<close>. \<^verbatim>\<open>ctx->create\<close> is not initialised,
  so its first value is an argument.\<close>

definition xmp_init :: "index_env \<Rightarrow> u64 \<Rightarrow> index_disk \<Rightarrow> byte list \<Rightarrow> Context option" where
  "xmp_init env garbage disk masterFILE =
     map_option (\<lambda>idx. \<lparr>index = idx, masterFile = masterFILE,
         nextBlockIndex = off_div_block (of_nat (length masterFILE)), cnt_create = garbage, cnt_open = 0, cnt_close = 0,
         cnt_write = 0, cnt_read = 0, cnt_getattr = 0, cnt_unlink = 0\<rparr>)
       (index_init env disk)"

text \<open>What an unmount leaves behind.\<close>

definition xmp_destroy ::
    "index_env \<Rightarrow> u32 \<Rightarrow> index_disk \<Rightarrow> (digest \<times> ptr) list \<Rightarrow> (BlockIndice \<times> ptr) list \<Rightarrow> (path \<times> u64) list \<Rightarrow>
     Context \<Rightarrow> (index_disk \<times> byte list) option" where
  "xmp_destroy env padding disk hs fs zs c =
     map_option (\<lambda>d. (d, masterFile c)) (index_destroy env padding disk hs fs zs (index c))"

text \<open>The loop of \<^verbatim>\<open>main\<close> over the arguments: the value of \<^verbatim>\<open>fill_dir_plus\<close> and \<^verbatim>\<open>new_argv\<close>.
  \<^verbatim>\<open>FUSE_FILL_DIR_PLUS\<close> is a constant of FUSE and an argument.\<close>

definition MAX_ARGS :: nat where "MAX_ARGS = 10"

fun main_args :: "int \<Rightarrow> string list \<Rightarrow> int \<Rightarrow> string list \<Rightarrow> int \<times> string list" where
  "main_args FUSE_FILL_DIR_PLUS [] fill_dir_plus new_argv = (fill_dir_plus, new_argv)"
| "main_args FUSE_FILL_DIR_PLUS (a # argv) fill_dir_plus new_argv =
     (if length new_argv < MAX_ARGS then
        if a = ''--plus'' then main_args FUSE_FILL_DIR_PLUS argv FUSE_FILL_DIR_PLUS new_argv
        else main_args FUSE_FILL_DIR_PLUS argv fill_dir_plus (new_argv @ [a])
      else (fill_dir_plus, new_argv))"

end
