(* ===== verification/Passthrough_Spec.thy ===== *)
theory Passthrough_Spec
  imports Passthrough
begin

text \<open>
  What the FUSE handlers do to the contents and sizes of the files: unlink and truncate as operations on
  the abstract state, the step relation of the mounted file system with the invariant of all its
  reachable states, and the restart.
\<close>

section \<open>Frame\<close>

definition ctx_ok :: "(byte list \<Rightarrow> digest) \<Rightarrow> Context \<Rightarrow> bool" where
  "ctx_ok SHA512 c \<longleftrightarrow> store_ok SHA512 (store_of c)"

definition ctx_view :: "Context \<Rightarrow> fs_view" where
  "ctx_view c = view (store_of c)"

lemma do_call_ctx [simp]: "p_ctx (snd (do_call k s c)) = p_ctx s"
  by (simp add: do_call_def split: prod.split)

lemma do_call_ctx' : "do_call k s c = (r, s') \<Longrightarrow> p_ctx s' = p_ctx s"
  using do_call_ctx [of k s c] by simp

lemma pass_call_ctx [simp]: "p_ctx (snd (pass_call k s c)) = p_ctx s"
  by (auto simp: pass_call_def Let_def do_call_ctx' split: prod.split)

lemma pass_length_ctx [simp]: "p_ctx (snd (pass_length k s c)) = p_ctx s"
  by (auto simp: pass_length_def Let_def do_call_ctx' split: prod.split)

lemma get_fd_ctx: "get_fd k path flags fi s = (r, s') \<Longrightarrow> p_ctx s' = p_ctx s"
  by (auto simp: get_fd_def Let_def do_call_ctx' split: option.splits prod.splits)

lemma put_fd_ctx [simp]: "p_ctx (put_fd k fd fi s) = p_ctx s"
  by (simp add: put_fd_def split: option.split)

lemma mknod_wrapper_ctx: "p_ctx (snd (mknod_wrapper k path lnk mode rdev s)) = p_ctx s"
  by (auto simp: mknod_wrapper_def Let_def do_call_ctx' split: prod.split)

lemma readdir_loop_ctx: "readdir_loop n k filler fdp acc s = Some (acc', s') \<Longrightarrow> p_ctx s' = p_ctx s"
proof (induction n arbitrary: acc s)
  case (Suc n)
  obtain r s1 where d: "do_call k s Sys_readdir = (r, s1)" by force
  show ?case
    using Suc.prems Suc.IH do_call_ctx' [OF d] d
    by (auto simp: Let_def split: option.splits prod.splits if_splits)
qed simp

text \<open>Two contexts that agree on what is stored.\<close>

lemma same_store:
  assumes "index c' = index c" "masterFile c' = masterFile c" "nextBlockIndex c' = nextBlockIndex c"
  shows "store_of c' = store_of c" "ctx_ok SHA512 c' = ctx_ok SHA512 c" "ctx_view c' = ctx_view c"
  using assms by (simp_all add: store_of_def ctx_ok_def ctx_view_def)

lemma store_of_set_store [simp]: "store_of (set_store c st) = st"
  by (cases st) (simp add: store_of_def set_store_def)

section \<open>Sizes in blocks\<close>

lemma blocks_up_unat:
  assumes "unat n mod BLOCK_SIZE = 0"
  shows "unat (blocks_up n) = unat n div BLOCK_SIZE"
proof -
  define q where "q = unat n div BLOCK_SIZE"
  have q: "unat n = q * BLOCK_SIZE" using assms div_mult_mod_eq [of "unat n" BLOCK_SIZE] by (simp add: q_def)
  have "q * BLOCK_SIZE < 2 ^ 64" using unat_less_2_64 [of n] q by simp
  also have "(2 :: nat) ^ 64 = 2 ^ 52 * BLOCK_SIZE" by (simp add: BLOCK_SIZE_def)
  finally have "q < 2 ^ 52" by (simp only: mult_less_cancel2)
  then have le: "unat n + 4095 < 2 ^ 64" using q by (simp add: BLOCK_SIZE_def)
  have "n + BLOCK_SIZE64 - 1 = n + of_nat 4095" by (simp add: BLOCK_SIZE64_def BLOCK_SIZE_def)
  then have "unat (n + BLOCK_SIZE64 - 1) = unat n + 4095" using unat_plus_of_nat [OF le] by (simp only:)
  then have "unat (blocks_up n) = (unat n + 4095) div BLOCK_SIZE" by (simp add: blocks_up_def unat_div)
  also have "\<dots> = q" unfolding q by (simp add: BLOCK_SIZE_def)
  finally show ?thesis by (simp add: q_def)
qed

lemma sizes_ok_mapped:
  assumes z: "sizes_ok idx" and f: "fs_block master idx path b \<noteq> None"
  shows "\<exists>s. file_to_sizes idx path = Some s \<and> unat b < unat (blocks_up s)"
proof -
  obtain p where "file_to_master idx (bkey path b) = Some p" using f by (auto simp: fs_block_def lookup_by_file_block_def)
  then obtain s where s: "file_to_sizes idx path = Some s" "unat b * BLOCK_SIZE < unat s"
    using z unfolding sizes_ok_def by fastforce
  have m: "unat s mod BLOCK_SIZE = 0" using z s(1) by (simp add: sizes_ok_def)
  have "unat b < unat s div BLOCK_SIZE" using s(2) m by (metis div_mult_mod_eq add.right_neutral mult_less_cancel2)
  then show ?thesis using s(1) blocks_up_unat [OF m] by auto
qed

section \<open>Unlink\<close>

definition spec_unlink :: "path \<Rightarrow> fs_view \<Rightarrow> fs_view" where
  "spec_unlink path v =
     v\<lparr>view_block := (\<lambda>f b. if f = path then None else view_block v f b), view_size := (view_size v)(path := None)\<rparr>"

definition unlink_index :: "Index \<Rightarrow> path \<Rightarrow> Index option" where
  "unlink_index idx path =
     (case file_to_sizes idx path of
        None \<Rightarrow> Some idx
      | Some logical_size \<Rightarrow>
          map_option (\<lambda>i. i\<lparr>file_to_sizes := (file_to_sizes i)(path := None)\<rparr>)
            (remove_blocks_dedup_batch idx path 0 (blocks_up logical_size)))"

lemma sizes_update_inv:
  assumes "index_inv nxt idx"
  shows "index_inv nxt (idx\<lparr>file_to_sizes := z\<rparr>)"
proof -
  have "tables_ok {} idx" "counts_ok (\<lambda>_. 0) idx" "slots_ok {} {} [] nxt idx" using assms by (simp_all add: index_inv_def)
  then show ?thesis by (rule index_inv_frame) simp_all
qed

lemma sizes_update_fields:
  "fs_block master (idx\<lparr>file_to_sizes := z\<rparr>) = fs_block master idx"
  "data_ok SHA512 master pend (idx\<lparr>file_to_sizes := z\<rparr>) = data_ok SHA512 master pend idx"
  by (simp_all add: fs_block_def lookup_by_file_block_def slot_of_def data_ok_def fun_eq_iff)

lemma unlink_index_spec:
  assumes ok: "store_ok SHA512 (idx, master, nxt)"
  shows "\<exists>idx'. unlink_index idx path = Some idx' \<and> store_ok SHA512 (idx', master, nxt) \<and>
    view (idx', master, nxt) = spec_unlink path (view (idx, master, nxt))"
proof -
  have i: "index_inv nxt idx" "data_ok SHA512 master {} idx" "sizes_ok idx" "unat nxt \<le> MAX_BLOCKS" using ok by simp_all
  show ?thesis
  proof (cases "file_to_sizes idx path")
    case None
    then have "fs_block master idx path b = None" for b
      using sizes_ok_mapped [OF i(3), of master path b] by (cases "fs_block master idx path b") auto
    then have "fs_block master idx = (\<lambda>f b. if f = path then None else fs_block master idx f b)" by (auto simp: fun_eq_iff)
    moreover have "(file_to_sizes idx)(path := None) = file_to_sizes idx" using None by auto
    ultimately show ?thesis using None ok by (simp add: unlink_index_def spec_unlink_def cong: if_cong)
  next
    case (Some ls)
    obtain idx1 where r: "remove_blocks_dedup_batch idx path 0 (blocks_up ls) = Some idx1" "index_inv nxt idx1" "sub_infos idx idx1"
      "file_to_sizes idx1 = file_to_sizes idx"
      and f: "\<And>g b. fs_block master idx1 g b = (if g = path \<and> 0 \<le> b \<and> b < blocks_up ls then None else fs_block master idx g b)"
      using remove_batch_spec [OF i(1), of path 0 "blocks_up ls" master] by blast
    let ?i = "idx1\<lparr>file_to_sizes := (file_to_sizes idx1)(path := None)\<rparr>"
    have f': "fs_block master idx1 g b = (if g = path then None else fs_block master idx g b)" for g b
      using f [of g b] sizes_ok_mapped [OF i(3), of master path b] Some
      by (cases "fs_block master idx path b") (auto simp: word_less_nat_alt)
    have "sizes_ok ?i"
      unfolding sizes_ok_def
    proof (intro conjI allI impI)
      fix k p assume k: "file_to_master ?i k = Some p"
      then have "fs_block master idx1 (key_path k) (key_offset k) \<noteq> None"
        by (cases k) (simp add: fs_block_def lookup_by_file_block_def)
      then have np: "key_path k \<noteq> path" and "fs_block master idx (key_path k) (key_offset k) \<noteq> None"
        using f' [of "key_path k" "key_offset k"] by (auto split: if_splits)
      then obtain q where "file_to_master idx k = Some q" by (cases k) (auto simp: fs_block_def lookup_by_file_block_def)
      then show "\<exists>s. file_to_sizes ?i (key_path k) = Some s \<and> unat (key_offset k) * BLOCK_SIZE < unat s"
        using i(3) np r(4) by (auto simp: sizes_ok_def)
    qed (use i(3) r(4) in \<open>auto simp: sizes_ok_def split: if_splits\<close>)
    moreover have "data_ok SHA512 master {} ?i"
      using sub_infos_data_ok [OF r(3) i(2)] by (simp add: sizes_update_fields)
    ultimately have "store_ok SHA512 (?i, master, nxt)" using r(2) i(4) by (simp add: sizes_update_inv)
    moreover have "fs_block master idx1 = (\<lambda>g b. if g = path then None else fs_block master idx g b)"
      by (intro ext) (rule f')
    ultimately show ?thesis
      using Some r(1,4) by (simp add: unlink_index_def spec_unlink_def sizes_update_fields cong: if_cong)
  qed
qed

lemma xmp_unlink_spec:
  assumes ok: "ctx_ok SHA512 (p_ctx s)"
  shows "\<exists>s0. xmp_unlink k path s = Some (pass_call k s0 (Sys_unlink path)) \<and> backend s0 = backend s \<and>
    ctx_ok SHA512 (p_ctx s0) \<and> ctx_view (p_ctx s0) = spec_unlink path (ctx_view (p_ctx s))"
proof -
  let ?c = "(p_ctx s)\<lparr>cnt_unlink := cnt_unlink (p_ctx s) + 1\<rparr>"
  obtain idx' where u: "unlink_index (index ?c) path = Some idx'"
    and o: "store_ok SHA512 (idx', masterFile (p_ctx s), nextBlockIndex (p_ctx s))"
    and v: "view (idx', masterFile (p_ctx s), nextBlockIndex (p_ctx s)) = spec_unlink path (ctx_view (p_ctx s))"
    using unlink_index_spec [of SHA512 "index (p_ctx s)" "masterFile (p_ctx s)" "nextBlockIndex (p_ctx s)" path] ok
    by (auto simp: ctx_ok_def ctx_view_def store_of_def)
  have "xmp_unlink k path s = map_option (\<lambda>idx. pass_call k (s\<lparr>p_ctx := ?c\<lparr>index := idx\<rparr>\<rparr>) (Sys_unlink path))
      (unlink_index (index ?c) path)"
    unfolding xmp_unlink_def unlink_index_def Let_def ..
  then have "xmp_unlink k path s = Some (pass_call k (s\<lparr>p_ctx := ?c\<lparr>index := idx'\<rparr>\<rparr>) (Sys_unlink path))"
    unfolding u by simp
  then show ?thesis using o v by (intro exI [of _ "s\<lparr>p_ctx := ?c\<lparr>index := idx'\<rparr>\<rparr>"]) (simp add: ctx_ok_def ctx_view_def store_of_def)
qed

section \<open>Truncate\<close>

text \<open>Shrinking drops the blocks from the new end on; anything else leaves the index alone.\<close>

definition spec_truncate :: "path \<Rightarrow> u64 \<Rightarrow> fs_view \<Rightarrow> fs_view" where
  "spec_truncate path sz v =
     (case view_size v path of
        None \<Rightarrow> v
      | Some ls \<Rightarrow>
          if sz < ls then
            v\<lparr>view_block := (\<lambda>f b. if f = path \<and> unat sz \<le> unat b * BLOCK_SIZE then None else view_block v f b),
              view_size := (view_size v)(path \<mapsto> sz)\<rparr>
          else v)"

definition truncate_index :: "Index \<Rightarrow> path \<Rightarrow> u64 \<Rightarrow> Index option" where
  "truncate_index idx path sz =
     (case file_to_sizes idx path of
        None \<Rightarrow> Some idx
      | Some logical_size \<Rightarrow>
          if sz < logical_size then
            map_option (\<lambda>i. case file_to_sizes i path of
                None \<Rightarrow> i
              | Some ls \<Rightarrow> if sz < ls then i\<lparr>file_to_sizes := (file_to_sizes i)(path \<mapsto> sz)\<rparr> else i)
              (remove_blocks_dedup_batch idx path (blocks_up sz) (blocks_up logical_size))
          else Some idx)"

lemma blocks_up_le_iff:
  assumes "unat sz mod BLOCK_SIZE = 0"
  shows "blocks_up sz \<le> b \<longleftrightarrow> unat sz \<le> unat b * BLOCK_SIZE"
proof -
  have "unat sz = unat (blocks_up sz) * BLOCK_SIZE"
    using blocks_up_unat [OF assms] div_mult_mod_eq [of "unat sz" BLOCK_SIZE] assms by simp
  then show ?thesis by (simp add: word_le_nat_alt)
qed

lemma truncate_index_spec:
  assumes ok: "store_ok SHA512 (idx, master, nxt)" and sz: "unat sz mod BLOCK_SIZE = 0"
  shows "\<exists>idx'. truncate_index idx path sz = Some idx' \<and> store_ok SHA512 (idx', master, nxt) \<and>
    view (idx', master, nxt) = spec_truncate path sz (view (idx, master, nxt))"
proof (cases "\<exists>ls. file_to_sizes idx path = Some ls \<and> sz < ls")
  case False
  then show ?thesis using ok by (auto simp: truncate_index_def spec_truncate_def split: option.splits)
next
  case True
  then obtain ls where ls: "file_to_sizes idx path = Some ls" "sz < ls" by blast
  have i: "index_inv nxt idx" "data_ok SHA512 master {} idx" "sizes_ok idx" "unat nxt \<le> MAX_BLOCKS" using ok by simp_all
  obtain idx1 where r: "remove_blocks_dedup_batch idx path (blocks_up sz) (blocks_up ls) = Some idx1" "index_inv nxt idx1"
      "sub_infos idx idx1" "file_to_sizes idx1 = file_to_sizes idx"
    and f: "\<And>g b. fs_block master idx1 g b =
        (if g = path \<and> blocks_up sz \<le> b \<and> b < blocks_up ls then None else fs_block master idx g b)"
    using remove_batch_spec [OF i(1), of path "blocks_up sz" "blocks_up ls" master] by blast
  let ?i = "idx1\<lparr>file_to_sizes := (file_to_sizes idx1)(path \<mapsto> sz)\<rparr>"
  have f': "fs_block master idx1 g b = (if g = path \<and> unat sz \<le> unat b * BLOCK_SIZE then None else fs_block master idx g b)" for g b
    using f [of g b] sizes_ok_mapped [OF i(3), of master path b] ls(1) blocks_up_le_iff [OF sz, of b]
    by (cases "fs_block master idx path b") (auto simp: word_less_nat_alt)
  have "sizes_ok ?i"
    unfolding sizes_ok_def
  proof (intro conjI allI impI)
    fix k p assume k: "file_to_master ?i k = Some p"
    then have ne: "fs_block master idx1 (key_path k) (key_offset k) \<noteq> None"
      by (cases k) (simp add: fs_block_def lookup_by_file_block_def)
    then have np: "key_path k = path \<Longrightarrow> unat (key_offset k) * BLOCK_SIZE < unat sz"
      and "fs_block master idx (key_path k) (key_offset k) \<noteq> None"
      using f' [of "key_path k" "key_offset k"] by (auto split: if_splits)
    then obtain q where "file_to_master idx k = Some q" by (cases k) (auto simp: fs_block_def lookup_by_file_block_def)
    then show "\<exists>s. file_to_sizes ?i (key_path k) = Some s \<and> unat (key_offset k) * BLOCK_SIZE < unat s"
      using i(3) np r(4) by (cases "key_path k = path") (auto simp: sizes_ok_def)
  qed (use i(3) r(4) sz in \<open>auto simp: sizes_ok_def split: if_splits\<close>)
  moreover have "data_ok SHA512 master {} ?i"
    using sub_infos_data_ok [OF r(3) i(2)] by (simp add: sizes_update_fields)
  ultimately have "store_ok SHA512 (?i, master, nxt)" using r(2) i(4) by (simp add: sizes_update_inv)
  moreover have "fs_block master idx1 =
      (\<lambda>g b. if g = path \<and> unat sz \<le> unat b * BLOCK_SIZE then None else fs_block master idx g b)"
    by (intro ext) (rule f')
  ultimately show ?thesis
    using ls r(1,4) by (simp add: truncate_index_def spec_truncate_def sizes_update_fields cong: if_cong)
qed

lemma smod_nonneg: "0 \<le> a \<Longrightarrow> 0 < b \<Longrightarrow> a smod b = a mod (b :: int)"
  by (auto simp: signed_modulo_int_def signed_divide_int_def sgn_if minus_div_mult_eq_mod)

lemma truncate_guard:
  fixes sz :: u64
  assumes "\<not> (sint sz < 0 \<or> sint sz smod int BLOCK_SIZE \<noteq> 0)"
  shows "unat sz mod BLOCK_SIZE = 0" "unat sz < 2 ^ 63"
proof -
  have nn: "0 \<le> sint sz" and m: "sint sz smod int BLOCK_SIZE = 0" using assms by simp_all
  have u: "sint sz = int (unat sz)" using nn by (rule unat_of_sint_nonneg)
  have "sint sz smod int BLOCK_SIZE = int (unat sz mod BLOCK_SIZE)"
    unfolding u by (subst smod_nonneg) (simp_all only: of_nat_0_le_iff of_nat_0_less_iff BLOCK_SIZE_pos zmod_int)
  then show "unat sz mod BLOCK_SIZE = 0" using m by simp
  have "sint sz < 2 ^ 63" using sint_lt [of sz] by simp
  then have "int (unat sz) < int (2 ^ 63)" unfolding u by simp
  then show "unat sz < 2 ^ 63" by (simp only: of_nat_less_iff)
qed

lemma xmp_truncate_spec:
  assumes ok: "ctx_ok SHA512 (p_ctx s)" and g: "\<not> (sint sz < 0 \<or> sint sz smod int BLOCK_SIZE \<noteq> 0)"
  shows "\<exists>s0. xmp_truncate k path sz fi s =
      Some (pass_call k s0 (case fi of Some f \<Rightarrow> Sys_ftruncate (fh f) sz | None \<Rightarrow> Sys_truncate path sz)) \<and>
    backend s0 = backend s \<and> ctx_ok SHA512 (p_ctx s0) \<and> ctx_view (p_ctx s0) = spec_truncate path sz (ctx_view (p_ctx s))"
proof -
  let ?c = "p_ctx s" and ?call = "case fi of Some f \<Rightarrow> Sys_ftruncate (fh f) sz | None \<Rightarrow> Sys_truncate path sz"
  obtain idx' where u: "truncate_index (index ?c) path sz = Some idx'"
    and o: "store_ok SHA512 (idx', masterFile ?c, nextBlockIndex ?c)"
    and v: "view (idx', masterFile ?c, nextBlockIndex ?c) = spec_truncate path sz (ctx_view ?c)"
    using truncate_index_spec [of SHA512 "index ?c" "masterFile ?c" "nextBlockIndex ?c" sz path] ok truncate_guard(1) [OF g]
    by (auto simp: ctx_ok_def ctx_view_def store_of_def)
  have "xmp_truncate k path sz fi s = map_option (\<lambda>idx. pass_call k (s\<lparr>p_ctx := ?c\<lparr>index := idx\<rparr>\<rparr>) ?call)
      (truncate_index (index ?c) path sz)"
    unfolding xmp_truncate_def truncate_index_def Let_def if_not_P [OF g] ..
  then have "xmp_truncate k path sz fi s = Some (pass_call k (s\<lparr>p_ctx := ?c\<lparr>index := idx'\<rparr>\<rparr>) ?call)" unfolding u by simp
  then show ?thesis using o v by (intro exI [of _ "s\<lparr>p_ctx := ?c\<lparr>index := idx'\<rparr>\<rparr>"]) (simp add: ctx_ok_def ctx_view_def store_of_def)
qed

section \<open>Reads and writes\<close>

lemma xmp_write_fail:
  assumes "get_fd k path O_WRONLY fi (s\<lparr>p_ctx := (p_ctx s)\<lparr>cnt_write := cnt_write (p_ctx s) + 1\<rparr>\<rparr>) = (Inl e, s1)"
  shows "xmp_write SHA512 io k path buf sz offset fi s = Some (e, s1)" "store_of (p_ctx s1) = store_of (p_ctx s)"
  using assms get_fd_ctx [OF assms] by (simp_all add: xmp_write_def store_of_def)

lemma xmp_write_run:
  assumes "get_fd k path O_WRONLY fi (s\<lparr>p_ctx := (p_ctx s)\<lparr>cnt_write := cnt_write (p_ctx s) + 1\<rparr>\<rparr>) = (Inr fd, s1)"
    and "write_dedup SHA512 io (store_of (p_ctx s)) path buf sz offset = Some (r, st')"
  shows "\<exists>s'. xmp_write SHA512 io k path buf sz offset fi s = Some (r, s') \<and> store_of (p_ctx s') = st'"
proof -
  have "store_of (p_ctx s1) = store_of (p_ctx s)" using get_fd_ctx [OF assms(1)] by (simp add: store_of_def)
  then show ?thesis using assms by (simp add: xmp_write_def)
qed

text \<open>A write request the machine types can hold.\<close>

definition write_fits :: "io_outcome list \<Rightarrow> byte list \<Rightarrow> u64 \<Rightarrow> u64 \<Rightarrow> 'b fs_state \<Rightarrow> bool" where
  "write_fits io buf sz offset s \<longleftrightarrow> errno_contract io \<and> unat sz \<le> length buf \<and> request_fits (store_of (p_ctx s)) sz offset"

lemma write_dedup_total:
  assumes ok: "store_ok SHA512 st" and io: "errno_contract io" and len: "unat sz \<le> length buf" and fits: "request_fits st sz off"
  shows "\<exists>r st'. write_dedup SHA512 io st path buf sz off = Some (r, st') \<and> store_ok SHA512 st'"
proof -
  consider (zero) "sz = 0" | (part) "sz \<noteq> 0" "unat sz mod BLOCK_SIZE \<noteq> 0"
    | (blocks) n where "unat sz = n * BLOCK_SIZE" "0 < n"
    using unat_gt_0 [of sz] by (metis div_mult_mod_eq add.right_neutral mult_is_0 neq0_conv)
  then show ?thesis
  proof cases
    case zero
    then show ?thesis using ok write_dedup_guards(1) [of sz] by simp
  next
    case part
    then show ?thesis using ok write_dedup_guards(2) [of sz] by simp
  next
    case blocks
    then show ?thesis using write_dedup_store [OF ok fits blocks len io, of path] by blast
  qed
qed

lemma xmp_write_ok:
  assumes ok: "ctx_ok SHA512 (p_ctx s)" and fits: "write_fits io buf sz offset s"
  shows "\<exists>r s'. xmp_write SHA512 io k path buf sz offset fi s = Some (r, s') \<and> ctx_ok SHA512 (p_ctx s')"
proof -
  let ?s0 = "s\<lparr>p_ctx := (p_ctx s)\<lparr>cnt_write := cnt_write (p_ctx s) + 1\<rparr>\<rparr>"
  obtain x s1 where g: "get_fd k path O_WRONLY fi ?s0 = (x, s1)" by force
  show ?thesis
  proof (cases x)
    case (Inl e)
    then show ?thesis using xmp_write_fail [of k path fi s e s1] g ok by (simp add: ctx_ok_def)
  next
    case (Inr fd)
    obtain r st' where w: "write_dedup SHA512 io (store_of (p_ctx s)) path buf sz offset = Some (r, st')" "store_ok SHA512 st'"
      using write_dedup_total [of SHA512 "store_of (p_ctx s)" io sz buf offset path] ok fits by (auto simp: ctx_ok_def write_fits_def)
    then show ?thesis using xmp_write_run [OF g [unfolded Inr] w(1)] by (auto simp: ctx_ok_def)
  qed
qed

lemma xmp_read_ctx:
  assumes "xmp_read qsort mok io k path buf sz offset fi s = Some (r, buf', s')"
  shows "store_of (p_ctx s') = store_of (p_ctx s)"
proof -
  let ?s0 = "s\<lparr>p_ctx := (p_ctx s)\<lparr>cnt_read := cnt_read (p_ctx s) + 1\<rparr>\<rparr>"
  obtain x s1 where g: "get_fd k path O_RDONLY fi ?s0 = (x, s1)" by force
  have "store_of (p_ctx s1) = store_of (p_ctx s)" using get_fd_ctx [OF g] by (simp add: store_of_def)
  then show ?thesis using assms g by (cases x) (auto simp: xmp_read_def)
qed

section \<open>The mounted file system as a state machine\<close>

text \<open>A request is what FUSE dispatches through \<^verbatim>\<open>xmp_oper\<close>, together with what the calls on the master
  file and \<^verbatim>\<open>malloc\<close> do while it is served; \<open>serve\<close> is that table. The optional entries are compiled in.\<close>

datatype (plugins only: code size) request =
    Getattr path | Access path int | Readlink path "byte list" nat | Readdir nat int path
  | Mknod path u32 u64 | Mkdir path u32 | Symlink string path | Unlink path | Rmdir path | Rename path path u32
  | Link path path | Chmod path u32 | Chown path u32 u32 | Truncate path u64 "fuse_file_info option"
  | Utimens path "int \<times> int" | Open path fuse_file_info | Create path u32 fuse_file_info
  | Read bool "io_outcome list" path "byte list" u64 u64 "fuse_file_info option"
  | Write "io_outcome list" path "byte list" u64 u64 "fuse_file_info option"
  | Statfs path | Release fuse_file_info | Fsync int fuse_file_info
  | Fallocate path int u64 u64 "fuse_file_info option"
  | Setxattr path string "byte list" int | Getxattr path string nat | Listxattr path nat | Removexattr path string

fun serve ::
    "(byte list \<Rightarrow> digest) \<Rightarrow> ((BlockPair \<Rightarrow> BlockPair \<Rightarrow> int) \<Rightarrow> BlockPair list \<Rightarrow> BlockPair list) \<Rightarrow>
     ('f \<Rightarrow> string \<Rightarrow> stat \<Rightarrow> int \<Rightarrow> int \<times> 'f) \<Rightarrow> 'f \<Rightarrow> 'b kernel \<Rightarrow> request \<Rightarrow> 'b fs_state \<Rightarrow> (int \<times> 'b fs_state) option" where
  "serve SHA512 qsort filler acc k (Getattr path) s = (let (r, st, s') = xmp_getattr k path s in Some (r, s'))"
| "serve SHA512 qsort filler acc k (Access path msk) s = Some (xmp_access k path msk s)"
| "serve SHA512 qsort filler acc k (Readlink path buf n) s = map_option (\<lambda>(r, buf', s'). (r, s')) (xmp_readlink k path buf n s)"
| "serve SHA512 qsort filler acc k (Readdir n fdp path) s =
     map_option (\<lambda>(r, acc', s'). (r, s')) (xmp_readdir n k filler fdp path acc s)"
| "serve SHA512 qsort filler acc k (Mknod path mode rdev) s = Some (xmp_mknod k path mode rdev s)"
| "serve SHA512 qsort filler acc k (Mkdir path mode) s = Some (xmp_mkdir k path mode s)"
| "serve SHA512 qsort filler acc k (Symlink target path) s = Some (xmp_symlink k target path s)"
| "serve SHA512 qsort filler acc k (Unlink path) s = xmp_unlink k path s"
| "serve SHA512 qsort filler acc k (Rmdir path) s = Some (xmp_rmdir k path s)"
| "serve SHA512 qsort filler acc k (Rename path path' flags) s = Some (xmp_rename k path path' flags s)"
| "serve SHA512 qsort filler acc k (Link path path') s = Some (xmp_link k path path' s)"
| "serve SHA512 qsort filler acc k (Chmod path mode) s = Some (xmp_chmod k path mode s)"
| "serve SHA512 qsort filler acc k (Chown path uid gid) s = Some (xmp_chown k path uid gid s)"
| "serve SHA512 qsort filler acc k (Truncate path sz fi) s = xmp_truncate k path sz fi s"
| "serve SHA512 qsort filler acc k (Utimens path ts) s = Some (xmp_utimens k path ts s)"
| "serve SHA512 qsort filler acc k (Open path f) s = (let (r, f', s') = xmp_open k path f s in Some (r, s'))"
| "serve SHA512 qsort filler acc k (Create path mode f) s = (let (r, f', s') = xmp_create k path mode f s in Some (r, s'))"
| "serve SHA512 qsort filler acc k (Read mok io path buf sz off fi) s =
     map_option (\<lambda>(r, buf', s'). (r, s')) (xmp_read qsort mok io k path buf sz off fi s)"
| "serve SHA512 qsort filler acc k (Write io path buf sz off fi) s = xmp_write SHA512 io k path buf sz off fi s"
| "serve SHA512 qsort filler acc k (Statfs path) s = Some (xmp_statfs k path s)"
| "serve SHA512 qsort filler acc k (Release f) s = Some (xmp_release k f s)"
| "serve SHA512 qsort filler acc k (Fsync ds f) s = Some (xmp_fsync k ds f s)"
| "serve SHA512 qsort filler acc k (Fallocate path md off len fi) s = Some (xmp_fallocate k path md off len fi s)"
| "serve SHA512 qsort filler acc k (Setxattr path nm val fl) s = Some (xmp_setxattr k path nm val fl s)"
| "serve SHA512 qsort filler acc k (Getxattr path nm n) s = Some (xmp_getxattr k path nm n s)"
| "serve SHA512 qsort filler acc k (Listxattr path n) s = Some (xmp_listxattr k path n s)"
| "serve SHA512 qsort filler acc k (Removexattr path nm) s = Some (xmp_removexattr k path nm s)"

text \<open>The requests that reach the store, and what a write has to respect.\<close>

fun mutates :: "request \<Rightarrow> bool" where
  "mutates (Unlink path) = True"
| "mutates (Truncate path sz fi) = True"
| "mutates (Write io path buf sz off fi) = True"
| "mutates _ = False"

fun request_ok :: "'b fs_state \<Rightarrow> request \<Rightarrow> bool" where
  "request_ok s (Write io path buf sz off fi) = write_fits io buf sz off s"
| "request_ok s _ = True"

lemma handler_ctx:
  "store_of (p_ctx (snd (snd (xmp_getattr k path s)))) = store_of (p_ctx s)"
  "store_of (p_ctx (snd (snd (xmp_create k path mode fi s)))) = store_of (p_ctx s)"
  "store_of (p_ctx (snd (snd (xmp_open k path fi s)))) = store_of (p_ctx s)"
  "store_of (p_ctx (snd (xmp_release k fi s))) = store_of (p_ctx s)"
  "store_of (p_ctx (snd (xmp_fsync k ds fi s))) = store_of (p_ctx s)"
  "store_of (p_ctx (snd (xmp_mknod k path mode rdev s))) = store_of (p_ctx s)"
  "store_of (p_ctx (snd (xmp_rename k path path' flags s))) = store_of (p_ctx s)"
  "store_of (p_ctx (snd (xmp_fallocate k path md off len fio s))) = store_of (p_ctx s)"
proof -
  show "store_of (p_ctx (snd (snd (xmp_getattr k path s)))) = store_of (p_ctx s)"
    "store_of (p_ctx (snd (snd (xmp_create k path mode fi s)))) = store_of (p_ctx s)"
    "store_of (p_ctx (snd (snd (xmp_open k path fi s)))) = store_of (p_ctx s)"
    "store_of (p_ctx (snd (xmp_release k fi s))) = store_of (p_ctx s)"
    "store_of (p_ctx (snd (xmp_fsync k ds fi s))) = store_of (p_ctx s)"
    by (auto simp: xmp_getattr_def xmp_create_def xmp_open_def xmp_release_def xmp_fsync_def Let_def store_of_def do_call_ctx'
        split: prod.split)
  show "store_of (p_ctx (snd (xmp_mknod k path mode rdev s))) = store_of (p_ctx s)"
    using mknod_wrapper_ctx [of k path None mode rdev s] by (auto simp: xmp_mknod_def Let_def store_of_def split: prod.split)
  show "store_of (p_ctx (snd (xmp_rename k path path' flags s))) = store_of (p_ctx s)"
    by (simp add: xmp_rename_def store_of_def)
  show "store_of (p_ctx (snd (xmp_fallocate k path md off len fio s))) = store_of (p_ctx s)"
    by (auto simp: xmp_fallocate_def Let_def store_of_def do_call_ctx' dest: get_fd_ctx split: prod.split sum.split)
qed

lemma xmp_readlink_ctx: "xmp_readlink k path buf sz s = Some (r, buf', s') \<Longrightarrow> p_ctx s' = p_ctx s"
  by (auto simp: xmp_readlink_def Let_def do_call_ctx' split: prod.splits if_splits option.splits)

lemma xmp_readdir_ctx:
  assumes "xmp_readdir n k filler fdp path acc s = Some (r, acc', s')"
  shows "p_ctx s' = p_ctx s"
proof -
  obtain r1 s1 where o: "do_call k s (Sys_opendir path) = (r1, s1)" by force
  show ?thesis
    using assms o do_call_ctx' [OF o]
    by (auto simp: xmp_readdir_def Let_def split: if_splits option.splits prod.splits dest!: readdir_loop_ctx do_call_ctx')
qed

lemmas pass_handler_defs = xmp_access_def xmp_mkdir_def xmp_rmdir_def xmp_symlink_def xmp_link_def xmp_chmod_def
  xmp_chown_def xmp_utimens_def xmp_statfs_def xmp_setxattr_def xmp_getxattr_def xmp_listxattr_def xmp_removexattr_def

lemma snd_ctx: "x = (r, s') \<Longrightarrow> store_of (p_ctx (snd x)) = z \<Longrightarrow> store_of (p_ctx s') = z"
  by simp

lemma snd_snd_ctx: "x = (r, y, s') \<Longrightarrow> store_of (p_ctx (snd (snd x))) = z \<Longrightarrow> store_of (p_ctx s') = z"
  by simp

lemma pass_call_store: "pass_call k s c = (r, s') \<Longrightarrow> store_of (p_ctx s') = store_of (p_ctx s)"
  using pass_call_ctx [of k s c] by simp

lemma pass_length_store: "pass_length k s c = (r, s') \<Longrightarrow> store_of (p_ctx s') = store_of (p_ctx s)"
  using pass_length_ctx [of k s c] by simp

lemma serve_frame:
  assumes "serve SHA512 qsort filler acc k req s = Some (r, s')" and "\<not> mutates req"
  shows "store_of (p_ctx s') = store_of (p_ctx s)"
  using assms
  by (cases req)
    (auto simp: pass_handler_defs split: prod.splits
      intro: pass_call_store pass_length_store xmp_read_ctx
        snd_snd_ctx [OF _ handler_ctx(1)] snd_snd_ctx [OF _ handler_ctx(2)] snd_snd_ctx [OF _ handler_ctx(3)]
        snd_ctx [OF _ handler_ctx(4)] snd_ctx [OF _ handler_ctx(5)] snd_ctx [OF _ handler_ctx(6)]
        snd_ctx [OF _ handler_ctx(7)] snd_ctx [OF _ handler_ctx(8)]
      dest!: xmp_readlink_ctx xmp_readdir_ctx)

lemma xmp_truncate_ok:
  assumes ok: "ctx_ok SHA512 (p_ctx s)" and t: "xmp_truncate k path sz fi s = Some (r, s')"
  shows "ctx_ok SHA512 (p_ctx s')"
proof (cases "sint sz < 0 \<or> sint sz smod int BLOCK_SIZE \<noteq> 0")
  case True
  then show ?thesis using t ok by (simp add: xmp_truncate_def)
next
  case False
  then show ?thesis using xmp_truncate_spec [OF ok False, of k path fi] t by (metis option.inject pass_call_ctx snd_conv)
qed

lemma serve_ctx_ok:
  assumes ok: "ctx_ok SHA512 (p_ctx s)" and req: "request_ok s req"
    and s: "serve SHA512 qsort filler acc k req s = Some (r, s')"
  shows "ctx_ok SHA512 (p_ctx s')"
proof (cases "mutates req")
  case False
  then show ?thesis using serve_frame [OF s] ok by (simp add: ctx_ok_def)
next
  case True
  then show ?thesis
  proof (cases req rule: mutates.cases)
    case (1 path)
    then show ?thesis using s xmp_unlink_spec [OF ok, of k path] by (metis option.inject pass_call_ctx serve.simps(8) snd_conv)
  next
    case (2 path sz fi)
    then show ?thesis using s xmp_truncate_ok [OF ok] by simp
  next
    case (3 io path buf sz off fi)
    then show ?thesis using s xmp_write_ok [OF ok, of io buf sz off k path fi] req by auto
  qed simp_all
qed

text \<open>One step serves one request, with any kernel, any outcome of the I/O and any reply.\<close>

inductive fs_reach :: "(byte list \<Rightarrow> digest) \<Rightarrow> 'b fs_state \<Rightarrow> 'b fs_state \<Rightarrow> bool" for SHA512 s0 where
  fs_start: "fs_reach SHA512 s0 s0"
| fs_next: "fs_reach SHA512 s0 s \<Longrightarrow> request_ok s req \<Longrightarrow>
    serve SHA512 qsort (filler :: string list \<Rightarrow> _) acc k req s = Some (r, s') \<Longrightarrow> fs_reach SHA512 s0 s'"

lemma fs_reach_ok:
  assumes "fs_reach SHA512 s0 s" and "ctx_ok SHA512 (p_ctx s0)"
  shows "ctx_ok SHA512 (p_ctx s)"
  using assms by (induction rule: fs_reach.induct) (auto intro: serve_ctx_ok)

section \<open>Unmount and mount\<close>

text \<open>Requests whose writes do not fail keep the master file tight.\<close>

fun request_clean :: "request \<Rightarrow> bool" where
  "request_clean (Write io path buf sz off fi) \<longleftrightarrow> io = []"
| "request_clean _ \<longleftrightarrow> True"

lemma pass_call_master:
  assumes "pass_call k s c = (r, s')"
  shows "masterFile (p_ctx s') = masterFile (p_ctx s) \<and> nextBlockIndex (p_ctx s') = nextBlockIndex (p_ctx s)"
  using pass_call_ctx [of k s c] assms by simp

lemma xmp_unlink_master:
  assumes "xmp_unlink k path s = Some (r, s')"
  shows "masterFile (p_ctx s') = masterFile (p_ctx s) \<and> nextBlockIndex (p_ctx s') = nextBlockIndex (p_ctx s)"
  using assms by (auto simp: xmp_unlink_def Let_def dest!: pass_call_master)

lemma xmp_truncate_master:
  assumes "xmp_truncate k path sz fi s = Some (r, s')"
  shows "masterFile (p_ctx s') = masterFile (p_ctx s) \<and> nextBlockIndex (p_ctx s') = nextBlockIndex (p_ctx s)"
  using assms by (auto simp: xmp_truncate_def Let_def dest!: pass_call_master split: if_splits)

lemma store_tight_ctx: "store_tight (store_of c) \<longleftrightarrow> tight (masterFile c) (nextBlockIndex c)"
  by (simp add: store_of_def)

lemma write_dedup_tight':
  assumes ok: "store_ok SHA512 st" and fits: "request_fits st sz off" and len: "unat sz \<le> length buf"
    and w: "write_dedup SHA512 [] st path buf sz off = Some (r, st')" and t: "store_tight st"
  shows "store_tight st'"
proof -
  consider (zero) "sz = 0" | (part) "sz \<noteq> 0" "unat sz mod BLOCK_SIZE \<noteq> 0"
    | (blocks) n where "unat sz = n * BLOCK_SIZE" "0 < n"
    using unat_gt_0 [of sz] by (metis div_mult_mod_eq add.right_neutral mult_is_0 neq0_conv)
  then show ?thesis
  proof cases
    case blocks
    then show ?thesis using write_dedup_tight [OF ok fits blocks len _ w _ t] by (simp add: errno_contract_def)
  qed (use w t write_dedup_guards [of sz] in auto)
qed

lemma xmp_write_tight:
  assumes ok: "ctx_ok SHA512 (p_ctx s)" and fits: "write_fits [] buf sz offset s"
    and w: "xmp_write SHA512 [] k path buf sz offset fi s = Some (r, s')" and t: "store_tight (store_of (p_ctx s))"
  shows "store_tight (store_of (p_ctx s'))"
proof -
  let ?s0 = "s\<lparr>p_ctx := (p_ctx s)\<lparr>cnt_write := cnt_write (p_ctx s) + 1\<rparr>\<rparr>"
  obtain x s1 where g: "get_fd k path O_WRONLY fi ?s0 = (x, s1)" by force
  show ?thesis
  proof (cases x)
    case (Inl e)
    then show ?thesis using xmp_write_fail [of k path fi s e s1] g w t by simp
  next
    case (Inr fd)
    have st: "store_of (p_ctx s1) = store_of (p_ctx s)" using get_fd_ctx [OF g] by (simp add: store_of_def)
    obtain r' st' where d: "write_dedup SHA512 [] (store_of (p_ctx s)) path buf sz offset = Some (r', st')"
      and s': "s' = put_fd k fd fi (s1\<lparr>p_ctx := set_store (p_ctx s1) st'\<rparr>)"
      using w g Inr st by (auto simp: xmp_write_def)
    have "store_tight st'"
      using write_dedup_tight' [OF _ _ _ d t] ok fits by (simp add: ctx_ok_def write_fits_def)
    then show ?thesis by (simp add: s')
  qed
qed

lemma serve_tight:
  assumes ok: "ctx_ok SHA512 (p_ctx s)" and req: "request_ok s req" "request_clean req"
    and s: "serve SHA512 qsort filler acc k req s = Some (r, s')" and t: "store_tight (store_of (p_ctx s))"
  shows "store_tight (store_of (p_ctx s'))"
proof (cases "mutates req")
  case False
  then show ?thesis using serve_frame [OF s] t by simp
next
  case True
  then show ?thesis
  proof (cases req rule: mutates.cases)
    case (1 path)
    then show ?thesis using s t xmp_unlink_master [of k path s r s'] by (simp add: store_tight_ctx)
  next
    case (2 path sz fi)
    then show ?thesis using s t xmp_truncate_master [of k path sz fi s r s'] by (simp add: store_tight_ctx)
  next
    case (3 io path buf sz off fi)
    then show ?thesis using s xmp_write_tight [OF ok _ _ t, of buf sz off k path fi r s'] req by simp
  qed simp_all
qed

text \<open>The state of a mount that lasted without failing writes.\<close>

inductive fs_clean :: "(byte list \<Rightarrow> digest) \<Rightarrow> 'b fs_state \<Rightarrow> 'b fs_state \<Rightarrow> bool" for SHA512 s0 where
  clean_start: "fs_clean SHA512 s0 s0"
| clean_next: "fs_clean SHA512 s0 s \<Longrightarrow> request_ok s req \<Longrightarrow> request_clean req \<Longrightarrow>
    serve SHA512 qsort (filler :: string list \<Rightarrow> _) acc k req s = Some (r, s') \<Longrightarrow> fs_clean SHA512 s0 s'"

lemma fs_clean_tight:
  assumes "fs_clean SHA512 s0 s" and "ctx_ok SHA512 (p_ctx s0)" "store_tight (store_of (p_ctx s0))"
  shows "ctx_ok SHA512 (p_ctx s) \<and> store_tight (store_of (p_ctx s))"
  using assms by (induction rule: fs_clean.induct) (auto intro: serve_ctx_ok serve_tight)

end
