(* ===== verification/Handler_Sections.thy ===== *)
theory Handler_Sections
  imports Interleaving_Runs Passthrough_Spec
begin

text \<open>
  The handlers that change the size of a file, next to the running writes. \<^verbatim>\<open>xmp_unlink\<close> and
  \<^verbatim>\<open>xmp_truncate\<close> of \<^verbatim>\<open>src/passthrough.c\<close> read the logical size under the read lock, drop the blocks with
  \<^verbatim>\<open>remove_blocks_dedup_batch\<close>, which takes its own locks, and change \<^verbatim>\<open>file_to_sizes\<close> in a section of its
  own; between these sections any other thread may run. The state of a mounted file system is the store,
  the multiset of the running writes and the multiset of the running handlers. Every run keeps the
  invariant of the index, every section is an atomic change of contents or sizes, and all running
  operations can come to their end.
\<close>

section \<open>Model\<close>

text \<open>A handler before its next section. The target is \<open>None\<close> for an unlink and the new size for a
  truncate. After its last section only the system call is left, which does not touch the store.\<close>

datatype handler =
    Sizing path "u64 option"
  | Dropping path "u64 option" u64 u64
  | Removing path "u64 option" thread
  | Resizing path "u64 option"

datatype fs_event =
    Section event
  | Resized path "u64 option"

text \<open>The check that \<^verbatim>\<open>xmp_truncate\<close> makes before anything else.\<close>

definition target_ok :: "u64 option \<Rightarrow> bool" where
  "target_ok target = (case target of None \<Rightarrow> True | Some sz \<Rightarrow> \<not> (sint sz < 0 \<or> sint sz smod int BLOCK_SIZE \<noteq> 0))"

definition size_section :: "path \<Rightarrow> u64 option \<Rightarrow> Index \<Rightarrow> handler option" where
  "size_section path target idx =
     (case file_to_sizes idx path of
        None \<Rightarrow> None
      | Some logical_size \<Rightarrow>
          (case target of
             None \<Rightarrow> Some (Dropping path None 0 (blocks_up logical_size))
           | Some sz \<Rightarrow> if sz < logical_size then Some (Dropping path (Some sz) (blocks_up sz) (blocks_up logical_size)) else None))"

definition resize_section :: "path \<Rightarrow> u64 option \<Rightarrow> Index \<Rightarrow> Index" where
  "resize_section path target idx =
     (case target of
        None \<Rightarrow> idx\<lparr>file_to_sizes := (file_to_sizes idx)(path := None)\<rparr>
      | Some sz \<Rightarrow>
          (case file_to_sizes idx path of
             None \<Rightarrow> idx
           | Some ls \<Rightarrow> if sz < ls then idx\<lparr>file_to_sizes := (file_to_sizes idx)(path \<mapsto> sz)\<rparr> else idx))"

fun handler_step :: "handler \<Rightarrow> store \<Rightarrow> (fs_event list \<times> handler option \<times> store) option" where
  "handler_step (Sizing path target) (idx, master, nxt) = Some ([], size_section path target idx, (idx, master, nxt))"
| "handler_step (Dropping path target s e) st =
     (if s \<ge> e then Some ([], Some (Resizing path target), st)
      else map_option (\<lambda>(t, st'). ([Section (Dropped path s e)], Some (Removing path target t), st')) (begin_remove path s e st))"
| "handler_step (Removing path target t) st =
     map_option (\<lambda>(evs, t', st'). (map Section evs,
         Some (case t' of None \<Rightarrow> Resizing path target | Some u \<Rightarrow> Removing path target u), st')) (thread_step IoOk t st)"
| "handler_step (Resizing path target) (idx, master, nxt) =
     Some ([Resized path target], None, (resize_section path target idx, master, nxt))"

declare handler_step.simps [simp del]

text \<open>What a handler contributes to the pool of operations.\<close>

fun h_threads :: "handler \<Rightarrow> thread multiset" where
  "h_threads (Removing path target t) = {#t#}"
| "h_threads _ = {#}"

definition all_threads :: "thread multiset \<Rightarrow> handler multiset \<Rightarrow> thread multiset" where
  "all_threads T H = T + (\<Sum>h \<in># H. h_threads h)"

definition next_handler :: "handler option \<Rightarrow> handler multiset \<Rightarrow> handler multiset" where
  "next_handler h H = (case h of None \<Rightarrow> H | Some h' \<Rightarrow> add_mset h' H)"

text \<open>The next section of any request, or the arrival of a new one.\<close>

inductive fs_step ::
    "(byte list \<Rightarrow> digest) \<Rightarrow> thread multiset \<Rightarrow> handler multiset \<Rightarrow> store \<Rightarrow> fs_event list \<Rightarrow>
     thread multiset \<Rightarrow> handler multiset \<Rightarrow> store \<Rightarrow> bool"
  for SHA512 :: "byte list \<Rightarrow> digest" where
  new_write: "conc_request SHA512 (all_threads T H) st buf sz off \<Longrightarrow> begin_write SHA512 path buf sz off st = Some (t, st') \<Longrightarrow>
    fs_step SHA512 T H st [] (add_mset t T) H st'"
| new_handler: "target_ok target \<Longrightarrow> fs_step SHA512 T H st [] T (add_mset (Sizing path target) H) st"
| write_section: "outcome_ok out \<Longrightarrow> thread_fits t st \<Longrightarrow> thread_step out t st = Some (evs, t', st') \<Longrightarrow>
    fs_step SHA512 (add_mset t T) H st (map Section evs) (continue t' T) H st'"
| handler_section: "handler_step h st = Some (evs, h', st') \<Longrightarrow>
    fs_step SHA512 T (add_mset h H) st evs T (next_handler h' H) st'"

inductive fs_run ::
    "(byte list \<Rightarrow> digest) \<Rightarrow> store \<Rightarrow> fs_event list \<Rightarrow> thread multiset \<Rightarrow> handler multiset \<Rightarrow> store \<Rightarrow> bool"
  for SHA512 :: "byte list \<Rightarrow> digest" and st0 :: store where
  run_start: "fs_run SHA512 st0 [] {#} {#} st0"
| run_step: "fs_run SHA512 st0 evs T H st \<Longrightarrow> fs_step SHA512 T H st evs' T' H' st' \<Longrightarrow> fs_run SHA512 st0 (evs @ evs') T' H' st'"

section \<open>What the events mean\<close>

fun apply_fs_event :: "fs_event \<Rightarrow> fs_view \<Rightarrow> fs_view" where
  "apply_fs_event (Section e) v = apply_event e v"
| "apply_fs_event (Resized path None) v = v\<lparr>view_size := (view_size v)(path := None)\<rparr>"
| "apply_fs_event (Resized path (Some sz)) v =
     (case view_size v path of
        None \<Rightarrow> v
      | Some ls \<Rightarrow> if sz < ls then v\<lparr>view_size := (view_size v)(path \<mapsto> sz)\<rparr> else v)"

fun fs_event_blocks :: "fs_event \<Rightarrow> byte list set" where
  "fs_event_blocks (Section e) = event_blocks e"
| "fs_event_blocks (Resized path target) = {}"

definition fs_committed :: "fs_event list \<Rightarrow> byte list set" where
  "fs_committed evs = (\<Union>e \<in> set evs. fs_event_blocks e)"

lemma fs_committed_simps [simp]:
  "fs_committed [] = {}" "fs_committed (e # evs) = fs_event_blocks e \<union> fs_committed evs"
  "fs_committed (evs @ evs') = fs_committed evs \<union> fs_committed evs'" "fs_committed (map Section es) = committed es"
  by (auto simp: fs_committed_def committed_def)

lemma fold_sections [simp]: "fold apply_fs_event (map Section es) v = fold apply_event es v"
  by (induction es arbitrary: v) simp_all

section \<open>The invariant\<close>

lemma conc_inv_sizes:
  assumes "conc_inv SHA512 K T (idx, master, nxt)"
  shows "conc_inv SHA512 K T (idx\<lparr>file_to_sizes := z\<rparr>, master, nxt)"
proof -
  let ?i = "idx\<lparr>file_to_sizes := z\<rparr>"
  note own = assms [unfolded conc_inv_def]
  note D = own_invD [OF own, simplified]
  obtain rel where rel: "mset rel = pool t_rel T" "slots_ok (set_mset (pool t_pend T)) (set_mset (pool t_resv T)) rel nxt idx"
    using D(3) by blast
  have "own_inv SHA512 K T [] [] [] [] (?i, master, nxt)"
  proof (rule own_invI [OF _ _ rel(1)])
    show "\<forall>t \<in># T. thread_ok SHA512 (set [] \<union> set_mset (pool t_pend T)) master ?i t"
      by (rule others_frame [OF D(12)]) simp_all
  qed (use D rel in \<open>simp_all add: tables_ok_def counts_ok_def slots_ok_def data_ok_def data_in_def refs_def published_def
        slot_of_def [abs_def]\<close>)
  then show ?thesis by (simp add: conc_inv_def)
qed

text \<open>What a section of a request does: it keeps the invariant of all running operations and changes
  contents and sizes as its events say. Sizes cover the blocks as long as no handler changes them.\<close>

definition step_ok :: "(byte list \<Rightarrow> digest) \<Rightarrow> byte list set \<Rightarrow> store \<Rightarrow> fs_event list \<Rightarrow> thread multiset \<Rightarrow> store \<Rightarrow> bool" where
  "step_ok SHA512 K st evs T st' \<longleftrightarrow>
     conc_inv SHA512 (K \<union> fs_committed evs) T st' \<and>
     (no_collision SHA512 (K \<union> fs_committed evs) \<longrightarrow> view st' = fold apply_fs_event evs (view st)) \<and>
     ((\<forall>path target. Resized path target \<notin> set evs) \<longrightarrow> sizes_ok (fst st) \<longrightarrow> sizes_ok (fst st'))"

lemma step_ok_sections: "section_ok SHA512 K st evs T st' \<Longrightarrow> step_ok SHA512 K st (map Section evs) T st'"
  by (auto simp: step_ok_def section_ok_def)

lemma step_ok_none: "conc_inv SHA512 K T st \<Longrightarrow> step_ok SHA512 K st [] T st"
  by (simp add: step_ok_def)

lemma step_ok_trans:
  assumes "step_ok SHA512 K st evs T st1" and "step_ok SHA512 (K \<union> fs_committed evs) st1 evs' T' st2"
  shows "step_ok SHA512 K st (evs @ evs') T' st2"
proof -
  have "no_collision SHA512 (K \<union> fs_committed evs)" if "no_collision SHA512 (K \<union> fs_committed (evs @ evs'))"
    by (rule no_collision_subset [OF that]) auto
  then show ?thesis using assms by (auto simp: step_ok_def Un_assoc)
qed

lemma resize_section_ok:
  assumes "conc_inv SHA512 K T (idx, master, nxt)"
  shows "step_ok SHA512 K (idx, master, nxt) [Resized path target] T (resize_section path target idx, master, nxt)"
  using assms conc_inv_sizes [OF assms]
  by (cases target) (auto simp: step_ok_def resize_section_def sizes_update_fields split: option.split)

lemma all_threads_simps [simp]:
  "all_threads {#} {#} = {#}" "all_threads (add_mset t T) H = add_mset t (all_threads T H)"
  "all_threads T (add_mset h H) = h_threads h + all_threads T H"
  by (simp_all add: all_threads_def)

lemma all_threads_continue: "all_threads (continue t T) H = continue t (all_threads T H)"
  by (simp add: continue_def split: option.split)

text \<open>A removal inside a handler is in its last section.\<close>

fun h_ok :: "handler \<Rightarrow> bool" where
  "h_ok (Removing path target (Releasing rc slots)) \<longleftrightarrow> True"
| "h_ok (Removing path target t) \<longleftrightarrow> False"
| "h_ok _ \<longleftrightarrow> True"

lemma begin_remove_releasing: "begin_remove path s e st = Some (t, st') \<Longrightarrow> \<exists>slots. t = Releasing 0 slots"
  by (cases st) auto

lemma h_ok_step:
  assumes "h_ok h" and "handler_step h st = Some (evs, Some h', st')"
  shows "h_ok h'"
proof -
  obtain idx master nxt where st: "st = (idx, master, nxt)" by (cases st)
  show ?thesis
  proof (cases h)
    case (Sizing path target)
    then show ?thesis using assms(2)
      by (auto simp: st handler_step.simps size_section_def split: option.splits if_splits)
  next
    case (Removing path target t)
    then obtain rc slots where "t = Releasing rc slots" using assms(1) by (cases t) simp_all
    then show ?thesis using assms(2) Removing by (auto simp: st handler_step.simps thread_step.simps)
  qed (use assms(2) in \<open>auto simp: st handler_step.simps split: if_splits\<close>)
qed

lemma h_ok_fits: "h_ok h \<Longrightarrow> t \<in># h_threads h \<Longrightarrow> thread_fits t st"
  by (cases h rule: h_ok.cases) simp_all

text \<open>The next section of a handler returns.\<close>

lemma handler_step_ok:
  assumes inv: "conc_inv SHA512 K (h_threads h + T) st" and ok: "h_ok h"
  shows "\<exists>evs h' st'. handler_step h st = Some (evs, h', st') \<and>
    step_ok SHA512 K st evs ((case h' of None \<Rightarrow> {#} | Some u \<Rightarrow> h_threads u) + T) st'"
proof (cases h)
  case (Sizing path target)
  then show ?thesis using inv step_ok_none [of SHA512 K T st]
    by (cases st) (auto simp: handler_step.simps size_section_def split: option.split)
next
  case (Dropping path target s e)
  have inv: "conc_inv SHA512 K T st" using inv Dropping by simp
  show ?thesis
  proof (cases "s \<ge> e")
    case True
    then show ?thesis using Dropping step_ok_none [OF inv] by (cases st) (simp add: handler_step.simps)
  next
    case False
    obtain t st' where "begin_remove path s e st = Some (t, st')" "section_ok SHA512 K st [Dropped path s e] (add_mset t T) st'"
      using begin_remove_ok [OF inv] by blast
    then show ?thesis using Dropping False step_ok_sections [of SHA512 K st "[Dropped path s e]"]
      by (simp add: handler_step.simps)
  qed
next
  case (Removing path target t)
  have inv: "conc_inv SHA512 K (add_mset t T) st" using inv Removing by simp
  have "outcome_ok IoOk" by (simp add: outcome_ok_def)
  then obtain evs t' st' where "thread_step IoOk t st = Some (evs, t', st')" "section_ok SHA512 K st evs (continue t' T) st'"
    using thread_step_ok [OF inv _ h_ok_fits [OF ok], of IoOk] Removing by auto
  then show ?thesis using Removing step_ok_sections
    by (fastforce simp: handler_step.simps continue_def split: option.split)
next
  case (Resizing path target)
  obtain idx master nxt where st: "st = (idx, master, nxt)" by (cases st)
  have "conc_inv SHA512 K T (idx, master, nxt)" using inv Resizing st by simp
  then show ?thesis using Resizing resize_section_ok by (simp add: st handler_step.simps)
qed

section \<open>Every run\<close>

lemma fs_step_ok:
  assumes "fs_step SHA512 T H st evs T' H' st'" and "conc_inv SHA512 K (all_threads T H) st" and "\<forall>h \<in># H. h_ok h"
  shows "step_ok SHA512 K st evs (all_threads T' H') st' \<and> (\<forall>h \<in># H'. h_ok h)"
  using assms
proof (induction rule: fs_step.induct)
  case (new_write T H st buf sz off path t st')
  then have "section_ok SHA512 K st [] (add_mset t (all_threads T H)) st'"
    using begin_write_ok [OF new_write.prems(1) new_write.hyps(1), of path] by simp
  then show ?case using step_ok_sections [of SHA512 K st "[]"] new_write.prems(2) by simp
next
  case (new_handler target T H st path)
  then show ?case by (simp add: step_ok_none)
next
  case (write_section out t st evs t' st' T H)
  then have "section_ok SHA512 K st evs (continue t' (all_threads T H)) st'"
    using thread_step_ok [of SHA512 K t "all_threads T H" st out] by auto
  then show ?case using write_section.prems(2) by (simp add: step_ok_sections all_threads_continue)
next
  case (handler_section h st evs h' st' T H)
  have ok: "h_ok h" using handler_section.prems(2) by simp
  have "step_ok SHA512 K st evs ((case h' of None \<Rightarrow> {#} | Some u \<Rightarrow> h_threads u) + all_threads T H) st'"
    using handler_step_ok [OF _ ok, of SHA512 K "all_threads T H" st] handler_section.prems(1) handler_section.hyps by auto
  moreover have "\<forall>u. h' = Some u \<longrightarrow> h_ok u" using h_ok_step [OF ok] handler_section.hyps by blast
  ultimately show ?case using handler_section.prems(2) by (auto simp: next_handler_def split: option.splits)
qed

lemma fs_run_ok:
  assumes "fs_run SHA512 st0 evs T H st" and init: "conc_init SHA512 st0"
  shows "step_ok SHA512 (stored st0) st0 evs (all_threads T H) st \<and> (\<forall>h \<in># H. h_ok h)"
  using assms(1)
proof (induction rule: fs_run.induct)
  case run_start
  then show ?case using conc_init_inv(1) [OF init] by (simp add: step_ok_none)
next
  case (run_step evs T H st evs' T' H' st')
  then show ?case using fs_step_ok [OF run_step.hyps(2)] step_ok_trans by (metis step_ok_def)
qed

lemma fs_idle:
  assumes "conc_inv SHA512 K {#} (idx, master, nxt)"
  shows "index_inv nxt idx" "data_ok SHA512 master {} idx" "unat nxt \<le> MAX_BLOCKS"
  using assms by (simp_all add: conc_inv_def own_inv_def Let_def index_inv_def)

section \<open>All operations come to their end\<close>

fun h_work :: "handler \<Rightarrow> nat" where
  "h_work (Sizing path target) = 4"
| "h_work (Dropping path target s e) = 3"
| "h_work (Removing path target t) = Suc (t_work t)"
| "h_work (Resizing path target) = 1"

lemma t_work_pos: "0 < t_work t"
  by (cases t) simp_all

lemma handler_step_work:
  assumes "handler_step h st = Some (evs, Some h', st')"
  shows "h_work h' < h_work h"
proof -
  obtain idx master nxt where st: "st = (idx, master, nxt)" by (cases st)
  show ?thesis
  proof (cases h)
    case (Removing path target t)
    then show ?thesis using assms thread_step_work [of IoOk t st] t_work_pos [of t]
      by (auto simp: handler_step.simps split: option.splits)
  qed (use assms in \<open>auto simp: st handler_step.simps size_section_def split: if_splits option.splits\<close>)
qed

text \<open>The slots that the running writes may still have to append.\<close>

fun t_need :: "thread \<Rightarrow> nat" where
  "t_need (Planned path buf start plan miss_count) = miss_count"
| "t_need (Drained path buf start plan miss_count taken) = miss_count"
| "t_need _ = 0"

lemma thread_step_need:
  assumes "thread_step out t (idx, master, nxt) = Some (evs, t', (idx', master', nxt'))"
    and "unat nxt + t_need t < 2 ^ 64"
  shows "unat nxt' + (case t' of None \<Rightarrow> 0 | Some u \<Rightarrow> t_need u) \<le> unat nxt + t_need t"
proof (cases t)
  case (Drained path buf start plan mc taken)
  then have n: "nxt' = nxt + of_nat (mc - length taken)" "t' = None \<or> (\<exists>p i. t' = Some (Flushing path buf start p i))"
    using assms(1) by (auto simp: thread_step.simps Let_def)
  have "unat nxt' = unat nxt + (mc - length taken)"
    unfolding n(1) using assms(2) Drained by (intro unat_plus_of_nat) simp
  then show ?thesis using n(2) Drained by auto
next
  case (Flushing path buf start plan i)
  have flush: "t_need (case r of Inr i' \<Rightarrow> Flushing path buf start plan i'
      | Inl rc \<Rightarrow> if rc < 0 then Failed rc plan else Flushing path buf start plan (length plan)) = 0" for r :: "int + nat"
    by (cases r) simp_all
  have "nxt' = nxt" "t' = None \<or> (\<exists>u. t' = Some u \<and> t_need u = 0)"
    using assms(1) Flushing flush by (auto simp: thread_step.simps Let_def split: if_splits)
  then show ?thesis by auto
qed (use assms(1) in \<open>auto simp: thread_step.simps Let_def split: if_splits prod.splits\<close>)

definition total_work :: "thread multiset \<Rightarrow> handler multiset \<Rightarrow> nat" where
  "total_work T H = (\<Sum>t \<in># T. t_work t) + (\<Sum>h \<in># H. h_work h)"

fun has_room :: "thread multiset \<Rightarrow> store \<Rightarrow> bool" where
  "has_room T (idx, master, nxt) \<longleftrightarrow> unat nxt + (\<Sum>t \<in># T. t_need t) \<le> MAX_BLOCKS"

lemma has_room_fits: "has_room (add_mset t T) st \<Longrightarrow> thread_fits t st"
  by (cases st; cases t) simp_all

lemma has_room_step:
  assumes room: "has_room (add_mset t T) st" and step: "thread_step out t st = Some (evs, t', st')"
  shows "has_room (continue t' T) st'"
proof -
  obtain idx master nxt idx' master' nxt' where st: "st = (idx, master, nxt)" "st' = (idx', master', nxt')"
    by (cases st, cases st') blast
  have r: "unat nxt + t_need t + (\<Sum>t \<in># T. t_need t) \<le> MAX_BLOCKS" using room st by simp
  then have "unat nxt + t_need t < 2 ^ 64" by simp
  from thread_step_need [OF step [unfolded st] this] show ?thesis
    using r unfolding st by (simp add: continue_def split: option.splits)
qed

lemma has_room_same:
  "handler_step h st = Some (evs, h', st') \<Longrightarrow> h_ok h \<Longrightarrow> has_room T st' = has_room T st"
  by (cases st; cases h rule: h_ok.cases) (auto simp: handler_step.simps thread_step.simps split: if_splits)

lemma fs_run_finish:
  assumes "fs_run SHA512 st0 evs T H st" and "conc_init SHA512 st0" and "has_room T st"
  shows "\<exists>evs' st'. fs_run SHA512 st0 (evs @ evs') {#} {#} st'"
  using assms
proof (induction "total_work T H" arbitrary: evs T H st rule: less_induct)
  case less
  have inv: "conc_inv SHA512 (stored st0 \<union> fs_committed evs) (all_threads T H) st" and ok: "\<forall>h \<in># H. h_ok h"
    using fs_run_ok [OF less.prems(1,2)] by (simp_all add: step_ok_def)
  note more = less.hyps [OF _ _ less.prems(2)]
  show ?case
  proof (cases T)
    case (add t T1)
    have "outcome_ok IoOk" "thread_fits t st" using has_room_fits less.prems(3) add by (simp_all add: outcome_ok_def)
    then obtain evs1 t' st1 where s: "thread_step IoOk t st = Some (evs1, t', st1)"
      using thread_step_ok [OF inv [unfolded add all_threads_simps], of IoOk] by blast
    have run: "fs_run SHA512 st0 (evs @ map Section evs1) (continue t' T1) H st1"
      by (rule run_step [OF less.prems(1) [unfolded add]]) (rule write_section [OF \<open>outcome_ok IoOk\<close> \<open>thread_fits t st\<close> s])
    have "total_work (continue t' T1) H < total_work T H"
      using thread_step_work [of IoOk t st evs1] s t_work_pos [of t] add by (auto simp: total_work_def continue_def split: option.splits)
    from more [OF this run] has_room_step [OF _ s] less.prems(3) add show ?thesis by auto
  next
    case empty
    show ?thesis
    proof (cases H)
      case empty
      then show ?thesis using less.prems(1) \<open>T = {#}\<close> by (intro exI [of _ "[]"] exI [of _ st]) simp
    next
      case (add h H1)
      have hk: "h_ok h" using ok add by simp
      obtain evs1 h' st1 where s: "handler_step h st = Some (evs1, h', st1)"
        using handler_step_ok [OF inv [unfolded add all_threads_simps] hk] by blast
      have run: "fs_run SHA512 st0 (evs @ evs1) T (next_handler h' H1) st1"
        by (rule run_step [OF less.prems(1) [unfolded add]]) (rule handler_section [OF s])
      have "total_work T (next_handler h' H1) < total_work T H"
        using handler_step_work [of h st evs1] s add by (cases h) (auto simp: total_work_def next_handler_def split: option.splits)
      moreover have "has_room T st1" using has_room_same [OF s hk] less.prems(3) by blast
      ultimately show ?thesis using more [OF _ run] by auto
    qed
  qed
qed

section \<open>A handler that runs alone\<close>

fun finish_handler :: "nat \<Rightarrow> handler \<Rightarrow> store \<Rightarrow> store option" where
  "finish_handler 0 h st = None"
| "finish_handler (Suc fuel) h st =
     (case handler_step h st of
        None \<Rightarrow> None
      | Some (evs, None, st') \<Rightarrow> Some st'
      | Some (evs, Some h', st') \<Rightarrow> finish_handler fuel h' st')"

lemma finish_dropping:
  "finish_handler (Suc (Suc (Suc fuel))) (Dropping path target s e) (idx, master, nxt) =
     map_option (\<lambda>i. (resize_section path target i, master, nxt)) (remove_blocks_dedup_batch idx path s e)"
  by (auto simp: handler_step.simps thread_step.simps give_back_def remove_blocks_dedup_batch_def split: option.split)

lemma handler_alone:
  "finish_handler 4 (Sizing path None) (idx, master, nxt) = map_option (\<lambda>i. (i, master, nxt)) (unlink_index idx path)"
  "finish_handler 4 (Sizing path (Some sz)) (idx, master, nxt) = map_option (\<lambda>i. (i, master, nxt)) (truncate_index idx path sz)"
proof -
  have four: "4 = Suc (Suc (Suc (Suc 0)))" by simp
  show "finish_handler 4 (Sizing path None) (idx, master, nxt) = map_option (\<lambda>i. (i, master, nxt)) (unlink_index idx path)"
    unfolding four finish_handler.simps(2) [of "Suc (Suc (Suc 0))"]
    by (auto simp: handler_step.simps size_section_def unlink_index_def finish_dropping resize_section_def option.map_comp comp_def
        simp del: finish_handler.simps split: option.split)
  show "finish_handler 4 (Sizing path (Some sz)) (idx, master, nxt) = map_option (\<lambda>i. (i, master, nxt)) (truncate_index idx path sz)"
    unfolding four finish_handler.simps(2) [of "Suc (Suc (Suc 0))"]
    by (auto simp: handler_step.simps size_section_def truncate_index_def finish_dropping resize_section_def option.map_comp comp_def
        simp del: finish_handler.simps split: option.split cong: map_option_cong)
qed

end
