(* ===== verification/Reader_Sections.thy ===== *)
theory Reader_Sections
  imports Handler_Sections
begin

text \<open>
  Readers next to writes and handlers. \<^verbatim>\<open>read_dedup\<close> looks up the slots of the request under the read
  lock, releases it, and then reads the master file group by group without any lock. Its sections are the
  lookup and each \<^verbatim>\<open>pread\<close>. A reader never leaves its buffers, whatever the others do, and it returns
  the blocks that its file had at the time of the lookup if no write or removal of the same file takes
  effect before its last \<^verbatim>\<open>pread\<close>: other files can be written, removed and resized meanwhile.
\<close>

section \<open>What a section leaves alone\<close>

text \<open>The mapped blocks of a file, their slots and their contents.\<close>

fun stable :: "path \<Rightarrow> store \<Rightarrow> store \<Rightarrow> bool" where
  "stable path (idx, master, nxt) (idx', master', nxt') \<longleftrightarrow>
     (\<forall>b p. file_to_master idx (bkey path b) = Some p \<longrightarrow>
        file_to_master idx' (bkey path b) = Some p \<and> slot_of idx' p = slot_of idx p \<and>
        block_at master' (unat (slot_of idx p)) = block_at master (unat (slot_of idx p)))"

lemma stable_refl [simp]: "stable path st st"
  by (cases st) simp

lemma stable_trans: "stable path st1 st2 \<Longrightarrow> stable path st2 st3 \<Longrightarrow> stable path st1 st3"
  by (cases st1; cases st2; cases st3) fastforce

text \<open>The loops only drop objects or change counters, and they leave the mappings of other files alone;
  \<open>P\<close> are the keys that must keep their mapping.\<close>

definition drops :: "(BlockIndice \<Rightarrow> bool) \<Rightarrow> Index \<Rightarrow> Index \<Rightarrow> bool" where
  "drops P idx idx' \<longleftrightarrow> sub_infos idx idx' \<and> (\<forall>k. P k \<longrightarrow> file_to_master idx' k = file_to_master idx k)"

lemma drops_refl [simp]: "drops P idx idx"
  by (simp add: drops_def)

lemma drops_trans [trans]: "drops P a b \<Longrightarrow> drops P b c \<Longrightarrow> drops P a c"
  unfolding drops_def by (metis sub_infos_trans)

lemma drops_simps [simp]:
  "drops P (idx\<lparr>free_block_list := l\<rparr>) i = drops P idx i" "drops P (insert_hash idx h p) i = drops P idx i"
  "drops P i (update_size idx path e) = drops P i idx" "drops P i (idx\<lparr>free_block_list := l\<rparr>) = drops P i idx"
  "drops P i (give_back idx l) = drops P i idx" "drops P i (resize_section path target idx) = drops P i idx"
  by (simp_all add: drops_def sub_infos_def insert_hash_def update_size_def give_back_def resize_section_def split: option.split)

lemma drops_mappings:
  assumes "\<And>k. P k \<Longrightarrow> key_path k \<noteq> path"
  shows "drops P idx (insert_file_block idx path b p)" "drops P idx (remove_file_block idx path b)"
  using assms by (force simp: drops_def sub_infos_def insert_file_block_def remove_file_block_def)+

lemma release_info_drops: "release_info idx slots p = Some (idx', slots') \<Longrightarrow> drops P idx idx'"
  by (auto simp: release_info_def refcount_fetch_sub_def info_free_def info_set_def remove_hash_def drops_def sub_infos_def
      split: option.splits if_splits)

lemma info_free_drops: "info_free idx p = Some idx' \<Longrightarrow> drops P idx idx'"
  by (auto simp: info_free_def drops_def sub_infos_def split: if_splits)

lemma refcount_inc_drops: "refcount_inc idx p = Some idx' \<Longrightarrow> drops P idx idx'"
  by (auto simp: refcount_inc_def info_set_def drops_def sub_infos_def split: option.splits if_splits)

lemma rollback_hits_drops: "rollback_hits idx plan slots = Some (idx', slots') \<Longrightarrow> drops P idx idx'"
proof (induction idx plan slots rule: rollback_hits.induct)
  case (2 idx e plan slots)
  show ?case
  proof (cases "kind e = PLAN_HIT")
    case True
    then obtain i s where i: "release_info idx slots (info e) = Some (i, s)" "rollback_hits i plan s = Some (idx', slots')"
      using 2(3) by (auto split: option.splits)
    have "drops P idx i" by (rule release_info_drops [OF i(1)])
    also have "drops P i idx'" using 2(2) True i by blast
    finally show ?thesis .
  qed (use 2 in simp)
qed simp

lemma rollback_misses_drops: "rollback_misses idx plan = Some idx' \<Longrightarrow> drops P idx idx'"
proof (induction idx plan rule: rollback_misses.induct)
  case (2 idx e plan)
  show ?case
  proof (cases "kind e = PLAN_MISS")
    case True
    then obtain i where i: "info_free (idx\<lparr>free_block_list := master_blk e # free_block_list idx\<rparr>) (info e) = Some i"
      "rollback_misses i plan = Some idx'" using 2(3) by (auto split: option.splits)
    have "drops P idx i" using info_free_drops [OF i(1), of P] by simp
    also have "drops P i idx'" by (rule 2(1) [OF True i])
    finally show ?thesis .
  qed (use 2 in simp)
qed simp

lemma publish_pass_drops: "publish_pass idx plan slots = Some (idx', plan', slots') \<Longrightarrow> drops P idx idx'"
proof (induction plan arbitrary: idx slots plan' slots')
  case (Cons e plan)
  show ?case
  proof (cases "kind e = PLAN_MISS")
    case True
    then obtain mi where mi: "minfos idx (info e) = Some mi" using Cons.prems by (auto split: option.splits)
    show ?thesis
    proof (cases "lookup_by_hash idx (info_hash mi)")
      case None
      then obtain p s where "publish_pass (insert_hash idx (info_hash mi) (info e)) plan slots = Some (idx', p, s)"
        using Cons.prems True mi by auto
      from Cons.IH [OF this] show ?thesis by simp
    next
      case (Some winner)
      then obtain i j p s where f: "info_free idx (info e) = Some i" "refcount_inc i winner = Some j"
        "publish_pass j plan (master_blk e # slots) = Some (idx', p, s)"
        using Cons.prems True mi by (auto split: option.splits)
      have "drops P idx i" by (rule info_free_drops [OF f(1)])
      also have "drops P i j" by (rule refcount_inc_drops [OF f(2)])
      also have "drops P j idx'" by (rule Cons.IH [OF f(3)])
      finally show ?thesis .
    qed
  next
    case False
    then show ?thesis using Cons.IH Cons.prems by auto
  qed
qed simp

lemma map_pass_drops:
  assumes "\<And>k. P k \<Longrightarrow> key_path k \<noteq> path"
  shows "map_pass idx path plan slots = Some (idx', slots') \<Longrightarrow> drops P idx idx'"
proof (induction plan arbitrary: idx slots)
  case (Cons e plan)
  obtain i s where i: "(case lookup_by_file_block idx path (logical_blk e) of None \<Rightarrow> Some (idx, slots)
      | Some old \<Rightarrow> release_info idx slots old) = Some (i, s)"
    "map_pass (insert_file_block i path (logical_blk e) (info e)) path plan s = Some (idx', slots')"
    using Cons.prems by (auto split: option.splits prod.splits)
  have "drops P idx i" using i(1) release_info_drops by (auto split: option.splits)
  also have "drops P i (insert_file_block i path (logical_blk e) (info e))" using assms by (rule drops_mappings(1))
  also have "drops P \<dots> idx'" by (rule Cons.IH [OF i(2)])
  finally show ?case .
qed simp

lemma remove_loop_drops:
  assumes "\<And>k. P k \<Longrightarrow> key_path k \<noteq> path"
  shows "remove_loop idx path is rel = Some (idx', rel') \<Longrightarrow> drops P idx idx'"
proof (induction "is" arbitrary: idx rel)
  case (Cons b "is")
  show ?case
  proof (cases "lookup_by_file_block idx path b")
    case (Some p)
    then obtain i r where i: "release_info (remove_file_block idx path b) rel p = Some (i, r)" "remove_loop i path is r = Some (idx', rel')"
      using Cons.prems by (auto split: option.splits)
    have "drops P idx (remove_file_block idx path b)" using assms by (rule drops_mappings(2))
    also have "drops P \<dots> i" by (rule release_info_drops [OF i(1)])
    also have "drops P i idx'" by (rule Cons.IH [OF i(2)])
    finally show ?thesis .
  qed (use Cons in simp)
qed simp

lemma commit_section_drops:
  assumes "commit_section idx path plan e = Some (idx', slots)" and other: "\<And>k. P k \<Longrightarrow> key_path k \<noteq> path"
  shows "drops P idx idx'"
proof -
  obtain idx1 plan' slots1 idx2 where p: "publish_pass idx plan [] = Some (idx1, plan', slots1)"
    "map_pass idx1 path plan' slots1 = Some (idx2, slots)" "idx' = update_size idx2 path e"
    using assms(1) by (auto simp: commit_section_def split: option.splits)
  have "drops P idx idx1" by (rule publish_pass_drops [OF p(1)])
  also have "drops P idx1 idx2" using other p(2) by (rule map_pass_drops)
  finally show ?thesis by (simp add: p(3))
qed

lemma assign_blocks_frame:
  "assign_blocks idx plan blks = Some (idx', plan') \<Longrightarrow>
   file_to_master idx' = file_to_master idx \<and> (\<forall>p. p \<notin> miss_infos plan \<longrightarrow> minfos idx' p = minfos idx p)"
proof (induction plan arbitrary: idx blks plan')
  case (Cons e plan)
  show ?case
  proof (cases "kind e = PLAN_MISS")
    case True
    then obtain b bs mi plan1 where "assign_blocks (info_set idx (info e) (mi\<lparr>masterBlockIndex := b\<rparr>)) plan bs = Some (idx', plan1)"
      using Cons.prems by (auto split: option.splits list.splits)
    from Cons.IH [OF this] True show ?thesis by (simp add: info_set_def is_miss_def)
  next
    case False
    then show ?thesis using Cons.prems Cons.IH by (fastforce split: option.splits simp: is_miss_def)
  qed
qed simp

text \<open>Objects that stay mapped keep their slots.\<close>

lemma drops_stable:
  assumes d: "drops (\<lambda>k. key_path k = path) idx idx'" and t: "tables_ok pend idx'"
  shows "stable path (idx, master, nxt) (idx', master, nxt')"
proof -
  have "slot_of idx' p = slot_of idx p" if k: "file_to_master idx' k = Some p" for k p
  proof -
    obtain mi where "minfos idx' p = Some mi" by (rule file_mapped_allocated [OF t k])
    then show ?thesis using d unfolding drops_def sub_infos_def by fastforce
  qed
  moreover have "file_to_master idx' (bkey path b) = file_to_master idx (bkey path b)" for b
    using d by (simp add: drops_def)
  ultimately show ?thesis unfolding stable.simps by metis
qed

section \<open>Sections of other files\<close>

fun touches :: "path \<Rightarrow> fs_event \<Rightarrow> bool" where
  "touches path (Section (Commit f start blks)) \<longleftrightarrow> f = path"
| "touches path (Section (Dropped f s e)) \<longleftrightarrow> f = path"
| "touches path _ \<longleftrightarrow> False"

lemma conc_inv_tables: "conc_inv SHA512 K T (idx, master, nxt) \<Longrightarrow> tables_ok (set_mset (pool t_pend T)) idx"
  using own_tables [of SHA512 K T "[]" "[]" "[]" "[]"] by (simp add: conc_inv_def)

lemma flush_stable:
  assumes "tables_ok pend idx" and "fs_block master' idx = fs_block master idx"
  shows "stable path (idx, master, nxt) (idx, master', nxt)"
proof -
  have "block_at master' (unat (slot_of idx p)) = block_at master (unat (slot_of idx p))"
    if "file_to_master idx (bkey path b) = Some p" for b p
    using fun_cong [OF fun_cong [OF assms(2), of path], of b] that by (simp add: fs_block_def lookup_by_file_block_def)
  then show ?thesis by simp
qed

lemma thread_step_stable:
  assumes inv: "conc_inv SHA512 K (add_mset t T) st" and out: "outcome_ok out" and fits: "thread_fits t st"
    and step: "thread_step out t st = Some (evs, t', st')" and ev: "\<forall>e \<in> set evs. \<not> touches path (Section e)"
  shows "stable path st st'"
proof -
  obtain idx master nxt idx' master' nxt' where st: "st = (idx, master, nxt)" "st' = (idx', master', nxt')"
    by (cases st, cases st') blast
  have post: "tables_ok (set_mset (pool t_pend (continue t' T))) idx'"
    using thread_step_ok [OF inv out fits] step by (auto simp: section_ok_def st intro: conc_inv_tables)
  have pre: "tables_ok (set_mset (pool t_pend (add_mset t T))) idx" using inv by (intro conc_inv_tables) (simp add: st)
  note by_drops = drops_stable [OF _ post, where master = master and nxt = nxt and nxt' = nxt']
  show ?thesis
  proof (cases t)
    case (Planned p buf start plan mc)
    then have "drops (\<lambda>k. key_path k = path) idx idx'" "master' = master"
      using step by (auto simp: st thread_step.simps split: if_splits prod.splits)
    then show ?thesis using by_drops st by blast
  next
    case (Drained p buf start plan mc taken)
    then obtain plan' where a: "assign_blocks idx plan (taken @ map (\<lambda>i. nxt + of_nat i) [0..<mc - length taken]) = Some (idx', plan')"
      "master' = master" using step by (auto simp: st thread_step.simps Let_def)
    have "q \<notin> miss_infos plan" if "file_to_master idx k = Some q" for k q
      using tables_ok_file [OF pre that] Drained by (auto simp: published_def miss_infos_def)
    then show ?thesis using assign_blocks_frame [OF a(1)] a(2) by (auto simp: st slot_of_def)
  next
    case (Flushing p buf start plan i)
    show ?thesis
    proof (cases "skip_hits plan i < length plan")
      case True
      obtain u m where m: "thread_step out t st = Some ([], Some u, (idx, m, nxt))" "fs_block m idx = fs_block master idx"
        using flush_step_inv [OF inv [unfolded Flushing st] out True] unfolding st Flushing by blast
      have "st' = (idx, m, nxt)" using step unfolding m(1) by simp
      then show ?thesis unfolding st(1) using flush_stable [OF pre m(2)] by metis
    next
      case False
      then obtain slots where c: "commit_section idx p plan ((start + of_nat (length plan)) * BLOCK_SIZE64) = Some (idx', slots)"
        "master' = master" "p \<noteq> path" using step ev Flushing by (auto simp: st thread_step.simps Let_def)
      have "drops (\<lambda>k. key_path k = path) idx idx'" by (rule commit_section_drops [OF c(1)]) (use c(3) in simp)
      then show ?thesis using by_drops c(2) st by blast
    qed
  next
    case (Failed rc plan)
    then obtain slots where "rollback_hits idx plan [] = Some (idx', slots)" "master' = master"
      using step by (auto simp: st thread_step.simps)
    then show ?thesis using by_drops rollback_hits_drops st by blast
  next
    case (Rolled rc plan slots)
    then have "idx' = give_back idx slots" "master' = master" using step by (simp_all add: st thread_step.simps)
    then show ?thesis using by_drops drops_simps(5) drops_refl st by blast
  next
    case (Discarding rc plan)
    then have "rollback_misses idx plan = Some idx'" "master' = master" using step by (auto simp: st thread_step.simps)
    then show ?thesis using by_drops rollback_misses_drops st by blast
  next
    case (Releasing rc slots)
    then have "idx' = give_back idx slots" "master' = master" using step by (simp_all add: st thread_step.simps)
    then show ?thesis using by_drops drops_simps(5) drops_refl st by blast
  qed
qed

lemma begin_write_stable:
  assumes inv: "conc_inv SHA512 K T st" and req: "conc_request SHA512 T st buf sz off"
    and step: "begin_write SHA512 path buf sz off st = Some (t, st')"
  shows "stable f st st'"
proof -
  obtain idx master nxt where st: "st = (idx, master, nxt)" by (cases st)
  obtain u idx' where w: "begin_write SHA512 path buf sz off st = Some (u, (idx', master, nxt))"
    and o: "file_to_master idx' = file_to_master idx"
      "\<forall>p \<in> dom (minfos idx). map_option info_key (minfos idx' p) = map_option info_key (minfos idx p)"
    using begin_write_inv [OF inv [unfolded st] req [unfolded st], of path] unfolding st by blast
  have st': "st' = (idx', master, nxt)" using step unfolding w by simp
  have "slot_of idx' p = slot_of idx p" if k: "file_to_master idx k = Some p" for k p
  proof -
    obtain mi where "minfos idx p = Some mi" by (rule file_mapped_allocated [OF conc_inv_tables [OF inv [unfolded st]] k])
    then show ?thesis using o(2) by (intro info_key_slot) blast
  qed
  then show ?thesis unfolding st st' by (simp add: o(1))
qed

lemma handler_step_stable:
  assumes inv: "conc_inv SHA512 K (h_threads h + T) st" and ok: "h_ok h"
    and step: "handler_step h st = Some (evs, h', st')" and ev: "\<forall>e \<in> set evs. \<not> touches path e"
  shows "stable path st st'"
proof -
  obtain idx master nxt where st: "st = (idx, master, nxt)" by (cases st)
  have post: "conc_inv SHA512 (K \<union> fs_committed evs) ((case h' of None \<Rightarrow> {#} | Some u \<Rightarrow> h_threads u) + T) st'"
    using handler_step_ok [OF inv ok] step by (auto simp: step_ok_def)
  show ?thesis
  proof (cases h)
    case (Dropping f target s e)
    show ?thesis
    proof (cases "s \<ge> e")
      case False
      then obtain t where b: "begin_remove f s e st = Some (t, st')" "f \<noteq> path"
        using step ev Dropping by (auto simp: handler_step.simps)
      then obtain idx' slots where r: "remove_loop idx f (block_range s e) [] = Some (idx', slots)" "st' = (idx', master, nxt)"
        by (auto simp: st)
      have "drops (\<lambda>k. key_path k = path) idx idx'" by (rule remove_loop_drops [OF _ r(1)]) (use b(2) in simp)
      from drops_stable [OF this conc_inv_tables [OF post [unfolded r(2)]]] show ?thesis unfolding st r(2) .
    qed (use step Dropping in \<open>auto simp: handler_step.simps\<close>)
  next
    case (Removing f target t)
    then obtain evs' t' where s: "thread_step IoOk t st = Some (evs', t', st')" "evs = map Section evs'"
      using step by (auto simp: handler_step.simps)
    show ?thesis
      by (rule thread_step_stable [OF _ _ h_ok_fits [OF ok] s(1)])
        (use inv ev s(2) Removing in \<open>simp_all add: outcome_ok_def\<close>)
  next
    case (Resizing f target)
    then have st': "st' = (resize_section f target idx, master, nxt)" using step by (simp add: st handler_step.simps)
    have "drops (\<lambda>k. key_path k = path) idx (resize_section f target idx)" by simp
    from drops_stable [OF this conc_inv_tables [OF post [unfolded st']]] show ?thesis unfolding st st' .
  qed (use step in \<open>auto simp: st handler_step.simps\<close>)
qed

lemma fs_step_stable:
  assumes "fs_step SHA512 T H st evs T' H' st'" and "conc_inv SHA512 K (all_threads T H) st" and "\<forall>h \<in># H. h_ok h"
    and "\<forall>e \<in> set evs. \<not> touches path e"
  shows "stable path st st'"
  using assms
proof (induction rule: fs_step.induct)
  case (new_write T H st buf sz off f t st')
  then show ?case using begin_write_stable by blast
next
  case (write_section out t st evs t' st' T H)
  then show ?case using thread_step_stable [of SHA512 K t "all_threads T H" st out evs t' st' path] by auto
next
  case (handler_section h st evs h' st' T H)
  then show ?case using handler_step_stable [of SHA512 K h "all_threads T H" st evs h' st' path] by auto
qed simp

section \<open>The master file never shrinks\<close>

lemma pwrite_length: "pwrite out master d off = (master', w, e) \<Longrightarrow> length master \<le> length master'"
  using length_overlay_ge by (auto simp: pwrite_def Let_def split: if_splits io_outcome.splits)

fun master_length :: "store \<Rightarrow> nat" where
  "master_length (idx, master, nxt) = length master"

lemma flush_run_length: "flush_run out master buf plan s = Some (master', r) \<Longrightarrow> length master \<le> length master'"
  using pwrite_length by (auto simp: flush_run_def Let_def split: if_splits prod.splits)

lemma thread_step_length: "thread_step out t st = Some (evs, t', st') \<Longrightarrow> master_length st \<le> master_length st'"
  by (cases st; cases t) (auto simp: thread_step.simps Let_def split: if_splits prod.splits dest: flush_run_length)

lemma fs_step_length: "fs_step SHA512 T H st evs T' H' st' \<Longrightarrow> master_length st \<le> master_length st'"
proof (induction rule: fs_step.induct)
  case (new_write T H st buf sz off path t st')
  then show ?case by (cases st) (auto simp: Let_def)
next
  case (handler_section h st evs h' st' T H)
  then show ?case by (cases st; cases h) (auto simp: handler_step.simps split: if_splits dest: thread_step_length)
qed (auto dest: thread_step_length)

section \<open>Readers\<close>

text \<open>A reader before its next \<^verbatim>\<open>pread\<close>: the sorted pairs, the first of the group and the buffer.\<close>

datatype reader = Reading "BlockPair list" nat "byte list"

text \<open>The loop over the pairs up to the end of a group.\<close>

function group_end :: "BlockPair list \<Rightarrow> nat \<Rightarrow> nat" where
  "group_end pairs i =
     (if i < length pairs \<and> master_block_index (pairs ! i) = master_block_index (pairs ! (i - 1)) + 1
      then group_end pairs (Suc i) else i)"
  by pat_completeness auto
termination
  by (relation "measure (\<lambda>(pairs, i). length pairs - i)") auto

declare group_end.simps [simp del]

text \<open>One \<^verbatim>\<open>pread\<close> with its copies; \<open>Inl\<close> when the function returns.\<close>

fun reader_step :: "io_outcome \<Rightarrow> reader \<Rightarrow> byte list \<Rightarrow> (int \<times> byte list + reader) option" where
  "reader_step out (Reading pairs group_start buf) master =
     (let i = group_end pairs (Suc group_start)
      in map_option (\<lambda>(r, buf'). if r < 0 then Inl (r, buf')
             else if i = length pairs then Inl (c_int (of_nat (length pairs) * BLOCK_SIZE64), buf')
             else Inr (Reading pairs i buf'))
           (read_group master pairs group_start i buf out))"

text \<open>Everything up to the first \<^verbatim>\<open>pread\<close>.\<close>

definition begin_read ::
    "((BlockPair \<Rightarrow> BlockPair \<Rightarrow> int) \<Rightarrow> BlockPair list \<Rightarrow> BlockPair list) \<Rightarrow> bool \<Rightarrow> Index \<Rightarrow> path \<Rightarrow> byte list \<Rightarrow>
     u64 \<Rightarrow> u64 \<Rightarrow> (int \<times> byte list + reader) option" where
  "begin_read qsort mok idx path buf sz offset =
     (let num_blocks = unat sz div BLOCK_SIZE;
          start_block = off_div_block offset
      in if num_blocks = 0 \<or> unat sz mod BLOCK_SIZE \<noteq> 0 then Some (Inl (- EOPNOTSUPP, buf))
         else
           map_option (\<lambda>pairs.
               if length pairs = 0 then Inl (0, buf)
               else if \<not> mok then Inl (- ENOMEM, buf)
               else Inr (Reading (if length pairs \<le> INSERTION_SORT_THRESHOLD then insertion_sort pairs (length pairs)
                      else qsort cmp_master_idx pairs) 0 buf))
             (lookup_loop idx path start_block [0..<num_blocks]))"

lemma group_end_run:
  assumes "g < i" "i \<le> length pairs" "phys_run pairs g i" and "\<forall>p \<in> set pairs. unat (master_block_index p) < MAX_BLOCKS"
  shows "i \<le> group_end pairs i \<and> group_end pairs i \<le> length pairs \<and> phys_run pairs g (group_end pairs i)"
  using assms
proof (induction pairs i rule: group_end.induct)
  case (1 pairs i)
  show ?case
  proof (cases "i < length pairs \<and> master_block_index (pairs ! i) = master_block_index (pairs ! (i - 1)) + 1")
    case True
    have "phys_run pairs g (Suc i)" using "1.prems" True by (intro phys_run_extend) auto
    then have "Suc i \<le> group_end pairs (Suc i) \<and> group_end pairs (Suc i) \<le> length pairs \<and> phys_run pairs g (group_end pairs (Suc i))"
      using "1.IH" "1.prems" True by auto
    then show ?thesis unfolding group_end.simps [of pairs i] if_P [OF True] by simp
  next
    case False
    show ?thesis unfolding group_end.simps [of pairs i] if_not_P [OF False] using "1.prems" by simp
  qed
qed

lemma reader_group:
  assumes "g < length pairs" and "\<forall>p \<in> set pairs. good_pair master len p"
  shows "g < group_end pairs (Suc g)" "group_end pairs (Suc g) \<le> length pairs" "phys_run pairs g (group_end pairs (Suc g))"
proof -
  have "phys_run pairs g (Suc g)" by (auto simp: phys_run_def less_Suc_eq)
  from group_end_run [OF _ _ this] assms
  show "g < group_end pairs (Suc g)" "group_end pairs (Suc g) \<le> length pairs" "phys_run pairs g (group_end pairs (Suc g))"
    by (simp_all add: good_pair_def)
qed

text \<open>A reader that runs alone is \<^verbatim>\<open>read_dedup\<close>.\<close>

fun finish_read :: "nat \<Rightarrow> io_outcome list \<Rightarrow> (int \<times> byte list + reader) \<Rightarrow> byte list \<Rightarrow> (int \<times> byte list) option" where
  "finish_read fuel io (Inl res) master = Some res"
| "finish_read 0 io (Inr r) master = None"
| "finish_read (Suc fuel) io (Inr r) master =
     (let (out, io') = next_io io
      in case reader_step out r master of
           None \<Rightarrow> None
         | Some r' \<Rightarrow> finish_read fuel io' r' master)"

lemma read_groups_group_end:
  assumes "i \<le> length pairs"
  shows "read_groups master pairs g i buf io =
    (let (out, io') = next_io io
     in case read_group master pairs g (group_end pairs i) buf out of
          None \<Rightarrow> None
        | Some (r, buf') \<Rightarrow> if r < 0 then Some (r, buf', io')
            else read_groups master pairs (group_end pairs i) (Suc (group_end pairs i)) buf' io')"
  using assms
proof (induction pairs i rule: group_end.induct)
  case (1 pairs i)
  let ?c = "i < length pairs \<and> master_block_index (pairs ! i) = master_block_index (pairs ! (i - 1)) + 1"
  show ?case
  proof (cases ?c)
    case True
    then have "read_groups master pairs g i buf io = read_groups master pairs g (Suc i) buf io"
      by (subst read_groups.simps) simp
    moreover have "group_end pairs i = group_end pairs (Suc i)" using True by (simp add: group_end.simps [of pairs i])
    ultimately show ?thesis using "1.IH" [OF True] True by (simp only: Suc_leI)
  next
    case False
    have i: "group_end pairs i = i" unfolding group_end.simps [of pairs i] if_not_P [OF False] ..
    show ?thesis unfolding i using False "1.prems" by (subst read_groups.simps) (auto simp: Let_def)
  qed
qed

lemma group_end_bounds: "i \<le> length pairs \<Longrightarrow> i \<le> group_end pairs i \<and> group_end pairs i \<le> length pairs"
proof (induction pairs i rule: group_end.induct)
  case (1 pairs i)
  then show ?case by (subst (1 2) group_end.simps) (auto dest: Suc_leD)
qed

lemma finish_read_groups:
  assumes "g < length pairs" and "length pairs - g \<le> fuel"
  shows "finish_read fuel io (Inr (Reading pairs g buf)) master =
    map_option (\<lambda>(r, buf', io'). (if r < 0 then r else c_int (of_nat (length pairs) * BLOCK_SIZE64), buf'))
      (read_groups master pairs g (Suc g) buf io)"
  using assms
proof (induction fuel arbitrary: g buf io)
  case (Suc fuel)
  let ?i = "group_end pairs (Suc g)"
  have b: "g < ?i" "?i \<le> length pairs" using group_end_bounds [of "Suc g" pairs] Suc.prems(1) by simp_all
  obtain out io' where io: "next_io io = (out, io')" by force
  have last: "read_groups master pairs (length pairs) (Suc (length pairs)) b' io' = Some (0, b', io')" for b'
    by (simp add: read_groups.simps)
  show ?case
  proof (cases "read_group master pairs g ?i buf out")
    case None
    then show ?thesis using read_groups_group_end [of "Suc g" pairs master g buf io] Suc.prems(1) io by simp
  next
    case (Some rb)
    obtain r buf' where rb: "rb = (r, buf')" by force
    have eq: "read_groups master pairs g (Suc g) buf io = (if r < 0 then Some (r, buf', io') else read_groups master pairs ?i (Suc ?i) buf' io')"
      using read_groups_group_end [of "Suc g" pairs master g buf io] Suc.prems(1) io Some rb by simp
    show ?thesis
    proof (cases "r < 0 \<or> ?i = length pairs")
      case True
      then show ?thesis using eq Some rb io last by auto
    next
      case False
      then have "?i < length pairs" "length pairs - ?i \<le> fuel" using b Suc.prems(2) by linarith+
      from Suc.IH [OF this] False show ?thesis using eq Some rb io by simp
    qed
  qed
qed simp

lemma lookup_loop_length: "lookup_loop idx path start is = Some pairs \<Longrightarrow> length pairs \<le> length is"
  by (induction "is" arbitrary: pairs) (auto split: option.splits)

lemma read_dedup_sections:
  assumes q: "qsort_contract qsort cmp_master_idx" and fuel: "unat sz div BLOCK_SIZE \<le> fuel"
  shows "read_dedup qsort mok io idx master path buf sz off =
    (case begin_read qsort mok idx path buf sz off of None \<Rightarrow> None | Some r \<Rightarrow> finish_read fuel io r master)"
proof -
  let ?n = "unat sz div BLOCK_SIZE"
  show ?thesis
  proof (cases "?n = 0 \<or> unat sz mod BLOCK_SIZE \<noteq> 0")
    case True
    then show ?thesis by (auto simp: read_dedup_def begin_read_def)
  next
    case False
    show ?thesis
    proof (cases "lookup_loop idx path (off_div_block off) [0..<?n]")
      case None
      then show ?thesis using False by (simp add: read_dedup_def begin_read_def)
    next
      case (Some pairs)
      define sp where "sp = (if length pairs \<le> INSERTION_SORT_THRESHOLD then insertion_sort pairs (length pairs) else qsort cmp_master_idx pairs)"
      have m: "mset sp = mset pairs" unfolding sp_def
        using isort.srt_mset [of pairs] pair_sorter.srt_mset [OF qsort_pair_sorter [OF q], of pairs] by simp
      have len: "length sp = length pairs" using m by (rule mset_eq_length)
      show ?thesis
      proof (cases "length pairs = 0 \<or> \<not> mok")
        case True
        then show ?thesis using False Some by (auto simp: read_dedup_def begin_read_def)
      next
        case go: False
        have "0 < length sp" "length sp - 0 \<le> fuel" using go lookup_loop_length [OF Some] fuel len by simp_all
        note fin = finish_read_groups [OF this, of io buf master]
        have "begin_read qsort mok idx path buf sz off = Some (Inr (Reading sp 0 buf))"
          using False Some go by (simp add: begin_read_def sp_def)
        moreover have "read_dedup qsort mok io idx master path buf sz off =
            (case read_groups master sp 0 1 buf io of None \<Rightarrow> None
             | Some (r, buf', io') \<Rightarrow> Some (if r < 0 then r else c_int (of_nat (length pairs) * BLOCK_SIZE64), buf'))"
          using False Some go by (simp add: read_dedup_def Let_def sp_def)
        ultimately show ?thesis
          by (cases "read_groups master sp 0 1 buf io") (simp_all add: fin len split_beta)
      qed
    qed
  qed
qed

section \<open>A reader among the others\<close>

text \<open>From the lookup on: sections of other requests and the \<^verbatim>\<open>pread\<close> calls of the reader in any order, with
  the outcomes of the latter.\<close>

inductive read_run ::
    "(byte list \<Rightarrow> digest) \<Rightarrow> thread multiset \<Rightarrow> handler multiset \<Rightarrow> store \<Rightarrow> (int \<times> byte list + reader) \<Rightarrow> fs_event list \<Rightarrow>
     io_outcome list \<Rightarrow> thread multiset \<Rightarrow> handler multiset \<Rightarrow> store \<Rightarrow> (int \<times> byte list + reader) \<Rightarrow> bool"
  for SHA512 :: "byte list \<Rightarrow> digest" and T0 :: "thread multiset" and H0 :: "handler multiset" and st0 :: store
    and r0 :: "int \<times> byte list + reader" where
  read_start: "read_run SHA512 T0 H0 st0 r0 [] [] T0 H0 st0 r0"
| read_other: "read_run SHA512 T0 H0 st0 r0 evs outs T H st r \<Longrightarrow> fs_step SHA512 T H st evs' T' H' st' \<Longrightarrow>
    read_run SHA512 T0 H0 st0 r0 (evs @ evs') outs T' H' st' r"
| read_pread: "read_run SHA512 T0 H0 st0 r0 evs outs T H (idx, master, nxt) (Inr r) \<Longrightarrow> reader_step out r master = Some r' \<Longrightarrow>
    read_run SHA512 T0 H0 st0 r0 evs (outs @ [out]) T H (idx, master, nxt) r'"

text \<open>Where a reader stands, against the pairs and the master file at the time of the lookup.\<close>

fun reading_ok :: "BlockPair list \<Rightarrow> byte list \<Rightarrow> byte list \<Rightarrow> bool \<Rightarrow> io_outcome list \<Rightarrow> (int \<times> byte list + reader) \<Rightarrow> bool" where
  "reading_ok pairs master0 buf0 quiet outs (Inr (Reading ps g buf)) \<longleftrightarrow>
     ps = pairs \<and> g < length pairs \<and> length buf = length buf0 \<and> (quiet \<longrightarrow> buf = put_blocks master0 buf0 (take g pairs))"
| "reading_ok pairs master0 buf0 quiet outs (Inl (ret, buf)) \<longleftrightarrow>
     length buf = length buf0 \<and>
     (ret = - EIO \<and> (\<exists>out \<in> set outs. out \<noteq> IoOk) \<or>
      ret = c_int (of_nat (length pairs) * BLOCK_SIZE64) \<and> (quiet \<longrightarrow> buf = put_blocks master0 buf0 pairs))"

lemma reading_ok_weaken: "reading_ok pairs master0 buf0 quiet outs r \<Longrightarrow> quiet' \<longrightarrow> quiet \<Longrightarrow> reading_ok pairs master0 buf0 quiet' outs r"
  by (cases "(pairs, master0, buf0, quiet, outs, r)" rule: reading_ok.cases) auto

lemma put_blocks_cong:
  "\<forall>p \<in> set ps. block_at m (unat (master_block_index p)) = block_at m' (unat (master_block_index p)) \<Longrightarrow>
   put_blocks m buf ps = put_blocks m' buf ps"
  by (induction ps arbitrary: buf) (simp_all add: put_blocks_def put_block_def)

lemma good_pair_longer:
  "good_pair master len p \<Longrightarrow> length master \<le> length master' \<Longrightarrow> good_pair master' len p"
  by (auto simp: good_pair_def full_block_iff)

lemma reader_step_ok:
  assumes r: "reading_ok pairs master0 buf0 quiet outs (Inr rd)"
    and good: "\<forall>p \<in> set pairs. good_pair master (length buf0) p"
    and same: "quiet \<Longrightarrow> \<forall>p \<in> set pairs. block_at master (unat (master_block_index p)) = block_at master0 (unat (master_block_index p))"
  shows "\<exists>r'. reader_step out rd master = Some r' \<and> reading_ok pairs master0 buf0 quiet (outs @ [out]) r'"
proof -
  obtain g buf where rd: "rd = Reading pairs g buf" and g: "g < length pairs" and len: "length buf = length buf0"
    and buf: "quiet \<Longrightarrow> buf = put_blocks master0 buf0 (take g pairs)" using r by (cases rd) auto
  let ?i = "group_end pairs (Suc g)"
  note ge = reader_group [OF g good]
  obtain res buf' where s: "read_group master pairs g ?i buf out = Some (res, buf')"
    and c: "res = 0 \<and> buf' = put_blocks master buf (map ((!) pairs) [g..<?i]) \<or> res = - EIO \<and> length buf' = length buf"
    and ok: "out = IoOk \<longrightarrow> res = 0"
    using read_group_spec [OF ge(1,2,3), of master buf out] good len by auto
  show ?thesis
  proof (cases "res = 0")
    case True
    then have b: "buf' = put_blocks master buf (map ((!) pairs) [g..<?i])" using c by (auto simp: EIO_def)
    have sub: "\<forall>p \<in> set (map ((!) pairs) [g..<?i]). p \<in> set pairs" using ge(2) by auto
    have lb: "length buf' = length buf0" unfolding b len [symmetric] by (rule length_put_blocks) (use sub good len in simp)
    have "map ((!) pairs) [g..<?i] = take (?i - g) (drop g pairs)"
      using ge(1,2) by (intro nth_equalityI) simp_all
    then have "take g pairs @ map ((!) pairs) [g..<?i] = take ?i pairs" using ge(1) by (metis le_add_diff_inverse less_imp_le take_add)
    moreover have "put_blocks master buf (map ((!) pairs) [g..<?i]) = put_blocks master0 buf (map ((!) pairs) [g..<?i])" if quiet
      using same [OF that] sub by (intro put_blocks_cong) blast
    ultimately have "quiet \<longrightarrow> buf' = put_blocks master0 buf0 (take ?i pairs)"
      unfolding b using buf by (metis put_blocks_append)
    then show ?thesis using True s rd lb ge by (auto simp: Let_def)
  next
    case False
    then have "res = - EIO" "length buf' = length buf0" using c len by auto
    then show ?thesis using s rd ok False by (auto simp: EIO_def)
  qed
qed

text \<open>The state of a lookup is that of a running system.\<close>

definition lookup_ok :: "(byte list \<Rightarrow> digest) \<Rightarrow> thread multiset \<Rightarrow> handler multiset \<Rightarrow> store \<Rightarrow> bool" where
  "lookup_ok SHA512 T H st \<longleftrightarrow> (\<exists>K. conc_inv SHA512 K (all_threads T H) st) \<and> (\<forall>h \<in># H. h_ok h)"

lemma lookup_ok_step:
  assumes "fs_step SHA512 T H st evs T' H' st'" and "lookup_ok SHA512 T H st"
  shows "lookup_ok SHA512 T' H' st'"
  using assms(2) fs_step_ok [OF assms(1)] unfolding lookup_ok_def step_ok_def by blast

lemma read_run_ok:
  assumes "read_run SHA512 T0 H0 (idx0, master0, nxt0) r0 evs outs T H st r"
    and ok: "lookup_ok SHA512 T0 H0 (idx0, master0, nxt0)" and r0: "reading_ok pairs master0 buf0 True [] r0"
    and good: "\<forall>p \<in> set pairs. good_pair master0 (length buf0) p"
    and pairs: "\<forall>p \<in> set pairs. \<exists>b q. file_to_master idx0 (bkey path b) = Some q \<and> master_block_index p = slot_of idx0 q"
  shows "lookup_ok SHA512 T H st \<and> length master0 \<le> master_length st \<and>
    ((\<forall>e \<in> set evs. \<not> touches path e) \<longrightarrow> stable path (idx0, master0, nxt0) st) \<and>
    reading_ok pairs master0 buf0 (\<forall>e \<in> set evs. \<not> touches path e) outs r"
  using assms(1)
proof (induction rule: read_run.induct)
  case read_start
  then show ?case using ok r0 by simp
next
  case (read_other evs outs T H st r evs' T' H' st')
  have l: "lookup_ok SHA512 T H st" using read_other.IH by blast
  have "stable path st st'" if "\<forall>e \<in> set evs'. \<not> touches path e"
    using l fs_step_stable [OF read_other.hyps(2)] that unfolding lookup_ok_def by blast
  moreover have "reading_ok pairs master0 buf0 (\<forall>e \<in> set (evs @ evs'). \<not> touches path e) outs r"
    by (rule reading_ok_weaken [OF conjunct2 [OF conjunct2 [OF conjunct2 [OF read_other.IH]]]]) simp
  moreover have "length master0 \<le> master_length st'"
    using read_other.IH fs_step_length [OF read_other.hyps(2)] order_trans by blast
  moreover have "stable path (idx0, master0, nxt0) st" if "\<forall>e \<in> set (evs @ evs'). \<not> touches path e"
    using read_other.IH that by simp
  ultimately show ?case using lookup_ok_step [OF read_other.hyps(2) l] stable_trans by (metis UnI2 set_append)
next
  case (read_pread evs outs T H idx master nxt rd out r')
  have same: "\<forall>p \<in> set pairs. block_at master (unat (master_block_index p)) = block_at master0 (unat (master_block_index p))"
    if "\<forall>e \<in> set evs. \<not> touches path e"
    using read_pread.IH that pairs by fastforce
  have "\<forall>p \<in> set pairs. good_pair master (length buf0) p"
    using good good_pair_longer read_pread.IH by fastforce
  moreover have "reading_ok pairs master0 buf0 (\<forall>e \<in> set evs. \<not> touches path e) outs (Inr rd)" using read_pread.IH by blast
  ultimately have "reading_ok pairs master0 buf0 (\<forall>e \<in> set evs. \<not> touches path e) (outs @ [out]) r'"
    using reader_step_ok [OF _ _ same, where outs = outs and rd = rd and out = out] read_pread.hyps(2) by auto
  then show ?case using read_pread.IH by blast
qed

lemma begin_read_ok:
  fixes path :: path and off :: u64
  assumes inv: "conc_inv SHA512 K T (idx, master, nxt)" and q: "qsort_contract qsort cmp_master_idx"
    and sz: "unat sz = n * BLOCK_SIZE" "0 < n" and len: "unat sz \<le> length buf"
  defines "v \<equiv> mapped_prefix idx path (off_div_block off) n"
  shows "v = 0 \<and> begin_read qsort mok idx path buf sz off = Some (Inl (0, buf)) \<or>
    v \<noteq> 0 \<and> \<not> mok \<and> begin_read qsort mok idx path buf sz off = Some (Inl (- ENOMEM, buf)) \<or>
    v \<noteq> 0 \<and> (\<exists>ps. begin_read qsort mok idx path buf sz off = Some (Inr (Reading ps 0 buf)) \<and>
       mset ps = mset (map (pair_at idx path (off_div_block off)) [0..<v]) \<and> length ps = v \<and>
       (\<forall>p \<in> set ps. good_pair master (length buf) p) \<and>
       (\<forall>p \<in> set ps. \<exists>b q. file_to_master idx (bkey path b) = Some q \<and> master_block_index p = slot_of idx q) \<and>
       put_blocks master buf ps = concat (map (\<lambda>i. the (fs_block master idx path (off_div_block off + of_nat i))) [0..<v]) @
         drop (v * BLOCK_SIZE) buf)"
proof -
  let ?start = "off_div_block off" and ?P = "pair_at idx path (off_div_block off)"
  let ?pairs = "map ?P [0..<v]"
  note own = inv [unfolded conc_inv_def]
  note D = own_invD [OF own, simplified]
  obtain rel where s: "slots_ok (set_mset (pool t_pend T)) (set_mset (pool t_resv T)) rel nxt idx" using D(3) by blast
  have nb: "unat sz div BLOCK_SIZE = n" "unat sz mod BLOCK_SIZE = 0" using sz by simp_all
  have ll: "lookup_loop idx path ?start [0..<n] = Some ?pairs" unfolding v_def by (rule lookup_loop_upt [OF D(1)])
  have n64: "n * BLOCK_SIZE < 2 ^ 64" using sz(1) unat_less_2_64 [of sz] by simp
  let ?ps = "if v \<le> INSERTION_SORT_THRESHOLD then insertion_sort ?pairs v else qsort cmp_master_idx ?pairs"
  have m: "mset ?ps = mset ?pairs"
    using isort.srt_mset [of ?pairs] pair_sorter.srt_mset [OF qsort_pair_sorter [OF q], of ?pairs] by simp
  have P: "good_pair master (length buf) (?P i)" "unat (logical_idx (?P i)) = i" if "i < v" for i
    using pair_at_good [OF D(1) s D(4) own_room(2) [OF own] _ n64, of i path ?start "length buf"] that len sz(1) unfolding v_def by simp_all
  have set: "set ?ps = ?P ` {0..<v}" using mset_eq_setD [OF m] by simp
  have good: "\<forall>p \<in> set ?ps. good_pair master (length buf) p" unfolding set using P(1) by auto
  have "v \<le> n" unfolding v_def by (rule mapped_prefix_le)
  then have "v * BLOCK_SIZE \<le> length buf" using len sz(1) by (metis dual_order.trans mult_le_mono1)
  note res = put_blocks_result [OF good m P(2) this]
  have at: "\<exists>q. file_to_master idx (bkey path (?start + of_nat i)) = Some q \<and> master_block_index (?P i) = slot_of idx q \<and>
      the (fs_block master idx path (?start + of_nat i)) = block_at master (unat (master_block_index (?P i)))" if "i < v" for i
    using mapped_prefix_mapped [of i idx path ?start n] that unfolding v_def
    by (auto simp: fs_block_def pair_at_def lookup_by_file_block_def)
  have blks: "map (\<lambda>i. block_at master (unat (master_block_index (?P i)))) [0..<v] =
      map (\<lambda>i. the (fs_block master idx path (?start + of_nat i))) [0..<v]"
  proof (intro map_cong refl)
    fix i assume "i \<in> set [0..<v]"
    then show "block_at master (unat (master_block_index (?P i))) = the (fs_block master idx path (?start + of_nat i))"
      using at [of i] by (metis atLeastLessThan_iff set_upt)
  qed
  have "\<forall>p \<in> set ?ps. \<exists>b q. file_to_master idx (bkey path b) = Some q \<and> master_block_index p = slot_of idx q"
  proof
    fix p assume "p \<in> set ?ps"
    then obtain i where i: "i < v" "p = ?P i" unfolding set by auto
    then show "\<exists>b q. file_to_master idx (bkey path b) = Some q \<and> master_block_index p = slot_of idx q"
      using at [OF i(1)] by blast
  qed
  moreover have "length ?ps = v" using m by (metis diff_zero length_map length_upt size_mset)
  moreover have "begin_read qsort mok idx path buf sz off =
      Some (if v = 0 then Inl (0, buf) else if \<not> mok then Inl (- ENOMEM, buf) else Inr (Reading ?ps 0 buf))"
    unfolding begin_read_def Let_def nb using ll sz(2) by simp
  ultimately show ?thesis using good m res [unfolded blks] by (cases "v = 0"; cases mok) (simp_all del: set_map)
qed

text \<open>The theorem on readers: memory-safe whatever happens, and the blocks of the lookup when no other
  request changes the same file.\<close>

lemma concurrent_read:
  assumes ok: "lookup_ok SHA512 T0 H0 (idx, master, nxt)" and q: "qsort_contract qsort cmp_master_idx"
    and sz: "unat sz = n * BLOCK_SIZE" "0 < n" and len: "unat sz \<le> length buf"
    and b: "begin_read qsort mok idx path buf sz off = Some r0"
    and run: "read_run SHA512 T0 H0 (idx, master, nxt) r0 evs outs T H (idx', master', nxt') r"
  defines "blks \<equiv> view_prefix (view (idx, master, nxt)) path (off_div_block off) n"
  shows "case r of
      Inr rd \<Rightarrow> reader_step out rd master' \<noteq> None
    | Inl (ret, buf') \<Rightarrow> length buf' = length buf \<and>
        (ret = - EIO \<and> (\<exists>out \<in> set outs. out \<noteq> IoOk) \<or> ret = - ENOMEM \<and> \<not> mok \<or>
         ret = c_int (of_nat (length blks) * BLOCK_SIZE64) \<and>
         ((\<forall>e \<in> set evs. \<not> touches path e) \<longrightarrow> buf' = concat blks @ drop (length blks * BLOCK_SIZE) buf))"
proof -
  let ?v = "mapped_prefix idx path (off_div_block off) n"
  obtain K where inv: "conc_inv SHA512 K (all_threads T0 H0) (idx, master, nxt)" using ok by (auto simp: lookup_ok_def)
  have bl: "blks = map (\<lambda>i. the (fs_block master idx path (off_div_block off + of_nat i))) [0..<?v]" "length blks = ?v"
    unfolding blks_def view_prefix_mapped by simp_all
  have done_: "r = Inl x" if "r0 = Inl x" for x using run that by (induction rule: read_run.induct) auto
  consider "?v = 0" "r0 = Inl (0, buf)" | "\<not> mok" "r0 = Inl (- ENOMEM, buf)"
    | ps where "r0 = Inr (Reading ps 0 buf)" "length ps = ?v" "?v \<noteq> 0" "\<forall>p \<in> set ps. good_pair master (length buf) p"
        "\<forall>p \<in> set ps. \<exists>b q. file_to_master idx (bkey path b) = Some q \<and> master_block_index p = slot_of idx q"
        "put_blocks master buf ps = concat blks @ drop (length blks * BLOCK_SIZE) buf"
    using begin_read_ok [OF inv q sz len, of path off mok] b unfolding bl by fastforce
  then show ?thesis
  proof cases
    case 1
    then show ?thesis using done_ bl(2) by (simp add: bl(1) c_int_def)
  next
    case 2
    then show ?thesis using done_ by simp
  next
    case (3 ps)
    have "reading_ok ps master buf True [] r0" using 3(1-3) by (simp add: put_blocks_def)
    note R = read_run_ok [OF run ok this 3(4,5)]
    show ?thesis
    proof (cases r)
      case (Inl x)
      then show ?thesis using R 3(2,6) bl(2) by (cases x) auto
    next
      case (Inr rd)
      have "\<forall>p \<in> set ps. good_pair master' (length buf) p" using 3(4) good_pair_longer R by fastforce
      moreover have "reading_ok ps master buf False outs (Inr rd)" using R Inr reading_ok_weaken by blast
      ultimately have "\<exists>r'. reader_step out rd master' = Some r' \<and> reading_ok ps master buf False (outs @ [out]) r'"
        by (intro reader_step_ok) simp_all
      then show ?thesis using Inr by auto
    qed
  qed
qed

end
