(* ===== verification/Remount.thy ===== *)
theory Remount
  imports Passthrough_Spec
begin

text \<open>
  An unmount followed by a mount: \<^verbatim>\<open>xmp_destroy\<close> writes the index, \<^verbatim>\<open>xmp_init\<close> reads it back and takes the
  next slot from the size of the master file. As long as no write failed the new mount shows exactly
  the old contents and sizes and satisfies the invariant. After a failed append it does not: the
  slot that was given back is on the free list and is also beyond the end of the master file.
\<close>

section \<open>Within the limits of the format\<close>

definition format_limits :: "Index \<Rightarrow> u64 \<Rightarrow> bool" where
  "format_limits idx nxt \<longleftrightarrow>
     (\<forall>k \<in> dom (file_to_master idx). valid_path (key_path k)) \<and> (\<forall>f \<in> dom (file_to_sizes idx). valid_path f) \<and>
     unat nxt < 2 ^ 31 \<and> card (dom (file_to_master idx)) < 2 ^ 31 \<and> card (dom (file_to_sizes idx)) < 2 ^ 31"

lemma persistableI:
  assumes ok: "store_ok SHA512 (idx, master, nxt)" and sha: "sha512_contract SHA512" and lim: "format_limits idx nxt"
  shows "persistable idx"
proof -
  have inv: "index_inv nxt idx" and d: "data_ok SHA512 master {} idx" using ok by simp_all
  have t: "tables_ok {} idx" using inv by (simp add: index_inv_def)
  have "valid_info mi" if "minfos idx p = Some mi" for p mi
    using d that hash_length [OF sha] unfolding data_ok_def valid_info_def by (metis empty_iff)
  moreover have "card (dom (hash_to_master idx)) \<le> card (dom (minfos idx))"
  proof (rule card_inj_on_le)
    show "inj_on (\<lambda>d. the (hash_to_master idx d)) (dom (hash_to_master idx))"
      by (rule inj_onI) (use tables_ok_hash [OF t] in fastforce)
    show "(\<lambda>d. the (hash_to_master idx d)) ` dom (hash_to_master idx) \<subseteq> dom (minfos idx)"
      using tables_ok_hash [OF t] by fastforce
    have "inj_on (slot_of idx) (dom (minfos idx))" using inv by (simp add: index_inv_def slots_ok_def published_def)
    then show "finite (dom (minfos idx))" by (rule finite_imageD [rotated]) simp
  qed
  ultimately show ?thesis
    using lim index_inv_conservation(1) [OF inv] by (simp add: persistable_def format_limits_def)
qed

section \<open>The next slot\<close>

lemma off_div_block_tight:
  assumes t: "tight master nxt" and l: "length master < 2 ^ 63"
  shows "off_div_block (of_nat (length master)) = nxt"
proof -
  have u: "unat (of_nat (length master) :: u64) = length master" using l by (intro unat_of_nat_u64) simp
  have "unat (off_div_block (of_nat (length master))) = length master div BLOCK_SIZE"
    using unat_off_div_block [of "of_nat (length master)"] l u by simp
  then show ?thesis using t by (simp add: tight_def u64_eq_iff_unat)
qed

section \<open>A clean restart\<close>

lemma remount_ok:
  assumes ok: "ctx_ok SHA512 c" and t: "store_tight (store_of c)" and l: "length (masterFile c) < 2 ^ 63"
    and sha: "sha512_contract SHA512" and lim: "format_limits (index c) (nextBlockIndex c)"
    and en: "enumerates hs (hash_to_master (index c))" "enumerates fs (file_to_master (index c))"
      "enumerates zs (file_to_sizes (index c))"
    and sv: "all_envs can_save env" and ld: "all_envs can_load env'"
  shows "\<exists>disk' masterFILE c'. xmp_destroy env padding disk hs fs zs c = Some (disk', masterFILE) \<and>
    xmp_init env' garbage disk' masterFILE = Some c' \<and> ctx_ok SHA512 c' \<and> store_tight (store_of c') \<and> ctx_view c' = ctx_view c"
proof -
  have ok': "store_ok SHA512 (index c, masterFile c, nextBlockIndex c)" using ok by (simp add: ctx_ok_def store_of_def)
  then have "tables_ok {} (index c)" by (simp add: index_inv_def)
  from index_roundtrip [OF this persistableI [OF ok' sha lim] en sv ld, of padding disk]
  obtain disk' idx' ren where d: "index_destroy env padding disk hs fs zs (index c) = Some disk'"
    and i: "index_init env' disk' = Some idx'" and iso: "index_iso ren (index c) idx'" by blast
  have tt: "tight (masterFile c) (nextBlockIndex c)" using t by (simp add: store_of_def)
  note st = iso_store [OF iso ok']
  show ?thesis
    using d i st tt off_div_block_tight [OF tt l]
    by (simp add: xmp_destroy_def xmp_init_def ctx_ok_def ctx_view_def store_of_def)
qed

section \<open>A restart after a failed append\<close>

text \<open>One block written to an empty file system while the disk refuses the data.\<close>

lemma failed_append:
  assumes len: "length buf = BLOCK_SIZE" and e: "0 < e"
  shows "write_dedup SHA512 [IoErr e] (empty_index, [], 0) path buf 4096 0 =
    Some (- e, (empty_index\<lparr>free_block_list := [0], next_ptr := 1\<rparr>, [], 1))"
proof -
  let ?h = "hash SHA512 buf"
  let ?e = "\<lparr>kind = PLAN_MISS, logical_blk = 0, master_blk = 0, payload = 0, phash = ?h, info = 0\<rparr> :: PlanEntry"
  let ?m = "\<lparr>info_hash = ?h, masterBlockIndex = 0, refcount = 1\<rparr> :: MasterInfo"
  let ?i = "empty_index\<lparr>minfos := [0 \<mapsto> ?m], next_ptr := 1\<rparr>"
  have pp: "plan_pass SHA512 buf 0 [0..<1] (empty_index, Map.empty, [], 0) = Some (?i, [?h \<mapsto> 0], [?e], 1)"
    using len by (simp add: plan_block.simps Let_def lookup_by_hash_def empty_index_def info_new_def)
  have al: "allocate_batch_storage_first ?i 1 0 = (?i, 1, [0])" by (simp add: allocate_eq empty_index_def)
  have sk: "skip_hits [?e] 0 = 0" "run_extend [?e] (Suc 0) = Suc 0" by (simp_all add: skip_hits.simps run_extend.simps)
  have fl: "flush_plan [] buf [?e] 0 [IoErr e] = Some (- e, [], [])"
    using len by (simp add: flush_plan.simps sk Let_def pwrite_def)
  have af: "alloc_and_flush [IoErr e] buf (?i, [], 0) [?e] 1 = Some (- e, [?e], (?i, [], 1))"
    using al fl by (simp add: alloc_and_flush_def Let_def info_set_def)
  have rb: "rollback_allocations ?i [?e] = Some (empty_index\<lparr>free_block_list := [0], next_ptr := 1\<rparr>)"
    by (simp add: rollback_allocations_def info_free_def empty_index_def)
  have sz: "unat (4096 :: u64) div BLOCK_SIZE = 1" "unat (4096 :: u64) mod BLOCK_SIZE = 0" by (simp_all add: BLOCK_SIZE_def)
  have o: "off_div_block 0 = 0" by (simp add: off_div_block_def)
  show ?thesis
    unfolding write_dedup_def Let_def prod.case sz o pp option.case af using rb e by simp
qed

lemma empty_enumerates: "enumerates [] Map.empty"
  by (simp add: enumerates_def)

lemma remount_after_failed_append:
  assumes sv: "all_envs can_save env" and ld: "all_envs can_load env'"
    and c: "index c = empty_index\<lparr>free_block_list := [0], next_ptr := 1\<rparr>" "masterFile c = []"
  shows "\<exists>disk' c'. xmp_destroy env padding disk [] [] [] c = Some (disk', []) \<and> xmp_init env' garbage disk' [] = Some c' \<and>
    nextBlockIndex c' = 0 \<and> masterFile c' = [] \<and> free_block_list (index c') = [0] \<and> hash_to_master (index c') = Map.empty \<and>
    file_to_master (index c') = Map.empty \<and> file_to_sizes (index c') = Map.empty"
proof -
  have "tables_ok {} (index c)" "persistable (index c)"
    by (simp_all add: c(1) empty_index_def tables_ok_def persistable_def published_def)
  moreover have "enumerates [] (hash_to_master (index c))" "enumerates [] (file_to_master (index c))"
    "enumerates [] (file_to_sizes (index c))" by (simp_all add: c(1) empty_index_def empty_enumerates)
  ultimately obtain disk' idx' ren where d: "index_destroy env padding disk [] [] [] (index c) = Some disk'"
    and i: "index_init env' disk' = Some idx'" and iso: "index_iso ren (index c) idx'"
    using index_roundtrip [OF _ _ _ _ _ sv ld] by blast
  have "free_block_list idx' = [0]" "hash_to_master idx' = Map.empty" "file_to_master idx' = Map.empty"
    "file_to_sizes idx' = Map.empty"
    using index_isoD(6,7) [OF iso] index_isoD(4,5) [OF iso] c(1) by (auto simp: empty_index_def fun_eq_iff)
  then show ?thesis using d i c(2) by (simp add: xmp_destroy_def xmp_init_def off_div_block_def)
qed

section \<open>The first block written to an empty file system\<close>

definition first_index :: "digest \<Rightarrow> path \<Rightarrow> Index" where
  "first_index h path = \<lparr>hash_to_master = [h \<mapsto> 0], file_to_master = [bkey path 0 \<mapsto> 0], free_block_list = [],
     file_to_sizes = [path \<mapsto> 4096], minfos = [0 \<mapsto> \<lparr>info_hash = h, masterBlockIndex = 0, refcount = 1\<rparr>], next_ptr = 1\<rparr>"

lemma first_append:
  assumes len: "length buf = BLOCK_SIZE"
  shows "write_dedup SHA512 [] (empty_index, [], 0) path buf 4096 0 = Some (4096, (first_index (hash SHA512 buf) path, buf, 1))"
proof -
  let ?h = "hash SHA512 buf"
  let ?e = "\<lparr>kind = PLAN_MISS, logical_blk = 0, master_blk = 0, payload = 0, phash = ?h, info = 0\<rparr> :: PlanEntry"
  let ?m = "\<lparr>info_hash = ?h, masterBlockIndex = 0, refcount = 1\<rparr> :: MasterInfo"
  let ?i = "empty_index\<lparr>minfos := [0 \<mapsto> ?m], next_ptr := 1\<rparr>"
  have pp: "plan_pass SHA512 buf 0 [0..<1] (empty_index, Map.empty, [], 0) = Some (?i, [?h \<mapsto> 0], [?e], 1)"
    using len by (simp add: plan_block.simps Let_def lookup_by_hash_def empty_index_def info_new_def)
  have al: "allocate_batch_storage_first ?i 1 0 = (?i, 1, [0])" by (simp add: allocate_eq empty_index_def)
  have sk: "skip_hits [?e] 0 = 0" "run_extend [?e] (Suc 0) = Suc 0" "skip_hits [?e] (Suc 0) = Suc 0"
    by (simp_all add: skip_hits.simps run_extend.simps)
  have "overlay [] 0 buf = buf" by (simp add: overlay_def)
  then have fl: "flush_plan [] buf [?e] 0 [] = Some (0, buf, [])"
    using len by (simp add: flush_plan.simps sk Let_def pwrite_def)
  have af: "alloc_and_flush [] buf (?i, [], 0) [?e] 1 = Some (0, [?e], (?i, buf, 1))"
    using al fl by (simp add: alloc_and_flush_def Let_def info_set_def)
  have p3: "write_pass3 ?i path [?e] ((0 + of_nat 1) * BLOCK_SIZE64) = Some (first_index ?h path)"
    by (simp add: write_pass3_def lookup_by_hash_def lookup_by_file_block_def insert_hash_def insert_file_block_def
        empty_index_def update_size_def first_index_def BLOCK_SIZE64_def BLOCK_SIZE_def)
  have sz: "unat (4096 :: u64) div BLOCK_SIZE = 1" "unat (4096 :: u64) mod BLOCK_SIZE = 0" by (simp_all add: BLOCK_SIZE_def)
  have o: "off_div_block 0 = 0" by (simp add: off_div_block_def)
  have c: "c_int (of_nat 1 * BLOCK_SIZE64) = 4096" by (simp add: c_int_def BLOCK_SIZE64_def BLOCK_SIZE_def)
  show ?thesis
    unfolding write_dedup_def Let_def prod.case sz o pp option.case af using p3 c by simp
qed

section \<open>Two different blocks in one slot\<close>

text \<open>What the allocator does with a free slot that is also the next one: it hands it out twice in one
  batch, so the second block overwrites the first.\<close>

lemma double_allocation:
  assumes idx: "hash_to_master idx = Map.empty" "file_to_master idx = Map.empty" "file_to_sizes idx = Map.empty"
      "free_block_list idx = [0]"
    and len: "length b0 = BLOCK_SIZE" "length b1 = BLOCK_SIZE" and h: "hash SHA512 b0 \<noteq> hash SHA512 b1"
  shows "\<exists>idx'. write_dedup SHA512 [] (idx, [], 0) path (b0 @ b1) 8192 0 = Some (8192, (idx', b1, 1)) \<and>
    fs_block b1 idx' path 0 = Some b1 \<and> fs_block b1 idx' path 1 = Some b1"
proof -
  let ?h0 = "hash SHA512 b0" and ?h1 = "hash SHA512 b1" and ?p = "next_ptr idx" and ?buf = "b0 @ b1"
  let ?e0 = "\<lparr>kind = PLAN_MISS, logical_blk = 0, master_blk = 0, payload = 0, phash = ?h0, info = ?p\<rparr> :: PlanEntry"
  let ?e1 = "\<lparr>kind = PLAN_MISS, logical_blk = 1, master_blk = 0, payload = BLOCK_SIZE, phash = ?h1, info = Suc ?p\<rparr> :: PlanEntry"
  let ?m = "\<lambda>d. \<lparr>info_hash = d, masterBlockIndex = 0, refcount = 1\<rparr> :: MasterInfo"
  let ?i = "idx\<lparr>minfos := (minfos idx)(?p \<mapsto> ?m ?h0, Suc ?p \<mapsto> ?m ?h1), next_ptr := Suc (Suc ?p)\<rparr>"
  let ?j = "?i\<lparr>free_block_list := []\<rparr>"
  have two: "[0..<2] = [0, Suc 0]" by (simp add: upt_rec)
  have pp: "plan_pass SHA512 ?buf 0 [0..<2] (idx, Map.empty, [], 0) = Some (?i, [?h0 \<mapsto> ?p, ?h1 \<mapsto> Suc ?p], [?e0, ?e1], 2)"
    unfolding two using len h by (simp add: plan_block.simps Let_def lookup_by_hash_def idx info_new_def)
  have al: "allocate_batch_storage_first ?i 2 0 = (?j, 1, [0, 0])" by (simp add: allocate_eq idx)
  have as: "assign_blocks ?j [?e0, ?e1] [0, 0] = Some (?j, [?e0, ?e1])"
    by (simp add: info_set_def fun_upd_twist)
  have sk: "skip_hits [?e0, ?e1] 0 = 0" "run_extend [?e0, ?e1] (Suc 0) = Suc 0" "skip_hits [?e0, ?e1] (Suc 0) = Suc 0"
    "run_extend [?e0, ?e1] (Suc (Suc 0)) = Suc (Suc 0)" "skip_hits [?e0, ?e1] (Suc (Suc 0)) = Suc (Suc 0)"
    by (simp_all add: skip_hits.simps run_extend.simps)
  have ov: "overlay [] 0 b0 = b0" "overlay b0 0 b1 = b1" using len by (auto simp: overlay_def BLOCK_SIZE_def)
  have fl: "flush_plan [] ?buf [?e0, ?e1] 0 [] = Some (0, b1, [])"
    using len ov by (simp add: flush_plan.simps sk Let_def pwrite_def)
  have af: "alloc_and_flush [] ?buf (?i, [], 0) [?e0, ?e1] 2 = Some (0, [?e0, ?e1], (?j, b1, 1))"
    using fl by (simp add: alloc_and_flush_def al as)
  let ?k = "?j\<lparr>hash_to_master := [?h0 \<mapsto> ?p, ?h1 \<mapsto> Suc ?p], file_to_master := [bkey path 0 \<mapsto> ?p, bkey path 1 \<mapsto> Suc ?p],
      file_to_sizes := [path \<mapsto> 8192]\<rparr>"
  have p3: "write_pass3 ?j path [?e0, ?e1] ((0 + of_nat 2) * BLOCK_SIZE64) = Some ?k"
    using h by (simp add: write_pass3_def lookup_by_hash_def lookup_by_file_block_def insert_hash_def insert_file_block_def
        update_size_def idx BLOCK_SIZE64_def BLOCK_SIZE_def)
  have sz: "unat (8192 :: u64) div BLOCK_SIZE = 2" "unat (8192 :: u64) mod BLOCK_SIZE = 0" by (simp_all add: BLOCK_SIZE_def)
  have o: "off_div_block 0 = 0" by (simp add: off_div_block_def)
  have c: "c_int (of_nat 2 * BLOCK_SIZE64) = 8192" by (simp add: c_int_def BLOCK_SIZE64_def BLOCK_SIZE_def)
  have "write_dedup SHA512 [] (idx, [], 0) path ?buf 8192 0 = Some (8192, (?k, b1, 1))"
    unfolding write_dedup_def Let_def prod.case sz o pp option.case af using p3 c by simp
  moreover have "fs_block b1 ?k path 0 = Some b1" "fs_block b1 ?k path 1 = Some b1"
    using len by (simp_all add: fs_block_def lookup_by_file_block_def slot_of_def block_at_def)
  ultimately show ?thesis by blast
qed

end
