(* ===== verification/Races.thy ===== *)
theory Races
  imports Reader_Sections Remount
begin

text \<open>
  Three interleavings that the locks of the index allow and that go wrong. In the first, two writers store
  the same new block at once and one of them has the block twice in its request: the object of the second
  entry is freed together with that of the first when the race is lost, and the file keeps a pointer to
  it. In the second, a reader has looked up the slot of a block and released the lock; before its
  \<^verbatim>\<open>pread\<close> the slot is freed and used for another file. In the third, a write of a file takes effect
  between the two write-locked sections of an unlink: the blocks stay, the size is gone, and no later
  unlink finds them.
\<close>

section \<open>A schedule of threads\<close>

text \<open>Runs the sections of the threads in the given order, with all system calls successful. \<open>None\<close>: a section
  touched memory that is not allocated.\<close>

fun run_schedule :: "nat list \<Rightarrow> thread option list \<Rightarrow> store \<Rightarrow> (thread option list \<times> store) option" where
  "run_schedule [] ts st = Some (ts, st)"
| "run_schedule (i # is) ts st =
     (case ts ! i of
        None \<Rightarrow> run_schedule is ts st
      | Some t \<Rightarrow>
          (case thread_step IoOk t st of
             None \<Rightarrow> None
           | Some (evs, t', st') \<Rightarrow> run_schedule is (ts[i := t']) st'))"

section \<open>The race for a new block\<close>

definition race_plan :: "digest \<Rightarrow> u64 \<Rightarrow> ptr \<Rightarrow> PlanEntry list" where
  "race_plan h slot p =
     [\<lparr>kind = PLAN_MISS, logical_blk = 0, master_blk = slot, payload = 0, phash = h, info = p\<rparr>,
      \<lparr>kind = PLAN_HIT, logical_blk = 1, master_blk = 0, payload = BLOCK_SIZE, phash = h, info = p\<rparr>]"

definition race_info :: "digest \<Rightarrow> u64 \<Rightarrow> u32 \<Rightarrow> MasterInfo" where
  "race_info h slot n = \<lparr>info_hash = h, masterBlockIndex = slot, refcount = n\<rparr>"

lemma race_flush_position:
  "length (race_plan h x p) = 2" "skip_hits (race_plan h x p) 0 = 0" "run_extend (race_plan h x p) (Suc 0) = Suc 0"
  "skip_hits (race_plan h x p) (Suc 0) = 2"
  by (simp_all add: race_plan_def skip_hits.simps run_extend.simps)

lemma race_sizes: "unat (8192 :: u64) div BLOCK_SIZE = 2" "off_div_block 0 = 0" "(0 + of_nat 2) * BLOCK_SIZE64 = (8192 :: u64)"
  by (simp_all add: BLOCK_SIZE_def off_div_block_def BLOCK_SIZE64_def)

lemma race_begin:
  assumes len: "length b = BLOCK_SIZE" and h: "h = hash SHA512 b" "hash_to_master idx h = None"
    and p: "p = next_ptr idx" "minfos idx p = None"
  shows "begin_write SHA512 path (b @ b) 8192 0 (idx, master, nxt) =
    Some (Planned path (b @ b) 0 (race_plan h 0 p) 1,
      (idx\<lparr>minfos := (minfos idx)(p \<mapsto> race_info h 0 2), next_ptr := Suc p\<rparr>, master, nxt))"
proof -
  have two: "[0..<2] = [0, Suc 0]" by (simp add: upt_rec)
  have "plan_pass SHA512 (b @ b) 0 [0..<2] (idx, Map.empty, [], 0) =
      Some (idx\<lparr>minfos := (minfos idx)(p \<mapsto> race_info h 0 2), next_ptr := Suc p\<rparr>, [h \<mapsto> p], race_plan h 0 p, 1)"
    unfolding two using len h p
    by (simp add: plan_block.simps Let_def lookup_by_hash_def info_new_def refcount_inc_def info_set_def race_plan_def race_info_def)
  then show ?thesis unfolding begin_write.simps Let_def race_sizes by simp
qed

lemma race_drain:
  assumes "free_block_list idx = []"
  shows "thread_step out (Planned path buf 0 (race_plan h 0 p) 1) (idx, master, nxt) =
    Some ([], Some (Drained path buf 0 (race_plan h 0 p) 1 []), (idx, master, nxt))"
proof -
  have "idx\<lparr>free_block_list := []\<rparr> = idx" using assms by (cases idx) simp
  then show ?thesis using assms by (simp add: thread_step.simps)
qed

lemma race_grow:
  assumes "minfos idx p = Some (race_info h 0 2)"
  shows "thread_step out (Drained path buf 0 (race_plan h 0 p) 1 []) (idx, master, nxt) =
    Some ([], Some (Flushing path buf 0 (race_plan h nxt p) 0), (idx\<lparr>minfos := (minfos idx)(p \<mapsto> race_info h nxt 2)\<rparr>, master, nxt + 1))"
  using assms by (simp add: thread_step.simps race_plan_def race_info_def info_set_def)

lemma race_pwrite:
  assumes "length b = BLOCK_SIZE" and "unat x < MAX_BLOCKS"
  shows "thread_step IoOk (Flushing path (b @ b) 0 (race_plan h x p) 0) (idx, master, nxt) =
    Some ([], Some (Flushing path (b @ b) 0 (race_plan h x p) (Suc 0)), (idx, overlay master (unat x * BLOCK_SIZE) b, nxt))"
proof -
  have "unat (x * BLOCK_SIZE64) = unat x * BLOCK_SIZE" "0 \<le> sint (x * BLOCK_SIZE64)"
    using assms(2) unat_mult_BLOCK_SIZE [of x] sint_mult_BLOCK_SIZE_nonneg by simp_all
  moreover have "master_blk (race_plan h x p ! 0) = x" "payload (race_plan h x p ! 0) = 0" by (simp_all add: race_plan_def)
  ultimately show ?thesis
    using assms(1) by (simp add: thread_step.simps flush_run_def race_flush_position Let_def pwrite_def)
qed

definition race_index :: "digest \<Rightarrow> path \<Rightarrow> ptr \<Rightarrow> Index \<Rightarrow> Index" where
  "race_index h path p idx = idx\<lparr>hash_to_master := (hash_to_master idx)(h \<mapsto> p),
     file_to_master := (file_to_master idx)(bkey path 0 \<mapsto> p, bkey path 1 \<mapsto> p), file_to_sizes := (file_to_sizes idx)(path \<mapsto> 8192)\<rparr>"

text \<open>The winner publishes its object and maps both blocks to it.\<close>

lemma race_win:
  assumes "hash_to_master idx h = None" and "minfos idx p = Some (race_info h x 2)"
    and "file_to_master idx = Map.empty" "file_to_sizes idx = Map.empty"
  shows "\<exists>evs rc. thread_step out (Flushing path buf 0 (race_plan h x p) (Suc 0)) (idx, master, nxt) =
    Some (evs, Some (Releasing rc []), (race_index h path p idx, master, nxt))"
proof -
  have "commit_section idx path (race_plan h x p) 8192 = Some (race_index h path p idx, [])"
    using assms by (simp add: commit_section_def race_plan_def race_info_def race_index_def lookup_by_hash_def lookup_by_file_block_def
        insert_hash_def insert_file_block_def update_size_def)
  then show ?thesis using race_sizes(3) by (simp add: thread_step.simps race_flush_position)
qed

text \<open>The loser frees its object, uses the winner's for the first block and keeps the freed one for the second.\<close>

lemma race_lose:
  assumes h: "hash_to_master idx h = Some w" and p: "minfos idx p = Some (race_info h x 2)" "p \<noteq> w"
    and w: "minfos idx w = Some (race_info h 0 2)"
    and f: "file_to_master idx (bkey path 0) = None" "file_to_master idx (bkey path 1) = None" "file_to_sizes idx path = None"
  shows "\<exists>evs rc. thread_step out (Flushing path buf 0 (race_plan h x p) (Suc 0)) (idx, master, nxt) =
    Some (evs, Some (Releasing rc [x]),
      (idx\<lparr>minfos := (minfos idx)(p := None, w \<mapsto> race_info h 0 3),
           file_to_master := (file_to_master idx)(bkey path 0 \<mapsto> w, bkey path 1 \<mapsto> p),
           file_to_sizes := (file_to_sizes idx)(path \<mapsto> 8192)\<rparr>, master, nxt))"
proof -
  have "commit_section idx path (race_plan h x p) 8192 =
      Some (idx\<lparr>minfos := (minfos idx)(p := None, w \<mapsto> race_info h 0 3),
           file_to_master := (file_to_master idx)(bkey path 0 \<mapsto> w, bkey path 1 \<mapsto> p),
           file_to_sizes := (file_to_sizes idx)(path \<mapsto> 8192)\<rparr>, [x])"
    using assms by (simp add: commit_section_def race_plan_def race_info_def lookup_by_hash_def lookup_by_file_block_def
        info_free_def refcount_inc_def info_set_def insert_file_block_def update_size_def domIff)
  then show ?thesis using race_sizes(3) by (simp add: thread_step.simps race_flush_position)
qed

lemma lost_race:
  assumes len: "length b = BLOCK_SIZE"
  shows "\<exists>tA tB st1 st2 idx master nxt.
    begin_write SHA512 ''/a'' (b @ b) 8192 0 (empty_index, [], 0) = Some (tA, st1) \<and>
    begin_write SHA512 ''/b'' (b @ b) 8192 0 st1 = Some (tB, st2) \<and>
    run_schedule [1, 1, 1, 1, 1, 0, 0, 0, 0, 0] [Some tA, Some tB] st2 = Some ([None, None], (idx, master, nxt)) \<and>
    file_to_master idx (bkey ''/a'' 1) = Some 0 \<and> minfos idx 0 = None \<and>
    lookup_loop idx ''/a'' 0 [0..<2] = None"
proof -
  let ?h = "hash SHA512 b" and ?buf = "b @ b"
  let ?iA = "empty_index\<lparr>minfos := [0 \<mapsto> race_info ?h 0 2], next_ptr := 1\<rparr>"
  let ?iAB = "empty_index\<lparr>minfos := [0 \<mapsto> race_info ?h 0 2, 1 \<mapsto> race_info ?h 0 2], next_ptr := 2\<rparr>"
  let ?tA = "Planned ''/a'' ?buf 0 (race_plan ?h 0 0) 1" and ?tB = "Planned ''/b'' ?buf 0 (race_plan ?h 0 1) 1"
  have a: "begin_write SHA512 ''/a'' ?buf 8192 0 (empty_index, [], 0) = Some (?tA, (?iA, [], 0))"
    by (subst race_begin [OF len refl, where idx = empty_index and p = 0]) (simp_all add: empty_index_def)
  have b: "begin_write SHA512 ''/b'' ?buf 8192 0 (?iA, [], 0) = Some (?tB, (?iAB, [], 0))"
    by (subst race_begin [OF len refl, where idx = ?iA and p = 1]) (simp_all add: empty_index_def)
  let ?iB = "race_index ?h ''/b'' 1 ?iAB"
  have m: "minfos ?iAB 1 = Some (race_info ?h 0 2)" "minfos ?iB 0 = Some (race_info ?h 0 2)" "?iAB\<lparr>minfos := (minfos ?iAB)(1 \<mapsto> race_info ?h 0 2)\<rparr> = ?iAB"
    "free_block_list ?iAB = []" "free_block_list ?iB = []" by (simp_all add: race_index_def empty_index_def fun_upd_twist)
  have ov: "overlay [] 0 b = b" "overlay b BLOCK_SIZE b = b @ b" using len by (simp_all add: overlay_def)
  obtain evs1 rc1 where win: "thread_step IoOk (Flushing ''/b'' ?buf 0 (race_plan ?h 0 1) (Suc 0)) (?iAB, b, 1) =
      Some (evs1, Some (Releasing rc1 []), (?iB, b, 1))"
    using race_win [of ?iAB ?h 1 0 IoOk "''/b''" ?buf b 1] m(1) by (auto simp: empty_index_def)
  let ?iA2 = "?iB\<lparr>minfos := (minfos ?iB)(0 \<mapsto> race_info ?h 1 2)\<rparr>"
  let ?new_end = "?iA2\<lparr>minfos := (minfos ?iA2)(0 := None, 1 \<mapsto> race_info ?h 0 3),
           file_to_master := (file_to_master ?iA2)(bkey ''/a'' 0 \<mapsto> 1, bkey ''/a'' 1 \<mapsto> 0),
           file_to_sizes := (file_to_sizes ?iA2)(''/a'' \<mapsto> 8192)\<rparr>"
  obtain evs2 rc2 where lose: "thread_step IoOk (Flushing ''/a'' ?buf 0 (race_plan ?h 1 0) (Suc 0)) (?iA2, b @ b, 2) =
      Some (evs2, Some (Releasing rc2 [1]), (?new_end, b @ b, 2))"
    using race_lose [of ?iA2 ?h 1 0 1 "''/a''" IoOk ?buf "b @ b" 2] by (auto simp: race_index_def empty_index_def)
  have giveB: "thread_step IoOk (Releasing rc1 []) (?iB, b, 1) = Some ([Returned rc1], None, (?iB, b, 1))"
    by (simp add: thread_step.simps give_back_def)
  let ?fin = "give_back ?new_end [1]"
  have giveA: "thread_step IoOk (Releasing rc2 [1]) (?new_end, b @ b, 2) = Some ([Returned rc2], None, (?fin, b @ b, 2))"
    by (simp add: thread_step.simps)
  note steps = race_drain [OF m(4), of IoOk "''/b''" ?buf ?h 1 "[]" 0] race_grow [OF m(1), of IoOk "''/b''" ?buf "[]" 0, unfolded m(3)]
    race_pwrite [OF len, of 0 "''/b''" ?h 1 ?iAB "[]" 1, simplified ov] win giveB
    race_drain [OF m(5), of IoOk "''/a''" ?buf ?h 0 b 1] race_grow [OF m(2), of IoOk "''/a''" ?buf b 1]
    race_pwrite [OF len, of 1 "''/a''" ?h 0 ?iA2 b 2] lose giveA
  have "run_schedule [1, 1, 1, 1, 1, 0, 0, 0, 0, 0] [Some ?tA, Some ?tB] (?iAB, [], 0) = Some ([None, None], (?fin, b @ b, 2))"
    using steps ov by simp
  moreover have "file_to_master ?fin (bkey ''/a'' 1) = Some 0" "minfos ?fin 0 = None"
    by (simp_all add: give_back_def race_index_def)
  moreover have "lookup_loop ?fin ''/a'' 0 [0..<2] = None"
  proof -
    have two: "[0..<2] = [0, Suc 0]" by (simp add: upt_rec)
    show ?thesis unfolding two by (simp add: lookup_by_file_block_def give_back_def race_index_def)
  qed
  ultimately show ?thesis using a b by blast
qed

section \<open>A read of a slot that was reused\<close>

lemma reuse_slot:
  assumes idx: "hash_to_master idx = Map.empty" "file_to_master idx = Map.empty" "file_to_sizes idx path = None"
      "free_block_list idx = [0]"
    and len: "length b = BLOCK_SIZE" "length c = BLOCK_SIZE"
  shows "\<exists>idx'. write_dedup SHA512 [] (idx, b, 1) path c 4096 0 = Some (4096, (idx', c, 1)) \<and>
    fs_block c idx' path 0 = Some c \<and> (\<forall>g. g \<noteq> path \<longrightarrow> fs_block c idx' g 0 = None)"
proof -
  let ?h = "hash SHA512 c" and ?p = "next_ptr idx"
  let ?e = "\<lparr>kind = PLAN_MISS, logical_blk = 0, master_blk = 0, payload = 0, phash = ?h, info = ?p\<rparr> :: PlanEntry"
  let ?m = "\<lparr>info_hash = ?h, masterBlockIndex = 0, refcount = 1\<rparr> :: MasterInfo"
  let ?i = "idx\<lparr>minfos := (minfos idx)(?p \<mapsto> ?m), next_ptr := Suc ?p\<rparr>"
  let ?j = "?i\<lparr>free_block_list := []\<rparr>"
  have pp: "plan_pass SHA512 c 0 [0..<1] (idx, Map.empty, [], 0) = Some (?i, [?h \<mapsto> ?p], [?e], 1)"
    using len by (simp add: plan_block.simps Let_def lookup_by_hash_def idx info_new_def)
  have al: "allocate_batch_storage_first ?i 1 1 = (?j, 1, [0])" by (simp add: allocate_eq idx)
  have sk: "skip_hits [?e] 0 = 0" "run_extend [?e] (Suc 0) = Suc 0" "skip_hits [?e] (Suc 0) = Suc 0"
    by (simp_all add: skip_hits.simps run_extend.simps)
  have "overlay b 0 c = c" using len by (auto simp: overlay_def BLOCK_SIZE_def)
  then have fl: "flush_plan b c [?e] 0 [] = Some (0, c, [])"
    using len by (simp add: flush_plan.simps sk Let_def pwrite_def)
  have af: "alloc_and_flush [] c (?i, b, 1) [?e] 1 = Some (0, [?e], (?j, c, 1))"
    using al fl by (simp add: alloc_and_flush_def Let_def info_set_def)
  let ?k = "?j\<lparr>hash_to_master := [?h \<mapsto> ?p], file_to_master := [bkey path 0 \<mapsto> ?p], file_to_sizes := (file_to_sizes idx)(path \<mapsto> 4096)\<rparr>"
  have p3: "write_pass3 ?j path [?e] ((0 + of_nat 1) * BLOCK_SIZE64) = Some ?k"
    by (simp add: write_pass3_def lookup_by_hash_def lookup_by_file_block_def insert_hash_def insert_file_block_def
        idx update_size_def BLOCK_SIZE64_def BLOCK_SIZE_def)
  have sz: "unat (4096 :: u64) div BLOCK_SIZE = 1" "unat (4096 :: u64) mod BLOCK_SIZE = 0" by (simp_all add: BLOCK_SIZE_def)
  have cv: "c_int (of_nat 1 * BLOCK_SIZE64) = 4096" by (simp add: c_int_def BLOCK_SIZE64_def BLOCK_SIZE_def)
  have "write_dedup SHA512 [] (idx, b, 1) path c 4096 0 = Some (4096, (?k, c, 1))"
    unfolding write_dedup_def Let_def prod.case sz race_sizes(2) pp option.case af using p3 cv by simp
  moreover have "fs_block c ?k path 0 = Some c" "g \<noteq> path \<Longrightarrow> fs_block c ?k g 0 = None" for g
    using len by (simp_all add: fs_block_def lookup_by_file_block_def slot_of_def block_at_def)
  ultimately show ?thesis by blast
qed

lemma stale_read:
  assumes len: "length b = BLOCK_SIZE" "length c = BLOCK_SIZE" "length buf = BLOCK_SIZE"
  shows "\<exists>idx1 r idx2 idx3.
    write_dedup SHA512 [] (empty_index, [], 0) ''/a'' b 4096 0 = Some (4096, (idx1, b, 1)) \<and>
    begin_read qsort True idx1 ''/a'' buf 4096 0 = Some (Inr r) \<and>
    remove_blocks_dedup_batch idx1 ''/a'' 0 1 = Some idx2 \<and>
    write_dedup SHA512 [] (idx2, b, 1) ''/b'' c 4096 0 = Some (4096, (idx3, c, 1)) \<and>
    fs_block b idx1 ''/a'' 0 = Some b \<and> fs_block c idx3 ''/a'' 0 = None \<and> fs_block c idx3 ''/b'' 0 = Some c \<and>
    reader_step IoOk r c = Some (Inl (4096, c))"
proof -
  let ?idx1 = "first_index (hash SHA512 b) ''/a''" and ?pair = "\<lparr>logical_idx = 0, master_block_index = 0\<rparr> :: BlockPair"
  have look: "lookup_loop ?idx1 ''/a'' 0 [0..<1] = Some [?pair]"
    by (simp add: first_index_def lookup_by_file_block_def)
  let ?idx2 = "\<lparr>hash_to_master = Map.empty, file_to_master = Map.empty, free_block_list = [0], file_to_sizes = [''/a'' \<mapsto> 4096],
      minfos = Map.empty, next_ptr = 1\<rparr> :: Index"
  have rm: "remove_blocks_dedup_batch ?idx1 ''/a'' 0 1 = Some ?idx2"
    by (simp add: remove_blocks_dedup_batch_def block_range_def first_index_def lookup_by_file_block_def remove_file_block_def
        release_info_def refcount_fetch_sub_def info_set_def info_free_def remove_hash_def)
  obtain idx3 where w: "write_dedup SHA512 [] (?idx2, b, 1) ''/b'' c 4096 0 = Some (4096, (idx3, c, 1))"
    "fs_block c idx3 ''/b'' 0 = Some c" "\<forall>g. g \<noteq> ''/b'' \<longrightarrow> fs_block c idx3 g 0 = None"
    using reuse_slot [of ?idx2 "''/b''" b c SHA512] len(1,2) by auto
  have srt: "insertion_sort [?pair] (length [?pair]) = [?pair]"
    using conjunct1 [OF insertion_sort_spec [of "[?pair]"]] by simp
  have sz: "unat (4096 :: u64) div BLOCK_SIZE = 1" "unat (4096 :: u64) mod BLOCK_SIZE = 0" by (simp_all add: BLOCK_SIZE_def)
  have br: "begin_read qsort True ?idx1 ''/a'' buf 4096 0 = Some (Inr (Reading [?pair] 0 buf))"
    unfolding begin_read_def Let_def sz race_sizes(2) look using srt by (simp add: INSERTION_SORT_THRESHOLD_def)
  have "read_group c [?pair] 0 1 buf IoOk = Some (0, c)"
    using len(2,3) by (simp add: read_group_def pread_def memcpy_at_def Let_def)
  then have rd: "reader_step IoOk (Reading [?pair] 0 buf) c = Some (Inl (4096, c))"
    by (simp add: group_end.simps c_int_def BLOCK_SIZE64_def BLOCK_SIZE_def)
  have "fs_block b ?idx1 ''/a'' 0 = Some b"
    using len(1) by (simp add: fs_block_def lookup_by_file_block_def first_index_def slot_of_def block_at_def)
  then show ?thesis using first_append [OF len(1), of SHA512 "''/a''"] br rm w rd by fastforce
qed

section \<open>A write during an unlink\<close>

text \<open>The sections of the removal inside a handler, one after the other.\<close>

lemma handler_removal:
  assumes r: "remove_blocks_dedup_batch idx path s e = Some idx'" and lt: "s < e"
  shows "\<exists>t st1. handler_step (Dropping path target s e) (idx, master, nxt) =
      Some ([Section (Dropped path s e)], Some (Removing path target t), st1) \<and>
    handler_step (Removing path target t) st1 = Some ([Section (Returned 0)], Some (Resizing path target), (idx', master, nxt))"
proof -
  obtain i rel where i: "remove_loop idx path (block_range s e) [] = Some (i, rel)" "idx' = give_back i rel"
    using r lt leD [of e s] by (auto simp: remove_blocks_dedup_batch_def give_back_def split: option.splits if_splits)
  then show ?thesis using lt by (intro exI [of _ "Releasing 0 rel"] exI [of _ "(i, master, nxt)"])
      (simp add: handler_step.simps thread_step.simps)
qed

lemma stored_blocks_sub: "sub_infos idx idx' \<Longrightarrow> stored_blocks master idx' \<subseteq> stored_blocks master idx"
proof
  fix x assume sub: "sub_infos idx idx'" and "x \<in> stored_blocks master idx'"
  then obtain p mi where p: "minfos idx' p = Some mi" "x = block_at master (unat (masterBlockIndex mi))"
    by (auto simp: stored_blocks_def)
  then obtain mj where "minfos idx p = Some mj" "masterBlockIndex mj = masterBlockIndex mi" using sub by (metis sub_infos_def)
  then show "x \<in> stored_blocks master idx" using p(2) by (force simp: stored_blocks_def)
qed

lemma unlink_race:
  assumes ok: "store_ok SHA512 (idx, master, nxt)" and ls: "file_to_sizes idx path = Some ls" "0 < blocks_up ls"
    and fits: "request_fits (idx, master, nxt) sz off" and sz: "unat sz = n * BLOCK_SIZE" "0 < n" "unat sz \<le> length buf"
    and nc: "no_collision SHA512 (stored (idx, master, nxt) \<union> set (buf_blocks buf n))"
  shows "\<exists>t st1 st2 st3 idx4 master4 nxt4.
    handler_step (Sizing path None) (idx, master, nxt) = Some ([], Some (Dropping path None 0 (blocks_up ls)), (idx, master, nxt)) \<and>
    handler_step (Dropping path None 0 (blocks_up ls)) (idx, master, nxt) =
      Some ([Section (Dropped path 0 (blocks_up ls))], Some (Removing path None t), st1) \<and>
    handler_step (Removing path None t) st1 = Some ([Section (Returned 0)], Some (Resizing path None), st2) \<and>
    write_dedup SHA512 [] st2 path buf sz off = Some (c_int (of_nat n * BLOCK_SIZE64), st3) \<and>
    handler_step (Resizing path None) st3 = Some ([Resized path None], None, (idx4, master4, nxt4)) \<and>
    (\<forall>k < n. fs_block master4 idx4 path (off_div_block off + of_nat k) = Some (block_at buf k)) \<and>
    file_to_sizes idx4 path = None \<and> unlink_index idx4 path = Some idx4"
proof -
  have i: "index_inv nxt idx" "data_ok SHA512 master {} idx" "sizes_ok idx" "unat nxt \<le> MAX_BLOCKS" using ok by simp_all
  obtain idx2 where r: "remove_blocks_dedup_batch idx path 0 (blocks_up ls) = Some idx2" "index_inv nxt idx2" "sub_infos idx idx2"
    "file_to_sizes idx2 = file_to_sizes idx"
    and f: "\<And>g b. fs_block master idx2 g b = (if g = path \<and> 0 \<le> b \<and> b < blocks_up ls then None else fs_block master idx g b)"
    using remove_batch_spec [OF i(1), of path 0 "blocks_up ls" master] by blast
  have "dom (file_to_master idx2) \<subseteq> dom (file_to_master idx)"
  proof
    fix k assume "k \<in> dom (file_to_master idx2)"
    then have "fs_block master idx2 (key_path k) (key_offset k) \<noteq> None" by (cases k) (auto simp: fs_block_def lookup_by_file_block_def)
    then have "fs_block master idx (key_path k) (key_offset k) \<noteq> None" using f by (metis (full_types))
    then show "k \<in> dom (file_to_master idx)" by (cases k) (auto simp: fs_block_def lookup_by_file_block_def)
  qed
  moreover have "finite (dom (file_to_master idx))" using i(1) by (simp add: index_inv_def tables_ok_def)
  ultimately have "card (dom (file_to_master idx2)) \<le> card (dom (file_to_master idx))" by (rule card_mono [rotated])
  then have fits2: "request_fits (idx2, master, nxt) sz off" using fits by simp
  have "sizes_ok idx2" by (rule sizes_ok_less [OF i(3) r(4), of master master]) (simp add: f split: if_splits)
  then have ok2: "store_ok SHA512 (idx2, master, nxt)" using r(2) sub_infos_data_ok [OF r(3) i(2)] i(4) by simp
  have nc2: "no_collision SHA512 (stored (idx2, master, nxt) \<union> set (buf_blocks buf n))"
    by (rule no_collision_subset [OF nc]) (use stored_blocks_sub [OF r(3), of master] in auto)
  obtain st3 where w: "write_dedup SHA512 [] (idx2, master, nxt) path buf sz off = Some (c_int (of_nat n * BLOCK_SIZE64), st3)"
    and v: "view st3 = spec_write path (off_div_block off) (buf_blocks buf n) (view (idx2, master, nxt))"
    using write_dedup_store [OF ok2 fits2 sz, of "[]" path] nc2 by (auto simp: errno_contract_def)
  obtain idx3 master3 nxt3 where st3: "st3 = (idx3, master3, nxt3)" by (cases st3)
  let ?start = "off_div_block off" and ?i = "resize_section path None idx3"
  have "unat ?start + n < 2 ^ 64" using request_start(1) [of off n] fits sz(1) by simp
  then have at: "fs_block master3 idx3 path (?start + of_nat k) = Some (block_at buf k)" if "k < n" for k
    using v that unat_plus_of_nat [of ?start k] unfolding st3
    by (simp add: spec_write_def Let_def in_range_def buf_blocks_def)
  have "fs_block master3 ?i = fs_block master3 idx3" "file_to_sizes ?i path = None"
    by (simp_all add: resize_section_def sizes_update_fields)
  moreover from this(2) have "unlink_index ?i path = Some ?i" by (simp add: unlink_index_def)
  moreover have "handler_step (Sizing path None) (idx, master, nxt) =
      Some ([], Some (Dropping path None 0 (blocks_up ls)), (idx, master, nxt))"
    by (simp add: handler_step.simps size_section_def ls(1))
  moreover have "handler_step (Resizing path None) st3 = Some ([Resized path None], None, (?i, master3, nxt3))"
    by (simp add: st3 handler_step.simps)
  ultimately show ?thesis using handler_removal [OF r(1) ls(2), of None master nxt] w at by metis
qed

end
