(* ===== verification/Bpf_Maps.thy ===== *)
theory Bpf_Maps
  imports Fs_Prelude "HOL-Library.AList"
begin

text \<open>
  The BPF hash maps of the two tracing tools: association lists without duplicate keys, bounded by their
  \<^verbatim>\<open>max_entries\<close>. An insertion of a new key into a full map fails and changes nothing, as the kernel
  documents for \<^verbatim>\<open>BPF_MAP_TYPE_HASH\<close>; the programs never look at the result.
\<close>

definition MAX_PIDS :: nat where "MAX_PIDS = 100"

text \<open>\<^verbatim>\<open>bpf_map_update_elem\<close> with \<^verbatim>\<open>BPF_ANY\<close> or \<^verbatim>\<open>BPF_NOEXIST\<close>.\<close>

definition bpf_map_update :: "nat \<Rightarrow> bool \<Rightarrow> ('k \<times> 'v) list \<Rightarrow> 'k \<Rightarrow> 'v \<Rightarrow> ('k \<times> 'v) list" where
  "bpf_map_update max_entries noexist m k v =
     (case map_of m k of
        Some _ \<Rightarrow> if noexist then m else AList.update k v m
      | None \<Rightarrow> if length m < max_entries then AList.update k v m else m)"

lemma length_distinct_alist: "distinct (map fst m) \<Longrightarrow> length m = card (dom (map_of m))"
  using distinct_card [of "map fst m"] by (simp add: dom_map_of_conv_image_fst)

lemma map_update_room:
  assumes d: "distinct (map fst m)" and room: "card (insert k (dom (map_of m))) \<le> n"
  shows "map_of (bpf_map_update n False m k v) = (map_of m)(k \<mapsto> v) \<and> distinct (map fst (bpf_map_update n False m k v))"
proof -
  have "length m < n" if "map_of m k = None"
  proof -
    have "k \<notin> dom (map_of m)" using that by auto
    then have "card (insert k (dom (map_of m))) = Suc (length m)" using d by (simp add: length_distinct_alist finite_dom_map_of)
    then show ?thesis using room by simp
  qed
  then have "bpf_map_update n False m k v = AList.update k v m" by (simp add: bpf_map_update_def split: option.split)
  then show ?thesis using d by (simp add: update_conv' distinct_update)
qed

lemma length_update_present: "map_of m k = Some v \<Longrightarrow> length (AList.update k x m) = length m"
  by (induction m) auto

lemma length_update_absent: "map_of m k = None \<Longrightarrow> length (AList.update k x m) = Suc (length m)"
  by (induction m) (auto split: if_splits)

lemma bpf_map_update_bounds:
  assumes "length m \<le> n" and "distinct (map fst m)"
  shows "length (bpf_map_update n ne m k v) \<le> n" "distinct (map fst (bpf_map_update n ne m k v))"
    "fst ` set (bpf_map_update n ne m k v) \<subseteq> insert k (fst ` set m)"
  using assms
  by (auto simp: bpf_map_update_def length_update_present length_update_absent distinct_update dom_update split: option.split)

end
