(* ===== verification/Syscounter_Bpf.thy ===== *)
theory Syscounter_Bpf
  imports Bpf_Maps
begin

text \<open>
  The kernel side of the system call counter (\<^verbatim>\<open>bpf_programs/syscounter/syscounter.bpf.c\<close>). What a program learns from its helpers (the current process and thread, its command, the
  time, the files behind descriptors and their modes) is a record argument. The theorem of the theory:
  as long as the maps have room, the counters hold for every process, command and system call exactly
  the number of completed calls and the sum of their durations.
\<close>

section \<open>Model\<close>

definition MAX_OPS :: nat where "MAX_OPS = 7"
definition MAX_THREADS :: nat where "MAX_THREADS = 16"

text \<open>\<^verbatim>\<open>S_IFMT\<close> and \<^verbatim>\<open>S_IFREG\<close> of \<^verbatim>\<open>syscounter.h\<close>, on the 16 bits of \<^verbatim>\<open>umode_t\<close>.\<close>

definition BPF_S_IFMT :: "16 word" where "BPF_S_IFMT = 61440"
definition BPF_S_IFREG :: "16 word" where "BPF_S_IFREG = 32768"

text \<open>\<^verbatim>\<open>int pid\<close> and \<^verbatim>\<open>int op\<close> as 32 bits, \<^verbatim>\<open>long\<close> as 64 bits.\<close>

record CounterKey =
  command :: string
  key_pid :: u32
  key_op :: u32

record CounterValue =
  val_count :: u64
  time_sum :: u64

record bpf_maps =
  pids_to_consider :: "(u32 \<times> u32) list"
  enter_timestamps :: "(u32 \<times> u64) list"
  counters :: "(CounterKey \<times> CounterValue) list"

text \<open>What the helpers return: \<^verbatim>\<open>bpf_get_current_pid_tgid\<close>, \<^verbatim>\<open>bpf_get_current_comm\<close>, \<^verbatim>\<open>bpf_ktime_get_ns\<close>, the
  table of open files of the task (0 is the null pointer) and the mode of the inode behind a
  \<^verbatim>\<open>struct file\<close>. A read through a null pointer yields 0.\<close>

record bpf_env =
  pid_tgid :: u64
  comm :: string
  ktime :: u64
  fd_array :: "int \<Rightarrow> nat"
  i_mode :: "nat \<Rightarrow> 16 word"

definition env_pid :: "bpf_env \<Rightarrow> u32" where
  "env_pid env = ucast (drop_bit 32 (pid_tgid env))"

definition env_tid :: "bpf_env \<Rightarrow> u32" where
  "env_tid env = ucast (pid_tgid env)"

definition to_discard :: "bpf_maps \<Rightarrow> u32 \<Rightarrow> bool" where
  "to_discard m pid \<longleftrightarrow> map_of (pids_to_consider m) pid = None"

definition get_file_from_fd :: "bpf_env \<Rightarrow> int \<Rightarrow> nat" where
  "get_file_from_fd env fd = (if fd < 0 then 0 else fd_array env fd)"

unbundle bit_operations_syntax

definition check_file_mode :: "16 word \<Rightarrow> int" where
  "check_file_mode mode = (if mode AND BPF_S_IFMT \<noteq> BPF_S_IFREG then 1 else 0)"

definition check_file_mode_from_file :: "bpf_env \<Rightarrow> nat \<Rightarrow> int" where
  "check_file_mode_from_file env f = check_file_mode (if f = 0 then 0 else i_mode env f)"

definition update_counter_enter :: "bpf_env \<Rightarrow> u32 \<Rightarrow> bpf_maps \<Rightarrow> int \<times> bpf_maps" where
  "update_counter_enter env tid m =
     (0, m\<lparr>enter_timestamps := bpf_map_update (MAX_PIDS * MAX_THREADS) False (enter_timestamps m) tid (ktime env)\<rparr>)"

definition update_counter_exit :: "bpf_env \<Rightarrow> u32 \<Rightarrow> u32 \<Rightarrow> u32 \<Rightarrow> bpf_maps \<Rightarrow> int \<times> bpf_maps" where
  "update_counter_exit env pid tid op m =
     (let key = \<lparr>command = comm env, key_pid = pid, key_op = op\<rparr>
      in case map_of (enter_timestamps m) tid of
           None \<Rightarrow> (-1, m)
         | Some enter_time \<Rightarrow>
             (let m1 = m\<lparr>enter_timestamps := AList.delete tid (enter_timestamps m)\<rparr>;
                  delta = ktime env - enter_time
              in case map_of (counters m1) key of
                   None \<Rightarrow> (0, m1\<lparr>counters := bpf_map_update (MAX_PIDS * MAX_OPS) True (counters m1) key
                                    \<lparr>val_count = 1, time_sum = delta\<rparr>\<rparr>)
                 | Some v \<Rightarrow> (0, m1\<lparr>counters := AList.update key
                                    \<lparr>val_count = val_count v + 1, time_sum = time_sum v + delta\<rparr> (counters m1)\<rparr>)))"

text \<open>The bodies that several probes share: \<open>enter_path\<close> for calls that name a file, \<open>enter_fd\<close> for calls
  on a descriptor (\<^verbatim>\<open>u32 fd\<close> is read as an \<^verbatim>\<open>int\<close>), \<open>exit_any\<close> for every exit but that of
  \<^verbatim>\<open>openat\<close>.\<close>

definition enter_path :: "bpf_env \<Rightarrow> bpf_maps \<Rightarrow> int \<times> bpf_maps" where
  "enter_path env m = (if to_discard m (env_pid env) then (0, m) else update_counter_enter env (env_tid env) m)"

definition enter_fd :: "bpf_env \<Rightarrow> u32 \<Rightarrow> bpf_maps \<Rightarrow> int \<times> bpf_maps" where
  "enter_fd env fd m =
     (if to_discard m (env_pid env) then (0, m)
      else if check_file_mode_from_file env (get_file_from_fd env (sint fd)) \<noteq> 0 then (0, m)
      else update_counter_enter env (env_tid env) m)"

definition exit_any :: "bpf_env \<Rightarrow> u32 \<Rightarrow> bpf_maps \<Rightarrow> int \<times> bpf_maps" where
  "exit_any env syscall_id m =
     (if to_discard m (env_pid env) then (0, m) else update_counter_exit env (env_pid env) (env_tid env) syscall_id m)"

definition sys_enter_openat :: "bpf_env \<Rightarrow> bpf_maps \<Rightarrow> int \<times> bpf_maps" where
  "sys_enter_openat env m = enter_path env m"

text \<open>\<^verbatim>\<open>long ret\<close> is passed to an \<^verbatim>\<open>int\<close> parameter.\<close>

definition sys_exit_openat :: "bpf_env \<Rightarrow> u32 \<Rightarrow> u64 \<Rightarrow> bpf_maps \<Rightarrow> int \<times> bpf_maps" where
  "sys_exit_openat env syscall_id ret m =
     (if to_discard m (env_pid env) then (0, m)
      else
        let f = get_file_from_fd env (c_int ret)
        in if f \<noteq> 0 \<and> check_file_mode_from_file env f \<noteq> 0 then
             (0, m\<lparr>enter_timestamps := AList.delete (env_tid env) (enter_timestamps m)\<rparr>)
           else update_counter_exit env (env_pid env) (env_tid env) syscall_id m)"

definition sys_enter_write :: "bpf_env \<Rightarrow> u32 \<Rightarrow> bpf_maps \<Rightarrow> int \<times> bpf_maps" where
  "sys_enter_write env fd m = enter_fd env fd m"

definition sys_exit_write :: "bpf_env \<Rightarrow> u32 \<Rightarrow> u64 \<Rightarrow> bpf_maps \<Rightarrow> int \<times> bpf_maps" where
  "sys_exit_write env syscall_id ret m = exit_any env syscall_id m"

definition sys_enter_pwrite64 :: "bpf_env \<Rightarrow> u32 \<Rightarrow> bpf_maps \<Rightarrow> int \<times> bpf_maps" where
  "sys_enter_pwrite64 env fd m = enter_fd env fd m"

definition sys_exit_pwrite64 :: "bpf_env \<Rightarrow> u32 \<Rightarrow> u64 \<Rightarrow> bpf_maps \<Rightarrow> int \<times> bpf_maps" where
  "sys_exit_pwrite64 env syscall_id ret m = exit_any env syscall_id m"

definition sys_enter_read :: "bpf_env \<Rightarrow> u32 \<Rightarrow> bpf_maps \<Rightarrow> int \<times> bpf_maps" where
  "sys_enter_read env fd m = enter_fd env fd m"

definition sys_exit_read :: "bpf_env \<Rightarrow> u32 \<Rightarrow> u64 \<Rightarrow> bpf_maps \<Rightarrow> int \<times> bpf_maps" where
  "sys_exit_read env syscall_id ret m = exit_any env syscall_id m"

definition sys_enter_pread64 :: "bpf_env \<Rightarrow> u32 \<Rightarrow> bpf_maps \<Rightarrow> int \<times> bpf_maps" where
  "sys_enter_pread64 env fd m = enter_fd env fd m"

definition sys_exit_pread64 :: "bpf_env \<Rightarrow> u32 \<Rightarrow> u64 \<Rightarrow> bpf_maps \<Rightarrow> int \<times> bpf_maps" where
  "sys_exit_pread64 env syscall_id ret m = exit_any env syscall_id m"

definition sys_enter_close :: "bpf_env \<Rightarrow> u32 \<Rightarrow> bpf_maps \<Rightarrow> int \<times> bpf_maps" where
  "sys_enter_close env fd m = enter_fd env fd m"

definition sys_exit_close :: "bpf_env \<Rightarrow> u32 \<Rightarrow> u64 \<Rightarrow> bpf_maps \<Rightarrow> int \<times> bpf_maps" where
  "sys_exit_close env syscall_id ret m = exit_any env syscall_id m"

definition sys_enter_unlink :: "bpf_env \<Rightarrow> bpf_maps \<Rightarrow> int \<times> bpf_maps" where
  "sys_enter_unlink env m = enter_path env m"

definition sys_exit_unlink :: "bpf_env \<Rightarrow> u32 \<Rightarrow> u64 \<Rightarrow> bpf_maps \<Rightarrow> int \<times> bpf_maps" where
  "sys_exit_unlink env syscall_id ret m = exit_any env syscall_id m"

definition trace_sched_process_fork :: "u32 \<Rightarrow> u32 \<Rightarrow> bpf_maps \<Rightarrow> int \<times> bpf_maps" where
  "trace_sched_process_fork parent_pid child_pid m =
     (if to_discard m parent_pid then (0, m)
      else (0, m\<lparr>pids_to_consider := bpf_map_update MAX_PIDS False (pids_to_consider m) child_pid 1\<rparr>))"

section \<open>Traces\<close>

text \<open>The seven system calls with probes and their numbers on x86-64.\<close>

datatype probe = P_openat | P_write | P_pwrite64 | P_read | P_pread64 | P_close | P_unlink

fun probe_nr :: "probe \<Rightarrow> u32" where
  "probe_nr P_openat = 257"
| "probe_nr P_write = 1"
| "probe_nr P_pwrite64 = 18"
| "probe_nr P_read = 0"
| "probe_nr P_pread64 = 17"
| "probe_nr P_close = 3"
| "probe_nr P_unlink = 87"

datatype (plugins only: code size) event =
    Enter probe bpf_env u32
  | Exit probe bpf_env u64
  | Fork u32 u32

fun run_enter :: "probe \<Rightarrow> bpf_env \<Rightarrow> u32 \<Rightarrow> bpf_maps \<Rightarrow> int \<times> bpf_maps" where
  "run_enter P_openat env fd = sys_enter_openat env"
| "run_enter P_write env fd = sys_enter_write env fd"
| "run_enter P_pwrite64 env fd = sys_enter_pwrite64 env fd"
| "run_enter P_read env fd = sys_enter_read env fd"
| "run_enter P_pread64 env fd = sys_enter_pread64 env fd"
| "run_enter P_close env fd = sys_enter_close env fd"
| "run_enter P_unlink env fd = sys_enter_unlink env"

fun run_exit :: "probe \<Rightarrow> bpf_env \<Rightarrow> u64 \<Rightarrow> bpf_maps \<Rightarrow> int \<times> bpf_maps" where
  "run_exit P_openat env ret = sys_exit_openat env (probe_nr P_openat) ret"
| "run_exit P_write env ret = sys_exit_write env (probe_nr P_write) ret"
| "run_exit P_pwrite64 env ret = sys_exit_pwrite64 env (probe_nr P_pwrite64) ret"
| "run_exit P_read env ret = sys_exit_read env (probe_nr P_read) ret"
| "run_exit P_pread64 env ret = sys_exit_pread64 env (probe_nr P_pread64) ret"
| "run_exit P_close env ret = sys_exit_close env (probe_nr P_close) ret"
| "run_exit P_unlink env ret = sys_exit_unlink env (probe_nr P_unlink) ret"

fun run_event :: "event \<Rightarrow> bpf_maps \<Rightarrow> bpf_maps" where
  "run_event (Enter p env fd) m = snd (run_enter p env fd m)"
| "run_event (Exit p env ret) m = snd (run_exit p env ret m)"
| "run_event (Fork parent child) m = snd (trace_sched_process_fork parent child m)"

definition run_events :: "event list \<Rightarrow> bpf_maps \<Rightarrow> bpf_maps" where
  "run_events evs m = fold run_event evs m"

section \<open>Specification\<close>

text \<open>The abstract counter: which processes are traced, since when a thread is in a call, and the log of
  all completed calls with their durations.\<close>

record call_log =
  traced :: "u32 set"
  pending_since :: "u32 \<rightharpoonup> u64"
  completed :: "(CounterKey \<times> u64) list"

definition regular :: "bpf_env \<Rightarrow> int \<Rightarrow> bool" where
  "regular env fd \<longleftrightarrow> 0 \<le> fd \<and> fd_array env fd \<noteq> 0 \<and> i_mode env (fd_array env fd) AND BPF_S_IFMT = BPF_S_IFREG"

fun counts_enter :: "probe \<Rightarrow> bpf_env \<Rightarrow> u32 \<Rightarrow> bool" where
  "counts_enter P_openat env fd = True"
| "counts_enter P_unlink env fd = True"
| "counts_enter _ env fd = regular env (sint fd)"

text \<open>An \<^verbatim>\<open>openat\<close> that returned a descriptor of something else than a regular file is forgotten.\<close>

fun forgets_exit :: "probe \<Rightarrow> bpf_env \<Rightarrow> u64 \<Rightarrow> bool" where
  "forgets_exit P_openat env ret \<longleftrightarrow> get_file_from_fd env (c_int ret) \<noteq> 0 \<and> \<not> regular env (c_int ret)"
| "forgets_exit _ env ret \<longleftrightarrow> False"

fun log_event :: "event \<Rightarrow> call_log \<Rightarrow> call_log" where
  "log_event (Enter p env fd) l =
     (if env_pid env \<in> traced l \<and> counts_enter p env fd
      then l\<lparr>pending_since := (pending_since l)(env_tid env \<mapsto> ktime env)\<rparr> else l)"
| "log_event (Exit p env ret) l =
     (if env_pid env \<notin> traced l then l
      else if forgets_exit p env ret then l\<lparr>pending_since := (pending_since l)(env_tid env := None)\<rparr>
      else case pending_since l (env_tid env) of
             None \<Rightarrow> l
           | Some t \<Rightarrow>
               l\<lparr>pending_since := (pending_since l)(env_tid env := None),
                 completed := completed l @ [(\<lparr>command = comm env, key_pid = env_pid env, key_op = probe_nr p\<rparr>, ktime env - t)]\<rparr>)"
| "log_event (Fork parent child) l = (if parent \<in> traced l then l\<lparr>traced := insert child (traced l)\<rparr> else l)"

text \<open>The durations of the completed calls of one key, and what the counter should hold for it.\<close>

definition durations :: "CounterKey \<Rightarrow> (CounterKey \<times> u64) list \<Rightarrow> u64 list" where
  "durations k es = map snd (filter (\<lambda>e. fst e = k) es)"

definition summary :: "(CounterKey \<times> u64) list \<Rightarrow> CounterKey \<Rightarrow> CounterValue option" where
  "summary es k =
     (if durations k es = [] then None
      else Some \<lparr>val_count = of_nat (length (durations k es)), time_sum = sum_list (durations k es)\<rparr>)"

definition represents :: "bpf_maps \<Rightarrow> call_log \<Rightarrow> bool" where
  "represents m l \<longleftrightarrow>
     distinct (map fst (pids_to_consider m)) \<and> dom (map_of (pids_to_consider m)) = traced l \<and>
     distinct (map fst (enter_timestamps m)) \<and> map_of (enter_timestamps m) = pending_since l \<and>
     distinct (map fst (counters m)) \<and> map_of (counters m) = summary (completed l)"

text \<open>The capacities of the three maps are not exceeded.\<close>

definition within_capacity :: "call_log \<Rightarrow> bool" where
  "within_capacity l \<longleftrightarrow> card (traced l) \<le> MAX_PIDS \<and> card (dom (pending_since l)) \<le> MAX_PIDS * MAX_THREADS \<and>
     card (fst ` set (completed l)) \<le> MAX_PIDS * MAX_OPS"

fun stays_within :: "event list \<Rightarrow> call_log \<Rightarrow> bool" where
  "stays_within [] l \<longleftrightarrow> True"
| "stays_within (e # evs) l \<longleftrightarrow> within_capacity (log_event e l) \<and> stays_within evs (log_event e l)"

section \<open>The maps hold the summary of the log\<close>

lemma check_regular:
  "check_file_mode_from_file env (get_file_from_fd env fd) \<noteq> 0 \<longleftrightarrow> \<not> regular env fd"
  by (auto simp: check_file_mode_from_file_def check_file_mode_def get_file_from_fd_def regular_def BPF_S_IFREG_def)

lemma represents_discard: "represents m l \<Longrightarrow> to_discard m pid \<longleftrightarrow> pid \<notin> traced l"
  by (auto simp: represents_def to_discard_def domIff)

lemma enter_refines:
  assumes r: "represents m l" and c: "within_capacity (l\<lparr>pending_since := (pending_since l)(tid \<mapsto> ktime env)\<rparr>)"
  shows "represents (snd (update_counter_enter env tid m)) (l\<lparr>pending_since := (pending_since l)(tid \<mapsto> ktime env)\<rparr>)"
proof -
  have d: "distinct (map fst (enter_timestamps m))" and e: "map_of (enter_timestamps m) = pending_since l"
    using r by (simp_all add: represents_def)
  have "card (insert tid (dom (map_of (enter_timestamps m)))) \<le> MAX_PIDS * MAX_THREADS"
    using c by (simp add: e within_capacity_def)
  from map_update_room [OF d this, of "ktime env"] show ?thesis
    using r e by (simp add: represents_def update_counter_enter_def)
qed

lemma durations_snoc: "durations k (es @ [(k', d)]) = durations k es @ (if k = k' then [d] else [])"
  by (simp add: durations_def)

lemma summary_snoc:
  "summary (es @ [(k, d)]) =
     (summary es)(k \<mapsto> (case summary es k of None \<Rightarrow> \<lparr>val_count = 1, time_sum = d\<rparr>
       | Some v \<Rightarrow> \<lparr>val_count = val_count v + 1, time_sum = time_sum v + d\<rparr>))"
  by (rule ext) (simp add: summary_def durations_snoc)

lemma dom_summary: "dom (summary es) = fst ` set es"
  by (auto simp: summary_def durations_def dom_def filter_empty_conv image_iff)

lemma exit_refines:
  assumes r: "represents m l"
    and c: "within_capacity (l\<lparr>completed := completed l @ [(\<lparr>command = comm env, key_pid = pid, key_op = nr\<rparr>, d)]\<rparr>)"
  shows "represents (snd (update_counter_exit env pid tid nr m))
    (case pending_since l tid of
       None \<Rightarrow> l
     | Some t \<Rightarrow> l\<lparr>pending_since := (pending_since l)(tid := None),
          completed := completed l @ [(\<lparr>command = comm env, key_pid = pid, key_op = nr\<rparr>, ktime env - t)]\<rparr>)"
proof (cases "pending_since l tid")
  case None
  then show ?thesis using r by (simp add: represents_def update_counter_exit_def)
next
  case (Some t)
  let ?k = "\<lparr>command = comm env, key_pid = pid, key_op = nr\<rparr>" and ?es = "completed l"
  have e: "map_of (enter_timestamps m) = pending_since l" and d: "distinct (map fst (enter_timestamps m))"
    "distinct (map fst (counters m))" and s: "map_of (counters m) = summary ?es"
    using r by (simp_all add: represents_def)
  have del: "map_of (AList.delete tid (enter_timestamps m)) = (pending_since l)(tid := None)"
    "distinct (map fst (AList.delete tid (enter_timestamps m)))"
    using e d by (simp_all add: delete_conv' distinct_delete)
  have room: "length (counters m) < MAX_PIDS * MAX_OPS" if "summary ?es ?k = None"
  proof -
    have "?k \<notin> fst ` set ?es" using that dom_summary [of ?es] by auto
    then have "card (fst ` set (?es @ [(?k, d)])) = Suc (card (dom (summary ?es)))" by (simp add: dom_summary)
    then show ?thesis using c length_distinct_alist [OF d(2)] s by (simp add: within_capacity_def)
  qed
  show ?thesis
  proof (cases "summary ?es ?k")
    case None
    then have "bpf_map_update (MAX_PIDS * MAX_OPS) True (counters m) ?k v = AList.update ?k v (counters m)" for v
      using s room by (simp add: bpf_map_update_def)
    then show ?thesis
      using None Some r del d by (simp add: represents_def update_counter_exit_def Let_def e s summary_snoc update_conv' distinct_update)
  next
    case (Some v)
    then show ?thesis
      using \<open>pending_since l tid = Some t\<close> r del d
      by (simp add: represents_def update_counter_exit_def Let_def e s summary_snoc update_conv' distinct_update)
  qed
qed

lemmas probe_defs = sys_enter_openat_def sys_enter_write_def sys_enter_pwrite64_def sys_enter_read_def sys_enter_pread64_def
  sys_enter_close_def sys_enter_unlink_def sys_exit_write_def sys_exit_pwrite64_def sys_exit_read_def sys_exit_pread64_def
  sys_exit_close_def sys_exit_unlink_def

lemma run_enter_eq:
  "run_enter p env fd m =
     (if to_discard m (env_pid env) \<or> \<not> counts_enter p env fd then (0, m) else update_counter_enter env (env_tid env) m)"
  using check_regular [of env "sint fd"] by (cases p) (auto simp: probe_defs enter_path_def enter_fd_def)

lemma run_exit_eq:
  "run_exit p env ret m =
     (if to_discard m (env_pid env) then (0, m)
      else if forgets_exit p env ret then (0, m\<lparr>enter_timestamps := AList.delete (env_tid env) (enter_timestamps m)\<rparr>)
      else update_counter_exit env (env_pid env) (env_tid env) (probe_nr p) m)"
  using check_regular [of env "c_int ret"] by (cases p) (auto simp: probe_defs sys_exit_openat_def exit_any_def Let_def)

lemma event_refines:
  assumes r: "represents m l" and w: "within_capacity l" and c: "within_capacity (log_event e l)"
  shows "represents (run_event e m) (log_event e l)"
proof (cases e)
  case (Enter p env fd)
  then show ?thesis using r c enter_refines [OF r] by (auto simp: run_enter_eq represents_discard [OF r])
next
  case (Exit p env ret)
  let ?k = "\<lparr>command = comm env, key_pid = env_pid env, key_op = probe_nr p\<rparr>"
  show ?thesis
  proof (cases "env_pid env \<in> traced l \<and> \<not> forgets_exit p env ret")
    case False
    then show ?thesis using r Exit
      by (auto simp: run_exit_eq represents_discard [OF r] represents_def delete_conv' distinct_delete)
  next
    case True
    show ?thesis
    proof (cases "pending_since l (env_tid env)")
      case None
      then have "update_counter_exit env (env_pid env) (env_tid env) (probe_nr p) m = (-1, m)"
        using r by (simp add: update_counter_exit_def represents_def)
      then show ?thesis using True None r Exit by (simp add: run_exit_eq represents_discard [OF r])
    next
      case (Some t)
      have "within_capacity (l\<lparr>completed := completed l @ [(?k, ktime env - t)]\<rparr>)"
        using c w True Some Exit by (simp add: within_capacity_def)
      from exit_refines [OF r this, of "env_tid env"]
      show ?thesis using True Some Exit by (simp add: run_exit_eq represents_discard [OF r])
    qed
  qed
next
  case (Fork parent child)
  have d: "distinct (map fst (pids_to_consider m))" and t: "dom (map_of (pids_to_consider m)) = traced l"
    using r by (simp_all add: represents_def)
  show ?thesis
  proof (cases "parent \<in> traced l")
    case True
    have "card (insert child (dom (map_of (pids_to_consider m)))) \<le> MAX_PIDS"
      using c True Fork t by (simp add: within_capacity_def)
    from map_update_room [OF d this, of 1] show ?thesis
      using True Fork r t by (simp add: trace_sched_process_fork_def represents_discard [OF r] represents_def)
  qed (use Fork r in \<open>simp add: trace_sched_process_fork_def represents_discard [OF r]\<close>)
qed

lemma events_refine:
  assumes "represents m l" and "within_capacity l" and "stays_within evs l"
  shows "represents (run_events evs m) (fold log_event evs l)"
  using assms
proof (induction evs arbitrary: m l)
  case (Cons e evs)
  then show ?case using event_refines [OF Cons.prems(1,2), of e] by (simp add: run_events_def)
qed (simp add: run_events_def)

text \<open>Only traced processes appear in the counters, and tracing is never withdrawn.\<close>

lemma log_traced_mono: "traced l \<subseteq> traced (log_event e l)"
  by (cases e) (auto split: option.split)

lemma log_completed_traced:
  assumes "key_pid ` fst ` set (completed l) \<subseteq> traced l"
  shows "key_pid ` fst ` set (completed (log_event e l)) \<subseteq> traced (log_event e l)"
  using assms by (cases e) (auto split: option.split)

lemma fold_completed_traced:
  "key_pid ` fst ` set (completed l) \<subseteq> traced l \<Longrightarrow>
   key_pid ` fst ` set (completed (fold log_event evs l)) \<subseteq> traced (fold log_event evs l)"
  by (induction evs arbitrary: l) (simp_all add: log_completed_traced)

lemma log_ops:
  assumes "key_op ` fst ` set (completed l) \<subseteq> range probe_nr"
  shows "key_op ` fst ` set (completed (log_event e l)) \<subseteq> range probe_nr"
  using assms by (cases e) (auto split: option.split)

lemma fold_ops:
  "key_op ` fst ` set (completed l) \<subseteq> range probe_nr \<Longrightarrow>
   key_op ` fst ` set (completed (fold log_event evs l)) \<subseteq> range probe_nr"
  by (induction evs arbitrary: l) (simp_all add: log_ops)

text \<open>Independently of any capacity the maps never outgrow their limits and their keys stay unique.\<close>

definition maps_ok :: "bpf_maps \<Rightarrow> bool" where
  "maps_ok m \<longleftrightarrow> distinct (map fst (pids_to_consider m)) \<and> length (pids_to_consider m) \<le> MAX_PIDS \<and>
     distinct (map fst (enter_timestamps m)) \<and> length (enter_timestamps m) \<le> MAX_PIDS * MAX_THREADS \<and>
     distinct (map fst (counters m)) \<and> length (counters m) \<le> MAX_PIDS * MAX_OPS \<and>
     key_op ` fst ` set (counters m) \<subseteq> range probe_nr"

lemma update_exit_ok:
  assumes "maps_ok m"
  shows "maps_ok (snd (update_counter_exit env pid tid (probe_nr p) m))"
proof -
  let ?k = "\<lparr>command = comm env, key_pid = pid, key_op = probe_nr p\<rparr>"
  have d: "distinct (map fst (AList.delete tid (enter_timestamps m)))" "length (AList.delete tid (enter_timestamps m)) \<le> MAX_PIDS * MAX_THREADS"
    using assms length_delete_le [of tid "enter_timestamps m"] by (auto simp: maps_ok_def distinct_delete)
  have b: "length (counters m) \<le> MAX_PIDS * MAX_OPS" "distinct (map fst (counters m))" using assms by (simp_all add: maps_ok_def)
  have k: "key_op ` S \<subseteq> range probe_nr" if "S \<subseteq> insert ?k (fst ` set (counters m))" for S
    using that assms by (force simp: maps_ok_def)
  show ?thesis
    using assms d bpf_map_update_bounds(1,2) [OF b, of True ?k] k [OF bpf_map_update_bounds(3) [OF b, of True ?k]]
      k [of "fst ` set (AList.update ?k _ (counters m))"]
    by (auto simp: update_counter_exit_def maps_ok_def Let_def length_update_present distinct_update dom_update split: option.split)
qed

lemma run_event_ok:
  assumes "maps_ok m"
  shows "maps_ok (run_event e m)"
proof (cases e)
  case (Enter p env fd)
  then show ?thesis using assms bpf_map_update_bounds [of "enter_timestamps m" "MAX_PIDS * MAX_THREADS"]
    by (auto simp: run_enter_eq update_counter_enter_def maps_ok_def)
next
  case (Exit p env ret)
  then show ?thesis using assms update_exit_ok [OF assms] length_delete_le [of "env_tid env" "enter_timestamps m"]
    by (auto simp: run_exit_eq maps_ok_def distinct_delete)
next
  case (Fork parent child)
  then show ?thesis using assms bpf_map_update_bounds [of "pids_to_consider m" MAX_PIDS]
    by (auto simp: trace_sched_process_fork_def maps_ok_def)
qed

lemma run_events_ok: "maps_ok m \<Longrightarrow> maps_ok (run_events evs m)"
  by (induction evs arbitrary: m) (simp_all add: run_events_def run_event_ok)

end
