(* ===== verification/C_Format.thy ===== *)
theory C_Format
  imports Fs_Prelude
begin

text \<open>
  What the tools use of \<^verbatim>\<open>printf\<close>, \<^verbatim>\<open>snprintf\<close>, \<^verbatim>\<open>strtol\<close> and \<^verbatim>\<open>atoi\<close>: decimal numbers, padded fields and
  truncated buffers as strings. Reading a printed number gives the number back, and the last field of
  a text cannot be confused with what precedes its separator.
\<close>

section \<open>Printing\<close>

definition digit :: "nat \<Rightarrow> char" where
  "digit d = char_of (48 + d)"

fun dec :: "nat \<Rightarrow> string" where
  "dec n = (if n < 10 then [digit n] else dec (n div 10) @ [digit (n mod 10)])"

declare dec.simps [simp del]

text \<open>\<^verbatim>\<open>%d\<close> and \<^verbatim>\<open>%ld\<close>.\<close>

definition fmt_d :: "int \<Rightarrow> string" where
  "fmt_d n = (if n < 0 then ''-'' @ dec (nat (- n)) else dec (nat n))"

text \<open>\<^verbatim>\<open>%06ld\<close>: the sign counts towards the width.\<close>

definition fmt_0d :: "nat \<Rightarrow> int \<Rightarrow> string" where
  "fmt_0d w n =
     (let s = dec (nat \<bar>n\<bar>); sign = (if n < 0 then ''-'' else [])
      in sign @ replicate (w - length s - length sign) (digit 0) @ s)"

text \<open>\<^verbatim>\<open>%-20s\<close> and \<^verbatim>\<open>%8s\<close>.\<close>

definition pad_right :: "nat \<Rightarrow> string \<Rightarrow> string" where
  "pad_right w s = s @ replicate (w - length s) (CHR '' '')"

definition pad_left :: "nat \<Rightarrow> string \<Rightarrow> string" where
  "pad_left w s = replicate (w - length s) (CHR '' '') @ s"

text \<open>\<^verbatim>\<open>snprintf(buf, n, ...)\<close>: at most \<open>n - 1\<close> characters.\<close>

definition snprintf :: "nat \<Rightarrow> string \<Rightarrow> string" where
  "snprintf n s = take (n - 1) s"

section \<open>Reading\<close>

definition is_digit :: "char \<Rightarrow> bool" where
  "is_digit c \<longleftrightarrow> 48 \<le> (of_char c :: nat) \<and> (of_char c :: nat) \<le> 57"

definition is_space :: "char \<Rightarrow> bool" where
  "is_space c \<longleftrightarrow> (of_char c :: nat) = 32 \<or> 9 \<le> (of_char c :: nat) \<and> (of_char c :: nat) \<le> 13"

definition digits_val :: "string \<Rightarrow> nat" where
  "digits_val s = foldl (\<lambda>a c. 10 * a + (of_char c - 48)) 0 s"

text \<open>\<^verbatim>\<open>strtol(s, &endptr, 10)\<close> within the range of \<^verbatim>\<open>long\<close>: the number and the text at \<^verbatim>\<open>endptr\<close>.\<close>

definition strtol :: "string \<Rightarrow> int \<times> string" where
  "strtol s =
     (let s1 = dropWhile is_space s;
          neg = (case s1 of c # _ \<Rightarrow> c = CHR ''-'' | [] \<Rightarrow> False);
          s2 = (case s1 of c # r \<Rightarrow> if c = CHR ''-'' \<or> c = CHR ''+'' then r else s1 | [] \<Rightarrow> []);
          ds = takeWhile is_digit s2
      in if ds = [] then (0, s)
         else (if neg then - int (digits_val ds) else int (digits_val ds), dropWhile is_digit s2))"

definition atoi :: "string \<Rightarrow> int" where
  "atoi s = fst (strtol s)"

section \<open>Numbers and texts\<close>

lemma of_char_digit: "d < 10 \<Longrightarrow> of_char (digit d) = (48 + d :: nat)"
  by (simp add: digit_def)

lemma is_digit_digit: "d < 10 \<Longrightarrow> is_digit (digit d)"
  by (simp add: is_digit_def of_char_digit)

lemma dec_digits: "\<forall>c \<in> set (dec n). is_digit c"
proof (induction n rule: dec.induct)
  case (1 n)
  then show ?case by (subst dec.simps) (auto simp: is_digit_digit)
qed

lemma dec_nonempty: "dec n \<noteq> []"
  by (subst dec.simps) simp

lemma digits_val_snoc: "digits_val (s @ [c]) = 10 * digits_val s + (of_char c - 48)"
  by (simp add: digits_val_def)

lemma digits_val_dec: "digits_val (dec n) = n"
proof (induction n rule: dec.induct)
  case (1 n)
  show ?case
  proof (cases "n < 10")
    case True
    then show ?thesis by (subst dec.simps) (simp add: digits_val_def of_char_digit)
  next
    case False
    then show ?thesis using 1 by (subst dec.simps) (simp add: digits_val_snoc of_char_digit)
  qed
qed

lemma dec_inj: "dec m = dec n \<Longrightarrow> m = n"
  by (metis digits_val_dec)

lemma digit_not_special:
  assumes "is_digit c"
  shows "\<not> is_space c" "c \<noteq> CHR ''-''" "c \<noteq> CHR ''+''"
  using assms by (auto simp: is_digit_def is_space_def)

lemma strtol_dec: "strtol (dec n @ r) = (int n, r)" if r: "\<And>c r'. r = c # r' \<Longrightarrow> \<not> is_digit c" for r
proof -
  obtain c s where d: "dec n = c # s" using dec_nonempty by (cases "dec n") auto
  have dg: "is_digit c" "\<forall>x \<in> set (dec n). is_digit x" using dec_digits [of n] d by auto
  have tw: "takeWhile is_digit (dec n @ r) = dec n" "dropWhile is_digit (dec n @ r) = r"
    using dg(2) r by (cases r; auto simp: takeWhile_append2 dropWhile_append2)+
  have s1: "dropWhile is_space (dec n @ r) = dec n @ r" using d digit_not_special(1) [OF dg(1)] by simp
  have s2: "(case dec n @ r of c # _ \<Rightarrow> c = CHR ''-'' | [] \<Rightarrow> False) = False"
    "(case dec n @ r of c # q \<Rightarrow> if c = CHR ''-'' \<or> c = CHR ''+'' then q else dec n @ r | [] \<Rightarrow> []) = dec n @ r"
    using d digit_not_special(2,3) [OF dg(1)] by simp_all
  show ?thesis unfolding strtol_def s1 Let_def s2 tw using dec_nonempty by (simp add: digits_val_dec)
qed

lemma atoi_dec: "atoi (dec n) = int n"
  using strtol_dec [of "[]" n] by (simp add: atoi_def)

text \<open>The last field after a separator determines the whole.\<close>

lemma last_field_inj:
  assumes "s @ [sep] @ d = s' @ [sep] @ d'" and "sep \<notin> set d" "sep \<notin> set d'"
  shows "s = s' \<and> d = d'"
proof -
  have "rev d @ sep # rev s = rev d' @ sep # rev s'"
    using arg_cong [OF assms(1), of rev] by simp
  then have "takeWhile (\<lambda>c. c \<noteq> sep) (rev d @ sep # rev s) = takeWhile (\<lambda>c. c \<noteq> sep) (rev d' @ sep # rev s')" by simp
  moreover have "takeWhile (\<lambda>c. c \<noteq> sep) (rev d @ sep # rev s) = rev d" "takeWhile (\<lambda>c. c \<noteq> sep) (rev d' @ sep # rev s') = rev d'"
    using assms(2,3) by (subst takeWhile_append2; auto)+
  ultimately have "d = d'" by simp
  then show ?thesis using assms(1) by simp
qed

lemma dec_length: "length (dec n) \<le> k" if "n < 10 ^ k" "0 < k"
  using that
proof (induction n arbitrary: k rule: dec.induct)
  case (1 n)
  show ?case
  proof (cases "n < 10")
    case True
    then show ?thesis using 1(3) by (subst dec.simps) simp
  next
    case False
    obtain j where k: "k = Suc j" using 1(3) by (cases k) auto
    have "j \<noteq> 0" using False 1(2) k by (cases j) auto
    then have j: "k = Suc j" "0 < j" using k by simp_all
    have "n div 10 < 10 ^ j" using 1(2) j(1) by (simp add: div_less_iff_less_mult mult.commute)
    then have "length (dec (n div 10)) \<le> j" using 1(1) [OF False] j(2) by blast
    then show ?thesis using False j(1) by (subst dec.simps) simp
  qed
qed

end
