(* ===== verification/Syscounter.thy ===== *)
theory Syscounter
  imports Syscounter_Bpf Syscall_Table C_Format
begin

text \<open>
  The user side of the system call counter (\<^verbatim>\<open>bpf_programs/syscounter/syscounter.c\<close>): the arguments, the
  copy of the counter map, the two lists of distinct labels and system calls, the table and the CSV
  file. Arrays have the sizes the program allocates, and \<open>None\<close> means that it writes behind one of
  them. The totals are right for every map, and the list of system calls never overflows; the list of
  labels can.
\<close>

section \<open>Model\<close>

definition MAX_SYSCALLS :: nat where "MAX_SYSCALLS = 512"
definition COMM_STR_LEN :: nat where "COMM_STR_LEN = 32"

definition resolve_syscall :: "int \<Rightarrow> string" where
  "resolve_syscall nr =
     (if nr \<ge> 0 \<and> nr < int MAX_SYSCALLS then
        (case map_of syscalls_table (nat nr) of Some s \<Rightarrow> s | None \<Rightarrow> ''unknown'')
      else ''unknown'')"

text \<open>The walk with \<^verbatim>\<open>bpf_map__get_next_key\<close> over a map that does not change: the arrays
  \<^verbatim>\<open>keys\<close> and \<^verbatim>\<open>values\<close> as one list, filled in the order of the walk.\<close>

fun copy_entries :: "(CounterKey \<times> CounterValue) list \<Rightarrow> (CounterKey \<times> CounterValue) list \<Rightarrow> (CounterKey \<times> CounterValue) list option" where
  "copy_entries [] out = Some out"
| "copy_entries (e # es) out = (if length out < MAX_PIDS * MAX_OPS then copy_entries es (out @ [e]) else None)"

definition get_values_from_counter_map :: "(CounterKey \<times> CounterValue) list \<Rightarrow> (CounterKey \<times> CounterValue) list option" where
  "get_values_from_counter_map m = copy_entries m []"

text \<open>\<^verbatim>\<open>snprintf(val, sizeof(val), "%s-%d", keys[i].command, keys[i].pid)\<close>\<close>

definition label :: "CounterKey \<Rightarrow> string" where
  "label k = snprintf COMM_STR_LEN (command k @ ''-'' @ fmt_d (sint (key_pid k)))"

fun unique_pids :: "CounterKey list \<Rightarrow> string list \<Rightarrow> string list option" where
  "unique_pids [] pid_list = Some pid_list"
| "unique_pids (k # ks) pid_list =
     (if label k \<in> set pid_list then unique_pids ks pid_list
      else if length pid_list < MAX_PIDS then unique_pids ks (pid_list @ [label k])
      else None)"

definition get_unique_pid_values :: "CounterKey list \<Rightarrow> string list option" where
  "get_unique_pid_values keys = unique_pids keys []"

fun unique_ops :: "CounterKey list \<Rightarrow> u32 list \<Rightarrow> u32 list option" where
  "unique_ops [] op_list = Some op_list"
| "unique_ops (k # ks) op_list =
     (if key_op k \<in> set op_list then unique_ops ks op_list
      else if length op_list < MAX_OPS then unique_ops ks (op_list @ [key_op k])
      else None)"

definition get_unique_op_values :: "CounterKey list \<Rightarrow> u32 list option" where
  "get_unique_op_values keys = unique_ops keys []"

definition zero_value :: CounterValue where
  "zero_value = \<lparr>val_count = 0, time_sum = 0\<rparr>"

definition add_value :: "CounterValue \<Rightarrow> CounterValue \<Rightarrow> CounterValue" where
  "add_value t v = \<lparr>val_count = val_count t + val_count v, time_sum = time_sum t + time_sum v\<rparr>"

text \<open>\<^verbatim>\<open>count ? (time_sum / count) : 0\<close> on \<^verbatim>\<open>long\<close>.\<close>

definition avg_time_ns :: "CounterValue \<Rightarrow> int" where
  "avg_time_ns v = (if val_count v = 0 then 0 else sint (time_sum v) sdiv sint (val_count v))"

text \<open>The innermost loop of both reports: the value of one cell and the running total of its column.\<close>

fun cell_loop :: "(CounterKey \<times> CounterValue) list \<Rightarrow> string \<Rightarrow> u32 \<Rightarrow> CounterValue \<Rightarrow> CounterValue \<Rightarrow> CounterValue \<times> CounterValue" where
  "cell_loop [] pid_label nr val tot = (val, tot)"
| "cell_loop ((k, v) # es) pid_label nr val tot =
     (if label k = pid_label \<and> key_op k = nr then cell_loop es pid_label nr v (add_value tot v)
      else cell_loop es pid_label nr val tot)"

text \<open>One row: the cells, left to right, and the totals of all columns.\<close>

fun row_loop :: "(CounterKey \<times> CounterValue) list \<Rightarrow> string \<Rightarrow> u32 list \<Rightarrow> CounterValue list \<Rightarrow> CounterValue list \<times> CounterValue list" where
  "row_loop es pid_label (nr # op_list) (t # totals) =
     (let (val, t') = cell_loop es pid_label nr zero_value t;
          (vals, ts) = row_loop es pid_label op_list totals
      in (val # vals, t' # ts))"
| "row_loop es pid_label _ totals = ([], totals)"

fun rows_loop ::
    "(CounterKey \<times> CounterValue) list \<Rightarrow> string list \<Rightarrow> u32 list \<Rightarrow> CounterValue list \<Rightarrow> CounterValue list list \<times> CounterValue list" where
  "rows_loop es [] op_list totals = ([], totals)"
| "rows_loop es (p # pid_list) op_list totals =
     (let (vals, ts) = row_loop es p op_list totals;
          (rows, ts') = rows_loop es pid_list op_list ts
      in (vals # rows, ts'))"

definition cell_text :: "CounterValue \<Rightarrow> string" where
  "cell_text v = pad_right 20 (snprintf 20 (fmt_0d 6 (sint (val_count v)) @ ''x | '' @ fmt_d (avg_time_ns v) @ ''ns''))"

definition newline :: string where
  "newline = [char_of (10 :: nat)]"

definition print_results :: "(CounterKey \<times> CounterValue) list \<Rightarrow> string list \<Rightarrow> u32 list \<Rightarrow> string" where
  "print_results entries pid_list op_list =
     (let (rows, totals) = rows_loop entries pid_list op_list (replicate (length op_list) zero_value);
          bar = replicate (COMM_STR_LEN + length op_list * 20) (CHR ''-'') @ newline
      in pad_right 32 (''PID'' @ [char_of (92 :: nat)] @ ''OP'') @
         concat (map (\<lambda>nr. pad_right 20 (resolve_syscall (sint nr))) op_list) @ newline @ bar @
         concat (map (\<lambda>(p, vals). pad_right 32 p @ concat (map cell_text vals) @ newline) (zip pid_list rows)) @
         bar @ pad_right 32 ''Total'' @ concat (map cell_text totals) @ newline)"

definition csv_cell :: "string \<Rightarrow> u32 \<Rightarrow> CounterValue \<Rightarrow> string" where
  "csv_cell p nr v =
     (if sint (val_count v) > 0 then
        p @ '','' @ resolve_syscall (sint nr) @ '','' @ fmt_d (sint (val_count v)) @ '','' @
        fmt_d (sint (time_sum v) sdiv sint (val_count v)) @ newline
      else [])"

definition csv_total :: "nat \<Rightarrow> nat \<Rightarrow> CounterValue \<Rightarrow> string" where
  "csv_total op_count i t =
     fmt_d (sint (val_count t)) @ '','' @ fmt_d (avg_time_ns t) @ (if i + 1 = op_count then newline else '','')"

text \<open>The contents of the file; \<open>None\<close> when \<^verbatim>\<open>fopen\<close> fails.\<close>

definition write_results_to_csv :: "bool \<Rightarrow> (CounterKey \<times> CounterValue) list \<Rightarrow> string list \<Rightarrow> u32 list \<Rightarrow> string option" where
  "write_results_to_csv fopen_ok entries pid_list op_list =
     (if \<not> fopen_ok then None
      else
        let (rows, totals) = rows_loop entries pid_list op_list (replicate (length op_list) zero_value)
        in Some (''PID-Command,Syscall Name,Count,Avg Time (ns)'' @ newline @
             concat (map (\<lambda>(p, vals). concat (map (\<lambda>(nr, v). csv_cell p nr v) (zip op_list vals))) (zip pid_list rows)) @
             ''TOTAL,'' @ concat (map (\<lambda>i. csv_total (length op_list) i (totals ! i)) [0..<length op_list])))"

text \<open>The arguments of \<^verbatim>\<open>main\<close>: \<open>None\<close> for the usage message, else the processes to trace and the name of
  the CSV file.\<close>

definition parse_args :: "string list \<Rightarrow> (u32 list \<times> string option) option" where
  "parse_args argv =
     (if length argv < 2 then None
      else
        let last_arg = last argv;
            csv = length argv \<ge> 3 \<and> snd (strtol last_arg) \<noteq> [];
            pid_argc = (if csv then length argv - 1 else length argv)
        in Some (map (\<lambda>a. word_of_int (atoi a)) (tl (take pid_argc argv)), if csv then Some last_arg else None))"

definition trace_pids :: "u32 list \<Rightarrow> bpf_maps \<Rightarrow> bpf_maps" where
  "trace_pids ks m =
     foldl (\<lambda>m k. m\<lparr>pids_to_consider := bpf_map_update MAX_PIDS False (pids_to_consider m) k 1\<rparr>) m ks"

definition empty_maps :: bpf_maps where
  "empty_maps = \<lparr>pids_to_consider = [], enter_timestamps = [], counters = []\<rparr>"

text \<open>The report at the end of \<^verbatim>\<open>main\<close>: what goes to standard output and to the CSV file. An array
  that overflows is \<open>None\<close>.\<close>

definition report :: "bool \<Rightarrow> bpf_maps \<Rightarrow> string option \<Rightarrow> (string \<times> string option) option" where
  "report fopen_ok m csv_filename =
     (case get_values_from_counter_map (counters m) of
        None \<Rightarrow> None
      | Some entries \<Rightarrow>
          if entries = [] then Some (newline @ ''Map is empty'' @ newline, None)
          else
            (case (get_unique_pid_values (map fst entries), get_unique_op_values (map fst entries)) of
               (Some pid_list, Some op_list) \<Rightarrow>
                 let out = newline @ print_results entries pid_list op_list in
                 (case csv_filename of
                    None \<Rightarrow> Some (out, None)
                  | Some filename \<Rightarrow>
                      Some (out @ newline @ (if fopen_ok then ''Results written to '' @ filename @ newline else []),
                            write_results_to_csv fopen_ok entries pid_list op_list))
             | _ \<Rightarrow> None))"

section \<open>Copy and lists\<close>

lemma copy_entries_eq: "length out + length es \<le> MAX_PIDS * MAX_OPS \<Longrightarrow> copy_entries es out = Some (out @ es)"
  by (induction es arbitrary: out) simp_all

lemma get_values_all: "length m \<le> MAX_PIDS * MAX_OPS \<Longrightarrow> get_values_from_counter_map m = Some m"
  by (simp add: get_values_from_counter_map_def copy_entries_eq)

lemma unique_ops_spec:
  assumes "set ops \<union> key_op ` set ks \<subseteq> S" and "finite S" "card S \<le> MAX_OPS" and "distinct ops"
  shows "\<exists>ops'. unique_ops ks ops = Some ops' \<and> distinct ops' \<and> set ops' = set ops \<union> key_op ` set ks"
  using assms
proof (induction ks arbitrary: ops)
  case (Cons k ks)
  show ?case
  proof (cases "key_op k \<in> set ops")
    case True
    then show ?thesis using Cons.IH [of ops] Cons.prems by auto
  next
    case False
    have "card (set (ops @ [key_op k])) \<le> card S" using Cons.prems by (intro card_mono) auto
    moreover have "card (set (ops @ [key_op k])) = Suc (length ops)" using False Cons.prems(4) by (simp add: distinct_card)
    ultimately have room: "length ops < MAX_OPS" using Cons.prems(3) by simp
    have "\<exists>ops'. unique_ops ks (ops @ [key_op k]) = Some ops' \<and> distinct ops' \<and>
        set ops' = set (ops @ [key_op k]) \<union> key_op ` set ks"
      using Cons.prems False by (intro Cons.IH) auto
    then show ?thesis using False room by auto
  qed
qed simp

lemma probe_nrs: "range probe_nr = {257, 1, 18, 0, 17, 3, 87}"
proof -
  have u: "(UNIV :: probe set) = {P_openat, P_write, P_pwrite64, P_read, P_pread64, P_close, P_unlink}"
    by (auto intro: probe.exhaust)
  show ?thesis unfolding u by simp
qed

lemma unique_pids_set:
  "unique_pids ks ps = Some ps' \<Longrightarrow> distinct ps \<Longrightarrow> distinct ps' \<and> set ps' = set ps \<union> label ` set ks"
  by (induction ks arbitrary: ps) (auto split: if_splits)

lemma unique_pids_overflow:
  assumes "MAX_PIDS < card (set ps \<union> label ` set ks)" and "distinct ps" "length ps \<le> MAX_PIDS"
  shows "unique_pids ks ps = None"
  using assms
proof (induction ks arbitrary: ps)
  case Nil
  then show ?case by (simp add: distinct_card)
next
  case (Cons k ks)
  then show ?case by (auto simp: insert_absorb Un_insert_right intro!: Cons.IH split: if_splits)
qed

section \<open>Labels\<close>

text \<open>A command has at most 15 characters and a process number at most 10 digits, so no label is cut and
  different processes or commands have different labels.\<close>

lemma fmt_pid: "sint (p :: u32) \<ge> 0 \<Longrightarrow> fmt_d (sint p) = dec (nat (sint p)) \<and> length (dec (nat (sint p))) \<le> 10"
proof -
  assume nn: "sint p \<ge> 0"
  have "sint p < 2 ^ 31" using sint_lt [of p] by simp
  then have "nat (sint p) < 10 ^ 10" using nn by (simp add: nat_less_iff)
  then show ?thesis using nn dec_length [of "nat (sint p)" 10] by (simp add: fmt_d_def)
qed

lemma label_whole:
  assumes "length (command k) \<le> 15" and "sint (key_pid k) \<ge> 0"
  shows "label k = command k @ ''-'' @ dec (nat (sint (key_pid k)))"
proof -
  have f: "fmt_d (sint (key_pid k)) = dec (nat (sint (key_pid k)))" "length (dec (nat (sint (key_pid k)))) \<le> 10"
    using fmt_pid [OF assms(2)] by simp_all
  then have "length (command k @ ''-'' @ fmt_d (sint (key_pid k))) \<le> COMM_STR_LEN - 1"
    using assms(1) by (simp add: COMM_STR_LEN_def)
  then show ?thesis unfolding label_def snprintf_def using f(1) by simp
qed

lemma label_inj:
  assumes "length (command k) \<le> 15" "sint (key_pid k) \<ge> 0" and "length (command k') \<le> 15" "sint (key_pid k') \<ge> 0"
    and "label k = label k'"
  shows "command k = command k' \<and> key_pid k = key_pid k'"
proof -
  let ?d = "dec (nat (sint (key_pid k)))" and ?d' = "dec (nat (sint (key_pid k')))"
  have nd: "CHR ''-'' \<notin> set (dec n)" for n using dec_digits [of n] digit_not_special(2) by blast
  have "command k @ [CHR ''-''] @ ?d = command k' @ [CHR ''-''] @ ?d'"
    using label_whole [OF assms(1,2)] label_whole [OF assms(3,4)] assms(5) by simp
  from last_field_inj [OF this nd nd] have "command k = command k'" "?d = ?d'" by simp_all
  then have "sint (key_pid k) = sint (key_pid k')" using dec_inj assms(2,4) by (metis int_nat_eq)
  then show ?thesis using \<open>command k = command k'\<close> by (metis signed_word_eqI)
qed

section \<open>Totals\<close>

text \<open>Values form a commutative monoid under the addition of both fields.\<close>

definition sum_values :: "CounterValue list \<Rightarrow> CounterValue" where
  "sum_values vs = \<lparr>val_count = sum_list (map val_count vs), time_sum = sum_list (map time_sum vs)\<rparr>"

definition matching :: "(CounterKey \<times> CounterValue) list \<Rightarrow> string \<Rightarrow> u32 \<Rightarrow> CounterValue list" where
  "matching es p nr = map snd (filter (\<lambda>e. label (fst e) = p \<and> key_op (fst e) = nr) es)"

lemma add_value_assoc: "add_value (add_value a b) c = add_value a (add_value b c)"
  by (simp add: add_value_def add.assoc)

lemma sum_values_simps:
  "sum_values [] = zero_value" "sum_values (v # vs) = add_value v (sum_values vs)"
  "add_value t zero_value = t" "add_value zero_value t = t"
  by (simp_all add: sum_values_def zero_value_def add_value_def)

lemma sum_values_append: "sum_values (vs @ ws) = add_value (sum_values vs) (sum_values ws)"
  by (simp add: sum_values_def add_value_def)

lemma sum_values_mset: "mset vs = mset ws \<Longrightarrow> sum_values vs = sum_values ws"
  unfolding sum_values_def by (metis mset_map sum_mset_sum_list)

lemma cell_loop_eq:
  "cell_loop es p nr val tot =
     ((if matching es p nr = [] then val else last (matching es p nr)), add_value tot (sum_values (matching es p nr)))"
proof (induction es arbitrary: val tot)
  case Nil
  then show ?case by (simp add: matching_def sum_values_simps)
next
  case (Cons e es)
  obtain k v where e: "e = (k, v)" by force
  show ?case using Cons.IH by (auto simp: e matching_def sum_values_simps add_value_assoc)
qed

lemma row_loop_eq:
  assumes "length totals = length ops"
  shows "row_loop es p ops totals =
    (map (\<lambda>nr. if matching es p nr = [] then zero_value else last (matching es p nr)) ops,
     map (\<lambda>(nr, t). add_value t (sum_values (matching es p nr))) (zip ops totals))"
  using assms by (induction ops totals rule: list_induct2') (simp_all add: cell_loop_eq)

lemma rows_loop_eq:
  assumes "length totals = length ops"
  shows "rows_loop es ps ops totals =
    (map (\<lambda>p. map (\<lambda>nr. if matching es p nr = [] then zero_value else last (matching es p nr)) ops) ps,
     map (\<lambda>(nr, t). add_value t (sum_values (concat (map (\<lambda>p. matching es p nr) ps)))) (zip ops totals))"
  using assms
proof (induction ps arbitrary: totals)
  case Nil
  then show ?case by (auto simp: sum_values_simps map_snd_zip split_def)
next
  case (Cons p ps)
  let ?ts = "map (\<lambda>(nr, t). add_value t (sum_values (matching es p nr))) (zip ops totals)"
  have "length ?ts = length ops" using Cons.prems by simp
  note IH = Cons.IH [OF this]
  have "map (\<lambda>(nr, t). add_value t (sum_values (concat (map (\<lambda>p. matching es p nr) ps)))) (zip ops ?ts) =
      map (\<lambda>(nr, t). add_value t (sum_values (concat (map (\<lambda>p. matching es p nr) (p # ps))))) (zip ops totals)"
    using Cons.prems by (intro nth_equalityI) (auto simp: sum_values_append add_value_assoc)
  then show ?case using IH row_loop_eq [OF Cons.prems] by simp
qed

text \<open>Every entry of a system call is in exactly one row.\<close>

lemma matching_all:
  assumes "distinct ps" and "label ` fst ` set es \<subseteq> set ps"
  shows "mset (concat (map (\<lambda>p. matching es p nr) ps)) = mset (map snd (filter (\<lambda>e. key_op (fst e) = nr) es))"
  using assms(2)
proof (induction es)
  case Nil
  then show ?case by (simp add: matching_def)
next
  case (Cons e es)
  have step: "matching (e # es) p nr = (if label (fst e) = p \<and> key_op (fst e) = nr then [snd e] else []) @ matching es p nr" for p
    by (simp add: matching_def)
  have "mset (concat (map (\<lambda>p. if label (fst e) = p \<and> key_op (fst e) = nr then [snd e] else []) ps)) =
      (if key_op (fst e) = nr \<and> label (fst e) \<in> set ps then {#snd e#} else {#})"
    using assms(1) by (induction ps) auto
  moreover have "mset (concat (map (\<lambda>p. f p @ g p) ps)) = mset (concat (map f ps)) + mset (concat (map g ps))" for f g :: "string \<Rightarrow> CounterValue list"
    by (induction ps) simp_all
  ultimately show ?case using Cons by (simp add: step)
qed

lemma report_totals:
  assumes "get_unique_pid_values (map fst es) = Some ps"
  shows "snd (rows_loop es ps ops (replicate (length ops) zero_value)) =
    map (\<lambda>nr. sum_values (map snd (filter (\<lambda>e. key_op (fst e) = nr) es))) ops"
proof -
  have u: "distinct ps" "set ps = label ` fst ` set es"
    using unique_pids_set [of "map fst es" "[]" ps] assms by (simp_all add: get_unique_pid_values_def)
  have "sum_values (concat (map (\<lambda>p. matching es p nr) ps)) = sum_values (map snd (filter (\<lambda>e. key_op (fst e) = nr) es))" for nr
    using matching_all [OF u(1), of es nr] u(2) by (intro sum_values_mset) simp
  then show ?thesis
    by (intro nth_equalityI) (simp_all add: rows_loop_eq sum_values_simps)
qed

lemma report_cells:
  assumes d: "distinct (map fst es)" and e: "(k, v) \<in> set es"
    and w: "\<forall>e \<in> set es. length (command (fst e)) \<le> 15 \<and> sint (key_pid (fst e)) \<ge> 0"
  shows "matching es (label k) (key_op k) = [v]"
proof -
  have "label (fst e') = label k \<and> key_op (fst e') = key_op k \<longleftrightarrow> e' = (k, v)" if "e' \<in> set es" for e'
  proof
    assume l: "label (fst e') = label k \<and> key_op (fst e') = key_op k"
    have "command (fst e') = command k \<and> key_pid (fst e') = key_pid k"
      using w that e l by (intro label_inj) auto
    then have "fst e' = k" using l by (simp add: CounterKey.equality)
    then show "e' = (k, v)" using d that e by (metis map_of_is_SomeI option.inject prod.collapse)
  qed auto
  then have "filter (\<lambda>e'. label (fst e') = label k \<and> key_op (fst e') = key_op k) es = filter (\<lambda>e'. e' = (k, v)) es"
    by (intro filter_cong) auto
  moreover have "filter (\<lambda>e'. e' = (k, v)) es = [(k, v)]"
    using d e by (induction es) (auto simp: filter_empty_conv image_iff)
  ultimately show ?thesis by (simp add: matching_def)
qed

end
