(* ===== verification/C_Scanf.thy ===== *)
theory C_Scanf
  imports C_Format
begin

text \<open>
  What the tracing helpers use of \<^verbatim>\<open>fscanf\<close> and \<^verbatim>\<open>sscanf\<close>: a format is a list of directives, the input is
  a text, and the result is the list of the assigned fields, how the scan ended and the rest of the
  input. A string that does not fit the array it is stored into gives \<open>None\<close>, since none of the formats
  limits the length of its fields by the array. Files are texts without read errors, so that the
  end-of-file result is the end of the text.
\<close>

section \<open>Formats\<close>

text \<open>White space, an ordinary character, \<^verbatim>\<open>%x\<close> and \<^verbatim>\<open>%u\<close> in their 64-bit forms, \<^verbatim>\<open>%s\<close> and \<^verbatim>\<open>%[^\n]\<close> with the size
  of the array, \<^verbatim>\<open>%c\<close>. The number is not stored when the flag is \<open>False\<close>, the text when there is no
  array (the \<^verbatim>\<open>*\<close> of the format); \<^verbatim>\<open>%s\<close> may have a maximal width (0 is no limit, as in glibc).\<close>

datatype directive =
    White
  | Lit char
  | Hex bool
  | Unsigned bool
  | Str "nat option" "nat option"
  | Chr bool
  | Not_nl "nat option"

datatype field = FNum u64 | FStr string | FChr char

datatype scan_end = Scan_done | Input_failure | Matching_failure

section \<open>Numbers\<close>

definition is_xdigit :: "char \<Rightarrow> bool" where
  "is_xdigit c \<longleftrightarrow> is_digit c \<or> 65 \<le> (of_char c :: nat) \<and> (of_char c :: nat) \<le> 70 \<or> 97 \<le> (of_char c :: nat) \<and> (of_char c :: nat) \<le> 102"

definition xdigit_val :: "char \<Rightarrow> nat" where
  "xdigit_val c =
     (let n = of_char c in if is_digit c then n - 48 else if n \<le> 70 then n - 55 else n - 87)"

definition based_val :: "nat \<Rightarrow> string \<Rightarrow> nat" where
  "based_val base s = foldl (\<lambda>a c. base * a + xdigit_val c) 0 s"

text \<open>Sign, the prefix of hexadecimal numbers, digits, and what follows.\<close>

definition number_at :: "bool \<Rightarrow> string \<Rightarrow> bool \<times> string \<times> string" where
  "number_at hex s =
     (let neg = (case s of c # _ \<Rightarrow> c = CHR ''-'' | [] \<Rightarrow> False);
          s1 = (case s of c # r \<Rightarrow> if c = CHR ''-'' \<or> c = CHR ''+'' then r else s | [] \<Rightarrow> []);
          s2 = (case s1 of a # b # r \<Rightarrow> if hex \<and> a = CHR ''0'' \<and> (b = CHR ''x'' \<or> b = CHR ''X'') then a # r else s1 | _ \<Rightarrow> s1);
          dig = (if hex then is_xdigit else is_digit)
      in (neg, takeWhile dig s2, dropWhile dig s2))"

text \<open>\<^verbatim>\<open>strtoul\<close> saturates, and negates modulo \<open>2 ^ 64\<close>.\<close>

definition number_val :: "nat \<Rightarrow> bool \<Rightarrow> string \<Rightarrow> u64" where
  "number_val base neg ds =
     (let v = based_val base ds in if v \<ge> 2 ^ 64 then - 1 else if neg then - of_nat v else of_nat v)"

section \<open>Scanning\<close>

definition scan_number :: "nat \<Rightarrow> string \<Rightarrow> (u64 \<times> string) + scan_end" where
  "scan_number base s =
     (let s1 = dropWhile is_space s
      in if s1 = [] then Inr Input_failure
         else case number_at (base = 16) s1 of
                (neg, ds, r) \<Rightarrow> if ds = [] then Inr Matching_failure else Inl (number_val base neg ds, r))"

text \<open>The text of \<^verbatim>\<open>%s\<close> and of \<^verbatim>\<open>%[^\n]\<close> with the rest.\<close>

definition scan_str :: "nat option \<Rightarrow> string \<Rightarrow> (string \<times> string) + scan_end" where
  "scan_str width s =
     (let s1 = dropWhile is_space s;
          w = takeWhile (\<lambda>c. \<not> is_space c) s1;
          w' = (case width of None \<Rightarrow> w | Some n \<Rightarrow> if n = 0 then w else take n w)
      in if s1 = [] then Inr Input_failure else Inl (w', drop (length w') s1))"

definition scan_not_nl :: "string \<Rightarrow> (string \<times> string) + scan_end" where
  "scan_not_nl s =
     (let w = takeWhile (\<lambda>c. c \<noteq> CHR 0x0A) s
      in if s = [] then Inr Input_failure else if w = [] then Inr Matching_failure else Inl (w, drop (length w) s))"

text \<open>Storing a text with its terminating NUL into an array.\<close>

definition store_str :: "nat option \<Rightarrow> string \<Rightarrow> field list \<Rightarrow> field list option" where
  "store_str cap w vs =
     (case cap of None \<Rightarrow> Some vs | Some n \<Rightarrow> if length w < n then Some (vs @ [FStr w]) else None)"

fun scan :: "directive list \<Rightarrow> string \<Rightarrow> field list \<Rightarrow> (field list \<times> scan_end \<times> string) option" where
  "scan [] s vs = Some (vs, Scan_done, s)"
| "scan (White # ds) s vs = scan ds (dropWhile is_space s) vs"
| "scan (Lit c # ds) s vs =
     (case s of [] \<Rightarrow> Some (vs, Input_failure, s) | x # r \<Rightarrow> if x = c then scan ds r vs else Some (vs, Matching_failure, s))"
| "scan (Hex st # ds) s vs =
     (case scan_number 16 s of Inr e \<Rightarrow> Some (vs, e, s) | Inl (v, r) \<Rightarrow> scan ds r (if st then vs @ [FNum v] else vs))"
| "scan (Unsigned st # ds) s vs =
     (case scan_number 10 s of Inr e \<Rightarrow> Some (vs, e, s) | Inl (v, r) \<Rightarrow> scan ds r (if st then vs @ [FNum v] else vs))"
| "scan (Chr st # ds) s vs =
     (case s of [] \<Rightarrow> Some (vs, Input_failure, s) | x # r \<Rightarrow> scan ds r (if st then vs @ [FChr x] else vs))"
| "scan (Str cap width # ds) s vs =
     (case scan_str width s of
        Inr e \<Rightarrow> Some (vs, e, s)
      | Inl (w, r) \<Rightarrow> (case store_str cap w vs of None \<Rightarrow> None | Some vs' \<Rightarrow> scan ds r vs'))"
| "scan (Not_nl cap # ds) s vs =
     (case scan_not_nl s of
        Inr e \<Rightarrow> Some (vs, e, s)
      | Inl (w, r) \<Rightarrow> (case store_str cap w vs of None \<Rightarrow> None | Some vs' \<Rightarrow> scan ds r vs'))"

text \<open>The return value: the number of assigned fields, or \<^verbatim>\<open>EOF\<close> when the input ends before the first.\<close>

definition scan_ret :: "field list \<Rightarrow> scan_end \<Rightarrow> int" where
  "scan_ret vs e = (if vs = [] \<and> e = Input_failure then - 1 else int (length vs))"

section \<open>The rest of the input gets shorter\<close>

lemma number_at_length: "number_at hex s = (neg, ds, r) \<Longrightarrow> length ds + length r \<le> length s"
proof -
  assume a: "number_at hex s = (neg, ds, r)"
  obtain s2 dig where s2: "length s2 \<le> length s" "ds = takeWhile dig s2" "r = dropWhile dig s2"
  proof
    let ?s1 = "case s of c # r \<Rightarrow> if c = CHR ''-'' \<or> c = CHR ''+'' then r else s | [] \<Rightarrow> []"
    let ?s2 = "case ?s1 of a # b # r \<Rightarrow> if hex \<and> a = CHR ''0'' \<and> (b = CHR ''x'' \<or> b = CHR ''X'') then a # r else ?s1 | _ \<Rightarrow> ?s1"
    have "length ?s1 \<le> length s" by (cases s) auto
    moreover have "length ?s2 \<le> length ?s1" by (auto split: list.split)
    ultimately show "length ?s2 \<le> length s" by linarith
    show "ds = takeWhile (if hex then is_xdigit else is_digit) ?s2" "r = dropWhile (if hex then is_xdigit else is_digit) ?s2"
      using a by (auto simp: number_at_def Let_def)
  qed
  have "length (takeWhile dig s2) + length (dropWhile dig s2) = length s2"
    by (metis length_append takeWhile_dropWhile_id)
  then show ?thesis using s2 by simp
qed

lemma scan_number_length: "scan_number base s = Inl (v, r) \<Longrightarrow> length r < length s"
proof -
  assume a: "scan_number base s = Inl (v, r)"
  obtain neg ds r' where n: "number_at (base = 16) (dropWhile is_space s) = (neg, ds, r')" by (metis prod_cases3)
  then have "ds \<noteq> []" "r' = r" using a by (auto simp: scan_number_def Let_def split: if_splits)
  then show ?thesis using number_at_length [OF n] length_dropWhile_le [of is_space s] by (cases ds) auto
qed

lemma scan_str_length: "scan_str width s = Inl (w, r) \<Longrightarrow> length r < length s"
proof -
  assume a: "scan_str width s = Inl (w, r)"
  let ?s = "dropWhile is_space s" and ?w = "takeWhile (\<lambda>c. \<not> is_space c) (dropWhile is_space s)"
  have ne: "?s \<noteq> []" using a by (auto simp: scan_str_def Let_def split: if_splits)
  then have "\<not> is_space (hd ?s)" by (rule hd_dropWhile)
  then have "?w \<noteq> []" using ne by (cases ?s) auto
  then have w: "w \<noteq> []" and r: "r = drop (length w) ?s"
    using a by (auto simp: scan_str_def Let_def split: if_splits option.splits)
  have "0 < length ?s" "0 < length w" using ne w by blast+
  moreover have "length ?s \<le> length s" by (rule length_dropWhile_le)
  ultimately show ?thesis unfolding r length_drop by linarith
qed

lemma scan_not_nl_length: "scan_not_nl s = Inl (w, r) \<Longrightarrow> length r < length s"
  using length_takeWhile_le [of "\<lambda>c. c \<noteq> CHR 0x0A" s] by (auto simp: scan_not_nl_def Let_def split: if_splits)

text \<open>A scan that assigns something makes progress.\<close>

lemma scan_length:
  "scan ds s vs = Some (vs', e, r) \<Longrightarrow> length r \<le> length s \<and> (vs' \<noteq> vs \<longrightarrow> length r < length s)"
proof (induction ds s vs rule: scan.induct)
  case (2 ds s vs)
  then show ?case using length_dropWhile_le [of is_space s] by fastforce
next
  case (4 st ds s vs)
  then show ?case using scan_number_length [of 16 s] by (fastforce split: sum.splits prod.splits)
next
  case (5 st ds s vs)
  then show ?case using scan_number_length [of 10 s] by (fastforce split: sum.splits prod.splits)
next
  case (7 cap width ds s vs)
  then show ?case using scan_str_length [of width s] by (fastforce split: sum.splits prod.splits option.splits)
next
  case (8 cap ds s vs)
  then show ?case using scan_not_nl_length [of s] by (fastforce split: sum.splits prod.splits option.splits)
qed (auto split: list.splits if_splits)

lemma scan_ret_progress:
  "scan ds s [] = Some (vs, e, r) \<Longrightarrow> 0 < scan_ret vs e \<Longrightarrow> length r < length s"
  using scan_length [of ds s "[]" vs e r] by (auto simp: scan_ret_def split: if_splits)

section \<open>Scanning printed fields\<close>

definition is_word :: "string \<Rightarrow> bool" where
  "is_word w \<longleftrightarrow> w \<noteq> [] \<and> (\<forall>c \<in> set w. \<not> is_space c)"

definition starts_space :: "string \<Rightarrow> bool" where
  "starts_space r \<longleftrightarrow> (case r of [] \<Rightarrow> True | c # _ \<Rightarrow> is_space c)"

lemma is_word_hd: "is_word w \<Longrightarrow> dropWhile is_space (w @ r) = w @ r"
  by (cases w) (auto simp: is_word_def)

lemma scan_str_word:
  assumes "is_word w" "starts_space r"
  shows "scan_str None (w @ r) = Inl (w, r)"
proof -
  have "takeWhile (\<lambda>c. \<not> is_space c) (w @ r) = w"
    using assms by (cases r) (auto simp: is_word_def starts_space_def takeWhile_append2)
  then show ?thesis using is_word_hd [OF assms(1)] assms(1) by (simp add: scan_str_def is_word_def)
qed

lemma scan_str_skip: "scan_str width (dropWhile is_space s) = scan_str width s"
  by (simp add: scan_str_def dropWhile_idem)

lemma scan_number_skip: "scan_number base (dropWhile is_space s) = scan_number base s"
  by (simp add: scan_number_def dropWhile_idem)

text \<open>The end of a line: \<^verbatim>\<open>%*[^\n]\n\<close> fails to match when nothing is left on the line, and the newline stays.\<close>

lemma scan_rest_of_line:
  assumes "\<forall>c \<in> set rest. c \<noteq> CHR 0x0A"
  shows "\<exists>e r. scan [Not_nl None, White] (rest @ CHR 0x0A # more) vs = Some (vs, e, r) \<and> e \<noteq> Input_failure \<and>
    dropWhile is_space r = dropWhile is_space more"
proof (cases rest)
  case Nil
  have "is_space (CHR 0x0A)" by (simp add: is_space_def)
  then show ?thesis by (simp add: Nil scan_not_nl_def)
next
  case (Cons c cs)
  have tw: "takeWhile (\<lambda>c. c \<noteq> CHR 0x0A) (rest @ CHR 0x0A # more) = rest" using assms by (simp add: takeWhile_append2)
  then have "scan_not_nl (rest @ CHR 0x0A # more) = Inl (rest, CHR 0x0A # more)"
    unfolding scan_not_nl_def tw Let_def using Cons by simp
  moreover have "is_space (CHR 0x0A)" by (simp add: is_space_def)
  ultimately show ?thesis by (simp add: store_str_def dropWhile_idem)
qed

lemma xdigit_not_special:
  assumes "is_xdigit c"
  shows "\<not> is_space c" "c \<noteq> CHR ''-''" "c \<noteq> CHR ''+''" "c \<noteq> CHR ''x''" "c \<noteq> CHR ''X''"
  using assms by (auto simp: is_xdigit_def is_digit_def is_space_def)

text \<open>A hexadecimal number that is followed by something that cannot continue it.\<close>

definition hex_text :: "string \<Rightarrow> bool" where
  "hex_text ds \<longleftrightarrow> ds \<noteq> [] \<and> (\<forall>c \<in> set ds. is_xdigit c) \<and> based_val 16 ds < 2 ^ 64"

lemma scan_number_hex:
  assumes ds: "hex_text ds" and r: "\<not> is_xdigit c" "c \<noteq> CHR ''x''" "c \<noteq> CHR ''X''"
  shows "scan_number 16 (ds @ c # r) = Inl (of_nat (based_val 16 ds), c # r)"
proof -
  obtain d ds' where d: "ds = d # ds'" and xd: "is_xdigit d" "\<forall>c \<in> set ds'. is_xdigit c"
    using ds by (cases ds) (auto simp: hex_text_def)
  have tw: "takeWhile is_xdigit (ds @ c # r) = ds" "dropWhile is_xdigit (ds @ c # r) = c # r"
    using ds r by (simp_all add: hex_text_def takeWhile_append2 dropWhile_append2)
  have "number_at True (ds @ c # r) = (False, takeWhile is_xdigit (ds @ c # r), dropWhile is_xdigit (ds @ c # r))"
  proof (cases ds')
    case Nil
    then show ?thesis using d xdigit_not_special [OF xd(1)] r by (simp add: number_at_def)
  next
    case (Cons e ds'')
    then have "is_xdigit e" using xd by simp
    then show ?thesis using d Cons xdigit_not_special [OF xd(1)] xdigit_not_special [of e] by (simp add: number_at_def)
  qed
  then have n: "number_at True (ds @ c # r) = (False, ds, c # r)" by (simp only: tw)
  have sp: "dropWhile is_space (ds @ c # r) = ds @ c # r" using d xdigit_not_special(1) [OF xd(1)] by simp
  show ?thesis unfolding scan_number_def sp Let_def using n ds by (simp add: d hex_text_def number_val_def Let_def)
qed

definition dec_text :: "string \<Rightarrow> bool" where
  "dec_text ds \<longleftrightarrow> ds \<noteq> [] \<and> (\<forall>c \<in> set ds. is_digit c) \<and> based_val 10 ds < 2 ^ 64"

lemma scan_number_dec:
  assumes ds: "dec_text ds" and r: "\<not> is_digit c"
  shows "scan_number 10 (ds @ c # r) = Inl (of_nat (based_val 10 ds), c # r)"
proof -
  obtain d ds' where d: "ds = d # ds'" and dg: "is_digit d" using ds by (cases ds) (auto simp: dec_text_def)
  have tw: "takeWhile is_digit (ds @ c # r) = ds" "dropWhile is_digit (ds @ c # r) = c # r"
    using ds r by (simp_all add: dec_text_def takeWhile_append2 dropWhile_append2)
  have "number_at False (ds @ c # r) = (False, takeWhile is_digit (ds @ c # r), dropWhile is_digit (ds @ c # r))"
    using d digit_not_special [OF dg] by (auto simp: number_at_def Let_def split: list.split)
  then have n: "number_at False (ds @ c # r) = (False, ds, c # r)" by (simp only: tw)
  have sp: "dropWhile is_space (ds @ c # r) = ds @ c # r" using d digit_not_special(1) [OF dg] by simp
  show ?thesis unfolding scan_number_def sp Let_def using n ds by (simp add: d dec_text_def number_val_def Let_def)
qed

lemma scan_str_width:
  assumes "is_word w" "starts_space r" "length w \<le> n"
  shows "scan_str (Some n) (w @ r) = Inl (w, r)"
proof -
  have "takeWhile (\<lambda>c. \<not> is_space c) (w @ r) = w"
    using assms by (cases r) (auto simp: is_word_def starts_space_def takeWhile_append2)
  then show ?thesis using is_word_hd [OF assms(1)] assms by (simp add: scan_str_def is_word_def)
qed

lemma hex_text_hd: "hex_text ds \<Longrightarrow> dropWhile is_space (ds @ r) = ds @ r"
  by (cases ds) (auto simp: hex_text_def xdigit_not_special)

lemma dec_text_hd: "dec_text ds \<Longrightarrow> dropWhile is_space (ds @ r) = ds @ r"
  by (cases ds) (auto simp: dec_text_def digit_not_special)

end
