(* ===== verification/Kernel_Symbols.thy ===== *)
theory Kernel_Symbols
  imports C_Scanf Block_Sort
begin

text \<open>
  The table of kernel symbols of \<^verbatim>\<open>bpf_programs/cachestat/trace_helpers.c\<close>: reading \<^verbatim>\<open>/proc/kallsyms\<close> into
  two growing arrays, sorting by address, and the binary search for the symbol that contains an address.
  A file of well-formed lines is loaded completely, and the search finds the last symbol that does not
  lie behind the address. \<open>None\<close> stands for a write outside an array.
\<close>

section \<open>Arrays and allocation\<close>

text \<open>The results of \<^verbatim>\<open>calloc\<close> and \<^verbatim>\<open>realloc\<close>, in order; an exhausted list means success.\<close>

definition next_alloc :: "bool list \<Rightarrow> bool \<times> bool list" where
  "next_alloc as = (case as of [] \<Rightarrow> (True, []) | a # as' \<Rightarrow> (a, as'))"

text \<open>A symbol names its string by the offset into \<^verbatim>\<open>strs\<close>; the code turns offsets into pointers when the
  array has its final place.\<close>

record ksym =
  ksym_name :: nat
  ksym_addr :: u64

record ksyms =
  ksyms_syms :: "ksym list"
  syms_cap :: nat
  ksyms_strs :: string
  strs_cap :: nat

definition empty_ksyms :: ksyms where
  "empty_ksyms = \<lparr>ksyms_syms = [], syms_cap = 0, ksyms_strs = [], strs_cap = 0\<rparr>"

definition c_string_at :: "string \<Rightarrow> nat \<Rightarrow> string" where
  "c_string_at strs off = takeWhile (\<lambda>c. c \<noteq> CHR 0x00) (drop off strs)"

definition ksym_str :: "ksyms \<Rightarrow> ksym \<Rightarrow> string" where
  "ksym_str ks s = c_string_at (ksyms_strs ks) (ksym_name s)"

definition grow_strs :: "ksyms \<Rightarrow> nat \<Rightarrow> bool list \<Rightarrow> bool \<times> ksyms \<times> bool list" where
  "grow_strs ks name_len as =
     (if length (ksyms_strs ks) + name_len > strs_cap ks then
        let new_cap = strs_cap ks * 4 div 3;
            new_cap = (if new_cap < length (ksyms_strs ks) + name_len then length (ksyms_strs ks) + name_len else new_cap);
            new_cap = (if new_cap < 1024 then 1024 else new_cap);
            (ok, as') = next_alloc as
        in (ok, if ok then ks\<lparr>strs_cap := new_cap\<rparr> else ks, as')
      else (True, ks, as))"

definition grow_syms :: "ksyms \<Rightarrow> bool list \<Rightarrow> bool \<times> ksyms \<times> bool list" where
  "grow_syms ks as =
     (if length (ksyms_syms ks) + 1 > syms_cap ks then
        let new_cap = syms_cap ks * 4 div 3;
            new_cap = (if new_cap < 1024 then 1024 else new_cap);
            (ok, as') = next_alloc as
        in (ok, if ok then ks\<lparr>syms_cap := new_cap\<rparr> else ks, as')
      else (True, ks, as))"

definition ksyms__add_symbol :: "ksyms \<Rightarrow> string \<Rightarrow> u64 \<Rightarrow> bool list \<Rightarrow> (int \<times> ksyms \<times> bool list) option" where
  "ksyms__add_symbol ks name addr as =
     (case grow_strs ks (length name + 1) as of
        (ok1, ks1, as1) \<Rightarrow>
          if \<not> ok1 then Some (- 1, ks1, as1)
          else case grow_syms ks1 as1 of
                 (ok2, ks2, as2) \<Rightarrow>
                   if \<not> ok2 then Some (- 1, ks2, as2)
                   else if length (ksyms_syms ks2) < syms_cap ks2 \<and>
                       length (ksyms_strs ks2) + length name + 1 \<le> strs_cap ks2
                   then Some (0, ks2\<lparr>ksyms_syms := ksyms_syms ks2 @ [\<lparr>ksym_name = length (ksyms_strs ks2), ksym_addr = addr\<rparr>],
                                     ksyms_strs := ksyms_strs ks2 @ name @ [CHR 0x00]\<rparr>, as2)
                   else None)"

section \<open>Loading\<close>

text \<open>\<^verbatim>\<open>strcmp\<close>: a text ends at its first NUL.\<close>

fun strcmp :: "string \<Rightarrow> string \<Rightarrow> int" where
  "strcmp [] [] = 0"
| "strcmp [] (b # bs) = - of_char b"
| "strcmp (a # as) [] = of_char a"
| "strcmp (a # as) (b # bs) =
     (if a \<noteq> b then of_char a - of_char b else if a = CHR 0x00 then 0 else strcmp as bs)"

definition ksym_cmp :: "ksyms \<Rightarrow> ksym \<Rightarrow> ksym \<Rightarrow> int" where
  "ksym_cmp ks s1 s2 =
     (if ksym_addr s1 = ksym_addr s2 then strcmp (ksym_str ks s1) (ksym_str ks s2)
      else if ksym_addr s1 < ksym_addr s2 then - 1 else 1)"

text \<open>The format \<^verbatim>\<open>%lx %c %s%*[^\n]\n\<close> with \<^verbatim>\<open>char sym_name[256]\<close>.\<close>

definition kallsyms_fmt :: "directive list" where
  "kallsyms_fmt = [Hex True, White, Chr True, White, Str (Some 256) None, Not_nl None, White]"

text \<open>The loop: \<open>Some None\<close> for the error exit.\<close>

function ksyms_load_loop :: "ksyms \<Rightarrow> string \<Rightarrow> bool list \<Rightarrow> ksyms option option" where
  "ksyms_load_loop ks s as =
     (case scan kallsyms_fmt s [] of
        None \<Rightarrow> None
      | Some (vs, e, r) \<Rightarrow>
          if scan_ret vs e = - 1 then Some (Some ks)
          else if scan_ret vs e \<noteq> 3 then Some None
          else
            (case vs of
               [FNum sym_addr, FChr sym_type, FStr sym_name] \<Rightarrow>
                 (case ksyms__add_symbol ks sym_name sym_addr as of
                    None \<Rightarrow> None
                  | Some (rc, ks', as') \<Rightarrow> if rc \<noteq> 0 then Some None else ksyms_load_loop ks' r as')
             | _ \<Rightarrow> Some None))"
  by pat_completeness auto
termination
  by (relation "measure (\<lambda>(ks, s, as). length s)") (auto dest!: scan_ret_progress)

declare ksyms_load_loop.simps [simp del]

text \<open>The whole function; the file is \<open>None\<close> when it cannot be opened.\<close>

definition ksyms__load ::
    "((ksym \<Rightarrow> ksym \<Rightarrow> int) \<Rightarrow> ksym list \<Rightarrow> ksym list) \<Rightarrow> string option \<Rightarrow> bool list \<Rightarrow> ksyms option option" where
  "ksyms__load qsort file_text as =
     (case file_text of
        None \<Rightarrow> Some None
      | Some s \<Rightarrow>
          (case next_alloc as of
             (ok, as') \<Rightarrow>
               if \<not> ok then Some None
               else map_option (map_option (\<lambda>ks. ks\<lparr>ksyms_syms := qsort (ksym_cmp ks) (ksyms_syms ks)\<rparr>))
                      (ksyms_load_loop empty_ksyms s as')))"

section \<open>Searching\<close>

text \<open>The loop that \<^verbatim>\<open>ksyms__map_addr\<close> and \<^verbatim>\<open>dso__find_sym\<close> share, over the sorted addresses; \<open>None\<close> for an
  access outside the array.\<close>

function bsearch :: "u64 list \<Rightarrow> u64 \<Rightarrow> int \<Rightarrow> int \<Rightarrow> (int \<times> int) option" where
  "bsearch xs addr start hi =
     (if start < hi then
        let mid = start + (hi - start + 1) div 2
        in if mid < 0 \<or> int (length xs) \<le> mid then None
           else if xs ! nat mid \<le> addr then bsearch xs addr mid hi
           else bsearch xs addr start (mid - 1)
      else Some (start, hi))"
  by pat_completeness auto
termination
  by (relation "measure (\<lambda>(xs, addr, start, hi). nat (hi - start))") auto

declare bsearch.simps [simp del]

text \<open>The index of the symbol; the inner \<open>None\<close> is the null pointer.\<close>

definition ksyms__map_addr :: "ksyms \<Rightarrow> u64 \<Rightarrow> nat option option" where
  "ksyms__map_addr ks addr =
     (let xs = map ksym_addr (ksyms_syms ks)
      in map_option (\<lambda>(start, hi). if start = hi \<and> xs ! nat start \<le> addr then Some (nat start) else None)
           (bsearch xs addr 0 (int (length xs) - 1)))"

fun first_index_of :: "('a \<Rightarrow> bool) \<Rightarrow> 'a list \<Rightarrow> nat option" where
  "first_index_of P [] = None"
| "first_index_of P (x # xs) = (if P x then Some 0 else map_option Suc (first_index_of P xs))"

definition ksyms__get_symbol :: "ksyms \<Rightarrow> string \<Rightarrow> nat option" where
  "ksyms__get_symbol ks name = first_index_of (\<lambda>s. strcmp (ksym_str ks s) name = 0) (ksyms_syms ks)"


section \<open>The search finds the last address that is not larger\<close>

definition count_le :: "u64 list \<Rightarrow> u64 \<Rightarrow> nat" where
  "count_le xs addr = length (takeWhile (\<lambda>x. x \<le> addr) xs)"

lemma count_le_length: "count_le xs addr \<le> length xs"
  by (simp add: count_le_def length_takeWhile_le)

lemma nth_le_iff: "sorted xs \<Longrightarrow> i < length xs \<Longrightarrow> xs ! i \<le> addr \<longleftrightarrow> i < count_le xs addr"
proof
  assume srt: "sorted xs" and i: "i < length xs"
  show "i < count_le xs addr \<Longrightarrow> xs ! i \<le> addr"
    unfolding count_le_def by (metis nth_mem set_takeWhileD takeWhile_nth)
  assume le: "xs ! i \<le> addr"
  show "i < count_le xs addr"
  proof (rule ccontr)
    assume c: "\<not> i < count_le xs addr"
    then have "\<not> xs ! count_le xs addr \<le> addr"
      unfolding count_le_def using i by (intro nth_length_takeWhile) simp
    moreover have "xs ! count_le xs addr \<le> xs ! i" using srt i c by (simp add: sorted_nth_mono)
    ultimately show False using le by simp
  qed
qed

lemma bsearch_sorted:
  assumes "sorted xs" and "0 \<le> start" and "start \<le> hi" and "hi < int (length xs)"
    and "start = 0 \<or> start < int (count_le xs addr)" and "int (count_le xs addr) \<le> hi + 1"
  shows "bsearch xs addr start hi = Some (max 0 (int (count_le xs addr) - 1), max 0 (int (count_le xs addr) - 1))"
  using assms
proof (induction xs addr start hi rule: bsearch.induct)
  case (1 xs addr start hi)
  show ?case
  proof (cases "start < hi")
    case True
    define mid where "mid = start + (hi - start + 1) div 2"
    have mid: "start < mid" "mid \<le> hi" unfolding mid_def using True by linarith+
    have le: "xs ! nat mid \<le> addr \<longleftrightarrow> mid < int (count_le xs addr)"
      using nth_le_iff [OF "1.prems"(1), of "nat mid" addr] mid "1.prems" by (simp add: nat_less_iff)
    have step: "bsearch xs addr start hi = (if xs ! nat mid \<le> addr then bsearch xs addr mid hi else bsearch xs addr start (mid - 1))"
      using True mid "1.prems" unfolding bsearch.simps [of xs addr start hi] mid_def [symmetric] by (simp add: Let_def)
    have in_range: "\<not> (mid < 0 \<or> int (length xs) \<le> mid)" using mid "1.prems" by simp
    show ?thesis
    proof (cases "xs ! nat mid \<le> addr")
      case True': True
      show ?thesis using "1.IH"(1) [OF True mid_def in_range True'] step True' le mid "1.prems" by simp
    next
      case False
      show ?thesis using "1.IH"(2) [OF True mid_def in_range False] step False le mid "1.prems" by simp
    qed
  next
    case False
    then have "bsearch xs addr start hi = Some (start, hi)" by (subst bsearch.simps) simp
    then show ?thesis using "1.prems" False by auto
  qed
qed

lemma bsearch_all:
  assumes "sorted xs"
  shows "\<exists>start hi. bsearch xs addr 0 (int (length xs) - 1) = Some (start, hi) \<and>
    (start = hi \<and> xs ! nat start \<le> addr \<longleftrightarrow> count_le xs addr \<noteq> 0) \<and>
    (count_le xs addr \<noteq> 0 \<longrightarrow> nat start = count_le xs addr - 1)"
proof (cases xs)
  case Nil
  then show ?thesis by (simp add: bsearch.simps count_le_def)
next
  case (Cons x ys)
  define k where "k = count_le xs addr - 1"
  have b: "bsearch xs addr 0 (int (length xs) - 1) = Some (int k, int k)"
    using bsearch_sorted [OF assms, of 0 "int (length xs) - 1" addr] count_le_length [of xs addr] Cons
    by (auto simp: k_def)
  have "k < length xs" using count_le_length [of xs addr] Cons by (auto simp: k_def)
  then have "xs ! k \<le> addr \<longleftrightarrow> count_le xs addr \<noteq> 0" using nth_le_iff [OF assms] by (auto simp: k_def)
  then show ?thesis using b by (auto simp: k_def)
qed

lemma ksyms_map_addr_count:
  assumes "sorted (map ksym_addr (ksyms_syms ks))"
  shows "ksyms__map_addr ks addr =
    Some (let n = count_le (map ksym_addr (ksyms_syms ks)) addr in if n = 0 then None else Some (n - 1))"
proof -
  let ?xs = "map ksym_addr (ksyms_syms ks)"
  obtain start hi where b: "bsearch ?xs addr 0 (int (length ?xs) - 1) = Some (start, hi)"
      "start = hi \<and> ?xs ! nat start \<le> addr \<longleftrightarrow> count_le ?xs addr \<noteq> 0"
      "count_le ?xs addr \<noteq> 0 \<longrightarrow> nat start = count_le ?xs addr - 1"
    using bsearch_all [OF assms] by blast
  show ?thesis unfolding ksyms__map_addr_def Let_def b(1) option.map prod.case b(2) using b(3) by simp
qed

section \<open>Adding symbols\<close>

text \<open>The arrays are within their capacities and every name is terminated.\<close>

definition ksyms_ok :: "ksyms \<Rightarrow> bool" where
  "ksyms_ok ks \<longleftrightarrow> length (ksyms_syms ks) \<le> syms_cap ks \<and> length (ksyms_strs ks) \<le> strs_cap ks \<and>
     (\<forall>s \<in> set (ksyms_syms ks). CHR 0x00 \<in> set (drop (ksym_name s) (ksyms_strs ks)))"

text \<open>What the table means: names with addresses.\<close>

definition ksyms_view :: "ksyms \<Rightarrow> (string \<times> u64) list" where
  "ksyms_view ks = map (\<lambda>s. (ksym_str ks s, ksym_addr s)) (ksyms_syms ks)"

lemma empty_ksyms_ok: "ksyms_ok empty_ksyms" "ksyms_view empty_ksyms = []"
  by (simp_all add: ksyms_ok_def empty_ksyms_def ksyms_view_def)

lemma c_string_at_append: "CHR 0x00 \<in> set (drop off strs) \<Longrightarrow> c_string_at (strs @ t) off = c_string_at strs off"
  by (simp add: c_string_at_def takeWhile_append1)

lemma c_string_at_new: "CHR 0x00 \<notin> set name \<Longrightarrow> c_string_at (strs @ name @ [CHR 0x00]) (length strs) = name"
  by (simp add: c_string_at_def) (subst takeWhile_append2; auto)

lemma grow_strs_spec:
  assumes "grow_strs ks n as = (ok, ks', as')"
  shows "ksyms_syms ks' = ksyms_syms ks" "ksyms_strs ks' = ksyms_strs ks" "syms_cap ks' = syms_cap ks"
    "strs_cap ks \<le> strs_cap ks' \<or> length (ksyms_strs ks) + n \<le> strs_cap ks'"
    "ok \<Longrightarrow> length (ksyms_strs ks) + n \<le> strs_cap ks'"
  using assms by (auto simp: grow_strs_def Let_def split: if_splits prod.splits)

lemma grow_syms_spec:
  assumes "grow_syms ks as = (ok, ks', as')" and "length (ksyms_syms ks) \<le> syms_cap ks"
  shows "ksyms_syms ks' = ksyms_syms ks" "ksyms_strs ks' = ksyms_strs ks" "strs_cap ks' = strs_cap ks"
    "length (ksyms_syms ks) \<le> syms_cap ks'" "ok \<Longrightarrow> length (ksyms_syms ks) < syms_cap ks'"
  using assms by (auto simp: grow_syms_def Let_def split: if_splits prod.splits)

text \<open>A symbol is added with its name, or an allocation failed and the table is as before.\<close>

lemma ksyms_add_symbol_ok:
  assumes ok: "ksyms_ok ks" and name: "CHR 0x00 \<notin> set name"
  shows "\<exists>rc ks' as'. ksyms__add_symbol ks name addr as = Some (rc, ks', as') \<and> ksyms_ok ks' \<and>
    ksyms_view ks' = ksyms_view ks @ (if rc = 0 then [(name, addr)] else []) \<and> (as = [] \<longrightarrow> rc = 0 \<and> as' = [])"
proof -
  obtain ok1 ks1 as1 where g1: "grow_strs ks (length name + 1) as = (ok1, ks1, as1)" by (metis prod_cases3)
  obtain ok2 ks2 as2 where g2: "grow_syms ks1 as1 = (ok2, ks2, as2)" by (metis prod_cases3)
  note s1 = grow_strs_spec [OF g1]
  have c1: "length (ksyms_syms ks1) \<le> syms_cap ks1" using ok s1 by (simp add: ksyms_ok_def)
  note s2 = grow_syms_spec [OF g2 c1]
  have view: "ksyms_view ks1 = ksyms_view ks" "ksyms_view ks2 = ksyms_view ks"
    by (simp_all add: ksyms_view_def ksym_str_def s1 s2)
  have oks: "ksyms_ok ks1" "ksyms_ok ks2" using ok s1 s2 by (auto simp: ksyms_ok_def)
  have none: "as = [] \<longrightarrow> ok1 \<and> ok2 \<and> as2 = []"
    using g1 g2 by (auto simp: grow_strs_def grow_syms_def next_alloc_def Let_def split: if_splits)
  show ?thesis
  proof (cases "ok1 \<and> ok2")
    case False
    then show ?thesis using oks view g1 g2 none by (auto simp: ksyms__add_symbol_def)
  next
    case True
    let ?ks = "ks2\<lparr>ksyms_syms := ksyms_syms ks2 @ [\<lparr>ksym_name = length (ksyms_strs ks2), ksym_addr = addr\<rparr>],
      ksyms_strs := ksyms_strs ks2 @ name @ [CHR 0x00]\<rparr>"
    have fits: "length (ksyms_syms ks2) < syms_cap ks2" "length (ksyms_strs ks2) + length name + 1 \<le> strs_cap ks2"
      using s1 s2 True by simp_all
    then have r: "ksyms__add_symbol ks name addr as = Some (0, ?ks, as2)"
      using True g1 g2 by (simp add: ksyms__add_symbol_def)
    have nul: "\<forall>s \<in> set (ksyms_syms ks2). CHR 0x00 \<in> set (drop (ksym_name s) (ksyms_strs ks2))"
      using oks(2) by (simp add: ksyms_ok_def)
    have "ksyms_ok ?ks" using fits nul by (auto simp: ksyms_ok_def)
    moreover have "ksyms_view ?ks = ksyms_view ks2 @ [(name, addr)]"
      using nul c_string_at_new [OF name] by (auto simp: ksyms_view_def ksym_str_def c_string_at_append)
    ultimately show ?thesis using r none view by simp
  qed
qed

section \<open>Loading a well-formed file\<close>

text \<open>A line of \<^verbatim>\<open>/proc/kallsyms\<close>: address, type, name, and for a module its name in brackets.\<close>

type_synonym kallsyms_entry = "string \<times> char \<times> string \<times> string"

definition kallsyms_line :: "kallsyms_entry \<Rightarrow> string" where
  "kallsyms_line = (\<lambda>(ds, t, name, rest). ds @ '' '' @ [t] @ '' '' @ name @ rest @ [CHR 0x0A])"

definition kallsyms_line_ok :: "kallsyms_entry \<Rightarrow> bool" where
  "kallsyms_line_ok = (\<lambda>(ds, t, name, rest). hex_text ds \<and> \<not> is_space t \<and> is_word name \<and> CHR 0x00 \<notin> set name \<and>
     starts_space rest \<and> CHR 0x0A \<notin> set rest)"

definition kallsyms_sym :: "kallsyms_entry \<Rightarrow> string \<times> u64" where
  "kallsyms_sym = (\<lambda>(ds, t, name, rest). (name, of_nat (based_val 16 ds)))"

definition kallsyms_name :: "kallsyms_entry \<Rightarrow> string" where
  "kallsyms_name = (\<lambda>(ds, t, name, rest). name)"

lemma scan_kallsyms_prefix:
  assumes "kallsyms_line_ok (ds, t, name, rest)"
  shows "scan kallsyms_fmt (kallsyms_line (ds, t, name, rest) @ tail) [] =
    (case store_str (Some 256) name [FNum (of_nat (based_val 16 ds)), FChr t] of
       None \<Rightarrow> None | Some vs \<Rightarrow> scan [Not_nl None, White] (rest @ CHR 0x0A # tail) vs)"
proof -
  have ok: "hex_text ds" "\<not> is_space t" "is_word name" "starts_space rest" using assms by (simp_all add: kallsyms_line_ok_def)
  have sp: "is_space (CHR '' '')" "is_space (CHR 0x0A)" "\<not> is_xdigit (CHR '' '')"
    by (simp_all add: is_space_def is_xdigit_def is_digit_def)
  have line: "kallsyms_line (ds, t, name, rest) @ tail = ds @ CHR '' '' # t # CHR '' '' # name @ rest @ CHR 0x0A # tail"
    by (simp add: kallsyms_line_def)
  have "starts_space (rest @ CHR 0x0A # tail)" using ok(4) sp by (cases rest) (simp_all add: starts_space_def)
  then have "scan_str None (name @ rest @ CHR 0x0A # tail) = Inl (name, rest @ CHR 0x0A # tail)"
    by (rule scan_str_word [OF ok(3)])
  then show ?thesis
    unfolding line kallsyms_fmt_def
    using scan_number_hex [OF ok(1) sp(3), of "t # CHR '' '' # name @ rest @ CHR 0x0A # tail"] sp ok
    by (simp add: is_word_hd)
qed

lemma scan_kallsyms_line:
  assumes ok: "kallsyms_line_ok (ds, t, name, rest)" and len: "length name < 256"
  shows "\<exists>e r. scan kallsyms_fmt (kallsyms_line (ds, t, name, rest) @ tail) [] =
      Some ([FNum (of_nat (based_val 16 ds)), FChr t, FStr name], e, r) \<and>
    dropWhile is_space r = dropWhile is_space tail"
proof -
  have "\<forall>c \<in> set rest. c \<noteq> CHR 0x0A" using ok by (auto simp: kallsyms_line_ok_def)
  from scan_rest_of_line [OF this] show ?thesis
    unfolding scan_kallsyms_prefix [OF ok] using len by (fastforce simp: store_str_def)
qed

text \<open>Blank text in front of a line is skipped.\<close>

lemma ksyms_load_loop_skip: "ksyms_load_loop ks (dropWhile is_space s) as = ksyms_load_loop ks s as"
proof (cases "scan_number 16 s")
  case (Inl vr)
  then have "scan kallsyms_fmt (dropWhile is_space s) [] = scan kallsyms_fmt s []"
    by (simp add: kallsyms_fmt_def scan_number_skip)
  then show ?thesis by (simp add: ksyms_load_loop.simps)
next
  case (Inr e)
  have n: "\<And>t. scan_number 16 t = Inr e \<Longrightarrow> scan kallsyms_fmt t [] = Some ([], e, t)" by (simp add: kallsyms_fmt_def)
  show ?thesis using n [OF Inr] n [of "dropWhile is_space s"] Inr
    by (simp add: ksyms_load_loop.simps scan_number_skip scan_ret_def)
qed

lemma ksyms_load_loop_blank: "\<forall>c \<in> set s. is_space c \<Longrightarrow> ksyms_load_loop ks s as = Some (Some ks)"
  by (subst ksyms_load_loop_skip [symmetric])
    (simp add: dropWhile_eq_Nil_conv [THEN iffD2] ksyms_load_loop.simps kallsyms_fmt_def scan_number_def scan_ret_def)

lemma ksyms_load_loop_line:
  assumes ok: "kallsyms_line_ok x" "length (kallsyms_name x) < 256" "ksyms_ok ks"
  shows "\<exists>ks1 r. ksyms_load_loop ks (kallsyms_line x @ tail) [] = ksyms_load_loop ks1 r [] \<and>
    dropWhile is_space r = dropWhile is_space tail \<and> ksyms_ok ks1 \<and> ksyms_view ks1 = ksyms_view ks @ [kallsyms_sym x]"
proof -
  obtain ds t name rest where x: "x = (ds, t, name, rest)" by (metis prod_cases4)
  let ?addr = "of_nat (based_val 16 ds) :: u64"
  obtain e r where sc: "scan kallsyms_fmt (kallsyms_line x @ tail) [] = Some ([FNum ?addr, FChr t, FStr name], e, r)"
      and r: "dropWhile is_space r = dropWhile is_space tail"
    using scan_kallsyms_line [of ds t name rest tail] ok x by (auto simp: kallsyms_name_def)
  obtain ks1 where add: "ksyms__add_symbol ks name ?addr [] = Some (0, ks1, [])"
      and ks1: "ksyms_ok ks1" "ksyms_view ks1 = ksyms_view ks @ [(name, ?addr)]"
    using ksyms_add_symbol_ok [OF ok(3), of name ?addr "[]"] ok(1) x by (auto simp: kallsyms_line_ok_def)
  have "ksyms_load_loop ks (kallsyms_line x @ tail) [] = ksyms_load_loop ks1 r []"
    by (subst ksyms_load_loop.simps) (simp add: sc scan_ret_def add)
  then show ?thesis using r ks1 x by (auto simp: kallsyms_sym_def)
qed

lemma ksyms_load_loop_lines:
  assumes "\<forall>e \<in> set es. kallsyms_line_ok e \<and> length (kallsyms_name e) < 256" and "ksyms_ok ks"
  shows "\<exists>ks'. ksyms_load_loop ks (concat (map kallsyms_line es)) [] = Some (Some ks') \<and> ksyms_ok ks' \<and>
    ksyms_view ks' = ksyms_view ks @ map kallsyms_sym es"
  using assms
proof (induction es arbitrary: ks)
  case Nil
  then show ?case by (simp add: ksyms_load_loop_blank)
next
  case (Cons x es)
  let ?tail = "concat (map kallsyms_line es)"
  obtain ks1 r where st: "ksyms_load_loop ks (kallsyms_line x @ ?tail) [] = ksyms_load_loop ks1 r []"
      "dropWhile is_space r = dropWhile is_space ?tail" "ksyms_ok ks1" "ksyms_view ks1 = ksyms_view ks @ [kallsyms_sym x]"
    using ksyms_load_loop_line [of x ks ?tail] Cons.prems by auto
  then have "ksyms_load_loop ks (concat (map kallsyms_line (x # es))) [] = ksyms_load_loop ks1 ?tail []"
    by (metis concat.simps(2) ksyms_load_loop_skip list.simps(9))
  then show ?case using Cons.IH [OF _ st(3)] Cons.prems(1) st(4) by auto
qed

text \<open>A name of 256 characters or more is written past the end of \<^verbatim>\<open>sym_name\<close>, wherever the line is in the file.\<close>

lemma ksyms_load_loop_long:
  assumes "\<forall>e \<in> set es. kallsyms_line_ok e \<and> length (kallsyms_name e) < 256" and "ksyms_ok ks"
    and x: "kallsyms_line_ok x" "256 \<le> length (kallsyms_name x)"
  shows "ksyms_load_loop ks (concat (map kallsyms_line es) @ kallsyms_line x @ tail) [] = None"
  using assms(1,2)
proof (induction es arbitrary: ks)
  case Nil
  obtain ds t name rest where y: "x = (ds, t, name, rest)" by (metis prod_cases4)
  have "scan kallsyms_fmt (kallsyms_line x @ tail) [] = None"
    using x unfolding y by (subst scan_kallsyms_prefix) (simp_all add: store_str_def kallsyms_name_def)
  then show ?case by (simp add: ksyms_load_loop.simps)
next
  case (Cons y es)
  let ?tail = "concat (map kallsyms_line es) @ kallsyms_line x @ tail"
  obtain ks1 r where st: "ksyms_load_loop ks (kallsyms_line y @ ?tail) [] = ksyms_load_loop ks1 r []"
      "dropWhile is_space r = dropWhile is_space ?tail" "ksyms_ok ks1"
    using ksyms_load_loop_line [of y ks ?tail] Cons.prems by auto
  then show ?case using Cons by (metis append.assoc concat.simps(2) ksyms_load_loop_skip list.set_intros(2) list.simps(9))
qed

section \<open>The loaded table\<close>

lemma ksym_cmp_le: "ksym_cmp ks a b \<le> 0 \<Longrightarrow> ksym_addr a \<le> ksym_addr b"
  by (auto simp: ksym_cmp_def split: if_splits)

lemma ksyms_load_spec:
  assumes es: "\<forall>e \<in> set es. kallsyms_line_ok e \<and> length (kallsyms_name e) < 256"
    and q: "\<forall>ks. qsort_contract qsort (ksym_cmp ks)"
  shows "\<exists>ks. ksyms__load qsort (Some (concat (map kallsyms_line es))) [] = Some (Some ks) \<and>
    mset (ksyms_view ks) = mset (map kallsyms_sym es) \<and> sorted (map ksym_addr (ksyms_syms ks))"
proof -
  obtain ks where ks: "ksyms_load_loop empty_ksyms (concat (map kallsyms_line es)) [] = Some (Some ks)"
      "ksyms_view ks = map kallsyms_sym es"
    using ksyms_load_loop_lines [OF es empty_ksyms_ok(1)] by (auto simp: empty_ksyms_ok)
  let ?syms = "qsort (ksym_cmp ks) (ksyms_syms ks)"
  have srt: "mset ?syms = mset (ksyms_syms ks)" "sorted_wrt (\<lambda>a b. ksym_cmp ks a b \<le> 0) ?syms"
    using q by (auto simp: qsort_contract_def)
  have "mset (ksyms_view (ks\<lparr>ksyms_syms := ?syms\<rparr>)) = mset (ksyms_view ks)"
    by (simp add: ksyms_view_def ksym_str_def srt(1))
  moreover have "sorted (map ksym_addr ?syms)"
    using srt(2) by (simp add: sorted_map sorted_wrt_mono_rel [OF ksym_cmp_le])
  ultimately show ?thesis using ks by (simp add: ksyms__load_def next_alloc_def)
qed

text \<open>The entry with the largest address that is not larger, or none when all are.\<close>

lemma ksyms_map_addr_spec:
  assumes srt: "sorted (map ksym_addr (ksyms_syms ks))"
  shows "case ksyms__map_addr ks addr of
      None \<Rightarrow> False
    | Some None \<Rightarrow> \<forall>e \<in> set (ksyms_view ks). addr < snd e
    | Some (Some i) \<Rightarrow> i < length (ksyms_view ks) \<and> snd (ksyms_view ks ! i) \<le> addr \<and>
        (\<forall>e \<in> set (ksyms_view ks). snd e \<le> addr \<longrightarrow> snd e \<le> snd (ksyms_view ks ! i))"
proof -
  let ?xs = "map ksym_addr (ksyms_syms ks)" and ?v = "ksyms_view ks"
  have v: "map snd ?v = ?xs" "length ?v = length ?xs" by (simp_all add: ksyms_view_def)
  have at: "\<And>j. j < length ?v \<Longrightarrow> snd (?v ! j) = ?xs ! j" using v by (metis nth_map)
  have le: "\<And>j. j < length ?v \<Longrightarrow> snd (?v ! j) \<le> addr \<longleftrightarrow> j < count_le ?xs addr"
    using nth_le_iff [OF srt, of _ addr] at v(2) by metis
  have mono: "\<And>i j. i \<le> j \<Longrightarrow> j < length ?v \<Longrightarrow> snd (?v ! i) \<le> snd (?v ! j)"
    using at v(2) sorted_nth_mono [OF srt] by (metis le_less_trans)
  show ?thesis
  proof (cases "count_le ?xs addr = 0")
    case True
    then have "\<forall>e \<in> set ?v. addr < snd e" using le by (metis in_set_conv_nth linorder_not_less less_zeroE)
    then show ?thesis using True by (simp add: ksyms_map_addr_count [OF srt])
  next
    case False
    have i: "count_le ?xs addr - 1 < length ?v" using False count_le_length [of ?xs addr] v(2) by simp
    have "\<forall>e \<in> set ?v. snd e \<le> addr \<longrightarrow> snd e \<le> snd (?v ! (count_le ?xs addr - 1))"
    proof (intro ballI impI)
      fix e
      assume "e \<in> set ?v" "snd e \<le> addr"
      then obtain j where "j < length ?v" "e = ?v ! j" "j < count_le ?xs addr" using le by (metis in_set_conv_nth)
      then show "snd e \<le> snd (?v ! (count_le ?xs addr - 1))" using mono [of j "count_le ?xs addr - 1"] i by simp
    qed
    then show ?thesis using False i le [OF i] by (simp add: ksyms_map_addr_count [OF srt])
  qed
qed

lemma of_char_nonzero: "c \<noteq> CHR 0x00 \<Longrightarrow> (of_char c :: int) \<noteq> 0"
  using of_char_eq_iff [where 'a = int, of c "CHR 0x00"] by simp

lemma strcmp_eq: "CHR 0x00 \<notin> set a \<Longrightarrow> CHR 0x00 \<notin> set b \<Longrightarrow> strcmp a b = 0 \<longleftrightarrow> a = b"
proof (induction a b rule: strcmp.induct)
  case (4 a as b bs)
  have "(of_char a :: int) = of_char b \<longleftrightarrow> a = b" by (simp add: of_char_eq_iff)
  then show ?case using 4 by auto
qed (auto simp: of_char_nonzero)

lemma c_string_at_no_nul: "CHR 0x00 \<notin> set (c_string_at strs off)"
  by (auto simp: c_string_at_def dest: set_takeWhileD)

lemma first_index_of_spec:
  "case first_index_of P xs of None \<Rightarrow> \<forall>x \<in> set xs. \<not> P x | Some i \<Rightarrow> i < length xs \<and> P (xs ! i) \<and> (\<forall>j < i. \<not> P (xs ! j))"
  by (induction xs) (auto split: option.splits simp: less_Suc_eq_0_disj)

lemma ksyms_get_symbol_spec:
  assumes "CHR 0x00 \<notin> set name"
  shows "case ksyms__get_symbol ks name of
     None \<Rightarrow> name \<notin> fst ` set (ksyms_view ks)
   | Some i \<Rightarrow> i < length (ksyms_view ks) \<and> fst (ksyms_view ks ! i) = name"
proof -
  have eq: "\<And>s. strcmp (ksym_str ks s) name = 0 \<longleftrightarrow> ksym_str ks s = name"
    using assms by (simp add: strcmp_eq ksym_str_def c_string_at_no_nul)
  show ?thesis
    using first_index_of_spec [where P = "\<lambda>s. strcmp (ksym_str ks s) name = 0" and xs = "ksyms_syms ks"]
    by (auto simp: ksyms__get_symbol_def ksyms_view_def eq split: option.splits)
qed

section \<open>The comparison is a total preorder\<close>

lemma of_char_nonneg: "(0 :: int) \<le> of_char c"
  using of_nat_of_char [of c, where 'a = int] by (metis of_nat_0_le_iff)

lemma strcmp_total: "strcmp a b \<le> 0 \<or> strcmp b a \<le> 0"
  by (induction a b rule: strcmp.induct) (auto simp: of_char_nonneg)

lemma strcmp_trans: "strcmp a b \<le> 0 \<Longrightarrow> strcmp b c \<le> 0 \<Longrightarrow> strcmp a c \<le> 0"
proof (induction a arbitrary: b c)
  case Nil
  then show ?case by (cases c) (auto simp: of_char_nonneg)
next
  case (Cons x a)
  show ?case
  proof (cases b)
    case Nil
    then have "x = CHR 0x00" using Cons.prems(1) of_char_nonneg [of x] of_char_nonzero [of x] by force
    then show ?thesis by (cases c) (auto simp: of_char_nonneg)
  next
    case b: (Cons y b')
    show ?thesis
    proof (cases c)
      case Nil
      then have "y = CHR 0x00" using Cons.prems(2) b of_char_nonneg [of y] of_char_nonzero [of y] by force
      then have "x = CHR 0x00" using Cons.prems(1) b of_char_nonneg [of x] of_char_nonzero [of x] by (force split: if_splits)
      then show ?thesis using Nil by simp
    next
      case c: (Cons z c')
      have "(of_char x :: int) \<le> of_char y" "(of_char y :: int) \<le> of_char z" using Cons.prems b c by (auto split: if_splits)
      then show ?thesis using Cons.IH [of b' c'] Cons.prems b c by (auto split: if_splits)
    qed
  qed
qed

text \<open>Comparing an address first and a name second, as the contract of \<^verbatim>\<open>qsort\<close> requires.\<close>

lemma cmp_order:
  fixes key :: "'a \<Rightarrow> u64"
  assumes "\<And>a b. cmp a b = (if key a = key b then strcmp (nm a) (nm b) else if key a < key b then - 1 else 1)"
  shows "cmp a b \<le> 0 \<or> cmp b a \<le> 0" "cmp a b \<le> 0 \<Longrightarrow> cmp b c \<le> 0 \<Longrightarrow> cmp a c \<le> 0"
proof -
  have le: "\<And>a b. cmp a b \<le> 0 \<longleftrightarrow> key a < key b \<or> key a = key b \<and> strcmp (nm a) (nm b) \<le> 0" by (simp add: assms)
  show "cmp a b \<le> 0 \<or> cmp b a \<le> 0" unfolding le using strcmp_total [of "nm a" "nm b"] by (metis less_linear)
  show "cmp a b \<le> 0 \<Longrightarrow> cmp b c \<le> 0 \<Longrightarrow> cmp a c \<le> 0"
    unfolding le using strcmp_trans [of "nm a" "nm b" "nm c"] by (metis less_trans)
qed

lemmas ksym_cmp_order = cmp_order [OF ksym_cmp_def]

end
