(* ===== verification/Elf_Files.thy ===== *)
theory Elf_Files
  imports Kernel_Symbols
begin

text \<open>
  The uses of libelf in \<^verbatim>\<open>bpf_programs/cachestat/uprobe_helpers.c\<close> and \<^verbatim>\<open>trace_helpers.c\<close>: opening an ELF file,
  its type, its text section, and the offset of a function in the file. Libelf is a parameter: what
  its iterators and accessors return for a file is the record \<open>elf\<close>, what opening a file returns is the record
  \<open>elf_lib\<close>. The open descriptors are a list, so that what the functions close is visible; messages on the
  error stream are not modelled.
\<close>

section \<open>What libelf returns\<close>

record gelf_sym =
  gst_name :: nat
  gst_info :: nat
  gst_value :: u64
  gst_size :: u64

record gelf_shdr =
  sh_name :: nat
  sh_type :: nat
  sh_addr :: u64
  sh_offset :: u64
  sh_link :: nat
  sh_entsize :: nat

record gelf_phdr =
  p_type :: nat
  p_flags :: nat
  p_vaddr :: u64
  p_offset :: u64
  p_memsz :: u64

record elf_data =
  d_size :: nat
  d_syms :: "gelf_sym list"

record elf_scn =
  scn_header :: "gelf_shdr option"
  scn_data :: "elf_data list"

text \<open>Kind, type in the header, index of the section names, sections, program headers and the string tables.\<close>

record elf =
  elf_kind :: nat
  elf_type_of :: "nat option"
  elf_shstrndx :: "nat option"
  elf_scns :: "elf_scn list"
  elf_phdrs :: "gelf_phdr option list option"
  elf_strptr :: "nat \<Rightarrow> nat \<Rightarrow> string option"

record elf_lib =
  elf_version_ok :: bool
  open_rdonly :: "string \<Rightarrow> int"
  elf_begin :: "int \<Rightarrow> elf option"

definition ELF_K_ELF :: nat where "ELF_K_ELF = 3"
definition ET_EXEC :: nat where "ET_EXEC = 2"
definition ET_DYN :: nat where "ET_DYN = 3"
definition SHT_SYMTAB :: nat where "SHT_SYMTAB = 2"
definition SHT_DYNSYM :: nat where "SHT_DYNSYM = 11"
definition STT_FUNC :: nat where "STT_FUNC = 2"
definition PT_LOAD :: nat where "PT_LOAD = 1"

section \<open>Opening and closing\<close>

text \<open>\<^verbatim>\<open>close\<close> of a descriptor that is not open changes nothing.\<close>

definition close_fd :: "int \<Rightarrow> int list \<Rightarrow> int list" where
  "close_fd fd fds = remove1 fd fds"

definition open_elf :: "elf_lib \<Rightarrow> string \<Rightarrow> int list \<Rightarrow> (elf \<times> int) option \<times> int list" where
  "open_elf lib path fds =
     (if \<not> elf_version_ok lib then (None, fds)
      else let fd = open_rdonly lib path
           in if fd < 0 then (None, fds)
              else case elf_begin lib fd of
                     None \<Rightarrow> (None, close_fd fd (fd # fds))
                   | Some e \<Rightarrow>
                       if elf_kind e \<noteq> ELF_K_ELF then (None, close_fd fd (fd # fds))
                       else (Some (e, fd), fd # fds))"

definition open_elf_by_fd :: "elf_lib \<Rightarrow> int \<Rightarrow> int list \<Rightarrow> elf option \<times> int list" where
  "open_elf_by_fd lib fd fds =
     (if \<not> elf_version_ok lib then (None, fds)
      else case elf_begin lib fd of
             None \<Rightarrow> (None, close_fd fd fds)
           | Some e \<Rightarrow> if elf_kind e \<noteq> ELF_K_ELF then (None, close_fd fd fds) else (Some e, fds))"

definition close_elf :: "int \<Rightarrow> int list \<Rightarrow> int list" where
  "close_elf fd fds = close_fd fd fds"

section \<open>Type and text section\<close>

definition is_vdso :: "string \<Rightarrow> bool" where
  "is_vdso path \<longleftrightarrow> strcmp path ''[vdso]'' = 0"

definition is_uprobes :: "string \<Rightarrow> bool" where
  "is_uprobes path \<longleftrightarrow> strcmp path ''[uprobes]'' = 0"

definition get_elf_type :: "elf_lib \<Rightarrow> string \<Rightarrow> int list \<Rightarrow> int \<times> int list" where
  "get_elf_type lib path fds =
     (if is_vdso path then (- 1, fds)
      else if is_uprobes path then (- 1, fds)
      else case open_elf lib path fds of
             (None, fds') \<Rightarrow> (- 1, fds')
           | (Some (e, fd), fds') \<Rightarrow>
               let fds'' = close_elf fd fds'
               in (case elf_type_of e of None \<Rightarrow> - 1 | Some t \<Rightarrow> int t, fds''))"

text \<open>The loop over the sections.\<close>

fun text_section :: "(nat \<Rightarrow> string option) \<Rightarrow> elf_scn list \<Rightarrow> (u64 \<times> u64) option" where
  "text_section strs [] = None"
| "text_section strs (scn # scns) =
     (case scn_header scn of
        None \<Rightarrow> text_section strs scns
      | Some header \<Rightarrow>
          (case strs (sh_name header) of
             None \<Rightarrow> text_section strs scns
           | Some name \<Rightarrow>
               if strcmp name ''.text'' = 0 then Some (sh_addr header, sh_offset header)
               else text_section strs scns))"

definition get_elf_text_scn_info :: "elf_lib \<Rightarrow> string \<Rightarrow> int list \<Rightarrow> (u64 \<times> u64) option \<times> int list" where
  "get_elf_text_scn_info lib path fds =
     (case open_elf lib path fds of
        (None, fds') \<Rightarrow> (None, close_elf (- 1) fds')
      | (Some (e, fd), fds') \<Rightarrow>
          (case elf_shstrndx e of
             None \<Rightarrow> (None, close_elf fd fds')
           | Some stridx \<Rightarrow> (text_section (elf_strptr e stridx) (elf_scns e), close_elf fd fds')))"

section \<open>The offset of a function\<close>

fun func_in_syms :: "(nat \<Rightarrow> string option) \<Rightarrow> string \<Rightarrow> gelf_sym list \<Rightarrow> u64 option" where
  "func_in_syms strs func [] = None"
| "func_in_syms strs func (s # ss) =
     (case strs (gst_name s) of
        None \<Rightarrow> func_in_syms strs func ss
      | Some n \<Rightarrow>
          if gst_info s mod 16 \<noteq> STT_FUNC then func_in_syms strs func ss
          else if strcmp n func = 0 then Some (gst_value s)
          else func_in_syms strs func ss)"

fun func_in_data :: "(nat \<Rightarrow> string option) \<Rightarrow> string \<Rightarrow> elf_data list \<Rightarrow> u64 option" where
  "func_in_data strs func [] = None"
| "func_in_data strs func (d # ds) =
     (case func_in_syms strs func (d_syms d) of None \<Rightarrow> func_in_data strs func ds | Some v \<Rightarrow> Some v)"

fun func_in_scns :: "elf \<Rightarrow> string \<Rightarrow> elf_scn list \<Rightarrow> u64 option" where
  "func_in_scns e func [] = None"
| "func_in_scns e func (scn # scns) =
     (case scn_header scn of
        None \<Rightarrow> func_in_scns e func scns
      | Some shdr \<Rightarrow>
          if \<not> (sh_type shdr = SHT_SYMTAB \<or> sh_type shdr = SHT_DYNSYM) then func_in_scns e func scns
          else case func_in_data (elf_strptr e (sh_link shdr)) func (scn_data scn) of
                 None \<Rightarrow> func_in_scns e func scns
               | Some v \<Rightarrow> Some v)"

text \<open>The executable segment that contains an address; \<open>- 1\<close> is the largest word.\<close>

fun segment_offset :: "gelf_phdr option list \<Rightarrow> u64 \<Rightarrow> u64" where
  "segment_offset [] ret = - 1"
| "segment_offset (None # phs) ret = segment_offset phs ret"
| "segment_offset (Some phdr # phs) ret =
     (if p_type phdr \<noteq> PT_LOAD \<or> even (p_flags phdr) then segment_offset phs ret
      else if p_vaddr phdr \<le> ret \<and> ret < p_vaddr phdr + p_memsz phdr
      then ret - p_vaddr phdr + p_offset phdr
      else segment_offset phs ret)"

definition get_elf_func_offset :: "elf_lib \<Rightarrow> string \<Rightarrow> string \<Rightarrow> int list \<Rightarrow> u64 \<times> int list" where
  "get_elf_func_offset lib path func fds =
     (case open_elf lib path fds of
        (None, fds') \<Rightarrow> (- 1, close_elf (- 1) fds')
      | (Some (e, fd), fds') \<Rightarrow>
          let fds'' = close_elf fd fds'
          in case elf_type_of e of
               None \<Rightarrow> (- 1, fds'')
             | Some e_type \<Rightarrow>
                 (case elf_shstrndx e of
                    None \<Rightarrow> (- 1, fds'')
                  | Some _ \<Rightarrow>
                      let ret = (case func_in_scns e func (elf_scns e) of None \<Rightarrow> - 1 | Some v \<Rightarrow> v)
                      in if e_type = ET_EXEC \<or> e_type = ET_DYN
                         then (case elf_phdrs e of None \<Rightarrow> - 1 | Some phs \<Rightarrow> segment_offset phs ret, fds'')
                         else (ret, fds'')))"

section \<open>No descriptor is left open\<close>

lemma close_elf_cons [simp]: "close_elf fd (fd # fds) = fds" "close_fd fd (fd # fds) = fds"
  by (simp_all add: close_elf_def close_fd_def)

lemma close_elf_none: "\<forall>fd \<in> set fds. 0 \<le> fd \<Longrightarrow> close_elf (- 1) fds = fds"
  unfolding close_elf_def close_fd_def by (rule remove1_idem) auto

definition elf_opened :: "elf_lib \<Rightarrow> string \<Rightarrow> (elf \<times> int) option" where
  "elf_opened lib path = fst (open_elf lib path [])"

lemma open_elf_fds:
  "open_elf lib path fds = (case elf_opened lib path of None \<Rightarrow> (None, fds) | Some (e, fd) \<Rightarrow> (Some (e, fd), fd # fds))"
  by (simp add: elf_opened_def open_elf_def Let_def split: option.split)

lemma elf_fds:
  assumes "\<forall>fd \<in> set fds. 0 \<le> fd"
  shows "snd (get_elf_type lib path fds) = fds" "snd (get_elf_text_scn_info lib path fds) = fds"
    "snd (get_elf_func_offset lib path func fds) = fds"
  using close_elf_none [OF assms]
  by (simp_all add: get_elf_type_def get_elf_text_scn_info_def get_elf_func_offset_def Let_def open_elf_fds split: option.split prod.split)

section \<open>The offset is the place of the function in an executable segment\<close>

text \<open>What libelf shows of the function symbols: those of the symbol tables, in order.\<close>

definition data_syms :: "(nat \<Rightarrow> string option) \<Rightarrow> elf_data list \<Rightarrow> (string \<times> gelf_sym) list" where
  "data_syms strs ds = concat (map (\<lambda>d. List.map_filter (\<lambda>s. map_option (\<lambda>n. (n, s)) (strs (gst_name s))) (d_syms d)) ds)"

definition scn_syms :: "elf \<Rightarrow> elf_scn \<Rightarrow> (string \<times> gelf_sym) list" where
  "scn_syms e scn =
     (case scn_header scn of
        None \<Rightarrow> []
      | Some shdr \<Rightarrow>
          if sh_type shdr = SHT_SYMTAB \<or> sh_type shdr = SHT_DYNSYM then data_syms (elf_strptr e (sh_link shdr)) (scn_data scn) else [])"

definition table_syms :: "elf \<Rightarrow> (string \<times> gelf_sym) list" where
  "table_syms e = concat (map (scn_syms e) (elf_scns e))"

definition is_func :: "string \<Rightarrow> string \<times> gelf_sym \<Rightarrow> bool" where
  "is_func func = (\<lambda>(n, s). gst_info s mod 16 = STT_FUNC \<and> strcmp n func = 0)"

definition func_syms :: "elf \<Rightarrow> string \<Rightarrow> u64 list" where
  "func_syms e func = map (gst_value \<circ> snd) (filter (is_func func) (table_syms e))"

definition first_val :: "(string \<times> gelf_sym) list \<Rightarrow> u64 option" where
  "first_val ss = (case ss of [] \<Rightarrow> None | x # _ \<Rightarrow> Some (gst_value (snd x)))"

lemma first_val_simps [simp]: "first_val [] = None" "first_val (x # xs) = Some (gst_value (snd x))"
  "first_val (xs @ ys) = (case first_val xs of None \<Rightarrow> first_val ys | Some v \<Rightarrow> Some v)"
  by (simp_all add: first_val_def split: list.split)

lemma func_in_syms_hd:
  "func_in_syms strs func ss =
     first_val (filter (is_func func) (List.map_filter (\<lambda>s. map_option (\<lambda>n. (n, s)) (strs (gst_name s))) ss))"
  by (induction ss) (auto simp: map_filter_simps is_func_def split: option.split)

lemma func_in_data_hd: "func_in_data strs func ds = first_val (filter (is_func func) (data_syms strs ds))"
  by (induction ds) (simp_all add: func_in_syms_hd data_syms_def split: option.split)

lemma func_in_scns_hd: "func_in_scns e func scns = first_val (filter (is_func func) (concat (map (scn_syms e) scns)))"
proof (induction scns)
  case (Cons scn scns)
  then show ?case by (simp add: func_in_data_hd scn_syms_def split: option.split)
qed simp

lemma func_in_scns_syms: "func_in_scns e func (elf_scns e) = (case func_syms e func of [] \<Rightarrow> None | v # _ \<Rightarrow> Some v)"
  by (simp add: func_in_scns_hd func_syms_def table_syms_def first_val_def split: list.split)

text \<open>The first executable segment that contains the address.\<close>

definition exec_segment :: "u64 \<Rightarrow> gelf_phdr \<Rightarrow> bool" where
  "exec_segment v p \<longleftrightarrow> p_type p = PT_LOAD \<and> odd (p_flags p) \<and> p_vaddr p \<le> v \<and> v < p_vaddr p + p_memsz p"

lemma segment_offset_find:
  "segment_offset phs v =
     (case find (exec_segment v) (List.map_filter id phs) of None \<Rightarrow> - 1 | Some p \<Rightarrow> v - p_vaddr p + p_offset p)"
  by (induction phs v rule: segment_offset.induct) (auto simp: map_filter_simps exec_segment_def)

lemma segment_offset_none: "segment_offset phs (- 1) = - 1"
proof -
  have "\<not> exec_segment (- 1) p" for p by (simp add: exec_segment_def)
  then show ?thesis by (auto simp: segment_offset_find find_Some_iff split: option.split)
qed

text \<open>The offset of a function in a program or a library.\<close>

lemma get_elf_func_offset_spec:
  assumes "elf_opened lib path = Some (e, fd)" and "elf_type_of e = Some t" and "t = ET_EXEC \<or> t = ET_DYN"
    and "elf_shstrndx e = Some i" and "elf_phdrs e = Some phs"
  shows "get_elf_func_offset lib path func fds =
    (case func_syms e func of
       [] \<Rightarrow> - 1
     | v # _ \<Rightarrow> (case find (exec_segment v) (List.map_filter id phs) of None \<Rightarrow> - 1 | Some p \<Rightarrow> v - p_vaddr p + p_offset p), fds)"
  using assms by (simp add: get_elf_func_offset_def open_elf_fds func_in_scns_syms segment_offset_none
    segment_offset_find [symmetric] split: list.split)

end
