(* ===== verification/Trace_Probes.thy ===== *)
theory Trace_Probes
  imports Elf_Files
begin

text \<open>
  The questions the tracing helpers (\<^verbatim>\<open>bpf_programs/cachestat/trace_helpers.c\<close>) ask the running kernel: whether a
  function can be probed, whether a tracepoint, a module or a BTF description exists. The files of
  \<^verbatim>\<open>/proc\<close> and \<^verbatim>\<open>/sys\<close>, the answers of \<^verbatim>\<open>access\<close> and libbpf's results are arguments. The three loops of \<^verbatim>\<open>kprobe_exists\<close>
  are one function over the format of the lines; what it needs of a format is the locale \<open>symbol_lines\<close>.
\<close>

section \<open>Looking for a symbol in a file\<close>

text \<open>The loop reads fields whose last one is the symbol; other results than the full number of fields end it.\<close>

function find_symbol :: "directive list \<Rightarrow> nat \<Rightarrow> string \<Rightarrow> string \<Rightarrow> bool option" where
  "find_symbol fmt n name s =
     (case scan fmt s [] of
        None \<Rightarrow> None
      | Some (vs, e, r) \<Rightarrow>
          if scan_ret vs e = - 1 then Some False
          else if scan_ret vs e \<noteq> int (Suc n) then Some False
          else
            (case last vs of
               FStr sym_name \<Rightarrow> if strcmp name sym_name = 0 then Some True else find_symbol fmt n name r
             | _ \<Rightarrow> Some False))"
  by pat_completeness auto
termination
  by (relation "measure (\<lambda>(fmt, n, name, s). length s)") (auto dest!: scan_ret_progress)

declare find_symbol.simps [simp del]

text \<open>The formats \<^verbatim>\<open>%s %s%*[^\n]\n\<close>, \<^verbatim>\<open>%s%*[^\n]\n\<close> and \<^verbatim>\<open>%*x %*c %s%*[^\n]\n\<close>, all arrays having 256 characters.\<close>

definition blacklist_fmt :: "directive list" where
  "blacklist_fmt = [Str (Some 256) None, White, Str (Some 256) None, Not_nl None, White]"

definition filter_fmt :: "directive list" where
  "filter_fmt = [Str (Some 256) None, Not_nl None, White]"

definition kallsyms_name_fmt :: "directive list" where
  "kallsyms_name_fmt = [Hex False, White, Chr False, White, Str (Some 256) None, Not_nl None, White]"

section \<open>The queries\<close>

definition DEBUGFS :: string where
  "DEBUGFS = ''/sys/kernel/debug/tracing''"

definition TRACEFS :: string where
  "TRACEFS = ''/sys/kernel/tracing''"

text \<open>The static variable \<^verbatim>\<open>has_debugfs\<close> is passed along; it is \<open>- 1\<close> at first.\<close>

definition use_debugfs :: "(string \<Rightarrow> bool) \<Rightarrow> int \<Rightarrow> bool \<times> int" where
  "use_debugfs faccess has_debugfs =
     (let has = (if has_debugfs < 0 then (if faccess DEBUGFS then 1 else 0) else has_debugfs) in (has = 1, has))"

definition tracefs_path :: "(string \<Rightarrow> bool) \<Rightarrow> int \<Rightarrow> string \<times> int" where
  "tracefs_path faccess has_debugfs =
     (case use_debugfs faccess has_debugfs of (b, has) \<Rightarrow> (if b then DEBUGFS else TRACEFS, has))"

definition tracefs_available_filter_functions :: "(string \<Rightarrow> bool) \<Rightarrow> int \<Rightarrow> string \<times> int" where
  "tracefs_available_filter_functions faccess has_debugfs =
     (case use_debugfs faccess has_debugfs of
        (b, has) \<Rightarrow> (if b then DEBUGFS @ ''/available_filter_functions'' else TRACEFS @ ''/available_filter_functions'', has))"

definition BLACKLIST :: string where
  "BLACKLIST = ''/sys/kernel/debug/kprobes/blacklist''"

definition KALLSYMS :: string where
  "KALLSYMS = ''/proc/kallsyms''"

definition kprobe_exists :: "(string \<Rightarrow> string option) \<Rightarrow> (string \<Rightarrow> bool) \<Rightarrow> int \<Rightarrow> string \<Rightarrow> (bool \<times> int) option" where
  "kprobe_exists fopen faccess has_debugfs name =
     (case (case fopen BLACKLIST of None \<Rightarrow> Some False | Some s \<Rightarrow> find_symbol blacklist_fmt 1 name s) of
        None \<Rightarrow> None
      | Some True \<Rightarrow> Some (False, has_debugfs)
      | Some False \<Rightarrow>
          (case tracefs_available_filter_functions faccess has_debugfs of
             (path, has) \<Rightarrow>
               map_option (\<lambda>b. (b, has))
                 (case fopen path of
                    Some s \<Rightarrow> find_symbol filter_fmt 0 name s
                  | None \<Rightarrow>
                      (case fopen KALLSYMS of None \<Rightarrow> Some False | Some s \<Rightarrow> find_symbol kallsyms_name_fmt 0 name s))))"

definition tracepoint_exists :: "(string \<Rightarrow> bool) \<Rightarrow> (string \<Rightarrow> bool) \<Rightarrow> int \<Rightarrow> string \<Rightarrow> string \<Rightarrow> bool \<times> int" where
  "tracepoint_exists faccess access has_debugfs category event =
     (case tracefs_path faccess has_debugfs of
        (root, has) \<Rightarrow> (access (snprintf 4096 (root @ ''/events/'' @ category @ ''/'' @ event @ ''/format'')), has))"

text \<open>The argument \<^verbatim>\<open>mod\<close> may be a null pointer.\<close>

definition module_btf_exists :: "(string \<Rightarrow> bool) \<Rightarrow> string option \<Rightarrow> bool" where
  "module_btf_exists access md =
     (case md of None \<Rightarrow> False | Some m \<Rightarrow> access (snprintf 80 (''/sys/kernel/btf/'' @ m)))"

section \<open>Modules\<close>

text \<open>\<^verbatim>\<open>fgets\<close> into an array of \<open>n\<close> characters: up to a newline or \<open>n - 1\<close> characters.\<close>

definition fgets :: "nat \<Rightarrow> string \<Rightarrow> (string \<times> string) option" where
  "fgets n s =
     (let l = takeWhile (\<lambda>c. c \<noteq> CHR 0x0A) s;
          b = take (n - 1) (take (length l + 1) s)
      in if s = [] then None else Some (b, drop (length b) s))"

lemma fgets_length: "fgets n s = Some (b, r) \<Longrightarrow> 1 < n \<Longrightarrow> length r < length s"
  by (auto simp: fgets_def Let_def split: if_splits)

text \<open>The format \<^verbatim>\<open>%s %*s\n\<close>, read from and into the same 64 characters.\<close>

definition modules_fmt :: "directive list" where
  "modules_fmt = [Str (Some 64) None, White, Str None None, White]"

function modules_loop :: "string \<Rightarrow> string \<Rightarrow> bool" where
  "modules_loop name s =
     (case fgets 64 s of
        None \<Rightarrow> False
      | Some (buf, r) \<Rightarrow>
          (case scan modules_fmt buf [] of
             Some ([FStr m], e, _) \<Rightarrow> if strcmp m name = 0 then True else modules_loop name r
           | _ \<Rightarrow> False))"
  by pat_completeness auto
termination
  by (relation "measure (\<lambda>(name, s). length s)") (auto dest!: fgets_length)

declare modules_loop.simps [simp del]

definition is_kernel_module :: "(string \<Rightarrow> string option) \<Rightarrow> string \<Rightarrow> bool" where
  "is_kernel_module fopen name = (case fopen ''/proc/modules'' of None \<Rightarrow> False | Some s \<Rightarrow> modules_loop name s)"

section \<open>Probing by loading\<close>

text \<open>Libbpf's results: the BTF descriptions, the number of a function in one, and the descriptors that loading a
  small program, attaching it and creating a ring buffer return.\<close>

record libbpf_env =
  load_vmlinux_btf :: "nat option"
  load_module_btf :: "string \<Rightarrow> nat option"
  find_by_name_kind :: "nat \<Rightarrow> string \<Rightarrow> int"
  load_fentry :: "int \<Rightarrow> int"
  raw_tracepoint_open :: "int \<Rightarrow> int"
  find_raw_tp :: "string \<Rightarrow> int"
  load_raw_tp :: "int \<Rightarrow> int"
  create_ringbuf :: int
  load_ns_pid :: int

definition fentry_try_attach :: "libbpf_env \<Rightarrow> int \<Rightarrow> int list \<Rightarrow> bool \<times> int list" where
  "fentry_try_attach env fid fds =
     (let prog_fd = load_fentry env fid
      in if prog_fd < 0 then (False, fds)
         else let fds1 = prog_fd # fds;
                  attach_fd = raw_tracepoint_open env prog_fd;
                  fds2 = (if attach_fd \<ge> 0 then close_fd attach_fd (attach_fd # fds1) else fds1)
              in (attach_fd \<ge> 0, close_fd prog_fd fds2))"

definition fentry_can_attach :: "libbpf_env \<Rightarrow> string \<Rightarrow> string option \<Rightarrow> int list \<Rightarrow> bool \<times> int list" where
  "fentry_can_attach env name md fds =
     (case load_vmlinux_btf env of
        None \<Rightarrow> (False, fds)
      | Some vmlinux \<Rightarrow>
          let btf = (case md of
                       None \<Rightarrow> vmlinux
                     | Some m \<Rightarrow> (case load_module_btf env m of None \<Rightarrow> vmlinux | Some b \<Rightarrow> b));
              fid = find_by_name_kind env btf name
          in if fid > 0 then fentry_try_attach env fid fds else (False, fds))"

definition vmlinux_btf_exists :: "libbpf_env \<Rightarrow> bool" where
  "vmlinux_btf_exists env \<longleftrightarrow> load_vmlinux_btf env \<noteq> None"

text \<open>A descriptor that is closed again when there is one.\<close>

definition probe_fd :: "int \<Rightarrow> int list \<Rightarrow> bool \<times> int list" where
  "probe_fd fd fds = (fd \<ge> 0, if fd \<ge> 0 then close_fd fd (fd # fds) else fds)"

definition probe_tp_btf :: "libbpf_env \<Rightarrow> string \<Rightarrow> int list \<Rightarrow> bool \<times> int list" where
  "probe_tp_btf env name fds = probe_fd (load_raw_tp env (find_raw_tp env name)) fds"

definition probe_ringbuf :: "libbpf_env \<Rightarrow> int list \<Rightarrow> bool \<times> int list" where
  "probe_ringbuf env fds = probe_fd (create_ringbuf env) fds"

definition probe_bpf_ns_current_pid_tgid :: "libbpf_env \<Rightarrow> int list \<Rightarrow> bool \<times> int list" where
  "probe_bpf_ns_current_pid_tgid env fds = probe_fd (load_ns_pid env) fds"

section \<open>The contract of a line format\<close>

text \<open>A well-formed line gives its fields, the last being the symbol, and leaves blanks at most; blanks in front do not matter.\<close>

locale symbol_lines =
  fixes fmt :: "directive list" and n :: nat and line :: "'a \<Rightarrow> string" and nm :: "'a \<Rightarrow> string" and ok :: "'a \<Rightarrow> bool"
  assumes scan_line: "ok x \<Longrightarrow> \<exists>vs e r. scan fmt (line x @ tail) [] = Some (vs @ [FStr (nm x)], e, r) \<and> length vs = n \<and>
      dropWhile is_space r = dropWhile is_space tail"
    and scan_skip: "scan fmt s [] = Some (vs, e, r) \<Longrightarrow> \<exists>r'. scan fmt (dropWhile is_space s) [] = Some (vs, e, r') \<and> (vs \<noteq> [] \<longrightarrow> r' = r)"
    and scan_skip_none: "scan fmt s [] = None \<Longrightarrow> scan fmt (dropWhile is_space s) [] = None"
    and scan_blank: "scan fmt [] [] = Some ([], Input_failure, [])"
    and no_nul: "ok x \<Longrightarrow> CHR 0x00 \<notin> set (nm x)"
begin

lemma find_symbol_skip: "find_symbol fmt n name (dropWhile is_space s) = find_symbol fmt n name s"
proof (cases "scan fmt s []")
  case None
  then show ?thesis using scan_skip_none [OF None] by (simp add: find_symbol.simps)
next
  case (Some t)
  then obtain vs e r where t: "scan fmt s [] = Some (vs, e, r)" by (metis prod_cases3)
  obtain r' where r': "scan fmt (dropWhile is_space s) [] = Some (vs, e, r')" "vs \<noteq> [] \<longrightarrow> r' = r" using scan_skip [OF t] by blast
  show ?thesis using t r'
    by (cases "vs = []") (auto simp: find_symbol.simps [of fmt n name s] find_symbol.simps [of fmt n name "dropWhile is_space s"] scan_ret_def)
qed

lemma find_symbol_lines:
  assumes "\<forall>x \<in> set xs. ok x" and "CHR 0x00 \<notin> set name"
  shows "find_symbol fmt n name (concat (map line xs)) = Some (name \<in> nm ` set xs)"
  using assms(1)
proof (induction xs)
  case Nil
  then show ?case by (simp add: find_symbol.simps scan_blank scan_ret_def)
next
  case (Cons x xs)
  let ?tail = "concat (map line xs)"
  obtain vs e r where sc: "scan fmt (line x @ ?tail) [] = Some (vs @ [FStr (nm x)], e, r)" "length vs = n"
      "dropWhile is_space r = dropWhile is_space ?tail"
    using scan_line Cons.prems by (metis list.set_intros(1))
  have "strcmp name (nm x) = 0 \<longleftrightarrow> name = nm x" using strcmp_eq [OF assms(2)] no_nul Cons.prems by simp
  then have "find_symbol fmt n name (line x @ ?tail) = (if name = nm x then Some True else find_symbol fmt n name r)"
    by (subst find_symbol.simps) (simp add: sc scan_ret_def)
  moreover have "find_symbol fmt n name r = find_symbol fmt n name ?tail" by (metis sc(3) find_symbol_skip)
  ultimately show ?case using Cons by auto
qed

end

text \<open>Skipping blanks, for a format that starts with a text or a number.\<close>

lemma scan_skip_first:
  assumes "fmt = Str c w # ds \<or> fmt = Hex b # ds"
  shows "scan fmt s [] = Some (vs, e, r) \<Longrightarrow> \<exists>r'. scan fmt (dropWhile is_space s) [] = Some (vs, e, r') \<and> (vs \<noteq> [] \<longrightarrow> r' = r)"
    and "scan fmt s [] = None \<Longrightarrow> scan fmt (dropWhile is_space s) [] = None"
  using assms by (auto simp: scan_str_skip scan_number_skip split: sum.splits prod.splits option.splits)

lemma scan_str_symbol: "is_word name \<Longrightarrow> starts_space rest \<Longrightarrow>
    scan_str None (name @ rest @ CHR 0x0A # tail) = Inl (name, rest @ CHR 0x0A # tail)"
  by (rule scan_str_word) (cases rest; simp add: starts_space_def is_space_def)+

text \<open>The end of a line after the symbol.\<close>

lemma scan_symbol_end:
  assumes "is_word name" "length name < 256" "starts_space rest" "CHR 0x0A \<notin> set rest"
  shows "\<exists>e r. scan [Str (Some 256) None, Not_nl None, White] (name @ rest @ CHR 0x0A # tail) vs = Some (vs @ [FStr name], e, r) \<and>
    dropWhile is_space r = dropWhile is_space tail"
proof -
  have "scan_str None (name @ rest @ CHR 0x0A # tail) = Inl (name, rest @ CHR 0x0A # tail)"
    by (rule scan_str_symbol [OF assms(1,3)])
  moreover have "\<forall>c \<in> set rest. c \<noteq> CHR 0x0A" using assms(4) by auto
  from scan_rest_of_line [OF this, of tail "vs @ [FStr name]"] obtain e r where
    "scan [Not_nl None, White] (rest @ CHR 0x0A # tail) (vs @ [FStr name]) = Some (vs @ [FStr name], e, r)"
    "dropWhile is_space r = dropWhile is_space tail" by blast
  ultimately show ?thesis using assms(2) by (simp add: store_str_def)
qed

text \<open>A symbol with what follows it on its line.\<close>

definition symbol_ok :: "string \<times> string \<Rightarrow> bool" where
  "symbol_ok = (\<lambda>(name, rest). is_word name \<and> length name < 256 \<and> CHR 0x00 \<notin> set name \<and> starts_space rest \<and> CHR 0x0A \<notin> set rest)"

definition filter_line :: "string \<times> string \<Rightarrow> string" where
  "filter_line = (\<lambda>(name, rest). name @ rest @ [CHR 0x0A])"

text \<open>An address range, a symbol and the rest.\<close>

definition blacklist_line :: "string \<times> string \<times> string \<Rightarrow> string" where
  "blacklist_line = (\<lambda>(range, sym). range @ [CHR 0x09] @ filter_line sym)"

definition blacklist_ok :: "string \<times> string \<times> string \<Rightarrow> bool" where
  "blacklist_ok = (\<lambda>(range, sym). is_word range \<and> length range < 256 \<and> symbol_ok sym)"

interpretation filter_file: symbol_lines filter_fmt 0 filter_line fst symbol_ok
proof
  fix x tail
  assume "symbol_ok x"
  then show "\<exists>vs e r. scan filter_fmt (filter_line x @ tail) [] = Some (vs @ [FStr (fst x)], e, r) \<and> length vs = 0 \<and>
      dropWhile is_space r = dropWhile is_space tail"
    using scan_symbol_end [of "fst x" "snd x" tail "[]"]
    by (auto simp: filter_fmt_def filter_line_def symbol_ok_def simp del: scan.simps)
next
  show "scan filter_fmt [] [] = Some ([], Input_failure, [])" by (simp add: filter_fmt_def scan_str_def)
qed (auto simp: symbol_ok_def intro: scan_skip_first [OF disjI1 [OF filter_fmt_def]])

interpretation blacklist_file: symbol_lines blacklist_fmt 1 blacklist_line "fst \<circ> snd" blacklist_ok
proof
  fix x tail
  assume x: "blacklist_ok x"
  obtain range name rest where xe: "x = (range, name, rest)" by (metis prod_cases3)
  have ok: "is_word range" "length range < 256" "is_word name" "length name < 256" "starts_space rest" "CHR 0x0A \<notin> set rest"
    using x by (auto simp: xe blacklist_ok_def symbol_ok_def)
  have tab: "is_space (CHR 0x09)" by (simp add: is_space_def)
  have w: "scan_str None (range @ CHR 0x09 # name @ rest @ CHR 0x0A # tail) = Inl (range, CHR 0x09 # name @ rest @ CHR 0x0A # tail)"
    by (rule scan_str_word [OF ok(1)]) (simp add: starts_space_def tab)
  obtain e r where "scan [Str (Some 256) None, Not_nl None, White] (name @ rest @ CHR 0x0A # tail) [FStr range] = Some ([FStr range] @ [FStr name], e, r)"
      "dropWhile is_space r = dropWhile is_space tail"
    using scan_symbol_end [OF ok(3-6)] by blast
  moreover have "scan blacklist_fmt (blacklist_line x @ tail) [] =
      scan [Str (Some 256) None, Not_nl None, White] (name @ rest @ CHR 0x0A # tail) [FStr range]"
    using w ok(2) tab is_word_hd [OF ok(3)] scan_str_symbol [OF ok(3,5)]
    by (simp add: blacklist_fmt_def blacklist_line_def filter_line_def xe store_str_def)
  ultimately show "\<exists>vs e r. scan blacklist_fmt (blacklist_line x @ tail) [] = Some (vs @ [FStr ((fst \<circ> snd) x)], e, r) \<and> length vs = 1 \<and>
      dropWhile is_space r = dropWhile is_space tail"
    by (intro exI [of _ "[FStr range]"]) (simp add: xe)
next
  show "scan blacklist_fmt [] [] = Some ([], Input_failure, [])" by (simp add: blacklist_fmt_def scan_str_def)
qed (auto simp: symbol_ok_def blacklist_ok_def intro: scan_skip_first [OF disjI1 [OF blacklist_fmt_def]])

interpretation kallsyms_file: symbol_lines kallsyms_name_fmt 0 kallsyms_line kallsyms_name
  "\<lambda>x. kallsyms_line_ok x \<and> length (kallsyms_name x) < 256"
proof
  fix x tail
  assume x: "kallsyms_line_ok x \<and> length (kallsyms_name x) < 256"
  obtain ds t name rest where xe: "x = (ds, t, name, rest)" by (metis prod_cases4)
  have ok: "hex_text ds" "\<not> is_space t" "is_word name" "length name < 256" "starts_space rest" "CHR 0x0A \<notin> set rest"
    using x by (auto simp: xe kallsyms_line_ok_def kallsyms_name_def)
  have sp: "is_space (CHR '' '')" "\<not> is_xdigit (CHR '' '')" by (simp_all add: is_space_def is_xdigit_def is_digit_def)
  obtain e r where "scan [Str (Some 256) None, Not_nl None, White] (name @ rest @ CHR 0x0A # tail) [] = Some ([] @ [FStr name], e, r)"
      "dropWhile is_space r = dropWhile is_space tail"
    using scan_symbol_end [OF ok(3-6)] by blast
  moreover have "scan kallsyms_name_fmt (kallsyms_line x @ tail) [] =
      scan [Str (Some 256) None, Not_nl None, White] (name @ rest @ CHR 0x0A # tail) []"
    using scan_number_hex [OF ok(1) sp(2), of "t # CHR '' '' # name @ rest @ CHR 0x0A # tail"] sp ok(2) is_word_hd [OF ok(3)]
    scan_str_symbol [OF ok(3,5)]
    by (simp add: kallsyms_name_fmt_def kallsyms_line_def xe)
  ultimately show "\<exists>vs e r. scan kallsyms_name_fmt (kallsyms_line x @ tail) [] = Some (vs @ [FStr (kallsyms_name x)], e, r) \<and> length vs = 0 \<and>
      dropWhile is_space r = dropWhile is_space tail"
    by (intro exI [of _ "[]"]) (simp add: xe kallsyms_name_def)
next
  show "scan kallsyms_name_fmt [] [] = Some ([], Input_failure, [])" by (simp add: kallsyms_name_fmt_def scan_number_def)
qed (auto simp: kallsyms_line_ok_def kallsyms_name_def intro: scan_skip_first [OF disjI2 [OF kallsyms_name_fmt_def]])

section \<open>What the queries answer\<close>

text \<open>The system's files, as lists of lines where they exist.\<close>

record trace_files =
  tf_blacklist :: "(string \<times> string \<times> string) list option"
  tf_filter :: "(string \<times> string) list option"
  tf_kallsyms :: "kallsyms_entry list option"

definition shows_files :: "trace_files \<Rightarrow> string \<Rightarrow> (string \<Rightarrow> string option) \<Rightarrow> bool" where
  "shows_files f path fopen \<longleftrightarrow>
     fopen BLACKLIST = map_option (concat \<circ> map blacklist_line) (tf_blacklist f) \<and>
     fopen path = map_option (concat \<circ> map filter_line) (tf_filter f) \<and>
     fopen KALLSYMS = map_option (concat \<circ> map kallsyms_line) (tf_kallsyms f) \<and>
     (\<forall>xs. tf_blacklist f = Some xs \<longrightarrow> (\<forall>x \<in> set xs. blacklist_ok x)) \<and>
     (\<forall>xs. tf_filter f = Some xs \<longrightarrow> (\<forall>x \<in> set xs. symbol_ok x)) \<and>
     (\<forall>xs. tf_kallsyms f = Some xs \<longrightarrow> (\<forall>x \<in> set xs. kallsyms_line_ok x \<and> length (kallsyms_name x) < 256))"

definition probeable :: "trace_files \<Rightarrow> string \<Rightarrow> bool" where
  "probeable f name \<longleftrightarrow>
     (case tf_blacklist f of None \<Rightarrow> True | Some xs \<Rightarrow> name \<notin> (fst \<circ> snd) ` set xs) \<and>
     (case tf_filter f of
        Some xs \<Rightarrow> name \<in> fst ` set xs
      | None \<Rightarrow> (case tf_kallsyms f of None \<Rightarrow> False | Some xs \<Rightarrow> name \<in> kallsyms_name ` set xs))"

lemma kprobe_exists_spec:
  assumes files: "shows_files f path fopen" and path: "tracefs_available_filter_functions faccess has = (path, has')"
    and name: "CHR 0x00 \<notin> set name"
  shows "\<exists>h. kprobe_exists fopen faccess has name = Some (probeable f name, h) \<and> (h = has \<or> h = has')"
proof -
  have bl: "(case fopen BLACKLIST of None \<Rightarrow> Some False | Some s \<Rightarrow> find_symbol blacklist_fmt 1 name s) =
      Some (case tf_blacklist f of None \<Rightarrow> False | Some xs \<Rightarrow> name \<in> (fst \<circ> snd) ` set xs)"
    using files blacklist_file.find_symbol_lines [OF _ name] by (auto simp: shows_files_def split: option.split)
  have fl: "(case fopen path of Some s \<Rightarrow> find_symbol filter_fmt 0 name s
        | None \<Rightarrow> (case fopen KALLSYMS of None \<Rightarrow> Some False | Some s \<Rightarrow> find_symbol kallsyms_name_fmt 0 name s)) =
      Some (case tf_filter f of Some xs \<Rightarrow> name \<in> fst ` set xs
        | None \<Rightarrow> (case tf_kallsyms f of None \<Rightarrow> False | Some xs \<Rightarrow> name \<in> kallsyms_name ` set xs))"
    using files filter_file.find_symbol_lines [OF _ name] kallsyms_file.find_symbol_lines [OF _ name]
    by (auto simp: shows_files_def split: option.split)
  show ?thesis unfolding kprobe_exists_def bl path prod.case fl by (auto simp: probeable_def split: option.split bool.split)
qed

text \<open>Every query closes what it opens.\<close>

lemma probe_fds:
  "snd (fentry_try_attach env i fds) = fds" "snd (fentry_can_attach env name md fds) = fds" "snd (probe_tp_btf env name fds) = fds"
  "snd (probe_ringbuf env fds) = fds" "snd (probe_bpf_ns_current_pid_tgid env fds) = fds"
  by (auto simp: fentry_try_attach_def fentry_can_attach_def probe_tp_btf_def probe_ringbuf_def probe_bpf_ns_current_pid_tgid_def
      probe_fd_def Let_def split: option.split)

section \<open>Modules with short lines\<close>

lemma fgets_line: "CHR 0x0A \<notin> set l \<Longrightarrow> length l < n - 1 \<Longrightarrow> fgets n (l @ CHR 0x0A # tail) = Some (l @ [CHR 0x0A], tail)"
proof -
  assume l: "CHR 0x0A \<notin> set l" "length l < n - 1"
  have tw: "takeWhile (\<lambda>c. c \<noteq> CHR 0x0A) (l @ CHR 0x0A # tail) = l" using l(1) by (subst takeWhile_append2) auto
  have "take (n - 1) (l @ [CHR 0x0A]) = l @ [CHR 0x0A]" using l(2) by simp
  then show ?thesis unfolding fgets_def tw Let_def by simp
qed

lemma scan_module_line:
  assumes "is_word m" "starts_space rest" "length m < 64"
  shows "\<exists>e r. scan modules_fmt (m @ rest) [] = Some ([FStr m], e, r)"
  using scan_str_word [OF assms(1,2)] assms(3)
  by (auto simp: modules_fmt_def store_str_def split: sum.split)

definition module_line :: "string \<times> string \<Rightarrow> string" where
  "module_line = (\<lambda>(m, rest). m @ rest @ [CHR 0x0A])"

definition module_ok :: "string \<times> string \<Rightarrow> bool" where
  "module_ok = (\<lambda>(m, rest). is_word m \<and> CHR 0x00 \<notin> set m \<and> starts_space rest \<and> CHR 0x0A \<notin> set (m @ rest))"

lemma starts_space_snoc: "starts_space rest \<Longrightarrow> starts_space (rest @ [CHR 0x0A])"
  by (cases rest) (simp_all add: starts_space_def is_space_def)

lemma modules_loop_line:
  assumes "module_ok (m, rest)" "length (m @ rest) < 63" "CHR 0x00 \<notin> set name"
  shows "modules_loop name (module_line (m, rest) @ tail) = (m = name \<or> modules_loop name tail)"
proof -
  have f: "fgets 64 (module_line (m, rest) @ tail) = Some ((m @ rest) @ [CHR 0x0A], tail)"
    using fgets_line [of "m @ rest" 64 tail] assms(1,2) by (simp add: module_ok_def module_line_def)
  obtain e r where "scan modules_fmt (m @ rest @ [CHR 0x0A]) [] = Some ([FStr m], e, r)"
    using scan_module_line [of m "rest @ [CHR 0x0A]"] assms(1,2) starts_space_snoc by (auto simp: module_ok_def)
  moreover have "strcmp m name = 0 \<longleftrightarrow> m = name" using strcmp_eq assms(1,3) by (simp add: module_ok_def)
  ultimately show ?thesis by (subst modules_loop.simps) (simp add: f)
qed

text \<open>Lines of up to 62 characters are found.\<close>

lemma modules_loop_short:
  assumes "\<forall>x \<in> set xs. module_ok x \<and> length (module_line x) < 64" "CHR 0x00 \<notin> set name"
  shows "modules_loop name (concat (map module_line xs) @ tail) = (name \<in> fst ` set xs \<or> modules_loop name tail)"
  using assms(1)
proof (induction xs)
  case (Cons x xs)
  then show ?case using modules_loop_line [of "fst x" "snd x" name] assms(2) by (auto simp: module_line_def split: prod.splits)
qed simp

text \<open>A line of exactly 63 characters leaves its newline for the next round, which ends the search.\<close>

lemma modules_loop_long:
  assumes x: "module_ok (m, rest)" "length (m @ rest) = 63" and name: "CHR 0x00 \<notin> set name"
  shows "modules_loop name (module_line (m, rest) @ tail) = (m = name)"
proof -
  let ?l = "m @ rest"
  have tw: "takeWhile (\<lambda>c. c \<noteq> CHR 0x0A) (?l @ CHR 0x0A # tail) = ?l"
    using x(1) by (subst takeWhile_append2) (auto simp: module_ok_def)
  have f: "fgets 64 (?l @ CHR 0x0A # tail) = Some (?l, CHR 0x0A # tail)"
    unfolding fgets_def tw Let_def using x(2) by simp
  have len: "length m < 64" using x(2) by simp
  obtain e r where sc: "scan modules_fmt ?l [] = Some ([FStr m], e, r)"
    using scan_module_line [OF _ _ len, of rest] x(1) by (auto simp: module_ok_def)
  have "fgets 64 (CHR 0x0A # tail) = Some ([CHR 0x0A], tail)" by (simp add: fgets_def)
  moreover have "scan modules_fmt [CHR 0x0A] [] = Some ([], Input_failure, [CHR 0x0A])"
    by (simp add: modules_fmt_def scan_str_def is_space_def)
  ultimately have stop: "\<not> modules_loop name (CHR 0x0A # tail)" by (subst modules_loop.simps) simp
  have "strcmp m name = 0 \<longleftrightarrow> m = name" using strcmp_eq x(1) name by (simp add: module_ok_def)
  then show ?thesis using f sc stop by (subst modules_loop.simps) (simp add: module_line_def)
qed

end
