(* ===== verification/Cachestat.thy ===== *)
theory Cachestat
  imports Bpf_Maps Trace_Probes
begin

text \<open>
  The page cache statistics tool (\<^verbatim>\<open>bpf_programs/cachestat/cachestat.bpf.c\<close> and \<^verbatim>\<open>cachestat.c\<close>): the probes
  that move three 64-bit counters, the choice of the probes to load, the options, and the loop that
  samples the counters, derives hits and misses and accumulates them. What the running kernel offers
  is a record of answers, which the queries of \<^verbatim>\<open>trace_helpers.c\<close> fill; the text of the floating-point ratio is
  an argument.
\<close>

section \<open>The probes\<close>

text \<open>The globals \<^verbatim>\<open>total\<close>, \<^verbatim>\<open>misses\<close> (signed) and \<^verbatim>\<open>mbd\<close>, and the map of traced processes.\<close>

record cache_bss =
  bss_total :: u64
  bss_misses :: u64
  bss_mbd :: u64
  cache_pids :: "(u32 \<times> u32) list"

definition to_ignore :: "cache_bss \<Rightarrow> u32 \<Rightarrow> bool" where
  "to_ignore b pid \<longleftrightarrow> map_of (cache_pids b) pid = None"

text \<open>The four effects the probes have, each on behalf of the current process.\<close>

definition count_miss :: "u32 \<Rightarrow> cache_bss \<Rightarrow> cache_bss" where
  "count_miss pid b = (if to_ignore b pid then b else b\<lparr>bss_misses := bss_misses b + 1\<rparr>)"

definition count_access :: "u32 \<Rightarrow> cache_bss \<Rightarrow> cache_bss" where
  "count_access pid b = (if to_ignore b pid then b else b\<lparr>bss_total := bss_total b + 1\<rparr>)"

definition count_dirtied :: "u32 \<Rightarrow> cache_bss \<Rightarrow> cache_bss" where
  "count_dirtied pid b = (if to_ignore b pid then b else b\<lparr>bss_misses := bss_misses b - 1\<rparr>)"

definition count_buffer_dirty :: "u32 \<Rightarrow> cache_bss \<Rightarrow> cache_bss" where
  "count_buffer_dirty pid b =
     (if to_ignore b pid then b else b\<lparr>bss_total := bss_total b - 1, bss_mbd := bss_mbd b + 1\<rparr>)"

datatype (plugins only: code size) prog =
    Fentry_add_to_page_cache_lru | Fentry_mark_page_accessed | Fentry_account_page_dirtied | Fentry_mark_buffer_dirty
  | Kprobe_add_to_page_cache_lru | Kprobe_mark_page_accessed | Kprobe_account_page_dirtied | Kprobe_folio_account_dirtied
  | Kprobe_mark_buffer_dirty | Tracepoint_writeback_dirty_folio | Tracepoint_writeback_dirty_page
  | Fentry_folio_mark_accessed | Kprobe_folio_mark_accessed | Fentry_folio_add_lru | Kprobe_folio_add_lru

fun run_prog :: "prog \<Rightarrow> u32 \<Rightarrow> cache_bss \<Rightarrow> cache_bss" where
  "run_prog Fentry_add_to_page_cache_lru pid = count_miss pid"
| "run_prog Fentry_mark_page_accessed pid = count_access pid"
| "run_prog Fentry_account_page_dirtied pid = count_dirtied pid"
| "run_prog Fentry_mark_buffer_dirty pid = count_buffer_dirty pid"
| "run_prog Kprobe_add_to_page_cache_lru pid = count_miss pid"
| "run_prog Kprobe_mark_page_accessed pid = count_access pid"
| "run_prog Kprobe_account_page_dirtied pid = count_dirtied pid"
| "run_prog Kprobe_folio_account_dirtied pid = count_dirtied pid"
| "run_prog Kprobe_mark_buffer_dirty pid = count_buffer_dirty pid"
| "run_prog Tracepoint_writeback_dirty_folio pid = count_dirtied pid"
| "run_prog Tracepoint_writeback_dirty_page pid = count_dirtied pid"
| "run_prog Fentry_folio_mark_accessed pid = count_access pid"
| "run_prog Kprobe_folio_mark_accessed pid = count_access pid"
| "run_prog Fentry_folio_add_lru pid = count_miss pid"
| "run_prog Kprobe_folio_add_lru pid = count_miss pid"

definition cache_process_fork :: "u32 \<Rightarrow> u32 \<Rightarrow> cache_bss \<Rightarrow> cache_bss" where
  "cache_process_fork parent_pid child_pid b =
     (if to_ignore b parent_pid then b
      else b\<lparr>cache_pids := bpf_map_update MAX_PIDS False (cache_pids b) child_pid 1\<rparr>)"

section \<open>Which probes are loaded\<close>

text \<open>What \<^verbatim>\<open>main\<close> asks the running kernel.\<close>

record kernel_probes =
  k_fentry :: "string \<Rightarrow> bool"
  k_kprobe :: "string \<Rightarrow> bool"
  k_tracepoint :: "string \<Rightarrow> string \<Rightarrow> bool"

text \<open>The answers of the helpers; \<^verbatim>\<open>main\<close> passes no module, and the static \<^verbatim>\<open>has_debugfs\<close> is \<open>- 1\<close> at first.\<close>

definition probes_of :: "libbpf_env \<Rightarrow> (string \<Rightarrow> string option) \<Rightarrow> (string \<Rightarrow> bool) \<Rightarrow> (string \<Rightarrow> bool) \<Rightarrow> kernel_probes" where
  "probes_of env fopen faccess access =
     \<lparr>k_fentry = (\<lambda>name. fst (fentry_can_attach env name None [])),
      k_kprobe = (\<lambda>name. case kprobe_exists fopen faccess (- 1) name of Some (b, _) \<Rightarrow> b | None \<Rightarrow> False),
      k_tracepoint = (\<lambda>category event. fst (tracepoint_exists faccess access (- 1) category event))\<rparr>"

text \<open>\<^verbatim>\<open>bpf_program__set_autoload(prog, false)\<close> for each of a list; programs are loaded by default.\<close>

definition disable :: "prog list \<Rightarrow> (prog \<Rightarrow> bool) \<Rightarrow> prog \<Rightarrow> bool" where
  "disable ps on = (\<lambda>p. on p \<and> p \<notin> set ps)"

definition choose_dirtied :: "kernel_probes \<Rightarrow> (prog \<Rightarrow> bool) \<Rightarrow> prog \<Rightarrow> bool" where
  "choose_dirtied k on =
     (if k_kprobe k ''folio_account_dirtied'' then
        disable [Kprobe_account_page_dirtied, Tracepoint_writeback_dirty_folio, Tracepoint_writeback_dirty_page] on
      else if k_kprobe k ''account_page_dirtied'' then
        disable [Kprobe_folio_account_dirtied, Tracepoint_writeback_dirty_folio, Tracepoint_writeback_dirty_page] on
      else if k_tracepoint k ''writeback'' ''writeback_dirty_folio'' then
        disable [Kprobe_account_page_dirtied, Kprobe_folio_account_dirtied, Tracepoint_writeback_dirty_page] on
      else if k_tracepoint k ''writeback'' ''writeback_dirty_page'' then
        disable [Kprobe_account_page_dirtied, Kprobe_folio_account_dirtied, Tracepoint_writeback_dirty_folio] on
      else on)"

definition choose_fentry_dirtied :: "kernel_probes \<Rightarrow> (prog \<Rightarrow> bool) \<Rightarrow> prog \<Rightarrow> bool" where
  "choose_fentry_dirtied k on =
     (if k_fentry k ''folio_account_dirtied'' \<or> k_fentry k ''account_page_dirtied''
      then disable [Kprobe_account_page_dirtied] on else disable [Fentry_account_page_dirtied] on)"

definition choose_lru :: "kernel_probes \<Rightarrow> (prog \<Rightarrow> bool) \<Rightarrow> prog \<Rightarrow> bool" where
  "choose_lru k on =
     (if k_fentry k ''folio_add_lru'' then
        disable [Kprobe_folio_add_lru, Fentry_add_to_page_cache_lru, Kprobe_add_to_page_cache_lru] on
      else if k_fentry k ''add_to_page_cache_lru'' then
        disable [Kprobe_add_to_page_cache_lru, Fentry_folio_add_lru, Kprobe_folio_add_lru] on
      else if k_kprobe k ''folio_add_lru'' then
        disable [Fentry_folio_add_lru, Fentry_add_to_page_cache_lru, Kprobe_add_to_page_cache_lru] on
      else disable [Fentry_add_to_page_cache_lru, Fentry_folio_add_lru, Kprobe_folio_add_lru] on)"

definition choose_accessed :: "kernel_probes \<Rightarrow> (prog \<Rightarrow> bool) \<Rightarrow> prog \<Rightarrow> bool" where
  "choose_accessed k on =
     (if k_fentry k ''folio_mark_accessed'' then
        disable [Kprobe_folio_mark_accessed, Fentry_mark_page_accessed, Kprobe_mark_page_accessed] on
      else if k_fentry k ''mark_page_accessed'' then
        disable [Kprobe_mark_page_accessed, Fentry_folio_mark_accessed, Kprobe_folio_mark_accessed] on
      else if k_kprobe k ''folio_mark_accessed'' then
        disable [Fentry_folio_mark_accessed, Fentry_mark_page_accessed, Kprobe_mark_page_accessed] on
      else disable [Fentry_mark_page_accessed, Fentry_folio_mark_accessed, Kprobe_folio_mark_accessed] on)"

definition choose_buffer_dirty :: "kernel_probes \<Rightarrow> (prog \<Rightarrow> bool) \<Rightarrow> prog \<Rightarrow> bool" where
  "choose_buffer_dirty k on =
     (if k_fentry k ''mark_buffer_dirty'' then disable [Kprobe_mark_buffer_dirty] on
      else disable [Fentry_mark_buffer_dirty] on)"

definition loaded :: "kernel_probes \<Rightarrow> prog \<Rightarrow> bool" where
  "loaded k =
     choose_buffer_dirty k (choose_accessed k (choose_lru k (choose_fentry_dirtied k (choose_dirtied k (\<lambda>_. True)))))"

text \<open>The kernel function a program is attached to; \<^verbatim>\<open>fentry_account_page_dirtied\<close> is redirected to
  \<^verbatim>\<open>folio_account_dirtied\<close> where that exists.\<close>

definition dirtied_target :: "kernel_probes \<Rightarrow> string" where
  "dirtied_target k = (if k_fentry k ''folio_account_dirtied'' then ''folio_account_dirtied'' else ''account_page_dirtied'')"

fun attach_target :: "kernel_probes \<Rightarrow> prog \<Rightarrow> string" where
  "attach_target k Fentry_add_to_page_cache_lru = ''add_to_page_cache_lru''"
| "attach_target k Fentry_mark_page_accessed = ''mark_page_accessed''"
| "attach_target k Fentry_account_page_dirtied = dirtied_target k"
| "attach_target k Fentry_mark_buffer_dirty = ''mark_buffer_dirty''"
| "attach_target k Kprobe_add_to_page_cache_lru = ''add_to_page_cache_lru''"
| "attach_target k Kprobe_mark_page_accessed = ''mark_page_accessed''"
| "attach_target k Kprobe_account_page_dirtied = ''account_page_dirtied''"
| "attach_target k Kprobe_folio_account_dirtied = ''folio_account_dirtied''"
| "attach_target k Kprobe_mark_buffer_dirty = ''mark_buffer_dirty''"
| "attach_target k Tracepoint_writeback_dirty_folio = ''writeback_dirty_folio''"
| "attach_target k Tracepoint_writeback_dirty_page = ''writeback_dirty_page''"
| "attach_target k Fentry_folio_mark_accessed = ''folio_mark_accessed''"
| "attach_target k Kprobe_folio_mark_accessed = ''folio_mark_accessed''"
| "attach_target k Fentry_folio_add_lru = ''folio_add_lru''"
| "attach_target k Kprobe_folio_add_lru = ''folio_add_lru''"

section \<open>Options\<close>

record env =
  interval :: int
  times :: int
  timestamp :: bool
  verbose :: bool
  output_file :: "string option"
  pids :: "int list"

definition default_env :: env where
  "default_env = \<lparr>interval = 1, times = 99999999, timestamp = False, verbose = False, output_file = None, pids = []\<rparr>"

text \<open>\<^verbatim>\<open>strtok_r(rest, ",", &rest)\<close> until there is no token left: the non-empty fields.\<close>

fun split_commas :: "string \<Rightarrow> string \<Rightarrow> string list" where
  "split_commas [] acc = (if acc = [] then [] else [acc])"
| "split_commas (c # s) acc =
     (if c = CHR '','' then (if acc = [] then [] else [acc]) @ split_commas s [] else split_commas s (acc @ [c]))"

text \<open>The loop of option \<^verbatim>\<open>p\<close>; \<open>None\<close> is the exit through \<^verbatim>\<open>argp_usage\<close>.\<close>

fun collect_pids :: "string list \<Rightarrow> int list \<Rightarrow> int list option" where
  "collect_pids [] ps = Some ps"
| "collect_pids (tok # toks) ps = (if length ps \<ge> MAX_PIDS then None else collect_pids toks (ps @ [atoi tok]))"

datatype option_key = Opt_h | Opt_v | Opt_T | Opt_o string | Opt_p string | Opt_arg string | Opt_other

text \<open>A number outside the range of \<^verbatim>\<open>long\<close> sets \<^verbatim>\<open>errno\<close>; \<^verbatim>\<open>env.times\<close> keeps the low 32 bits. The second
  component counts positional arguments; \<open>Inl\<close> is an exit through the usage message.\<close>

definition in_long :: "int \<Rightarrow> bool" where
  "in_long n \<longleftrightarrow> - (2 ^ 63) \<le> n \<and> n < 2 ^ 63"

fun parse_arg :: "option_key \<Rightarrow> env \<times> nat \<Rightarrow> string + env \<times> nat" where
  "parse_arg Opt_h (e, pos_args) = Inl ''help''"
| "parse_arg Opt_v (e, pos_args) = Inr (e\<lparr>verbose := True\<rparr>, pos_args)"
| "parse_arg Opt_T (e, pos_args) = Inr (e\<lparr>timestamp := True\<rparr>, pos_args)"
| "parse_arg (Opt_o arg) (e, pos_args) = Inr (e\<lparr>output_file := Some arg\<rparr>, pos_args)"
| "parse_arg (Opt_arg arg) (e, pos_args) =
     (let n = atoi arg
      in if pos_args = 0 then
           (if in_long n then Inr (e\<lparr>interval := n\<rparr>, pos_args + 1) else Inl ''invalid internal'')
         else if pos_args = 1 then
           (if in_long n then Inr (e\<lparr>times := sint (word_of_int n :: u32)\<rparr>, pos_args + 1) else Inl ''invalid times'')
         else Inl ''unrecognized positional argument'')"
| "parse_arg (Opt_p arg) (e, pos_args) =
     (case collect_pids (split_commas arg []) [] of
        None \<Rightarrow> Inl ''Too many PIDs''
      | Some ps \<Rightarrow> Inr (e\<lparr>pids := ps\<rparr>, pos_args))"
| "parse_arg Opt_other (e, pos_args) = Inl ''unknown''"

fun parse_args_loop :: "option_key list \<Rightarrow> env \<times> nat \<Rightarrow> string + env \<times> nat" where
  "parse_args_loop [] st = Inr st"
| "parse_args_loop (a # as) st = (case parse_arg a st of Inl msg \<Rightarrow> Inl msg | Inr st' \<Rightarrow> parse_args_loop as st')"

section \<open>Sampling\<close>

text \<open>One sample from the values taken out of the counters: hits and misses. The differences cannot overflow,
  so the signed arithmetic is that of the integers.\<close>

definition sample :: "u64 \<Rightarrow> u64 \<Rightarrow> int \<times> int" where
  "sample total0 misses0 =
     (let total1 = (if sint total0 < 0 then 0 else sint total0);
          misses1 = (if sint misses0 < 0 then 0 else sint misses0);
          hits = total1 - misses1
      in if hits < 0 then (0, total1) else (hits, misses1))"

record totals =
  total_hits :: u64
  total_misses :: u64
  total_dirties :: u64

text \<open>The sizes of the page cache, from the first lines of \<^verbatim>\<open>/proc/meminfo\<close>.\<close>

definition meminfo_fmt :: "directive list" where
  "meminfo_fmt =
     map Lit ''MemTotal:'' @ [White, Unsigned False, White] @ map Lit ''kB'' @ [White] @
     map Lit ''MemFree:'' @ [White, Unsigned False, White] @ map Lit ''kB'' @ [White] @
     map Lit ''MemAvailable:'' @ [White, Unsigned False, White] @ map Lit ''kB'' @ [White] @
     map Lit ''Buffers:'' @ [White, Unsigned True, White] @ map Lit ''kB'' @ [White] @
     map Lit ''Cached:'' @ [White, Unsigned True, White] @ map Lit ''kB'' @ [White]"

definition get_meminfo :: "(string \<Rightarrow> string option) \<Rightarrow> (u64 \<times> u64) option" where
  "get_meminfo fopen =
     (case fopen ''/proc/meminfo'' of
        None \<Rightarrow> None
      | Some s \<Rightarrow> (case scan meminfo_fmt s [] of Some ([FNum buffers, FNum cached], e, _) \<Rightarrow> Some (buffers, cached) | _ \<Rightarrow> None))"

text \<open>What one turn of the loop observes: the three counters, the result of \<^verbatim>\<open>get_meminfo\<close> and whether the
  signal arrived.\<close>

record tick =
  tick_total :: u64
  tick_misses :: u64
  tick_mbd :: u64
  tick_meminfo :: "(u64 \<times> u64) option"
  tick_exiting :: bool

definition accumulate :: "tick \<Rightarrow> totals \<Rightarrow> totals" where
  "accumulate t s =
     (let (hits, misses) = sample (tick_total t) (tick_misses t)
      in \<lparr>total_hits = total_hits s + word_of_int hits, total_misses = total_misses s + word_of_int misses,
          total_dirties = total_dirties s + tick_mbd t\<rparr>)"

text \<open>The line printed, without the time stamp.\<close>

definition sample_line :: "(int \<Rightarrow> int \<Rightarrow> string) \<Rightarrow> tick \<Rightarrow> u64 \<Rightarrow> u64 \<Rightarrow> string" where
  "sample_line fmt_ratio t buffers cached =
     (let (hits, misses) = sample (tick_total t) (tick_misses t)
      in pad_left 8 (fmt_d hits) @ '' '' @ pad_left 8 (fmt_d misses) @ '' '' @ pad_left 8 (fmt_d (uint (tick_mbd t))) @ '' '' @
         pad_left 7 (fmt_ratio hits (max 0 (sint (tick_total t)))) @ ''% '' @ pad_left 12 (fmt_d (uint (buffers div 1024))) @ '' '' @
         pad_left 10 (fmt_d (uint (cached div 1024))) @ [char_of (10 :: nat)])"

text \<open>The loop over the ticks: the lines printed, the totals, the value of \<^verbatim>\<open>err\<close> when it was left, and
  \<^verbatim>\<open>env.times\<close>. \<open>None\<close>: the loop is still running after the last tick.\<close>

fun sample_loop ::
    "(int \<Rightarrow> int \<Rightarrow> string) \<Rightarrow> tick list \<Rightarrow> int \<Rightarrow> totals \<Rightarrow> string list \<Rightarrow> (string list \<times> totals \<times> int) option" where
  "sample_loop fmt_ratio [] n s out = None"
| "sample_loop fmt_ratio (t # ts) n s out =
     (let s' = accumulate t s
      in case tick_meminfo t of
           None \<Rightarrow> Some (out, s', -1)
         | Some (buffers, cached) \<Rightarrow>
             (let out' = out @ [sample_line fmt_ratio t buffers cached]
              in if tick_exiting t \<or> n - 1 = 0 then Some (out', s', 0)
                 else sample_loop fmt_ratio ts (n - 1) s' out'))"

text \<open>The text of the JSON file; the flags say whether the calls on it succeed, and a failure is its
  \<^verbatim>\<open>errno\<close>.\<close>

definition write_output_json ::
    "(u64 \<Rightarrow> u64 \<Rightarrow> string) \<Rightarrow> (u64 \<times> u64) option \<Rightarrow> int + int option \<Rightarrow> totals \<Rightarrow> int \<times> string option" where
  "write_output_json fmt_hitratio meminfo file_result s =
     (case meminfo of
        None \<Rightarrow> (-1, None)
      | Some (buffers, cached) \<Rightarrow>
          (case file_result of
             Inl err \<Rightarrow> (err, None)
           | Inr err_after \<Rightarrow>
               (let q = [char_of (34 :: nat)]; u = (\<lambda>x. fmt_d (uint x))
                in (case err_after of None \<Rightarrow> 0 | Some err \<Rightarrow> err,
                    Some (''{'' @ q @ ''hits'' @ q @ '': '' @ u (total_hits s) @ '', '' @ q @ ''misses'' @ q @ '': '' @ u (total_misses s) @
                      '', '' @ q @ ''dirties'' @ q @ '': '' @ u (total_dirties s) @ '', '' @ q @ ''hitratio'' @ q @ '': '' @
                      fmt_hitratio (total_hits s) (total_hits s + total_misses s) @ '', '' @ q @ ''buffers_mb'' @ q @ '': '' @
                      u (buffers div 1024) @ '', '' @ q @ ''cached_mb'' @ q @ '': '' @ u (cached div 1024) @ ''}'' @
                      [char_of (10 :: nat)])))))"

text \<open>The processes given on the command line, and the exit of \<^verbatim>\<open>main\<close>: the status and the JSON file.\<close>

definition cache_trace_pids :: "int list \<Rightarrow> cache_bss \<Rightarrow> cache_bss" where
  "cache_trace_pids ps b =
     foldl (\<lambda>b p. b\<lparr>cache_pids := bpf_map_update MAX_PIDS False (cache_pids b) (word_of_int p) 1\<rparr>) b ps"

definition cleanup_exit :: "int \<Rightarrow> env \<Rightarrow> int \<times> string option \<Rightarrow> int \<times> string option" where
  "cleanup_exit err e json =
     (if err = 0 \<and> output_file e \<noteq> None then (if fst json \<noteq> 0 then 1 else 0, snd json)
      else (if err \<noteq> 0 then 1 else 0, None))"

section \<open>Reading the sizes\<close>

lemma scan_lits: "scan (map Lit w @ ds) (w @ s) vs = scan ds s vs"
  by (induction w) auto

definition meminfo_line :: "string \<Rightarrow> string \<Rightarrow> string \<Rightarrow> string" where
  "meminfo_line label pad ds = label @ pad @ ds @ '' kB'' @ [CHR 0x0A]"

lemma scan_meminfo_line:
  assumes "\<forall>c \<in> set pad. is_space c" "dec_text ds" "label \<noteq> []" "\<forall>c \<in> set label. \<not> is_space c" "s = [] \<or> \<not> is_space (hd s)"
  shows "scan (map Lit label @ [White, Unsigned st, White] @ map Lit ''kB'' @ [White] @ fmt) (meminfo_line label pad ds @ s) vs =
    scan fmt s (if st then vs @ [FNum (of_nat (based_val 10 ds))] else vs)"
proof -
  have sp: "is_space (CHR '' '')" "is_space (CHR 0x0A)" "\<not> is_digit (CHR '' '')" "\<not> is_space (CHR ''k'')"
    by (simp_all add: is_space_def is_digit_def)
  have "dropWhile is_space (pad @ ds @ t) = ds @ t" for t
    using assms(1) dec_text_hd [OF assms(2)] by (simp add: dropWhile_append2)
  moreover have "dropWhile is_space (CHR 0x0A # s) = s" using assms(5) sp by (cases s) auto
  ultimately show ?thesis
    using scan_number_dec [OF assms(2) sp(3), of "''kB'' @ CHR 0x0A # s"] sp
    by (simp add: meminfo_line_def scan_lits)
qed

text \<open>The fields for buffers and the page cache are read as they are printed.\<close>

lemma get_meminfo_spec:
  assumes "fopen ''/proc/meminfo'' = Some (meminfo_line ''MemTotal:'' p1 d1 @ meminfo_line ''MemFree:'' p2 d2 @
      meminfo_line ''MemAvailable:'' p3 d3 @ meminfo_line ''Buffers:'' p4 d4 @ meminfo_line ''Cached:'' p5 d5 @ s)"
    and "\<forall>p \<in> {p1, p2, p3, p4, p5}. \<forall>c \<in> set p. is_space c" and "\<forall>d \<in> {d1, d2, d3, d4, d5}. dec_text d"
    and "s = [] \<or> \<not> is_space (hd s)"
  shows "get_meminfo fopen = Some (of_nat (based_val 10 d4), of_nat (based_val 10 d5))"
proof -
  have hd: "\<And>l p d s. l \<noteq> [] \<Longrightarrow> \<not> is_space (hd l) \<Longrightarrow> \<not> is_space (hd (meminfo_line l p d @ s))" by (simp add: meminfo_line_def)
  have sp: "\<forall>c \<in> set ''MemTotal:''. \<not> is_space c" "\<forall>c \<in> set ''MemFree:''. \<not> is_space c" "\<forall>c \<in> set ''MemAvailable:''. \<not> is_space c"
      "\<forall>c \<in> set ''Buffers:''. \<not> is_space c" "\<forall>c \<in> set ''Cached:''. \<not> is_space c"
    by (simp_all add: is_space_def)
  have "scan meminfo_fmt (meminfo_line ''MemTotal:'' p1 d1 @ meminfo_line ''MemFree:'' p2 d2 @
      meminfo_line ''MemAvailable:'' p3 d3 @ meminfo_line ''Buffers:'' p4 d4 @ meminfo_line ''Cached:'' p5 d5 @ s) [] =
    Some ([FNum (of_nat (based_val 10 d4)), FNum (of_nat (based_val 10 d5))], Scan_done, s)"
    unfolding meminfo_fmt_def using assms(2-4) sp scan_meminfo_line [where fmt = "[]" and label = "''Cached:''"]
    by (simp del: map_append list.map append_Cons add: scan_meminfo_line hd)
  then show ?thesis using assms(1) by (simp add: get_meminfo_def)
qed

section \<open>Properties of the choice\<close>

text \<open>For page additions, page accesses and dirtied buffers exactly one probe is loaded, whatever the kernel
  offers.\<close>

definition exactly_one :: "bool list \<Rightarrow> bool" where
  "exactly_one bs \<longleftrightarrow> length (filter id bs) = 1"

text \<open>Each choice concerns the programs of its own group only.\<close>

lemma choose_frame:
  "p \<notin> {Fentry_mark_buffer_dirty, Kprobe_mark_buffer_dirty} \<Longrightarrow> choose_buffer_dirty k on p = on p"
  "p \<notin> {Fentry_folio_mark_accessed, Kprobe_folio_mark_accessed, Fentry_mark_page_accessed, Kprobe_mark_page_accessed} \<Longrightarrow>
     choose_accessed k on p = on p"
  "p \<notin> {Fentry_folio_add_lru, Kprobe_folio_add_lru, Fentry_add_to_page_cache_lru, Kprobe_add_to_page_cache_lru} \<Longrightarrow>
     choose_lru k on p = on p"
  "p \<notin> {Fentry_account_page_dirtied, Kprobe_account_page_dirtied} \<Longrightarrow> choose_fentry_dirtied k on p = on p"
  "p \<notin> {Kprobe_account_page_dirtied, Kprobe_folio_account_dirtied, Tracepoint_writeback_dirty_folio,
       Tracepoint_writeback_dirty_page} \<Longrightarrow> choose_dirtied k on p = on p"
  by (simp_all add: choose_buffer_dirty_def choose_accessed_def choose_lru_def choose_fentry_dirtied_def choose_dirtied_def
      disable_def)

lemma disable_same: "p \<in> set ps \<Longrightarrow> \<not> disable ps on p" "p \<notin> set ps \<Longrightarrow> disable ps on p = on p"
  by (simp_all add: disable_def)

lemma one_lru:
  "exactly_one (map (loaded k) [Fentry_folio_add_lru, Kprobe_folio_add_lru, Fentry_add_to_page_cache_lru, Kprobe_add_to_page_cache_lru])"
proof -
  have "loaded k p = choose_lru k (\<lambda>_. True) p"
    if "p \<in> {Fentry_folio_add_lru, Kprobe_folio_add_lru, Fentry_add_to_page_cache_lru, Kprobe_add_to_page_cache_lru}" for p
    using that by (auto simp: loaded_def choose_frame choose_lru_def disable_def)
  then show ?thesis by (simp add: exactly_one_def choose_lru_def disable_same)
qed

lemma one_accessed:
  "exactly_one (map (loaded k) [Fentry_folio_mark_accessed, Kprobe_folio_mark_accessed, Fentry_mark_page_accessed, Kprobe_mark_page_accessed])"
proof -
  have "loaded k p = choose_accessed k (\<lambda>_. True) p"
    if "p \<in> {Fentry_folio_mark_accessed, Kprobe_folio_mark_accessed, Fentry_mark_page_accessed, Kprobe_mark_page_accessed}" for p
    using that by (auto simp: loaded_def choose_frame choose_accessed_def disable_def)
  then show ?thesis by (simp add: exactly_one_def choose_accessed_def disable_same)
qed

lemma one_buffer_dirty: "exactly_one (map (loaded k) [Fentry_mark_buffer_dirty, Kprobe_mark_buffer_dirty])"
  by (simp add: loaded_def choose_buffer_dirty_def disable_same choose_frame exactly_one_def)

text \<open>For dirtied pages it is not so: with \<^verbatim>\<open>folio_account_dirtied\<close> both traceable and attachable, two loaded
  programs sit on that function and each decrements the misses.\<close>

lemma two_dirtied:
  assumes "k_fentry k ''folio_account_dirtied''" and "k_kprobe k ''folio_account_dirtied''"
  shows "loaded k Fentry_account_page_dirtied \<and> loaded k Kprobe_folio_account_dirtied \<and>
    attach_target k Fentry_account_page_dirtied = attach_target k Kprobe_folio_account_dirtied"
  using assms by (simp add: loaded_def choose_frame choose_dirtied_def choose_fentry_dirtied_def disable_same dirtied_target_def)

lemma double_decrement:
  assumes "\<not> to_ignore b pid"
  shows "bss_misses (run_prog Kprobe_folio_account_dirtied pid (run_prog Fentry_account_page_dirtied pid b)) = bss_misses b - 2"
  using assms by (simp add: count_dirtied_def to_ignore_def)

section \<open>Properties of the options\<close>

lemma collect_pids_bound: "collect_pids toks ps = Some ps' \<Longrightarrow> length ps \<le> MAX_PIDS \<Longrightarrow> length ps' \<le> MAX_PIDS"
  by (induction toks arbitrary: ps) (auto split: if_splits)

lemma parse_arg_bound:
  "length (pids e) \<le> MAX_PIDS \<Longrightarrow> parse_arg a (e, n) = Inr (e', n') \<Longrightarrow> length (pids e') \<le> MAX_PIDS"
  by (cases a) (auto simp: Let_def split: if_splits option.splits dest: collect_pids_bound)

lemma parse_args_bound:
  "parse_args_loop as (e, n) = Inr (e', n') \<Longrightarrow> length (pids e) \<le> MAX_PIDS \<Longrightarrow> length (pids e') \<le> MAX_PIDS"
proof (induction as arbitrary: e n)
  case (Cons a as)
  obtain e1 n1 where "parse_arg a (e, n) = Inr (e1, n1)" "parse_args_loop as (e1, n1) = Inr (e', n')"
    using Cons.prems(1) by (auto split: sum.splits)
  then show ?case using Cons.IH parse_arg_bound Cons.prems(2) by blast
qed simp

section \<open>Properties of the samples\<close>

lemma sample_spec:
  assumes "sample t m = (hits, misses)"
  shows "0 \<le> hits" "0 \<le> misses" "hits + misses = max 0 (sint t)" "misses \<le> max 0 (sint m)"
  using assms by (auto simp: sample_def Let_def split: if_splits)

lemma sample_exact:
  "0 \<le> sint m \<Longrightarrow> sint m \<le> sint t \<Longrightarrow> sample t m = (sint t - sint m, sint m)"
  by (simp add: sample_def Let_def)

text \<open>What the totals of a list of ticks are.\<close>

definition tick_sum :: "tick list \<Rightarrow> totals \<Rightarrow> totals" where
  "tick_sum ts s = fold accumulate ts s"

text \<open>A count of \<open>n\<close> samples stops the loop after exactly \<open>n\<close> turns, unless the signal or a failing
  \<^verbatim>\<open>get_meminfo\<close> does so before.\<close>

lemma sample_loop_stops:
  assumes "0 < n" and "nat n \<le> length ts" and "\<forall>t \<in> set ts. tick_meminfo t \<noteq> None \<and> \<not> tick_exiting t"
  shows "\<exists>lines. sample_loop fmt ts n s out = Some (out @ lines, tick_sum (take (nat n) ts) s, 0) \<and> length lines = nat n"
  using assms
proof (induction ts arbitrary: n s out)
  case (Cons t ts)
  obtain b c where m: "tick_meminfo t = Some (b, c)" using Cons.prems(3) by (cases "tick_meminfo t") auto
  show ?case
  proof (cases "n = 1")
    case True
    then show ?thesis using m by (simp add: tick_sum_def)
  next
    case False
    have "0 < n - 1" "nat (n - 1) \<le> length ts" "nat n = Suc (nat (n - 1))" using False Cons.prems(1,2) by auto
    moreover from this Cons.IH [of "n - 1" "accumulate t s" "out @ [sample_line fmt t b c]"] Cons.prems(3)
    obtain lines where "sample_loop fmt ts (n - 1) (accumulate t s) (out @ [sample_line fmt t b c]) =
        Some ((out @ [sample_line fmt t b c]) @ lines, tick_sum (take (nat (n - 1)) ts) (accumulate t s), 0)"
      "length lines = nat (n - 1)" by auto
    ultimately show ?thesis using m False Cons.prems(3) by (simp add: tick_sum_def)
  qed
qed simp

text \<open>Hits and misses together are the accesses counted, sample by sample.\<close>

lemma totals_accesses:
  "total_hits (tick_sum ts s) + total_misses (tick_sum ts s) =
   total_hits s + total_misses s + sum_list (map (\<lambda>t. word_of_int (max 0 (sint (tick_total t)))) ts)"
proof (induction ts arbitrary: s)
  case Nil
  then show ?case by (simp add: tick_sum_def)
next
  case (Cons t ts)
  obtain h m where hm: "sample (tick_total t) (tick_misses t) = (h, m)" by force
  have "word_of_int (max 0 (sint (tick_total t))) = (word_of_int h + word_of_int m :: u64)"
    using sample_spec(3) [OF hm] by (metis of_int_add)
  then show ?case using Cons [of "accumulate t s"] hm by (simp add: tick_sum_def accumulate_def algebra_simps)
qed

section \<open>The queries behind the choice\<close>

lemma use_debugfs_idem: "use_debugfs faccess (snd (use_debugfs faccess h)) = use_debugfs faccess h"
  by (simp add: use_debugfs_def Let_def)

lemma probes_of_kprobe:
  assumes "shows_files f (fst (tracefs_available_filter_functions faccess (- 1))) fopen" and "CHR 0x00 \<notin> set name"
  shows "k_kprobe (probes_of env fopen faccess access) name = probeable f name"
proof -
  obtain path has' where p: "tracefs_available_filter_functions faccess (- 1) = (path, has')" by (metis prod.exhaust)
  obtain h where "kprobe_exists fopen faccess (- 1) name = Some (probeable f name, h)"
    using kprobe_exists_spec [OF assms(1) [unfolded p fst_conv] p assms(2)] by blast
  then show ?thesis by (simp add: probes_of_def)
qed

end
