(* ===== verification/Tool_Mains.thy ===== *)
theory Tool_Mains
  imports Syscounter Cachestat
begin

text \<open>
  The two \<^verbatim>\<open>main\<close> functions, \<^verbatim>\<open>bpf_programs/cachestat/cachestat.c\<close> and \<^verbatim>\<open>bpf_programs/syscounter/syscounter.c\<close>, put together from
  the functions of the other theories. What the skeleton generated by libbpf returns is an argument, and so is what
  happens while the programs are attached.
\<close>

section \<open>Page cache statistics\<close>

text \<open>The results of the skeleton: opening, setting the attach target, loading, the mapped memory and attaching.\<close>

record cache_skel =
  cs_open_ok :: bool
  cs_target_err :: int
  cs_load_err :: int
  cs_bss_ok :: bool
  cs_attach_err :: int

definition zero_totals :: totals where
  "zero_totals = \<lparr>total_hits = 0, total_misses = 0, total_dirties = 0\<rparr>"

definition cache_header :: "env \<Rightarrow> string" where
  "cache_header e =
     (if timestamp e then pad_right 8 ''TIME'' @ '' '' else []) @ pad_left 8 ''HITS'' @ '' '' @ pad_left 8 ''MISSES'' @ '' '' @
     pad_left 8 ''DIRTIES'' @ '' '' @ pad_left 8 ''HITRATIO'' @ '' '' @ pad_left 12 ''BUFFERS_MB'' @ '' '' @ pad_left 10 ''CACHED_MB'' @
     [char_of (10 :: nat)]"

definition zero_bss :: cache_bss where
  "zero_bss = \<lparr>bss_total = 0, bss_misses = 0, bss_mbd = 0, cache_pids = []\<rparr>"

definition tracing_line :: "int \<Rightarrow> string" where
  "tracing_line p = ''Tracing PID '' @ fmt_d (sint (word_of_int p :: u32)) @ [char_of (10 :: nat)]"

text \<open>The printed lines with the texts of \<^verbatim>\<open>str_timestamp\<close>.\<close>

definition stamp_lines :: "env \<Rightarrow> string list \<Rightarrow> string list \<Rightarrow> string list" where
  "stamp_lines e stamps ls = (if timestamp e then map (\<lambda>(t, l). pad_right 8 t @ '' '' @ l) (zip stamps ls) else ls)"

text \<open>The end of the program: through the usage message, or with a status, the lines and the JSON file.\<close>

datatype main_end = Usage string | Exited int "string list" "string option"

text \<open>What is sampled depends on the loaded programs and on the processes that are traced. \<open>None\<close>: still sampling after
  the last tick.\<close>

definition cachestat_main ::
    "(int \<Rightarrow> int \<Rightarrow> string) \<Rightarrow> (u64 \<Rightarrow> u64 \<Rightarrow> string) \<Rightarrow> cache_skel \<Rightarrow> kernel_probes \<Rightarrow> option_key list \<Rightarrow>
     ((prog \<Rightarrow> bool) \<Rightarrow> cache_bss \<Rightarrow> tick list) \<Rightarrow> string list \<Rightarrow> (u64 \<times> u64) option \<Rightarrow> int + int option \<Rightarrow> main_end option" where
  "cachestat_main fmt_ratio fmt_hitratio skel k args ticks stamps meminfo file_result =
     (case parse_args_loop args (default_env, 0) of
        Inl msg \<Rightarrow> Some (Usage msg)
      | Inr (e, _) \<Rightarrow>
          let cleanup = (\<lambda>err s ls. case cleanup_exit err e (write_output_json fmt_hitratio meminfo file_result s) of
                           (status, json) \<Rightarrow> Exited status ls json);
              pid_lines = map tracing_line (pids e)
          in if \<not> cs_open_ok skel then Some (Exited 1 [] None)
             else if k_fentry k ''folio_account_dirtied'' \<and> cs_target_err skel \<noteq> 0 then Some (cleanup (cs_target_err skel) zero_totals [])
             else if cs_load_err skel \<noteq> 0 then Some (cleanup (cs_load_err skel) zero_totals [])
             else if \<not> cs_bss_ok skel then Some (cleanup 0 zero_totals [])
             else if cs_attach_err skel \<noteq> 0 then Some (cleanup (cs_attach_err skel) zero_totals pid_lines)
             else map_option (\<lambda>(out, s, err). cleanup err s (pid_lines @ cache_header e # stamp_lines e stamps out))
                    (sample_loop fmt_ratio (ticks (loaded k) (cache_trace_pids (pids e) zero_bss)) (times e) zero_totals []))"

section \<open>System call counter\<close>

text \<open>The status is the value of \<^verbatim>\<open>err\<close>, which the early exits leave without a value; after a failed attach the skeleton is
  destroyed twice. Both are \<open>None\<close>. What happens while the hooks are attached is a function of the maps.\<close>

definition syscounter_main ::
    "bool \<Rightarrow> int \<Rightarrow> string list \<Rightarrow> (bpf_maps \<Rightarrow> bpf_maps) \<Rightarrow> bool \<Rightarrow> (int \<times> string \<times> string option) option" where
  "syscounter_main open_ok attach_err argv events fopen_ok =
     (if \<not> open_ok then None
      else case parse_args argv of
             None \<Rightarrow> None
           | Some (ks, csv_filename) \<Rightarrow>
               if attach_err \<noteq> 0 then None
               else
                 let out = concat (map (\<lambda>key. ''Tracing Pid '' @ fmt_d (sint key) @ newline) ks) @
                           ''Successfully started! Press Ctrl-C to stop and print results.'' @ newline
                 in map_option (\<lambda>(text, csv). (0, out @ text, csv)) (report fopen_ok (events (trace_pids ks empty_maps)) csv_filename))"

section \<open>How the tools end\<close>

lemma cleanup_exit_ok:
  assumes "output_file e = None \<or> meminfo \<noteq> None \<and> file_result = Inr None"
  shows "\<exists>json. cleanup_exit 0 e (write_output_json fmt_hitratio meminfo file_result s) = (0, json) \<and> (json = None \<longleftrightarrow> output_file e = None)"
proof (cases "output_file e = None")
  case False
  then obtain mi where "meminfo = Some mi" "file_result = Inr None" using assms by auto
  then have "\<exists>j. write_output_json fmt_hitratio meminfo file_result s = (0, Some j)" by (cases mi) (simp add: write_output_json_def Let_def)
  then show ?thesis using False by (auto simp: cleanup_exit_def)
qed (simp add: cleanup_exit_def)

lemma cachestat_main_samples:
  assumes args: "parse_args_loop args (default_env, 0) = Inr (e, pos)" and open_ok: "cs_open_ok skel" "cs_target_err skel = 0" "cs_load_err skel = 0"
    "cs_bss_ok skel" "cs_attach_err skel = 0"
    and ts: "ticks (loaded k) (cache_trace_pids (pids e) zero_bss) = ts"
    and n: "0 < times e" "nat (times e) \<le> length ts" "\<forall>t \<in> set ts. tick_meminfo t \<noteq> None \<and> \<not> tick_exiting t"
    and stamps: "timestamp e \<longrightarrow> nat (times e) \<le> length stamps"
    and out: "output_file e = None \<or> meminfo \<noteq> None \<and> file_result = Inr None"
  shows "\<exists>lines json. cachestat_main fmt_ratio fmt_hitratio skel k args ticks stamps meminfo file_result = Some (Exited 0 lines json) \<and>
    length lines = length (pids e) + Suc (nat (times e)) \<and> (json = None \<longleftrightarrow> output_file e = None)"
proof -
  obtain ls s where l: "sample_loop fmt_ratio ts (times e) zero_totals [] = Some (ls, s, 0)" "length ls = nat (times e)"
    using sample_loop_stops [OF n, of fmt_ratio zero_totals "[]"] by auto
  have "length (stamp_lines e stamps ls) = nat (times e)" using stamps l(2) by (simp add: stamp_lines_def)
  moreover obtain json where "cleanup_exit 0 e (write_output_json fmt_hitratio meminfo file_result s) = (0, json)"
      "json = None \<longleftrightarrow> output_file e = None"
    using cleanup_exit_ok [OF out] by blast
  ultimately show ?thesis using args open_ok l(1) ts by (simp add: cachestat_main_def Let_def)
qed

lemma cachestat_main_no_bss:
  assumes "parse_args_loop args (default_env, 0) = Inr (e, pos)" "cs_open_ok skel" "cs_target_err skel = 0" "cs_load_err skel = 0" "\<not> cs_bss_ok skel"
    and "output_file e = None \<or> meminfo \<noteq> None \<and> file_result = Inr None"
  shows "\<exists>json. cachestat_main fmt_ratio fmt_hitratio skel k args ticks stamps meminfo file_result = Some (Exited 0 [] json) \<and>
    (json = None \<longleftrightarrow> output_file e = None) \<and>
    (json \<noteq> None \<longrightarrow> json = snd (write_output_json fmt_hitratio meminfo file_result zero_totals))"
proof -
  obtain json where j: "cleanup_exit 0 e (write_output_json fmt_hitratio meminfo file_result zero_totals) = (0, json)" "json = None \<longleftrightarrow> output_file e = None"
    using cleanup_exit_ok [OF assms(6)] by blast
  then have "json \<noteq> None \<longrightarrow> json = snd (write_output_json fmt_hitratio meminfo file_result zero_totals)"
    by (auto simp: cleanup_exit_def split: if_splits)
  then show ?thesis using j assms(1-5) by (intro exI [of _ json]) (simp add: cachestat_main_def Let_def)
qed

lemma syscounter_main_defined:
  "syscounter_main opened attach_err argv events fopen_ok = Some (status, out, csv) \<Longrightarrow>
    status = 0 \<and> opened \<and> attach_err = 0 \<and> 2 \<le> length argv"
  by (auto simp: syscounter_main_def parse_args_def Let_def split: if_splits)

end
