(* ===== verification/Trace_Output.thy ===== *)
theory Trace_Output
  imports Trace_Probes
begin

text \<open>
  The rest of \<^verbatim>\<open>bpf_programs/cachestat/trace_helpers.c\<close>: the partitions, the histograms, splitting and converting
  lists, and the load average. The printed histograms are texts; a bar has the right length as long as
  the product of a count and the width fits 32 bits, and is too short beyond.
\<close>

section \<open>Partitions\<close>

definition DISK_NAME_LEN :: nat where
  "DISK_NAME_LEN = 32"

definition MKDEV :: "u32 \<Rightarrow> u32 \<Rightarrow> u32" where
  "MKDEV ma mi = or (push_bit 20 ma) mi"

text \<open>The copy of the name may fail, which the code does not notice.\<close>

record partition =
  part_name :: "string option"
  part_dev :: u32

text \<open>The format \<^verbatim>\<open>%u %u %llu %s\<close>; the first two numbers are stored into 32 bits.\<close>

definition partitions_fmt :: "directive list" where
  "partitions_fmt = [Unsigned True, White, Unsigned True, White, Unsigned True, White, Str (Some DISK_NAME_LEN) None]"

definition partitions__add_partition :: "partition list \<Rightarrow> string \<Rightarrow> u32 \<Rightarrow> bool list \<Rightarrow> int \<times> partition list \<times> bool list" where
  "partitions__add_partition ps name dev as =
     (case next_alloc as of
        (ok, as1) \<Rightarrow>
          if \<not> ok then (- 1, ps, as1)
          else case next_alloc as1 of
                 (ok_name, as2) \<Rightarrow> (0, ps @ [\<lparr>part_name = if ok_name then Some name else None, part_dev = dev\<rparr>], as2))"

text \<open>The inner \<open>None\<close> is the error exit.\<close>

function partitions_loop :: "partition list \<Rightarrow> string \<Rightarrow> bool list \<Rightarrow> partition list option option" where
  "partitions_loop ps s as =
     (case fgets 64 s of
        None \<Rightarrow> Some (Some ps)
      | Some (buf, r) \<Rightarrow>
          if hd buf \<noteq> CHR '' '' \<or> hd buf = CHR 0x0A then partitions_loop ps r as
          else
            (case scan partitions_fmt buf [] of
               None \<Rightarrow> None
             | Some ([FNum devmaj, FNum devmin, FNum nop, FStr name], e, _) \<Rightarrow>
                 (case partitions__add_partition ps name (MKDEV (ucast devmaj) (ucast devmin)) as of
                    (rc, ps', as') \<Rightarrow> if rc \<noteq> 0 then Some None else partitions_loop ps' r as')
             | _ \<Rightarrow> Some None))"
  by pat_completeness auto
termination
  by (relation "measure (\<lambda>(ps, s, as). length s)") (auto dest!: fgets_length)

declare partitions_loop.simps [simp del]

definition partitions__load :: "string option \<Rightarrow> bool list \<Rightarrow> partition list option option" where
  "partitions__load file_text as =
     (case file_text of
        None \<Rightarrow> Some None
      | Some s \<Rightarrow> (case next_alloc as of (ok, as') \<Rightarrow> if \<not> ok then Some None else partitions_loop [] s as'))"

definition partitions__get_by_dev :: "partition list \<Rightarrow> u32 \<Rightarrow> nat option" where
  "partitions__get_by_dev ps dev = first_index_of (\<lambda>p. part_dev p = dev) ps"

text \<open>Comparing a missing name is undefined.\<close>

fun partitions__get_by_name :: "partition list \<Rightarrow> string \<Rightarrow> nat option option" where
  "partitions__get_by_name [] name = Some None"
| "partitions__get_by_name (p # ps) name =
     (case part_name p of
        None \<Rightarrow> None
      | Some n \<Rightarrow> if strcmp n name = 0 then Some (Some 0) else map_option (map_option Suc) (partitions__get_by_name ps name))"

section \<open>Histograms\<close>

text \<open>\<^verbatim>\<open>min(val, val_max) * width / val_max\<close> is computed with 32 bits, then converted to \<^verbatim>\<open>int\<close>.\<close>

definition num_stars :: "u32 \<Rightarrow> u32 \<Rightarrow> nat \<Rightarrow> int" where
  "num_stars val val_max width = sint (min val val_max * of_nat width div val_max)"

definition print_stars :: "u32 \<Rightarrow> u32 \<Rightarrow> nat \<Rightarrow> string" where
  "print_stars val val_max width =
     (let stars = num_stars val val_max width
      in replicate (nat stars) (CHR ''*'') @ replicate (nat (int width - stars)) (CHR '' '') @
         (if val > val_max then ''+'' else []))"

text \<open>The first loop: the last index with a count and the largest count.\<close>

definition hist_idx_max :: "u32 list \<Rightarrow> int" where
  "hist_idx_max vals = foldl (\<lambda>m i. if vals ! i > 0 then int i else m) (- 1) [0..<length vals]"

definition hist_val_max :: "u32 list \<Rightarrow> u32" where
  "hist_val_max vals = foldl (\<lambda>m v. if v > m then v else m) 0 vals"

definition hist_idx_min :: "u32 list \<Rightarrow> int" where
  "hist_idx_min vals = foldl (\<lambda>m i. if vals ! i > 0 \<and> m < 0 then int i else m) (- 1) [0..<length vals]"

text \<open>The bounds of a row; the shift is undefined from 64 bits on.\<close>

definition log2_low :: "nat \<Rightarrow> u64" where
  "log2_low i =
     (let low = drop_bit 1 (push_bit (i + 1) 1); high = push_bit (i + 1) 1 - 1 in if low = high then low - 1 else low)"

definition log2_high :: "nat \<Rightarrow> u64" where
  "log2_high i = push_bit (i + 1) 1 - 1"

definition log2_row :: "u32 list \<Rightarrow> int \<Rightarrow> nat \<Rightarrow> string option" where
  "log2_row vals imax i =
     (if 64 \<le> i + 1 then None
      else
        let width = (if imax \<le> 32 then 10 else 20); stars = (if imax \<le> 32 then 40 else 40 div 2)
        in Some (pad_left width (fmt_d (sint (log2_low i))) @ '' -> '' @ pad_right width (fmt_d (sint (log2_high i))) @ '' : '' @
             pad_right 8 (fmt_d (sint (vals ! i))) @ '' |'' @ print_stars (vals ! i) (hist_val_max vals) stars @ ''|'' @ [CHR 0x0A]))"

text \<open>The rows up to one that is undefined.\<close>

fun all_some :: "'a option list \<Rightarrow> 'a list option" where
  "all_some [] = Some []"
| "all_some (x # xs) = (case x of None \<Rightarrow> None | Some y \<Rightarrow> map_option ((#) y) (all_some xs))"

definition print_log2_hist :: "u32 list \<Rightarrow> string \<Rightarrow> string option" where
  "print_log2_hist vals val_type =
     (let imax = hist_idx_max vals
      in if imax < 0 then Some []
         else map_option (\<lambda>rows.
                pad_left (if imax \<le> 32 then 5 else 15) [] @ pad_right (if imax \<le> 32 then 19 else 29) val_type @
                '' : count    distribution'' @ [CHR 0x0A] @ concat rows)
              (all_some (map (log2_row vals imax) [0..<nat imax + 1])))"

definition linear_row :: "u32 list \<Rightarrow> u32 \<Rightarrow> u32 \<Rightarrow> nat \<Rightarrow> string" where
  "linear_row vals base step i =
     (if vals ! i = 0 then []
      else replicate 8 (CHR '' '') @ pad_right 10 (fmt_d (sint (base + of_nat i * step))) @ '' : '' @
           pad_right 8 (fmt_d (sint (vals ! i))) @ '' |'' @ print_stars (vals ! i) (hist_val_max vals) 40 @ ''|'' @ [CHR 0x0A])"

definition print_linear_hist :: "u32 list \<Rightarrow> u32 \<Rightarrow> u32 \<Rightarrow> string \<Rightarrow> string" where
  "print_linear_hist vals base step val_type =
     (let imax = hist_idx_max vals
      in if imax < 0 then []
         else replicate 5 (CHR '' '') @ pad_right 13 val_type @ '' : count     distribution'' @ [CHR 0x0A] @
              concat (map (linear_row vals base step) [nat (hist_idx_min vals)..<nat imax + 1]))"

section \<open>Time, lists and the load average\<close>

definition get_ktime_ns :: "u64 \<Rightarrow> u64 \<Rightarrow> u64" where
  "get_ktime_ns tv_sec tv_nsec = tv_sec * 1000000000 + tv_nsec"

text \<open>The tokens of \<^verbatim>\<open>strtok\<close>: the non-empty pieces between delimiters.\<close>

function tokens :: "string \<Rightarrow> string \<Rightarrow> string list" where
  "tokens delim s =
     (let s1 = dropWhile (\<lambda>c. c \<in> set delim) s
      in if s1 = [] then []
         else takeWhile (\<lambda>c. c \<notin> set delim) s1 # tokens delim (dropWhile (\<lambda>c. c \<notin> set delim) s1))"
  by pat_completeness auto
termination
proof (relation "measure (\<lambda>(delim, s). length s)", simp)
  fix delim s and s1 :: string
  assume s1: "s1 = dropWhile (\<lambda>c. c \<in> set delim) s" "s1 \<noteq> []"
  then have "hd s1 \<notin> set delim" using hd_dropWhile [of "\<lambda>c. c \<in> set delim" s] by simp
  then have "length (dropWhile (\<lambda>c. c \<notin> set delim) s1) \<le> length (tl s1)"
    using s1(2) by (cases s1) (simp_all add: length_dropWhile_le)
  also have "\<dots> < length s1" using s1(2) by simp
  also have "\<dots> \<le> length s" unfolding s1(1) by (rule length_dropWhile_le)
  finally show "((delim, dropWhile (\<lambda>c. c \<notin> set delim) s1), (delim, s)) \<in> measure (\<lambda>(delim, s). length s)" by simp
qed

declare tokens.simps [simp del]

text \<open>The loop over the tokens; the value is stored whatever the conversion returns.\<close>

fun convert_loop :: "nat \<Rightarrow> nat \<Rightarrow> (string \<Rightarrow> int \<times> 'v) \<Rightarrow> string list \<Rightarrow> 'v list \<Rightarrow> int \<times> 'v list" where
  "convert_loop elems_size elem_size convert [] vs = (0, vs)"
| "convert_loop elems_size elem_size convert (t # ts) vs =
     (if length vs * elem_size + elem_size > elems_size then (- 105, vs)
      else case convert t of
             (ret, v) \<Rightarrow> if ret \<noteq> 0 then (- ret, vs @ [v]) else convert_loop elems_size elem_size convert ts (vs @ [v]))"

text \<open>The null pointer is \<open>None\<close>; the array is given by its size.\<close>

definition split_convert :: "string option \<Rightarrow> string option \<Rightarrow> nat option \<Rightarrow> nat \<Rightarrow> (string \<Rightarrow> int \<times> 'v) \<Rightarrow> int \<times> 'v list" where
  "split_convert s delim elems elem_size convert =
     (case (s, delim, elems) of
        (Some s', Some d, Some elems_size) \<Rightarrow> convert_loop elems_size elem_size convert (tokens d s') []
      | _ \<Rightarrow> (- 22, []))"

text \<open>\<^verbatim>\<open>strtol\<close> outside the range of \<^verbatim>\<open>long\<close>: the nearest bound with \<^verbatim>\<open>ERANGE\<close>.\<close>

definition strtol_errno :: "string \<Rightarrow> int \<times> int" where
  "strtol_errno s =
     (let v = fst (strtol s)
      in if v > 2 ^ 63 - 1 then (34, 2 ^ 63 - 1) else if v < - (2 ^ 63) then (34, - (2 ^ 63)) else (0, v))"

definition str_to_long :: "string \<Rightarrow> int \<times> int" where
  "str_to_long src = strtol_errno src"

definition str_to_int :: "string \<Rightarrow> int \<times> int" where
  "str_to_int src = (case strtol_errno src of (err, v) \<Rightarrow> (err, sint (of_int v :: u32)))"

text \<open>The file, the error number, the buffer's length (\<open>None\<close> is the null pointer); the result with the text in the buffer.\<close>

definition str_loadavg :: "string option \<Rightarrow> int \<Rightarrow> nat option \<Rightarrow> int \<times> string" where
  "str_loadavg file_text errno buf =
     (case buf of
        None \<Rightarrow> (- 22, [])
      | Some buf_len \<Rightarrow>
          if buf_len = 0 then (- 22, [])
          else case file_text of
                 None \<Rightarrow> (- errno, [])
               | Some s \<Rightarrow>
                   let avg = take 63 s
                   in if avg = [] then (if - errno \<noteq> 0 then - errno else 0, [])
                      else let out = ''loadavg: '' @ avg
                           in (if length out \<ge> buf_len then - 34 else int (length out), snprintf buf_len out))"

text \<open>The clock, \<^verbatim>\<open>localtime\<close> and \<^verbatim>\<open>strftime\<close> are parameters.\<close>

definition str_timestamp ::
    "('t \<Rightarrow> 'm option) \<Rightarrow> (nat \<Rightarrow> string \<Rightarrow> 'm \<Rightarrow> int \<times> string) \<Rightarrow> 't \<Rightarrow> int \<Rightarrow> string option \<Rightarrow> nat option \<Rightarrow> int \<times> string" where
  "str_timestamp localtime strftime now errno format buf =
     (case (format, buf) of
        (Some f, Some buf_len) \<Rightarrow>
          if buf_len = 0 then (- 22, [])
          else (case localtime now of None \<Rightarrow> (- errno, []) | Some tm \<Rightarrow> strftime buf_len f tm)
      | _ \<Rightarrow> (- 22, []))"

section \<open>Bars and rows\<close>

lemma val_max_fold:
  fixes m :: u32
  shows "m \<le> foldl (\<lambda>m v. if v > m then v else m) m vals \<and> (\<forall>v \<in> set vals. v \<le> foldl (\<lambda>m v. if v > m then v else m) m vals)"
proof (induction vals arbitrary: m)
  case (Cons x vals)
  let ?m = "if x > m then x else m"
  have m: "m \<le> ?m" "x \<le> ?m" by auto
  show ?case using Cons.IH [of ?m] order_trans [OF m(1)] order_trans [OF m(2)] by auto
qed simp

lemma val_max_le: "i < length vals \<Longrightarrow> vals ! i \<le> hist_val_max vals"
  using val_max_fold [of 0 vals] by (simp add: hist_val_max_def)

lemma sint_eq_unat32:
  assumes "unat (x :: u32) < 2 ^ 31"
  shows "sint x = int (unat x)"
proof -
  have "int (unat x) < int (2 ^ 31)" using assms by (simp only: of_nat_less_iff)
  then have "signed_take_bit 31 (uint x) = uint x"
    by (intro signed_take_bit_int_eq_self) (simp_all add: order_trans [of _ 0])
  then show ?thesis by (simp add: sint_uint)
qed

lemma num_stars_exact:
  assumes "unat val_max * width < 2 ^ 32" "0 < val_max" "width < 2 ^ 31"
  shows "num_stars val val_max width = int (unat (min val val_max) * width div unat val_max)"
    and "unat (min val val_max) * width div unat val_max \<le> width"
proof -
  define v where "v = min val val_max"
  have le: "unat v \<le> unat val_max" by (simp add: v_def word_le_nat_alt [symmetric])
  then have "unat v * width \<le> unat val_max * width" by simp
  then have lt: "unat v * width < 2 ^ 32" using assms(1) by linarith
  have w: "unat (of_nat width :: u32) = width" using assms(3) by (simp add: unat_of_nat)
  have p: "unat (v * of_nat width) = unat v * width" using lt by (simp add: unat_word_ariths w)
  have pos: "0 < unat val_max" using assms(2) by (simp add: unat_gt_0)
  have q: "unat v * width div unat val_max \<le> width"
    using div_le_mono [OF \<open>unat v * width \<le> unat val_max * width\<close>, of "unat val_max"] pos by simp
  then show "unat (min val val_max) * width div unat val_max \<le> width" by (simp add: v_def)
  have "unat (v * of_nat width div val_max) < 2 ^ 31" using q assms(3) p by (simp add: unat_div)
  then have "sint (v * of_nat width div val_max) = int (unat (v * of_nat width div val_max))"
    by (rule sint_eq_unat32)
  then show "num_stars val val_max width = int (unat (min val val_max) * width div unat val_max)"
    unfolding num_stars_def v_def [symmetric] by (simp add: unat_div p)
qed

lemma print_stars_length:
  assumes "unat val_max * width < 2 ^ 32" "0 < val_max" "width < 2 ^ 31"
  shows "length (print_stars val val_max width) = width + of_bool (val > val_max)"
proof -
  obtain n where "num_stars val val_max width = int n" "n \<le> width" using num_stars_exact [OF assms, of val] by blast
  then show ?thesis by (simp add: print_stars_def Let_def nat_diff_distrib)
qed

lemma num_stars_full: "unat val_max * width < 2 ^ 32 \<Longrightarrow> 0 < val_max \<Longrightarrow> width < 2 ^ 31 \<Longrightarrow> num_stars val_max val_max width = int width"
  using num_stars_exact(1) [of val_max width val_max] by (simp add: unat_gt_0)

text \<open>Neighbouring rows of the logarithmic histogram leave no gap.\<close>

lemma unat_push_bit_one: "n < 64 \<Longrightarrow> unat (push_bit n 1 :: u64) = 2 ^ n"
proof -
  assume n: "n < 64"
  have p: "(push_bit n 1 :: u64) = of_nat (2 ^ n)" by (simp add: push_bit_eq_mult)
  have "take_bit 64 (2 ^ n :: nat) = 2 ^ n" using n by (simp add: take_bit_nat_eq_self)
  then show ?thesis unfolding p unat_of_nat by (simp add: take_bit_eq_mod)
qed

lemma unat_push_bit_minus: "n < 64 \<Longrightarrow> unat (push_bit n 1 - 1 :: u64) = 2 ^ n - 1"
  using unat_push_bit_one [of n] unat_minus_one [of "push_bit n 1 :: u64"] by (metis unat_0 power_eq_0_iff zero_neq_numeral)

lemma log2_rows:
  assumes "i < 62"
  shows "unat (log2_low (Suc i)) = 2 ^ Suc i" "unat (log2_high i) = 2 ^ Suc i - 1"
proof -
  have db: "unat (drop_bit 1 (push_bit (Suc (Suc i)) 1 :: u64)) = 2 ^ Suc i"
    using unat_push_bit_one [of "Suc (Suc i)"] assms by (simp only: unat_drop_bit_eq) (simp add: drop_bit_eq_div)
  have hi: "unat (push_bit (Suc (Suc i)) 1 - 1 :: u64) = 2 ^ Suc (Suc i) - 1" using unat_push_bit_minus [of "Suc (Suc i)"] assms by simp
  have "(2 :: nat) ^ Suc i < 2 ^ Suc (Suc i) - 1"
  proof -
    have "(1 :: nat) \<le> 2 ^ i" by simp
    then show ?thesis unfolding power_Suc by linarith
  qed
  then have "drop_bit 1 (push_bit (Suc (Suc i)) 1 :: u64) \<noteq> push_bit (Suc (Suc i)) 1 - 1" using db hi by (metis less_irrefl)
  then show "unat (log2_low (Suc i)) = 2 ^ Suc i" using db by (simp only: log2_low_def Let_def Suc_eq_plus1 if_False)
  show "unat (log2_high i) = 2 ^ Suc i - 1" using unat_push_bit_minus [of "Suc i"] assms by (simp only: log2_high_def Suc_eq_plus1)
qed

section \<open>Splitting and converting\<close>

text \<open>Enough room and no error: all tokens. Too many tokens: an error after the array is full.\<close>

lemma convert_loop_ok:
  assumes "0 < elem_size" "\<forall>t \<in> set ts. fst (convert t) = 0"
  shows "convert_loop elems_size elem_size convert ts vs =
    (let n = elems_size div elem_size - length vs in if length ts \<le> n then (0, vs @ map (snd \<circ> convert) ts) else (- 105, vs @ map (snd \<circ> convert) (take n ts)))"
  using assms(2)
proof (induction ts arbitrary: vs)
  case (Cons t ts)
  obtain v where v: "convert t = (0, v)" using Cons.prems by (metis list.set_intros(1) prod.collapse)
  have room: "length vs * elem_size + elem_size > elems_size \<longleftrightarrow> elems_size div elem_size \<le> length vs"
    using assms(1) by (metis add.commute div_less_iff_less_mult less_Suc_eq_le mult_Suc not_le)
  show ?case
  proof (cases "elems_size div elem_size \<le> length vs")
    case False
    then obtain n where "elems_size div elem_size - length vs = Suc n" "elems_size div elem_size - Suc (length vs) = n"
      by (metis Suc_diff_Suc not_le)
    then show ?thesis using Cons.IH [of "vs @ [v]"] Cons.prems v room False by (simp add: Let_def)
  qed (use room in simp)
qed (simp add: Let_def)

lemma tokens_free: "\<forall>t \<in> set (tokens delim s). t \<noteq> [] \<and> set t \<inter> set delim = {}"
proof (induction delim s rule: tokens.induct)
  case (1 delim s)
  let ?s1 = "dropWhile (\<lambda>c. c \<in> set delim) s"
  show ?case
  proof (cases "?s1 = []")
    case False
    then have "hd ?s1 \<notin> set delim" using hd_dropWhile [of "\<lambda>c. c \<in> set delim" s] by simp
    then have "takeWhile (\<lambda>c. c \<notin> set delim) ?s1 \<noteq> []" using False by (cases ?s1) auto
    then show ?thesis using 1 False by (subst tokens.simps) (auto simp: Let_def dest: set_takeWhileD)
  qed (subst tokens.simps, simp)
qed

end
