(* ===== verification/User_Symbols.thy ===== *)
theory User_Symbols
  imports Elf_Files
begin

text \<open>
  The symbols of a process, the second half of the symbol tables of \<^verbatim>\<open>bpf_programs/cachestat/trace_helpers.c\<close>:
  the executable mappings of \<^verbatim>\<open>/proc/<pid>/maps\<close> grouped by file, the symbol table of a file loaded at the
  first lookup, the search for an address, and the cache of processes. Libelf and the string set of
  libbpf are parameters. \<open>None\<close> stands for undefined behaviour: a text that overflows its array, a
  division by zero, and the use of memory that was freed.
\<close>

section \<open>Data\<close>

record load_range =
  lr_start :: u64
  lr_end :: u64
  file_off :: u64

datatype elf_type = EXEC | DYN | PERF_MAP | VDSO | UNKNOWN

text \<open>The name of a symbol is an offset into the string set until the table is complete.\<close>

datatype name_ptr = Name_off int | Name string

record sym_entry =
  sym_name :: name_ptr
  sym_start :: u64
  sym_size :: u64
  sym_offset :: u64

text \<open>The string set is the list of the strings added to it, what libbpf makes of them being a parameter;
  a null pointer is \<open>None\<close>. The symbol array exists when its capacity is positive.\<close>

record dso =
  dso_name :: "string option"
  ranges :: "load_range list"
  dso_sh_addr :: u64
  dso_sh_offset :: u64
  dso_type :: elf_type
  dso_syms :: "sym_entry list"
  dso_syms_cap :: nat
  dso_btf :: "string list option"
  dso_freed :: bool

record vm_map =
  start_addr :: u64
  end_addr :: u64
  map_file_off :: u64
  dev_major :: u64
  dev_minor :: u64
  inode :: u64

type_synonym syms = "dso list"

record btf_lib =
  btf_add_str :: "string list \<Rightarrow> string \<Rightarrow> int"
  btf_name_by_offset :: "string list \<Rightarrow> int \<Rightarrow> string"

text \<open>The results of the allocations to come, and the open descriptors.\<close>

type_synonym world = "bool list \<times> int list"

definition alloc :: "world \<Rightarrow> bool \<times> world" where
  "alloc w = (case next_alloc (fst w) of (ok, as) \<Rightarrow> (ok, as, snd w))"

section \<open>Mappings\<close>

definition starts_with :: "string \<Rightarrow> string \<Rightarrow> bool" where
  "starts_with s p \<longleftrightarrow> take (length p) s = p"

definition is_file_backed :: "string \<Rightarrow> bool" where
  "is_file_backed mapname \<longleftrightarrow> mapname \<noteq> [] \<and>
     \<not> (starts_with mapname ''//anon'' \<or> starts_with mapname ''/dev/zero'' \<or> starts_with mapname ''/anon_hugepage'' \<or>
        starts_with mapname ''[stack'' \<or> starts_with mapname ''/SYSV'' \<or> starts_with mapname ''[heap]'' \<or>
        starts_with mapname ''[uprobes]'' \<or> starts_with mapname ''[vsyscall]'')"

definition is_perf_map :: "string \<Rightarrow> bool" where
  "is_perf_map path \<longleftrightarrow> False"

definition zero_dso :: dso where
  "zero_dso = \<lparr>dso_name = None, ranges = [], dso_sh_addr = 0, dso_sh_offset = 0, dso_type = EXEC, dso_syms = [],
     dso_syms_cap = 0, dso_btf = None, dso_freed = False\<rparr>"

text \<open>The search for the name; comparing a freed or missing name is undefined.\<close>

fun dso_index :: "syms \<Rightarrow> string \<Rightarrow> nat option option" where
  "dso_index [] name = Some None"
| "dso_index (d # ds) name =
     (case dso_name d of
        None \<Rightarrow> None
      | Some n \<Rightarrow>
          if dso_freed d then None
          else if strcmp n name = 0 then Some (Some 0)
          else map_option (map_option Suc) (dso_index ds name))"

text \<open>The entry to add to: the one found, or a new one. \<open>Inl\<close> is the return of \<open>- 1\<close>.\<close>

definition dso_slot :: "syms \<Rightarrow> string \<Rightarrow> nat option \<Rightarrow> world \<Rightarrow> world + syms \<times> nat \<times> world" where
  "dso_slot ds name found w =
     (case found of
        Some i \<Rightarrow> Inr (ds, i, w)
      | None \<Rightarrow>
          (case alloc w of
             (ok, w1) \<Rightarrow>
               if \<not> ok then Inl w1
               else case alloc w1 of
                      (ok_name, w2) \<Rightarrow>
                        (case alloc w2 of
                           (ok_btf, w3) \<Rightarrow>
                             Inr (ds @ [zero_dso\<lparr>dso_name := if ok_name then Some name else None,
                                                 dso_btf := if ok_btf then Some [] else None\<rparr>], length ds, w3))))"

text \<open>The kind of the file, with the place of the text section of a library.\<close>

definition set_dso_type :: "elf_lib \<Rightarrow> string \<Rightarrow> dso \<Rightarrow> int list \<Rightarrow> int \<times> dso \<times> int list" where
  "set_dso_type lib name d fds =
     (case get_elf_type lib name fds of
        (type, fds1) \<Rightarrow>
          if type = int ET_EXEC then (0, d\<lparr>dso_type := EXEC\<rparr>, fds1)
          else if type = int ET_DYN then
            (case get_elf_text_scn_info lib name fds1 of
               (None, fds2) \<Rightarrow> (- 1, d\<lparr>dso_type := DYN\<rparr>, fds2)
             | (Some (addr, offset), fds2) \<Rightarrow>
                 (0, d\<lparr>dso_type := DYN, dso_sh_addr := addr, dso_sh_offset := offset\<rparr>, fds2))
          else if is_perf_map name then (0, d\<lparr>dso_type := PERF_MAP\<rparr>, fds1)
          else if is_vdso name then (0, d\<lparr>dso_type := VDSO\<rparr>, fds1)
          else (0, d\<lparr>dso_type := UNKNOWN\<rparr>, fds1))"

definition syms__add_dso :: "elf_lib \<Rightarrow> syms \<Rightarrow> vm_map \<Rightarrow> string \<Rightarrow> world \<Rightarrow> (int \<times> syms \<times> world) option" where
  "syms__add_dso lib ds m name w =
     map_option (\<lambda>found.
       case dso_slot ds name found w of
         Inl w1 \<Rightarrow> (- 1, ds, w1)
       | Inr (ds1, i, w1) \<Rightarrow>
           (case alloc w1 of
              (ok, as2, fds) \<Rightarrow>
                if \<not> ok then (- 1, ds1, as2, fds)
                else let d = (ds1 ! i)\<lparr>ranges := ranges (ds1 ! i) @
                               [\<lparr>lr_start = start_addr m, lr_end = end_addr m, file_off = map_file_off m\<rparr>]\<rparr>
                     in case set_dso_type lib name d fds of (rc, d', fds') \<Rightarrow> (rc, ds1[i := d'], as2, fds')))
       (dso_index ds name)"

section \<open>Loading the mappings\<close>

text \<open>The format \<^verbatim>\<open>%llx-%llx %4s %llx %llx:%llx %llu%[^\n]\<close> with \<^verbatim>\<open>perm[5]\<close> and \<^verbatim>\<open>buf[PATH_MAX]\<close>.\<close>

definition PATH_MAX :: nat where
  "PATH_MAX = 4096"

definition maps_fmt :: "directive list" where
  "maps_fmt = [Hex True, Lit (CHR ''-''), Hex True, White, Str (Some 5) (Some 4), White, Hex True, White, Hex True,
     Lit (CHR '':''), Hex True, White, Unsigned True, Not_nl (Some PATH_MAX)]"

text \<open>\<^verbatim>\<open>perm[2]\<close>; a shorter text leaves it undefined.\<close>

definition perm2 :: "string \<Rightarrow> char option" where
  "perm2 perm = (if 2 < length perm then Some (perm ! 2) else if length perm = 2 then Some (CHR 0x00) else None)"

text \<open>The assigned fields as the map, the permissions and the buffer.\<close>

definition maps_fields :: "field list \<Rightarrow> (vm_map \<times> string \<times> string) option" where
  "maps_fields vs =
     (case vs of
        [FNum sa, FNum ea, FStr perm, FNum off, FNum major, FNum minor, FNum ino, FStr buf] \<Rightarrow>
          Some (\<lparr>start_addr = sa, end_addr = ea, map_file_off = off, dev_major = major, dev_minor = minor, inode = ino\<rparr>, perm, buf)
      | _ \<Rightarrow> None)"

text \<open>\<open>Inl\<close> is the error exit.\<close>

function syms_load_loop :: "elf_lib \<Rightarrow> syms \<Rightarrow> string \<Rightarrow> world \<Rightarrow> (world + syms \<times> world) option" where
  "syms_load_loop lib ds s w =
     (case scan maps_fmt s [] of
        None \<Rightarrow> None
      | Some (vs, e, r) \<Rightarrow>
          if scan_ret vs e = - 1 then Some (Inr (ds, w))
          else if scan_ret vs e \<noteq> 8 then Some (Inl w)
          else
            (case maps_fields vs of
               None \<Rightarrow> Some (Inl w)
             | Some (m, perm, buf) \<Rightarrow>
                 (case perm2 perm of
                    None \<Rightarrow> None
                  | Some p \<Rightarrow>
                      if p \<noteq> CHR ''x'' then syms_load_loop lib ds r w
                      else if \<not> is_file_backed (dropWhile is_space buf) then syms_load_loop lib ds r w
                      else
                        (case syms__add_dso lib ds m (dropWhile is_space buf) w of
                           None \<Rightarrow> None
                         | Some (rc, ds', w') \<Rightarrow> if rc \<noteq> 0 then Some (Inl w') else syms_load_loop lib ds' r w'))))"
  by pat_completeness auto
termination
  by (relation "measure (\<lambda>(lib, ds, s, w). length s)") (auto dest!: scan_ret_progress)

declare syms_load_loop.simps [simp del]

definition syms__load_file :: "elf_lib \<Rightarrow> string option \<Rightarrow> world \<Rightarrow> (syms option \<times> world) option" where
  "syms__load_file lib file_text w =
     (case file_text of
        None \<Rightarrow> Some (None, w)
      | Some s \<Rightarrow>
          (case alloc w of
             (ok, w1) \<Rightarrow>
               if \<not> ok then Some (None, w1)
               else map_option (\<lambda>r. case r of Inl w2 \<Rightarrow> (None, w2) | Inr (ds, w2) \<Rightarrow> (Some ds, w2)) (syms_load_loop lib [] s w1)))"

definition syms__load_pid :: "elf_lib \<Rightarrow> (string \<Rightarrow> string option) \<Rightarrow> int \<Rightarrow> world \<Rightarrow> (syms option \<times> world) option" where
  "syms__load_pid lib fopen tgid w = syms__load_file lib (fopen (snprintf 128 (''/proc/'' @ fmt_d tgid @ ''/maps''))) w"

section \<open>Finding the file\<close>

fun range_index :: "u64 \<Rightarrow> load_range list \<Rightarrow> load_range option" where
  "range_index addr [] = None"
| "range_index addr (r # rs) = (if addr \<le> lr_start r \<or> lr_end r \<le> addr then range_index addr rs else Some r)"

definition dso_file_offset :: "dso \<Rightarrow> load_range \<Rightarrow> u64 \<Rightarrow> u64" where
  "dso_file_offset d r addr =
     (if dso_type d = DYN \<or> dso_type d = VDSO
      then addr - lr_start r + file_off r + (dso_sh_addr d - dso_sh_offset d)
      else addr)"

fun syms__find_dso :: "syms \<Rightarrow> u64 \<Rightarrow> (nat \<times> u64) option option" where
  "syms__find_dso [] addr = Some None"
| "syms__find_dso (d # ds) addr =
     (if dso_freed d then None
      else case range_index addr (ranges d) of
             Some r \<Rightarrow> Some (Some (0, dso_file_offset d r addr))
           | None \<Rightarrow> map_option (map_option (\<lambda>(i, off). (Suc i, off))) (syms__find_dso ds addr))"

section \<open>The symbol table of a file\<close>

definition dso__add_sym :: "btf_lib \<Rightarrow> dso \<Rightarrow> string \<Rightarrow> u64 \<Rightarrow> u64 \<Rightarrow> world \<Rightarrow> (int \<times> dso \<times> world) option" where
  "dso__add_sym bl d name start sz w =
     map_option (\<lambda>h.
       let off = btf_add_str bl h name
       in if off < 0 then (off, d, w)
          else
            let d1 = d\<lparr>dso_btf := Some (h @ [name])\<rparr>;
                new_cap = (if dso_syms_cap d * 4 div 3 < 1024 then 1024 else dso_syms_cap d * 4 div 3);
                grow = length (dso_syms d) + 1 > dso_syms_cap d;
                (ok, w1) = (if grow then alloc w else (True, w));
                d2 = (if grow then d1\<lparr>dso_syms_cap := new_cap\<rparr> else d1)
            in if \<not> ok then (- 1, d1, w1)
               else (0, d2\<lparr>dso_syms := dso_syms d2 @
                        [\<lparr>sym_name = Name_off off, sym_start = start, sym_size = sz, sym_offset = 0\<rparr>]\<rparr>, w1))
       (dso_btf d)"

definition sym_text :: "sym_entry \<Rightarrow> string" where
  "sym_text s = (case sym_name s of Name n \<Rightarrow> n | Name_off off \<Rightarrow> [])"

definition sym_cmp :: "sym_entry \<Rightarrow> sym_entry \<Rightarrow> int" where
  "sym_cmp s1 s2 =
     (if sym_start s1 = sym_start s2 then strcmp (sym_text s1) (sym_text s2)
      else if sym_start s1 < sym_start s2 then - 1 else 1)"

definition gelf_getsym :: "elf_data \<Rightarrow> nat \<Rightarrow> gelf_sym option" where
  "gelf_getsym data i = (if i < length (d_syms data) then Some (d_syms data ! i) else None)"

text \<open>The entries of one data block, then the blocks of a section.\<close>

fun add_data_syms :: "btf_lib \<Rightarrow> (nat \<Rightarrow> string option) \<Rightarrow> gelf_sym option list \<Rightarrow> dso \<Rightarrow> world \<Rightarrow> (int \<times> dso \<times> world) option" where
  "add_data_syms bl strs [] d w = Some (0, d, w)"
| "add_data_syms bl strs (None # ss) d w = add_data_syms bl strs ss d w"
| "add_data_syms bl strs (Some s # ss) d w =
     (case strs (gst_name s) of
        None \<Rightarrow> add_data_syms bl strs ss d w
      | Some name \<Rightarrow>
          if name = [] then add_data_syms bl strs ss d w
          else if gst_value s = 0 then add_data_syms bl strs ss d w
          else case dso__add_sym bl d name (gst_value s) (gst_size s) w of
                 None \<Rightarrow> None
               | Some (rc, d', w') \<Rightarrow> if rc \<noteq> 0 then Some (- 1, d', w') else add_data_syms bl strs ss d' w')"

fun dso__add_syms :: "btf_lib \<Rightarrow> (nat \<Rightarrow> string option) \<Rightarrow> nat \<Rightarrow> elf_data list \<Rightarrow> dso \<Rightarrow> world \<Rightarrow> (int \<times> dso \<times> world) option" where
  "dso__add_syms bl strs symsize [] d w = Some (0, d, w)"
| "dso__add_syms bl strs symsize (data # ds) d w =
     (if symsize = 0 then None
      else if d_size data mod symsize \<noteq> 0 then Some (- 1, d, w)
      else case add_data_syms bl strs (map (gelf_getsym data) [0..<d_size data div symsize]) d w of
             None \<Rightarrow> None
           | Some (rc, d', w') \<Rightarrow> if rc \<noteq> 0 then Some (- 1, d', w') else dso__add_syms bl strs symsize ds d' w')"

fun add_table_syms :: "btf_lib \<Rightarrow> elf \<Rightarrow> elf_scn list \<Rightarrow> dso \<Rightarrow> world \<Rightarrow> (int \<times> dso \<times> world) option" where
  "add_table_syms bl e [] d w = Some (0, d, w)"
| "add_table_syms bl e (scn # scns) d w =
     (case scn_header scn of
        None \<Rightarrow> add_table_syms bl e scns d w
      | Some header \<Rightarrow>
          if sh_type header \<noteq> SHT_SYMTAB \<and> sh_type header \<noteq> SHT_DYNSYM then add_table_syms bl e scns d w
          else case dso__add_syms bl (elf_strptr e (sh_link header)) (sh_entsize header) (scn_data scn) d w of
                 None \<Rightarrow> None
               | Some (rc, d', w') \<Rightarrow> if rc \<noteq> 0 then Some (- 1, d', w') else add_table_syms bl e scns d' w')"

text \<open>The pointers stay in the entry.\<close>

definition dso__free_fields :: "dso \<Rightarrow> dso" where
  "dso__free_fields d = d\<lparr>dso_freed := True\<rparr>"

definition name_syms :: "btf_lib \<Rightarrow> dso \<Rightarrow> sym_entry list" where
  "name_syms bl d =
     map (\<lambda>s. s\<lparr>sym_name := (case (dso_btf d, sym_name s) of (Some h, Name_off off) \<Rightarrow> Name (btf_name_by_offset bl h off) | (_, n) \<Rightarrow> n)\<rparr>)
       (dso_syms d)"

definition open_dso_elf :: "elf_lib \<Rightarrow> dso \<Rightarrow> int \<Rightarrow> int list \<Rightarrow> ((elf \<times> int) option \<times> int list) option" where
  "open_dso_elf lib d fd fds =
     (if fd > 0 then Some (case open_elf_by_fd lib fd fds of (e, fds') \<Rightarrow> (map_option (\<lambda>e. (e, fd)) e, fds'))
      else map_option (\<lambda>name. open_elf lib name fds) (dso_name d))"

definition dso__load_sym_table_from_elf ::
    "elf_lib \<Rightarrow> btf_lib \<Rightarrow> ((sym_entry \<Rightarrow> sym_entry \<Rightarrow> int) \<Rightarrow> sym_entry list \<Rightarrow> sym_entry list) \<Rightarrow>
     dso \<Rightarrow> int \<Rightarrow> world \<Rightarrow> (int \<times> dso \<times> world) option" where
  "dso__load_sym_table_from_elf lib bl qsort d fd w =
     (case open_dso_elf lib d fd (snd w) of
        None \<Rightarrow> None
      | Some (None, fds) \<Rightarrow> Some (- 1, d, fst w, fds)
      | Some (Some (e, fd'), fds) \<Rightarrow>
          (case add_table_syms bl e (elf_scns e) d (fst w, fds) of
             None \<Rightarrow> None
           | Some (rc, d', as', fds') \<Rightarrow>
               if rc \<noteq> 0 then Some (- 1, dso__free_fields d', as', close_elf fd' fds')
               else Some (0, d'\<lparr>dso_syms := qsort sym_cmp (name_syms bl d')\<rparr>, as', close_elf fd' fds')))"

section \<open>The image of the vDSO\<close>

text \<open>What \<^verbatim>\<open>create_tmp_vdso_image\<close> sees of the system: the process number, the files, whether memory can be
  copied, and the results of \<^verbatim>\<open>mkostemp\<close> and \<^verbatim>\<open>write\<close>.\<close>

record vdso_env =
  vdso_pid :: int
  vdso_fopen :: "string \<Rightarrow> string option"
  vdso_readable :: "u64 \<Rightarrow> u64 \<Rightarrow> bool"
  vdso_mkostemp :: int
  vdso_write :: int

text \<open>The format \<^verbatim>\<open>%llx-%llx %*s %*x %*x:%*x %*u%[^\n]\<close>.\<close>

definition vdso_fmt :: "directive list" where
  "vdso_fmt = [Hex True, Lit (CHR ''-''), Hex True, White, Str None None, White, Hex False, White, Hex False,
     Lit (CHR '':''), Hex False, White, Unsigned False, Not_nl (Some PATH_MAX)]"

text \<open>The loop, with the last range that was read; \<open>Inl\<close> for \<^verbatim>\<open>goto err_out\<close>.\<close>

function vdso_loop :: "string \<Rightarrow> (u64 \<times> u64) option \<Rightarrow> (unit + (u64 \<times> u64) option) option" where
  "vdso_loop s rng =
     (case scan vdso_fmt s [] of
        None \<Rightarrow> None
      | Some (vs, e, r) \<Rightarrow>
          if scan_ret vs e = - 1 then Some (Inr rng)
          else if scan_ret vs e \<noteq> 3 then Some (Inl ())
          else
            (case vs of
               [FNum sa, FNum ea, FStr buf] \<Rightarrow>
                 if \<not> is_file_backed (dropWhile is_space buf) then vdso_loop r (Some (sa, ea))
                 else if is_vdso (dropWhile is_space buf) then Some (Inr (Some (sa, ea)))
                 else vdso_loop r (Some (sa, ea))
             | _ \<Rightarrow> Some (Inl ())))"
  by pat_completeness auto
termination
  by (relation "measure (\<lambda>(s, rng). length s)") (auto dest!: scan_ret_progress)

declare vdso_loop.simps [simp del]

definition create_tmp_vdso_image :: "vdso_env \<Rightarrow> world \<Rightarrow> (int \<times> world) option" where
  "create_tmp_vdso_image env w =
     (case vdso_fopen env (snprintf 128 (''/proc/'' @ fmt_d (vdso_pid env) @ ''/maps'')) of
        None \<Rightarrow> Some (- 1, w)
      | Some s \<Rightarrow>
          (case vdso_loop s None of
             None \<Rightarrow> None
           | Some (Inl _) \<Rightarrow> Some (- 1, w)
           | Some (Inr None) \<Rightarrow> None
           | Some (Inr (Some (sa, ea))) \<Rightarrow>
               (case alloc w of
                  (ok, as1, fds) \<Rightarrow>
                    if \<not> ok then Some (- 1, as1, fds)
                    else if \<not> vdso_readable env sa (ea - sa) then None
                    else if vdso_mkostemp env < 0 then Some (vdso_mkostemp env, as1, fds)
                    else if vdso_write env = - 1 then Some (- 1, as1, close_fd (vdso_mkostemp env) (vdso_mkostemp env # fds))
                    else Some (vdso_mkostemp env, as1, vdso_mkostemp env # fds))))"

section \<open>Lookup\<close>

record helpers =
  h_elf :: elf_lib
  h_btf :: btf_lib
  h_qsort :: "(sym_entry \<Rightarrow> sym_entry \<Rightarrow> int) \<Rightarrow> sym_entry list \<Rightarrow> sym_entry list"
  h_env :: vdso_env

definition dso__load_sym_table_from_perf_map :: "dso \<Rightarrow> int" where
  "dso__load_sym_table_from_perf_map d = - 1"

definition dso__load_sym_table_from_vdso_image :: "helpers \<Rightarrow> dso \<Rightarrow> world \<Rightarrow> (int \<times> dso \<times> world) option" where
  "dso__load_sym_table_from_vdso_image h d w =
     (case create_tmp_vdso_image (h_env h) w of
        None \<Rightarrow> None
      | Some (fd, w') \<Rightarrow>
          if fd < 0 then Some (- 1, d, w') else dso__load_sym_table_from_elf (h_elf h) (h_btf h) (h_qsort h) d fd w')"

definition dso__load_sym_table :: "helpers \<Rightarrow> dso \<Rightarrow> world \<Rightarrow> (int \<times> dso \<times> world) option" where
  "dso__load_sym_table h d w =
     (case dso_type d of
        UNKNOWN \<Rightarrow> Some (- 1, d, w)
      | PERF_MAP \<Rightarrow> Some (dso__load_sym_table_from_perf_map d, d, w)
      | EXEC \<Rightarrow> dso__load_sym_table_from_elf (h_elf h) (h_btf h) (h_qsort h) d 0 w
      | DYN \<Rightarrow> dso__load_sym_table_from_elf (h_elf h) (h_btf h) (h_qsort h) d 0 w
      | VDSO \<Rightarrow> dso__load_sym_table_from_vdso_image h d w)"

text \<open>The search of a loaded table; the found entry remembers the distance.\<close>

definition search_syms :: "dso \<Rightarrow> u64 \<Rightarrow> (nat option \<times> dso) option" where
  "search_syms d offset =
     (let xs = map sym_start (dso_syms d)
      in map_option (\<lambda>(start, hi).
           let s = dso_syms d ! nat start
           in if start = hi \<and> xs ! nat start \<le> offset \<and> offset < sym_start s + sym_size s
              then (Some (nat start), d\<lparr>dso_syms := (dso_syms d)[nat start := s\<lparr>sym_offset := offset - sym_start s\<rparr>]\<rparr>)
              else (None, d))
         (bsearch xs offset 0 (int (length xs) - 1)))"

definition dso__find_sym :: "helpers \<Rightarrow> dso \<Rightarrow> u64 \<Rightarrow> world \<Rightarrow> (nat option \<times> dso \<times> world) option" where
  "dso__find_sym h d offset w =
     (if dso_freed d then None
      else if dso_syms_cap d = 0 then
        (case dso__load_sym_table h d w of
           None \<Rightarrow> None
         | Some (rc, d', w') \<Rightarrow>
             if rc \<noteq> 0 then Some (None, d', w') else map_option (\<lambda>(i, d''). (i, d'', w')) (search_syms d' offset))
      else map_option (\<lambda>(i, d'). (i, d', w)) (search_syms d offset))"

text \<open>The symbol is returned as the index of its file with its own.\<close>

definition syms__map_addr :: "helpers \<Rightarrow> syms \<Rightarrow> u64 \<Rightarrow> world \<Rightarrow> ((nat \<times> nat) option \<times> syms \<times> world) option" where
  "syms__map_addr h ds addr w =
     (case syms__find_dso ds addr of
        None \<Rightarrow> None
      | Some None \<Rightarrow> Some (None, ds, w)
      | Some (Some (i, offset)) \<Rightarrow>
          map_option (\<lambda>(j, d, w'). (map_option (Pair i) j, ds[i := d], w')) (dso__find_sym h (ds ! i) offset w))"

record sym_info =
  si_dso_name :: "string option"
  si_dso_offset :: u64
  si_sym_name :: "string option"
  si_sym_offset :: u64

definition zero_sym_info :: sym_info where
  "zero_sym_info = \<lparr>si_dso_name = None, si_dso_offset = 0, si_sym_name = None, si_sym_offset = 0\<rparr>"

definition syms__map_addr_dso :: "helpers \<Rightarrow> syms \<Rightarrow> u64 \<Rightarrow> world \<Rightarrow> (int \<times> sym_info \<times> syms \<times> world) option" where
  "syms__map_addr_dso h ds addr w =
     (case syms__find_dso ds addr of
        None \<Rightarrow> None
      | Some None \<Rightarrow> Some (- 1, zero_sym_info, ds, w)
      | Some (Some (i, offset)) \<Rightarrow>
          let sinfo = zero_sym_info\<lparr>si_dso_name := dso_name (ds ! i), si_dso_offset := offset\<rparr>
          in map_option (\<lambda>(j, d, w').
               (0, case j of None \<Rightarrow> sinfo
                   | Some k \<Rightarrow> sinfo\<lparr>si_sym_name := Some (sym_text (dso_syms d ! k)), si_sym_offset := sym_offset (dso_syms d ! k)\<rparr>,
                ds[i := d], w'))
             (dso__find_sym h (ds ! i) offset w))"

text \<open>Freeing the list; freeing the fields of an entry twice is undefined.\<close>

fun syms__free :: "syms \<Rightarrow> unit option" where
  "syms__free [] = Some ()"
| "syms__free (d # ds) = (if dso_freed d then None else syms__free ds)"

section \<open>The cache of processes\<close>

type_synonym syms_cache = "(syms option \<times> int) list"

text \<open>Whatever number of entries is asked for, the cache starts without one.\<close>

definition syms_cache__new :: "int \<Rightarrow> world \<Rightarrow> syms_cache option \<times> world" where
  "syms_cache__new nr w =
     (case alloc w of (ok, w1) \<Rightarrow> if \<not> ok then (None, w1) else (Some [], if nr > 0 then snd (alloc w1) else w1))"

fun cached :: "syms_cache \<Rightarrow> int \<Rightarrow> syms option option" where
  "cached [] tgid = None"
| "cached ((ds, t) # c) tgid = (if t = tgid then Some ds else cached c tgid)"

definition syms_cache__get_syms ::
    "elf_lib \<Rightarrow> (string \<Rightarrow> string option) \<Rightarrow> syms_cache \<Rightarrow> int \<Rightarrow> world \<Rightarrow> (syms option \<times> syms_cache \<times> world) option" where
  "syms_cache__get_syms lib fopen c tgid w =
     (case cached c tgid of
        Some ds \<Rightarrow> Some (ds, c, w)
      | None \<Rightarrow>
          (case alloc w of
             (ok, w1) \<Rightarrow>
               if \<not> ok then Some (None, c, w1)
               else map_option (\<lambda>(ds, w2). (ds, c @ [(ds, tgid)], w2)) (syms__load_pid lib fopen tgid w1)))"

fun syms_cache__free :: "syms_cache \<Rightarrow> unit option" where
  "syms_cache__free [] = Some ()"
| "syms_cache__free ((ds, t) # c) =
     (case ds of None \<Rightarrow> syms_cache__free c | Some ds' \<Rightarrow> (case syms__free ds' of None \<Rightarrow> None | Some _ \<Rightarrow> syms_cache__free c))"

end
