(* ===== verification/User_Symbols_Spec.thy ===== *)
theory User_Symbols_Spec
  imports User_Symbols
begin

text \<open>
  What the symbols of a process promise: the table of a file holds the usable symbols of its ELF
  sections in the order of their addresses, a lookup returns the symbol that contains the offset, the
  mappings of a well-formed file are grouped by name in their order, and the cache loads a process
  once. A table that cannot be loaded completely leaves freed pointers behind.
\<close>

section \<open>Searching a table\<close>

definition contains :: "sym_entry \<Rightarrow> u64 \<Rightarrow> bool" where
  "contains s offset \<longleftrightarrow> sym_start s \<le> offset \<and> offset < sym_start s + sym_size s"

lemma search_syms_count:
  assumes "sorted (map sym_start (dso_syms d))" and n_def: "n = count_le (map sym_start (dso_syms d)) offset"
  shows "search_syms d offset = Some
    (if n \<noteq> 0 \<and> contains (dso_syms d ! (n - 1)) offset
     then (Some (n - 1), d\<lparr>dso_syms := (dso_syms d)[n - 1 := (dso_syms d ! (n - 1))\<lparr>sym_offset := offset - sym_start (dso_syms d ! (n - 1))\<rparr>]\<rparr>)
     else (None, d))"
proof -
  let ?xs = "map sym_start (dso_syms d)"
  obtain start hi where b: "bsearch ?xs offset 0 (int (length ?xs) - 1) = Some (start, hi)"
      "start = hi \<and> ?xs ! nat start \<le> offset \<longleftrightarrow> n \<noteq> 0" "n \<noteq> 0 \<longrightarrow> nat start = n - 1"
    unfolding n_def using bsearch_all [OF assms(1)] by blast
  have le: "n \<noteq> 0 \<Longrightarrow> sym_start (dso_syms d ! (n - 1)) \<le> offset"
    using nth_le_iff [OF assms(1), of "n - 1" offset] count_le_length [of ?xs offset] by (simp add: n_def)
  show ?thesis
    unfolding search_syms_def Let_def b(1) option.map prod.case conj_assoc [symmetric] b(2)
    using b(3) le by (auto simp: contains_def)
qed

lemma search_syms_some:
  assumes "sorted (map sym_start (dso_syms d))"
  shows "\<exists>i d'. search_syms d offset = Some (i, d') \<and> (i = None \<longrightarrow> d' = d)"
  unfolding search_syms_count [OF assms refl] by (auto split: if_splits)

text \<open>A found symbol contains the offset, remembers the distance, and no symbol starts between it and the offset.\<close>

lemma search_syms_found:
  assumes srt: "sorted (map sym_start (dso_syms d))" and f: "search_syms d offset = Some (Some i, d')"
  shows "i < length (dso_syms d)" "contains (dso_syms d ! i) offset"
    "d' = d\<lparr>dso_syms := (dso_syms d)[i := (dso_syms d ! i)\<lparr>sym_offset := offset - sym_start (dso_syms d ! i)\<rparr>]\<rparr>"
    "\<forall>s \<in> set (dso_syms d). sym_start s \<le> offset \<longrightarrow> sym_start s \<le> sym_start (dso_syms d ! i)"
proof -
  let ?xs = "map sym_start (dso_syms d)"
  let ?n = "count_le ?xs offset"
  have n: "?n \<noteq> 0" "i = ?n - 1" "contains (dso_syms d ! i) offset"
      "d' = d\<lparr>dso_syms := (dso_syms d)[i := (dso_syms d ! i)\<lparr>sym_offset := offset - sym_start (dso_syms d ! i)\<rparr>]\<rparr>"
    using f unfolding search_syms_count [OF srt refl] by (auto split: if_splits)
  show i: "i < length (dso_syms d)" using n(1,2) count_le_length [of ?xs offset] by simp
  show "contains (dso_syms d ! i) offset" by (rule n(3))
  show "d' = d\<lparr>dso_syms := (dso_syms d)[i := (dso_syms d ! i)\<lparr>sym_offset := offset - sym_start (dso_syms d ! i)\<rparr>]\<rparr>"
    by (rule n(4))
  show "\<forall>s \<in> set (dso_syms d). sym_start s \<le> offset \<longrightarrow> sym_start s \<le> sym_start (dso_syms d ! i)"
  proof (intro ballI impI)
    fix s
    assume "s \<in> set (dso_syms d)" "sym_start s \<le> offset"
    then obtain j where j: "j < length ?xs" "s = dso_syms d ! j" "?xs ! j \<le> offset" by (auto simp: in_set_conv_nth)
    then have "j \<le> i" using nth_le_iff [OF srt j(1), of offset] n(2) by simp
    then show "sym_start s \<le> sym_start (dso_syms d ! i)" using sorted_nth_mono [OF srt, of j i] i j by simp
  qed
qed

text \<open>A symbol that contains the offset is found unless another one starts at or after it, up to the offset.\<close>

lemma search_syms_complete:
  assumes srt: "sorted (map sym_start (dso_syms d))" and s: "s \<in> set (dso_syms d)" "contains s offset"
    and uniq: "\<forall>t \<in> set (dso_syms d). sym_start t \<le> offset \<longrightarrow> t = s \<or> sym_start t < sym_start s"
  shows "\<exists>i d'. search_syms d offset = Some (Some i, d') \<and> dso_syms d ! i = s"
proof -
  let ?xs = "map sym_start (dso_syms d)"
  let ?n = "count_le ?xs offset"
  obtain j where j: "j < length (dso_syms d)" "dso_syms d ! j = s" using s(1) by (auto simp: in_set_conv_nth)
  then have jn: "j < ?n" using nth_le_iff [OF srt, of j offset] s(2) by (simp add: contains_def)
  have n: "?n - 1 < length (dso_syms d)" using jn count_le_length [of ?xs offset] by simp
  have "sym_start (dso_syms d ! (?n - 1)) \<le> offset" using nth_le_iff [OF srt, of "?n - 1" offset] n jn by simp
  then have "dso_syms d ! (?n - 1) = s \<or> sym_start (dso_syms d ! (?n - 1)) < sym_start s" using uniq n by simp
  moreover have "sym_start s \<le> sym_start (dso_syms d ! (?n - 1))" using sorted_nth_mono [OF srt, of j "?n - 1"] n jn j by simp
  ultimately have "dso_syms d ! (?n - 1) = s" by auto
  then show ?thesis using search_syms_count [OF srt refl, of offset] jn s(2) by auto
qed

section \<open>Finding the file\<close>

lemma range_index_spec:
  "range_index addr rs = find (\<lambda>r. lr_start r < addr \<and> addr < lr_end r) rs"
  by (induction rs) auto

lemma syms_find_dso_spec:
  assumes "\<forall>d \<in> set ds. \<not> dso_freed d"
  shows "case syms__find_dso ds addr of
      None \<Rightarrow> False
    | Some None \<Rightarrow> \<forall>d \<in> set ds. \<forall>r \<in> set (ranges d). addr \<le> lr_start r \<or> lr_end r \<le> addr
    | Some (Some (i, off)) \<Rightarrow> i < length ds \<and> (\<exists>r \<in> set (ranges (ds ! i)). lr_start r < addr \<and> addr < lr_end r \<and> off = dso_file_offset (ds ! i) r addr)"
  using assms
proof (induction ds)
  case (Cons d ds)
  show ?case
  proof (cases "range_index addr (ranges d)")
    case None
    then have "\<forall>r \<in> set (ranges d). addr \<le> lr_start r \<or> lr_end r \<le> addr" by (force simp: range_index_spec find_None_iff)
    then show ?thesis using Cons None by (auto split: option.splits prod.splits)
  next
    case (Some r)
    then have "r \<in> set (ranges d) \<and> lr_start r < addr \<and> addr < lr_end r" by (auto simp: range_index_spec find_Some_iff)
    then show ?thesis using Cons.prems Some by auto
  qed
qed simp

section \<open>Loading a table\<close>

text \<open>What the helpers rely on of libbpf: adding a string succeeds, and its offset names it for ever.\<close>

definition btf_contract :: "btf_lib \<Rightarrow> bool" where
  "btf_contract bl \<longleftrightarrow> (\<forall>h s. 0 \<le> btf_add_str bl h s \<and> (\<forall>t. btf_name_by_offset bl (h @ s # t) (btf_add_str bl h s) = s))"

definition sym_view :: "sym_entry \<Rightarrow> string \<times> u64 \<times> u64" where
  "sym_view s = (sym_text s, sym_start s, sym_size s)"

definition table_view :: "btf_lib \<Rightarrow> dso \<Rightarrow> (string \<times> u64 \<times> u64) list" where
  "table_view bl d = map sym_view (name_syms bl d)"

text \<open>While a table grows: the offsets are names, and the array is within its capacity.\<close>

definition dso_ok :: "btf_lib \<Rightarrow> dso \<Rightarrow> bool" where
  "dso_ok bl d \<longleftrightarrow> length (dso_syms d) \<le> dso_syms_cap d \<and> (\<exists>h. dso_btf d = Some h \<and>
     (\<forall>s \<in> set (dso_syms d). \<exists>off n. sym_name s = Name_off off \<and> (\<forall>t. btf_name_by_offset bl (h @ t) off = n)))"

text \<open>The fields that loading does not change.\<close>

definition same_file :: "dso \<Rightarrow> dso \<Rightarrow> bool" where
  "same_file d d' \<longleftrightarrow> dso_name d' = dso_name d \<and> ranges d' = ranges d \<and> dso_type d' = dso_type d \<and>
     dso_sh_addr d' = dso_sh_addr d \<and> dso_sh_offset d' = dso_sh_offset d \<and> dso_freed d' = dso_freed d"

lemma same_file_refl [simp]: "same_file d d"
  by (simp add: same_file_def)

lemma same_file_trans: "same_file a b \<Longrightarrow> same_file b c \<Longrightarrow> same_file a c"
  by (simp add: same_file_def)

definition grows_by :: "btf_lib \<Rightarrow> dso \<Rightarrow> (string \<times> u64 \<times> u64) list \<Rightarrow> dso \<Rightarrow> bool" where
  "grows_by bl d vs d' \<longleftrightarrow> dso_ok bl d' \<and> table_view bl d' = table_view bl d @ vs \<and> same_file d d'"

lemma grows_by_refl [simp]: "grows_by bl d [] d = dso_ok bl d"
  by (auto simp: grows_by_def)

lemma grows_by_trans: "grows_by bl a vs b \<Longrightarrow> grows_by bl b ws c \<Longrightarrow> grows_by bl a (vs @ ws) c"
  by (auto simp: grows_by_def intro: same_file_trans)

lemma dso_add_sym_ok:
  assumes bl: "btf_contract bl" and ok: "dso_ok bl d"
  shows "\<exists>d'. dso__add_sym bl d name start sz ([], fds) = Some (0, d', [], fds) \<and> grows_by bl d [(name, start, sz)] d'"
proof -
  obtain h where h: "dso_btf d = Some h"
      "\<forall>s \<in> set (dso_syms d). \<exists>off n. sym_name s = Name_off off \<and> (\<forall>t. btf_name_by_offset bl (h @ t) off = n)"
    using ok by (auto simp: dso_ok_def)
  let ?off = "btf_add_str bl h name" and ?new = "\<lambda>off. \<lparr>sym_name = Name_off off, sym_start = start, sym_size = sz, sym_offset = 0\<rparr>"
  define cap where "cap = (if length (dso_syms d) + 1 > dso_syms_cap d
    then if dso_syms_cap d * 4 div 3 < 1024 then 1024 else dso_syms_cap d * 4 div 3 else dso_syms_cap d)"
  define d' where "d' = d\<lparr>dso_btf := Some (h @ [name]), dso_syms_cap := cap, dso_syms := dso_syms d @ [?new ?off]\<rparr>"
  have off: "0 \<le> ?off" "\<And>t. btf_name_by_offset bl (h @ name # t) ?off = name" using bl by (auto simp: btf_contract_def)
  have "length (dso_syms d) < cap" using ok by (auto simp: dso_ok_def cap_def)
  then have "dso_ok bl d'" using h off(2) by (fastforce simp: dso_ok_def d'_def)
  moreover have "table_view bl d' = table_view bl d @ [(name, start, sz)]"
  proof -
    have "\<And>s. s \<in> set (dso_syms d) \<Longrightarrow> \<exists>off. sym_name s = Name_off off \<and> btf_name_by_offset bl (h @ [name]) off = btf_name_by_offset bl h off"
      using h(2) by (metis append.right_neutral)
    then show ?thesis using h(1) off(2) [of "[]"]
      by (fastforce simp: table_view_def name_syms_def d'_def sym_view_def sym_text_def)
  qed
  moreover have "dso__add_sym bl d name start sz ([], fds) = Some (0, d', [], fds)"
    using h(1) off(1) by (simp add: dso__add_sym_def d'_def cap_def Let_def alloc_def next_alloc_def)
  ultimately show ?thesis by (auto simp: grows_by_def same_file_def d'_def)
qed

definition usable :: "string \<times> gelf_sym \<Rightarrow> bool" where
  "usable = (\<lambda>(n, s). n \<noteq> [] \<and> gst_value s \<noteq> 0)"

definition sym_triple :: "string \<times> gelf_sym \<Rightarrow> string \<times> u64 \<times> u64" where
  "sym_triple = (\<lambda>(n, s). (n, gst_value s, gst_size s))"

definition usable_of :: "(string \<times> gelf_sym) list \<Rightarrow> (string \<times> u64 \<times> u64) list" where
  "usable_of ss = map sym_triple (filter usable ss)"

lemma usable_of_simps [simp]: "usable_of [] = []" "usable_of (xs @ ys) = usable_of xs @ usable_of ys"
  by (simp_all add: usable_of_def)

lemma add_data_syms_ok:
  assumes bl: "btf_contract bl" and "dso_ok bl d"
  shows "\<exists>d'. add_data_syms bl strs (map Some ss) d ([], fds) = Some (0, d', [], fds) \<and>
    grows_by bl d (usable_of (List.map_filter (\<lambda>s. map_option (\<lambda>n. (n, s)) (strs (gst_name s))) ss)) d'"
  using assms(2)
proof (induction ss arbitrary: d)
  case Nil
  then show ?case by (simp add: map_filter_simps)
next
  case (Cons s ss)
  show ?case
  proof (cases "\<exists>n. strs (gst_name s) = Some n \<and> n \<noteq> [] \<and> gst_value s \<noteq> 0")
    case False
    then show ?thesis using Cons by (auto simp: map_filter_simps usable_of_def usable_def split: option.split)
  next
    case True
    then obtain n where n: "strs (gst_name s) = Some n" "n \<noteq> []" "gst_value s \<noteq> 0" by blast
    obtain d1 where d1: "dso__add_sym bl d n (gst_value s) (gst_size s) ([], fds) = Some (0, d1, [], fds)"
        "grows_by bl d [(n, gst_value s, gst_size s)] d1"
      using dso_add_sym_ok [OF bl Cons.prems] by blast
    then have "dso_ok bl d1" by (simp add: grows_by_def)
    from Cons.IH [OF this] obtain d2 where d2: "add_data_syms bl strs (map Some ss) d1 ([], fds) = Some (0, d2, [], fds)"
        "grows_by bl d1 (usable_of (List.map_filter (\<lambda>s. map_option (\<lambda>n. (n, s)) (strs (gst_name s))) ss)) d2"
      by blast
    show ?thesis using n d1(1) d2(1) grows_by_trans [OF d1(2) d2(2)]
      by (simp add: map_filter_simps usable_of_def usable_def sym_triple_def)
  qed
qed

text \<open>A section whose data blocks hold whole entries.\<close>

definition blocks_ok :: "nat \<Rightarrow> elf_data list \<Rightarrow> bool" where
  "blocks_ok symsize ds \<longleftrightarrow> 0 < symsize \<and> (\<forall>d \<in> set ds. d_size d = symsize * length (d_syms d))"

lemma getsym_all: "map (gelf_getsym data) [0..<length (d_syms data)] = map Some (d_syms data)"
  by (rule nth_equalityI) (simp_all add: gelf_getsym_def)

lemma dso_add_syms_ok:
  assumes bl: "btf_contract bl" and "dso_ok bl d" and "blocks_ok symsize ds"
  shows "\<exists>d'. dso__add_syms bl strs symsize ds d ([], fds) = Some (0, d', [], fds) \<and> grows_by bl d (usable_of (data_syms strs ds)) d'"
  using assms(2,3)
proof (induction ds arbitrary: d)
  case Nil
  then show ?case by (simp add: data_syms_def)
next
  case (Cons x ds)
  have x: "0 < symsize" "d_size x = symsize * length (d_syms x)" and ds: "blocks_ok symsize ds"
    using Cons.prems(2) by (auto simp: blocks_ok_def)
  obtain d1 where d1: "add_data_syms bl strs (map Some (d_syms x)) d ([], fds) = Some (0, d1, [], fds)"
      "grows_by bl d (usable_of (List.map_filter (\<lambda>s. map_option (\<lambda>n. (n, s)) (strs (gst_name s))) (d_syms x))) d1"
    using add_data_syms_ok [OF bl Cons.prems(1)] by blast
  then have "dso_ok bl d1" by (simp add: grows_by_def)
  from Cons.IH [OF this ds] obtain d2 where d2: "dso__add_syms bl strs symsize ds d1 ([], fds) = Some (0, d2, [], fds)"
      "grows_by bl d1 (usable_of (data_syms strs ds)) d2"
    by blast
  show ?case using x d1(1) d2(1) grows_by_trans [OF d1(2) d2(2)] by (simp add: getsym_all data_syms_def)
qed

definition table_ok :: "elf \<Rightarrow> bool" where
  "table_ok e \<longleftrightarrow> (\<forall>scn \<in> set (elf_scns e). \<forall>shdr. scn_header scn = Some shdr \<longrightarrow>
     sh_type shdr = SHT_SYMTAB \<or> sh_type shdr = SHT_DYNSYM \<longrightarrow> blocks_ok (sh_entsize shdr) (scn_data scn))"

lemma add_table_syms_ok:
  assumes bl: "btf_contract bl" and "dso_ok bl d"
    and "\<forall>scn \<in> set scns. \<forall>shdr. scn_header scn = Some shdr \<longrightarrow>
      sh_type shdr = SHT_SYMTAB \<or> sh_type shdr = SHT_DYNSYM \<longrightarrow> blocks_ok (sh_entsize shdr) (scn_data scn)"
  shows "\<exists>d'. add_table_syms bl e scns d ([], fds) = Some (0, d', [], fds) \<and> grows_by bl d (usable_of (concat (map (scn_syms e) scns))) d'"
  using assms(2,3)
proof (induction scns arbitrary: d)
  case Nil
  then show ?case by simp
next
  case (Cons scn scns)
  show ?case
  proof (cases "\<exists>shdr. scn_header scn = Some shdr \<and> (sh_type shdr = SHT_SYMTAB \<or> sh_type shdr = SHT_DYNSYM)")
    case False
    then have "scn_syms e scn = []" "add_table_syms bl e (scn # scns) d ([], fds) = add_table_syms bl e scns d ([], fds)"
      by (auto simp: scn_syms_def split: option.split)
    then show ?thesis using Cons by simp
  next
    case True
    then obtain shdr where shdr: "scn_header scn = Some shdr" "sh_type shdr = SHT_SYMTAB \<or> sh_type shdr = SHT_DYNSYM" by blast
    then have blk: "blocks_ok (sh_entsize shdr) (scn_data scn)" using Cons.prems(2) by auto
    let ?strs = "elf_strptr e (sh_link shdr)"
    obtain d1 where d1: "dso__add_syms bl ?strs (sh_entsize shdr) (scn_data scn) d ([], fds) = Some (0, d1, [], fds)"
        "grows_by bl d (usable_of (data_syms ?strs (scn_data scn))) d1"
      using dso_add_syms_ok [OF bl Cons.prems(1) blk] by blast
    then have "dso_ok bl d1" by (simp add: grows_by_def)
    then obtain d2 where d2: "add_table_syms bl e scns d1 ([], fds) = Some (0, d2, [], fds)"
        "grows_by bl d1 (usable_of (concat (map (scn_syms e) scns))) d2"
      using Cons.IH [of d1] Cons.prems(2) by auto
    have "scn_syms e scn = data_syms ?strs (scn_data scn)" using shdr by (auto simp: scn_syms_def)
    then show ?thesis using shdr d1(1) d2(1) grows_by_trans [OF d1(2) d2(2)] by auto
  qed
qed

lemma sym_cmp_le: "sym_cmp a b \<le> 0 \<Longrightarrow> sym_start a \<le> sym_start b"
  by (auto simp: sym_cmp_def split: if_splits)

lemmas sym_cmp_order = cmp_order [OF sym_cmp_def]

definition fresh_dso :: "dso \<Rightarrow> bool" where
  "fresh_dso d \<longleftrightarrow> dso_syms d = [] \<and> dso_syms_cap d = 0 \<and> dso_btf d = Some [] \<and> \<not> dso_freed d"

text \<open>The usable symbols of the tables, ordered by their addresses.\<close>

lemma load_sym_table_from_elf_ok:
  assumes bl: "btf_contract bl" and q: "qsort_contract qsort sym_cmp" and d: "fresh_dso d" "dso_name d = Some path"
    and e: "elf_opened lib path = Some (e, fd)" "table_ok e"
  shows "\<exists>d'. dso__load_sym_table_from_elf lib bl qsort d 0 ([], fds) = Some (0, d', [], fds) \<and> same_file d d' \<and>
    mset (map sym_view (dso_syms d')) = mset (usable_of (table_syms e)) \<and> sorted (map sym_start (dso_syms d')) \<and>
    (dso_syms d' \<noteq> [] \<longrightarrow> dso_syms_cap d' \<noteq> 0)"
proof -
  have ok: "dso_ok bl d" and v: "table_view bl d = []"
    using d(1) by (auto simp: fresh_dso_def dso_ok_def table_view_def name_syms_def)
  have op: "open_dso_elf lib d 0 fds = Some (Some (e, fd), fd # fds)"
    using d(2) e(1) by (simp add: open_dso_elf_def open_elf_fds)
  obtain d1 where d1: "add_table_syms bl e (elf_scns e) d ([], fd # fds) = Some (0, d1, [], fd # fds)"
      "grows_by bl d (usable_of (table_syms e)) d1"
    using add_table_syms_ok [OF bl ok, of "elf_scns e" e "fd # fds"] e(2) by (auto simp: table_ok_def table_syms_def)
  let ?syms = "qsort sym_cmp (name_syms bl d1)"
  have srt: "mset ?syms = mset (name_syms bl d1)" "sorted_wrt (\<lambda>a b. sym_cmp a b \<le> 0) ?syms"
    using q by (auto simp: qsort_contract_def)
  have len: "length ?syms = length (dso_syms d1)" using mset_eq_length [OF srt(1)] by (simp add: name_syms_def)
  have "mset (map sym_view ?syms) = mset (usable_of (table_syms e))"
    using d1(2) srt(1) v unfolding grows_by_def table_view_def by (metis append_Nil mset_map)
  moreover have "sorted (map sym_start ?syms)"
    using srt(2) by (simp add: sorted_map sorted_wrt_mono_rel [OF sym_cmp_le])
  moreover have "?syms \<noteq> [] \<longrightarrow> dso_syms_cap d1 \<noteq> 0"
    using d1(2) len by (cases ?syms) (auto simp: grows_by_def dso_ok_def)
  ultimately show ?thesis
    using d1 op by (auto simp: dso__load_sym_table_from_elf_def grows_by_def same_file_def)
qed

section \<open>The first lookup of a file\<close>

text \<open>The symbols of a loaded table as the search sees them.\<close>

lemma sym_view_start: "snd (sym_view s) = (sym_start s, sym_size s)"
  by (simp add: sym_view_def)

lemma dso_find_sym_first:
  assumes bl: "btf_contract (h_btf h)" and q: "qsort_contract (h_qsort h) sym_cmp"
    and d: "fresh_dso d" "dso_name d = Some path" "dso_type d = EXEC \<or> dso_type d = DYN"
    and e: "elf_opened (h_elf h) path = Some (e, fd)" "table_ok e"
  shows "\<exists>i d'. dso__find_sym h d offset ([], fds) = Some (i, d', [], fds) \<and> same_file d d' \<and>
    mset (map sym_view (dso_syms d')) = mset (usable_of (table_syms e)) \<and>
    (case i of
       Some k \<Rightarrow> k < length (dso_syms d') \<and> contains (dso_syms d' ! k) offset \<and>
         sym_offset (dso_syms d' ! k) = offset - sym_start (dso_syms d' ! k) \<and>
         (\<forall>s \<in> set (dso_syms d'). sym_start s \<le> offset \<longrightarrow> sym_start s \<le> sym_start (dso_syms d' ! k))
     | None \<Rightarrow> \<forall>s \<in> set (dso_syms d'). contains s offset \<longrightarrow>
         (\<exists>t \<in> set (dso_syms d'). t \<noteq> s \<and> sym_start s \<le> sym_start t \<and> sym_start t \<le> offset))"
proof -
  obtain d1 where d1: "dso__load_sym_table_from_elf (h_elf h) (h_btf h) (h_qsort h) d 0 ([], fds) = Some (0, d1, [], fds)"
      "same_file d d1" "mset (map sym_view (dso_syms d1)) = mset (usable_of (table_syms e))" "sorted (map sym_start (dso_syms d1))"
    using load_sym_table_from_elf_ok [OF bl q d(1,2) e] by blast
  have ld: "dso__load_sym_table h d ([], fds) = Some (0, d1, [], fds)" using d(3) d1(1) by (auto simp: dso__load_sym_table_def)
  obtain i d2 where sr: "search_syms d1 offset = Some (i, d2)" "i = None \<longrightarrow> d2 = d1"
    using search_syms_some [OF d1(4)] by blast
  have f: "dso__find_sym h d offset ([], fds) = Some (i, d2, [], fds)"
    using d(1) ld sr by (simp add: dso__find_sym_def fresh_dso_def)
  show ?thesis
  proof (cases i)
    case None
    have "\<exists>t \<in> set (dso_syms d1). t \<noteq> s \<and> sym_start s \<le> sym_start t \<and> sym_start t \<le> offset"
      if "s \<in> set (dso_syms d1)" "contains s offset" for s
      using search_syms_complete [OF d1(4) that] sr(1) None by (metis linorder_not_less option.distinct(1) option.inject prod.inject)
    then show ?thesis using f d1(2,3) None sr(2) by auto
  next
    case (Some k)
    note fd = search_syms_found [OF d1(4) sr(1) [unfolded Some]]
    have "map sym_view (dso_syms d2) = map sym_view (dso_syms d1)" "map sym_start (dso_syms d2) = map sym_start (dso_syms d1)"
      unfolding fd(3) using fd(1)
      by (simp_all add: map_update sym_view_def sym_text_def list_update_same_conv)
    then have same: "mset (map sym_view (dso_syms d2)) = mset (usable_of (table_syms e))"
        "sym_start ` set (dso_syms d2) = sym_start ` set (dso_syms d1)"
      using d1(3) by (metis, metis list.set_map)
    have "same_file d d2" using d1(2) unfolding fd(3) by (simp add: same_file_def)
    moreover have "k < length (dso_syms d2)" "contains (dso_syms d2 ! k) offset"
        "sym_start (dso_syms d2 ! k) = sym_start (dso_syms d1 ! k)"
        "sym_offset (dso_syms d2 ! k) = offset - sym_start (dso_syms d2 ! k)"
      unfolding fd(3) using fd(1,2) by (simp_all add: contains_def)
    moreover have "\<forall>s \<in> set (dso_syms d2). sym_start s \<le> offset \<longrightarrow> sym_start s \<le> sym_start (dso_syms d1 ! k)"
    proof
      fix s
      assume "s \<in> set (dso_syms d2)"
      then have "sym_start s \<in> sym_start ` set (dso_syms d1)" using same(2) by blast
      then show "sym_start s \<le> offset \<longrightarrow> sym_start s \<le> sym_start (dso_syms d1 ! k)" using fd(4) by auto
    qed
    ultimately show ?thesis using f same(1) Some by simp
  qed
qed

section \<open>A table that cannot be loaded\<close>

lemma find_dso_freed:
  "syms__find_dso ds addr = Some (Some (i, off)) \<Longrightarrow> dso_freed d \<Longrightarrow> i < length ds \<and> syms__find_dso (ds[i := d]) addr = None"
proof (induction ds arbitrary: i off)
  case (Cons x ds)
  show ?case
  proof (cases "range_index addr (ranges x)")
    case None
    then obtain j off' where "i = Suc j" "syms__find_dso ds addr = Some (Some (j, off'))"
      using Cons.prems(1) by (auto split: if_splits)
    then show ?thesis using Cons.IH [of j off'] Cons.prems None by (auto split: if_splits)
  next
    case (Some r)
    then show ?thesis using Cons.prems by (auto split: if_splits)
  qed
qed simp

lemma syms_free_iff: "syms__free ds = None \<longleftrightarrow> (\<exists>d \<in> set ds. dso_freed d)"
  by (induction ds) auto

text \<open>The entry is freed but stays in the list, so that the next lookup reads freed memory and freeing the list frees it
  twice.\<close>

lemma failed_load_dangles:
  assumes find: "syms__find_dso ds addr = Some (Some (i, off))"
    and d: "fresh_dso (ds ! i)" "dso_name (ds ! i) = Some path" "dso_type (ds ! i) = EXEC \<or> dso_type (ds ! i) = DYN"
    and e: "elf_opened (h_elf h) path = Some (e, fd)"
    and bad: "add_table_syms (h_btf h) e (elf_scns e) (ds ! i) (as, fd # fds) = Some (rc, d', w')" "rc \<noteq> 0"
  shows "\<exists>ds' w1. syms__map_addr h ds addr (as, fds) = Some (None, ds', w1) \<and>
    (\<forall>w2. syms__map_addr h ds' addr w2 = None) \<and> syms__free ds' = None"
proof -
  let ?d = "dso__free_fields d'"
  have "open_dso_elf (h_elf h) (ds ! i) 0 fds = Some (Some (e, fd), fd # fds)"
    using d(2) e by (simp add: open_dso_elf_def open_elf_fds)
  then have "dso__load_sym_table h (ds ! i) (as, fds) = Some (- 1, ?d, fst w', close_elf fd (snd w'))"
    using d(3) bad by (auto simp: dso__load_sym_table_def dso__load_sym_table_from_elf_def split: prod.split)
  then have "dso__find_sym h (ds ! i) off (as, fds) = Some (None, ?d, fst w', close_elf fd (snd w'))"
    using d(1) by (simp add: dso__find_sym_def fresh_dso_def)
  then have "syms__map_addr h ds addr (as, fds) = Some (None, ds[i := ?d], fst w', close_elf fd (snd w'))"
    using find by (simp add: syms__map_addr_def)
  moreover have freed: "i < length ds" "syms__find_dso (ds[i := ?d]) addr = None"
    using find_dso_freed [OF find, of ?d] by (simp_all add: dso__free_fields_def)
  moreover have "syms__free (ds[i := ?d]) = None"
    unfolding syms_free_iff using freed(1) by (intro bexI [of _ ?d]) (simp_all add: set_update_memI dso__free_fields_def)
  ultimately show ?thesis by (simp add: syms__map_addr_def)
qed

section \<open>The cache\<close>

lemma cached_append: "cached (c @ [(ds, t)]) tgid = (case cached c tgid of Some x \<Rightarrow> Some x | None \<Rightarrow> if t = tgid then Some ds else None)"
  by (induction c) auto

lemma syms_cache_get_syms_spec:
  assumes "syms_cache__get_syms lib fopen c tgid ([], fds) = Some (ds, c', w')"
  shows "cached c' tgid = Some ds" "\<forall>t. t \<noteq> tgid \<longrightarrow> cached c' t = cached c t"
    "syms_cache__get_syms lib2 fopen2 c' tgid w2 = Some (ds, c', w2)"
  using assms by (auto simp: syms_cache__get_syms_def alloc_def next_alloc_def cached_append split: option.splits if_splits)

section \<open>Mappings\<close>

text \<open>A line of \<^verbatim>\<open>/proc/<pid>/maps\<close>: range, permissions, offset, device, inode, blanks and the name.\<close>

record maps_entry =
  me_start :: string
  me_end :: string
  maps_perm :: string
  me_off :: string
  me_major :: string
  me_minor :: string
  me_ino :: string
  me_pad :: string
  maps_name :: string

definition maps_line :: "maps_entry \<Rightarrow> string" where
  "maps_line x = me_start x @ ''-'' @ me_end x @ '' '' @ maps_perm x @ '' '' @ me_off x @ '' '' @ me_major x @ '':'' @
     me_minor x @ '' '' @ me_ino x @ me_pad x @ maps_name x @ [CHR 0x0A]"

definition maps_line_ok :: "maps_entry \<Rightarrow> bool" where
  "maps_line_ok x \<longleftrightarrow> hex_text (me_start x) \<and> hex_text (me_end x) \<and> is_word (maps_perm x) \<and> length (maps_perm x) = 4 \<and>
     hex_text (me_off x) \<and> hex_text (me_major x) \<and> hex_text (me_minor x) \<and> dec_text (me_ino x) \<and>
     me_pad x \<noteq> [] \<and> set (me_pad x) \<subseteq> {CHR '' ''} \<and> \<not> (maps_name x \<noteq> [] \<and> is_space (hd (maps_name x))) \<and>
     CHR 0x0A \<notin> set (maps_name x) \<and> CHR 0x00 \<notin> set (maps_name x) \<and> length (me_pad x) + length (maps_name x) < PATH_MAX"

definition maps_entry_map :: "maps_entry \<Rightarrow> vm_map" where
  "maps_entry_map x =
     \<lparr>start_addr = of_nat (based_val 16 (me_start x)), end_addr = of_nat (based_val 16 (me_end x)),
      map_file_off = of_nat (based_val 16 (me_off x)), dev_major = of_nat (based_val 16 (me_major x)),
      dev_minor = of_nat (based_val 16 (me_minor x)), inode = of_nat (based_val 10 (me_ino x))\<rparr>"

lemma scan_maps_line:
  assumes "maps_line_ok x"
  shows "\<exists>vs pad. scan maps_fmt (maps_line x @ tail) [] = Some (vs, Scan_done, CHR 0x0A # tail) \<and> length vs = 8 \<and>
    maps_fields vs = Some (maps_entry_map x, maps_perm x, pad @ maps_name x) \<and> dropWhile is_space (pad @ maps_name x) = maps_name x"
proof -
  let ?pad = "me_pad x" and ?name = "maps_name x"
  have ok: "hex_text (me_start x)" "hex_text (me_end x)" "is_word (maps_perm x)" "length (maps_perm x) = 4" "hex_text (me_off x)"
     "hex_text (me_major x)" "hex_text (me_minor x)" "dec_text (me_ino x)" "?pad \<noteq> []" "set ?pad \<subseteq> {CHR '' ''}"
     "\<not> (?name \<noteq> [] \<and> is_space (hd ?name))" "CHR 0x0A \<notin> set ?name" "length ?pad + length ?name < PATH_MAX"
    using assms by (simp_all add: maps_line_ok_def)
  have sp: "is_space (CHR '' '')" "is_space (CHR 0x0A)" "\<not> is_xdigit (CHR '' '')" "\<not> is_xdigit (CHR ''-'')" "\<not> is_xdigit (CHR '':'')"
      "\<not> is_digit (CHR '' '')"
    by (simp_all add: is_space_def is_xdigit_def is_digit_def)
  obtain pad' where pad': "?pad = CHR '' '' # pad'" using ok(9,10) by (cases ?pad) auto
  have tw: "takeWhile (\<lambda>c. c \<noteq> CHR 0x0A) (?pad @ ?name @ CHR 0x0A # tail) = ?pad @ ?name"
    using ok(10,12) by (subst append.assoc [symmetric]) (subst takeWhile_append2; auto)
  have nn: "scan_not_nl (CHR '' '' # pad' @ ?name @ CHR 0x0A # tail) = Inl (?pad @ ?name, CHR 0x0A # tail)"
    using tw by (simp add: scan_not_nl_def pad' Let_def)
  have st: "\<And>t. scan_str (Some 4) (maps_perm x @ CHR '' '' # t) = Inl (maps_perm x, CHR '' '' # t)"
    using ok(3,4) sp by (intro scan_str_width) (simp_all add: starts_space_def)
  have line: "maps_line x @ tail = me_start x @ CHR ''-'' # me_end x @ CHR '' '' # maps_perm x @ CHR '' '' # me_off x @ CHR '' '' #
      me_major x @ CHR '':'' # me_minor x @ CHR '' '' # me_ino x @ CHR '' '' # pad' @ ?name @ CHR 0x0A # tail"
    by (simp add: maps_line_def pad')
  have "dropWhile is_space (?pad @ ?name) = ?name"
    using ok(10,11) sp(1) by (cases ?name) (auto simp: dropWhile_append2 dropWhile_append)
  then show ?thesis
    unfolding line maps_fmt_def using ok sp
    by (auto simp: scan_number_hex scan_number_dec hex_text_hd dec_text_hd is_word_hd st nn store_str_def maps_fields_def maps_entry_map_def)
qed

text \<open>The executable mappings of files, as ranges.\<close>

definition used :: "maps_entry \<Rightarrow> bool" where
  "used x \<longleftrightarrow> maps_perm x ! 2 = CHR ''x'' \<and> is_file_backed (maps_name x)"

definition range_of :: "maps_entry \<Rightarrow> load_range" where
  "range_of x = (let m = maps_entry_map x in \<lparr>lr_start = start_addr m, lr_end = end_addr m, file_off = map_file_off m\<rparr>)"

definition file_ranges :: "maps_entry list \<Rightarrow> string \<Rightarrow> load_range list" where
  "file_ranges es name = map range_of (filter (\<lambda>x. used x \<and> maps_name x = name) es)"

text \<open>The list of files after some lines: one entry per name, with the ranges of its lines in order.\<close>

definition loaded_maps :: "maps_entry list \<Rightarrow> syms \<Rightarrow> bool" where
  "loaded_maps es ds \<longleftrightarrow> distinct (map dso_name ds) \<and> dso_name ` set ds = Some ` maps_name ` set (filter used es) \<and>
     (\<forall>d \<in> set ds. fresh_dso d \<and> (\<forall>name. dso_name d = Some name \<longrightarrow> ranges d = file_ranges es name))"

text \<open>The kind of every file can be found out.\<close>

definition type_known :: "elf_lib \<Rightarrow> string \<Rightarrow> bool" where
  "type_known lib name \<longleftrightarrow> (fst (get_elf_type lib name []) = int ET_DYN \<longrightarrow> fst (get_elf_text_scn_info lib name []) \<noteq> None)"

lemma elf_fst: "fst (get_elf_type lib name fds) = fst (get_elf_type lib name [])"
    "fst (get_elf_text_scn_info lib name fds) = fst (get_elf_text_scn_info lib name [])"
  by (simp_all add: get_elf_type_def get_elf_text_scn_info_def open_elf_fds Let_def split: option.split prod.split)

lemma set_dso_type_ok:
  assumes "type_known lib name" and fds: "\<forall>fd \<in> set fds. 0 \<le> fd"
  shows "\<exists>d'. set_dso_type lib name d fds = (0, d', fds) \<and> dso_name d' = dso_name d \<and> ranges d' = ranges d \<and> (fresh_dso d' = fresh_dso d)"
proof -
  have t: "get_elf_type lib name fds = (fst (get_elf_type lib name []), fds)"
    "get_elf_text_scn_info lib name fds = (fst (get_elf_text_scn_info lib name []), fds)"
    using elf_fds [OF fds] elf_fst by (metis prod.collapse)+
  show ?thesis using assms(1) t(2) unfolding set_dso_type_def t(1) type_known_def by (auto simp: fresh_dso_def split: option.splits)
qed

lemma dso_index_loaded:
  assumes "loaded_maps es ds" and "\<forall>x \<in> set es. CHR 0x00 \<notin> set (maps_name x)" and "CHR 0x00 \<notin> set name"
  shows "dso_index ds name = Some (first_index_of (\<lambda>d. dso_name d = Some name) ds)"
proof -
  have "\<forall>d \<in> set ds. \<not> dso_freed d \<and> (\<exists>n. dso_name d = Some n \<and> CHR 0x00 \<notin> set n)"
  proof
    fix d
    assume d: "d \<in> set ds"
    then have "dso_name d \<in> Some ` maps_name ` set (filter used es)" using assms(1) by (auto simp: loaded_maps_def)
    then show "\<not> dso_freed d \<and> (\<exists>n. dso_name d = Some n \<and> CHR 0x00 \<notin> set n)"
      using assms(1,2) d by (auto simp: loaded_maps_def fresh_dso_def)
  qed
  then show ?thesis using strcmp_eq [OF _ assms(3)] by (induction ds) auto
qed

lemma file_ranges_snoc: "file_ranges (es @ [x]) name = file_ranges es name @ (if used x \<and> maps_name x = name then [range_of x] else [])"
  by (simp add: file_ranges_def)

lemma loaded_skip: "\<not> used x \<Longrightarrow> loaded_maps es ds \<Longrightarrow> loaded_maps (es @ [x]) ds"
  by (auto simp: loaded_maps_def file_ranges_snoc)

text \<open>The two ways of adding a range.\<close>

lemma loaded_extend:
  assumes ld: "loaded_maps es ds" and x: "used x" and i: "i < length ds" "dso_name (ds ! i) = Some (maps_name x)"
    and d: "dso_name d = dso_name (ds ! i)" "ranges d = ranges (ds ! i) @ [range_of x]" "fresh_dso d"
  shows "loaded_maps (es @ [x]) (ds[i := d])"
proof -
  have names: "map dso_name (ds[i := d]) = map dso_name ds" using d(1) i(1) by (simp add: map_update list_update_same_conv)
  then have img: "dso_name ` set (ds[i := d]) = dso_name ` set ds" by (metis list.set_map)
  have other: "dso_name (ds ! j) \<noteq> Some (maps_name x)" if "j < length ds" "j \<noteq> i" for j
    using ld i that unfolding loaded_maps_def by (metis length_map nth_eq_iff_index_eq nth_map)
  have "Some (maps_name x) \<in> dso_name ` set ds" using i by (metis imageI nth_mem)
  then have "maps_name x \<in> maps_name ` set (filter used es)" using ld by (auto simp: loaded_maps_def)
  then have "dso_name ` set (ds[i := d]) = Some ` maps_name ` set (filter used (es @ [x]))"
    using ld img by (auto simp: loaded_maps_def)
  moreover have "fresh_dso (ds[i := d] ! j) \<and> (\<forall>name. dso_name (ds[i := d] ! j) = Some name \<longrightarrow>
      ranges (ds[i := d] ! j) = file_ranges (es @ [x]) name)" if "j < length ds" for j
    using ld that d x i other [of j] by (cases "j = i") (auto simp: loaded_maps_def file_ranges_snoc)
  ultimately show ?thesis using ld names by (auto simp: loaded_maps_def in_set_conv_nth)
qed

lemma loaded_new:
  assumes ld: "loaded_maps es ds" and x: "used x" "\<forall>d \<in> set ds. dso_name d \<noteq> Some (maps_name x)"
    and d: "dso_name d = Some (maps_name x)" "ranges d = [range_of x]" "fresh_dso d"
  shows "loaded_maps (es @ [x]) (ds @ [d])"
proof -
  have new: "Some (maps_name x) \<notin> dso_name ` set ds" using x(2) by force
  then have "maps_name x \<notin> maps_name ` set (filter used es)" using ld by (auto simp: loaded_maps_def)
  then have "file_ranges es (maps_name x) = []" by (auto simp: file_ranges_def filter_empty_conv image_iff)
  then show ?thesis using ld x d new by (auto simp: loaded_maps_def file_ranges_snoc)
qed

lemma syms_add_dso_loaded:
  assumes ld: "loaded_maps es ds" and nul: "\<forall>x \<in> set es. CHR 0x00 \<notin> set (maps_name x)" "CHR 0x00 \<notin> set (maps_name x)"
    and x: "used x" "type_known lib (maps_name x)" and fds: "\<forall>fd \<in> set fds. 0 \<le> fd"
  shows "\<exists>ds'. syms__add_dso lib ds (maps_entry_map x) (maps_name x) ([], fds) = Some (0, ds', [], fds) \<and> loaded_maps (es @ [x]) ds'"
proof -
  let ?m = "maps_entry_map x" and ?n = "maps_name x"
  let ?r = "\<lparr>lr_start = start_addr ?m, lr_end = end_addr ?m, file_off = map_file_off ?m\<rparr>"
  have r: "?r = range_of x" by (simp add: range_of_def Let_def)
  note idx = dso_index_loaded [OF ld nul] and fi = first_index_of_spec [where P = "\<lambda>d. dso_name d = Some ?n" and xs = ds]
  show ?thesis
  proof (cases "first_index_of (\<lambda>d. dso_name d = Some ?n) ds")
    case (Some i)
    then have i: "i < length ds" "dso_name (ds ! i) = Some ?n" using fi by auto
    let ?d = "(ds ! i)\<lparr>ranges := ranges (ds ! i) @ [?r]\<rparr>"
    obtain d' where d': "set_dso_type lib ?n ?d fds = (0, d', fds)" "dso_name d' = dso_name (ds ! i)"
        "ranges d' = ranges (ds ! i) @ [range_of x]" "fresh_dso d'"
      using set_dso_type_ok [OF x(2) fds, of ?d] ld i(1) r by (auto simp: loaded_maps_def fresh_dso_def)
    show ?thesis using loaded_extend [OF ld x(1) i d'(2-4)] idx Some d'(1)
      by (simp add: syms__add_dso_def dso_slot_def alloc_def next_alloc_def)
  next
    case None
    then have new: "\<forall>d \<in> set ds. dso_name d \<noteq> Some ?n" using fi by auto
    let ?d = "zero_dso\<lparr>dso_name := Some ?n, dso_btf := Some [], ranges := [?r]\<rparr>"
    obtain d' where d': "set_dso_type lib ?n ?d fds = (0, d', fds)" "dso_name d' = Some ?n"
        "ranges d' = [range_of x]" "fresh_dso d'"
      using set_dso_type_ok [OF x(2) fds, of ?d] r by (auto simp: fresh_dso_def zero_dso_def)
    show ?thesis using loaded_new [OF ld x(1) new d'(2-4)] idx None d'(1)
      by (simp add: syms__add_dso_def dso_slot_def alloc_def next_alloc_def zero_dso_def)
  qed
qed

text \<open>Blank text in front of a line is skipped.\<close>

lemma syms_load_loop_skip: "syms_load_loop lib ds (dropWhile is_space s) w = syms_load_loop lib ds s w"
proof (cases "scan_number 16 s")
  case (Inl vr)
  then have "scan maps_fmt (dropWhile is_space s) [] = scan maps_fmt s []"
    by (simp add: maps_fmt_def scan_number_skip)
  then show ?thesis by (simp add: syms_load_loop.simps)
next
  case (Inr e)
  have n: "\<And>t. scan_number 16 t = Inr e \<Longrightarrow> scan maps_fmt t [] = Some ([], e, t)" by (simp add: maps_fmt_def)
  show ?thesis using n [OF Inr] n [of "dropWhile is_space s"] Inr
    by (simp add: syms_load_loop.simps scan_number_skip scan_ret_def)
qed

lemma syms_load_loop_line:
  assumes x: "maps_line_ok x"
  shows "syms_load_loop lib ds (maps_line x @ tail) w =
    (if \<not> used x then syms_load_loop lib ds tail w
     else case syms__add_dso lib ds (maps_entry_map x) (maps_name x) w of
            None \<Rightarrow> None
          | Some (rc, ds', w') \<Rightarrow> if rc \<noteq> 0 then Some (Inl w') else syms_load_loop lib ds' tail w')"
proof -
  obtain vs pad where sc: "scan maps_fmt (maps_line x @ tail) [] = Some (vs, Scan_done, CHR 0x0A # tail)" "length vs = 8"
      "maps_fields vs = Some (maps_entry_map x, maps_perm x, pad @ maps_name x)" "dropWhile is_space (pad @ maps_name x) = maps_name x"
    using scan_maps_line [OF x] by blast
  have nl: "\<And>ds w. syms_load_loop lib ds (CHR 0x0A # tail) w = syms_load_loop lib ds tail w"
    using syms_load_loop_skip [of lib _ "CHR 0x0A # tail"] syms_load_loop_skip [of lib _ tail] by (simp add: is_space_def)
  have p: "perm2 (maps_perm x) = Some (maps_perm x ! 2)" using x by (simp add: perm2_def maps_line_ok_def)
  show ?thesis
    by (subst syms_load_loop.simps) (auto simp: sc scan_ret_def p used_def nl split: option.split)
qed

lemma syms_load_loop_lines:
  assumes "\<forall>x \<in> set es. maps_line_ok x \<and> (used x \<longrightarrow> type_known lib (maps_name x))" and "\<forall>fd \<in> set fds. 0 \<le> fd"
    and "loaded_maps seen ds" and "\<forall>x \<in> set seen. CHR 0x00 \<notin> set (maps_name x)"
  shows "\<exists>ds'. syms_load_loop lib ds (concat (map maps_line es)) ([], fds) = Some (Inr (ds', [], fds)) \<and> loaded_maps (seen @ es) ds'"
  using assms
proof (induction es arbitrary: seen ds)
  case Nil
  then show ?case by (simp add: syms_load_loop.simps [of lib ds "[]"] maps_fmt_def scan_number_def scan_ret_def)
next
  case (Cons x es)
  have x: "maps_line_ok x" "used x \<longrightarrow> type_known lib (maps_name x)" "CHR 0x00 \<notin> set (maps_name x)"
    using Cons.prems(1) by (auto simp: maps_line_ok_def)
  obtain ds1 where ds1: "syms_load_loop lib ds (maps_line x @ concat (map maps_line es)) ([], fds) =
        syms_load_loop lib ds1 (concat (map maps_line es)) ([], fds)" "loaded_maps (seen @ [x]) ds1"
  proof (cases "used x")
    case True
    then show ?thesis using syms_add_dso_loaded [OF Cons.prems(3,4) x(3)] x(2) Cons.prems(2) that
      unfolding syms_load_loop_line [OF x(1)] by fastforce
  next
    case False
    then show ?thesis using that loaded_skip [OF False Cons.prems(3)] by (simp add: syms_load_loop_line [OF x(1)])
  qed
  then show ?case using Cons.IH [OF _ _ ds1(2)] Cons.prems x(3) by auto
qed

lemma syms_load_file_ok:
  assumes "\<forall>x \<in> set es. maps_line_ok x \<and> (used x \<longrightarrow> type_known lib (maps_name x))" and "\<forall>fd \<in> set fds. 0 \<le> fd"
  shows "\<exists>ds. syms__load_file lib (Some (concat (map maps_line es))) ([], fds) = Some (Some ds, [], fds) \<and> loaded_maps es ds"
  using syms_load_loop_lines [OF assms, of "[]" "[]"]
  by (auto simp: syms__load_file_def alloc_def next_alloc_def loaded_maps_def)

section \<open>Looking up an address of a loaded process\<close>

definition inside :: "u64 \<Rightarrow> load_range \<Rightarrow> bool" where
  "inside addr r \<longleftrightarrow> lr_start r < addr \<and> addr < lr_end r"

text \<open>Outside all executable mappings, their first addresses included, nothing is found.\<close>

lemma loaded_maps_ranges:
  assumes "loaded_maps es ds" "d \<in> set ds" "r \<in> set (ranges d)"
  shows "\<exists>x \<in> set es. used x \<and> r = range_of x"
proof -
  have "dso_name d \<in> Some ` maps_name ` set (filter used es)" using assms(1,2) by (metis imageI loaded_maps_def)
  then obtain name where "dso_name d = Some name" by auto
  then have "ranges d = file_ranges es name" using assms(1,2) by (simp add: loaded_maps_def)
  then show ?thesis using assms(3) by (auto simp: file_ranges_def)
qed

lemma syms_map_addr_outside:
  assumes ld: "loaded_maps es ds" and out: "\<forall>x \<in> set es. used x \<longrightarrow> \<not> inside addr (range_of x)"
  shows "syms__map_addr h ds addr w = Some (None, ds, w)"
proof -
  have fr: "\<forall>d \<in> set ds. \<not> dso_freed d" using ld by (auto simp: loaded_maps_def fresh_dso_def)
  have "\<not> inside addr r" if "d \<in> set ds" "r \<in> set (ranges d)" for d r
    using loaded_maps_ranges [OF ld that] out by blast
  then have "syms__find_dso ds addr = Some None"
    using syms_find_dso_spec [OF fr, of addr] by (auto simp: inside_def split: option.splits) (metis nth_mem)
  then show ?thesis by (simp add: syms__map_addr_def)
qed

text \<open>What the first lookup in a file returns for an offset, over its table.\<close>

definition found_sym :: "sym_entry list \<Rightarrow> u64 \<Rightarrow> nat option \<Rightarrow> bool" where
  "found_sym ss offset j \<longleftrightarrow>
     (case j of
        Some k \<Rightarrow> k < length ss \<and> contains (ss ! k) offset \<and> sym_offset (ss ! k) = offset - sym_start (ss ! k) \<and>
          (\<forall>s \<in> set ss. sym_start s \<le> offset \<longrightarrow> sym_start s \<le> sym_start (ss ! k))
      | None \<Rightarrow> \<forall>s \<in> set ss. contains s offset \<longrightarrow> (\<exists>t \<in> set ss. t \<noteq> s \<and> sym_start s \<le> sym_start t \<and> sym_start t \<le> offset))"

lemma syms_map_addr_first:
  assumes bl: "btf_contract (h_btf h)" and q: "qsort_contract (h_qsort h) sym_cmp" and ld: "loaded_maps es ds"
    and find: "syms__find_dso ds addr = Some (Some (i, offset))"
    and d: "dso_name (ds ! i) = Some path" "dso_type (ds ! i) = EXEC \<or> dso_type (ds ! i) = DYN"
    and e: "elf_opened (h_elf h) path = Some (e, fd)" "table_ok e"
  shows "\<exists>j d'. syms__map_addr h ds addr ([], fds) = Some (map_option (Pair i) j, ds[i := d'], [], fds) \<and>
    mset (map sym_view (dso_syms d')) = mset (usable_of (table_syms e)) \<and> found_sym (dso_syms d') offset j"
proof -
  have fr: "\<forall>d \<in> set ds. \<not> dso_freed d" using ld by (auto simp: loaded_maps_def fresh_dso_def)
  have i: "i < length ds" using syms_find_dso_spec [OF fr, of addr] find by auto
  then have "fresh_dso (ds ! i)" using ld by (simp add: loaded_maps_def)
  from dso_find_sym_first [OF bl q this d e, of offset fds] obtain j d' where
    "dso__find_sym h (ds ! i) offset ([], fds) = Some (j, d', [], fds)"
    "mset (map sym_view (dso_syms d')) = mset (usable_of (table_syms e))" "found_sym (dso_syms d') offset j"
    unfolding found_sym_def by blast
  then show ?thesis using find by (auto simp: syms__map_addr_def)
qed

end
