(* ===== verification/Uprobe_Paths.thy ===== *)
theory Uprobe_Paths
  imports Trace_Probes User_Symbols_Spec
begin

text \<open>
  Finding the file to probe (\<^verbatim>\<open>bpf_programs/cachestat/uprobe_helpers.c\<close>): the program of a process, a library loaded
  into it, or a program found by \<^verbatim>\<open>which\<close>. The link, the mappings of the process and the output of the command are
  arguments; a path is returned as a text, an error as \<open>Inl\<close>.
\<close>

section \<open>Model\<close>

datatype path_error = Name_too_long | No_such_pid | Truncated | Lib_not_found | Path_too_small | Popen_failed | No_output | Need_pid_or_binary | Not_found

text \<open>\<^verbatim>\<open>readlink\<close> stores at most \<open>path_sz\<close> characters and returns how many; \<open>None\<close> is an error.\<close>

definition get_pid_binary_path :: "(string \<Rightarrow> string option) \<Rightarrow> int \<Rightarrow> nat \<Rightarrow> path_error + string" where
  "get_pid_binary_path readlink pid path_sz =
     (let name = ''/proc/'' @ fmt_d pid @ ''/exe''
      in if length name \<ge> 32 then Inl Name_too_long
         else case readlink name of
                None \<Rightarrow> Inl No_such_pid
              | Some target \<Rightarrow>
                  let ret = take path_sz target in if length ret \<ge> path_sz then Inl Truncated else Inr ret)"

text \<open>The part from the last slash.\<close>

definition strrchr :: "string \<Rightarrow> char \<Rightarrow> string option" where
  "strrchr s c = (if c \<in> set s then Some (c # rev (takeWhile (\<lambda>x. x \<noteq> c) (rev s))) else None)"

text \<open>The format \<^verbatim>\<open>%*x-%*x %*s %*x %*s %*u %s\<close> with \<^verbatim>\<open>path_buf[1024]\<close>.\<close>

definition lib_fmt :: "directive list" where
  "lib_fmt = [Hex False, Lit (CHR ''-''), Hex False, White, Str None None, White, Hex False, White, Str None None, White,
     Unsigned False, White, Str (Some 1024) None]"

text \<open>Whether the path of a line names the library: \<^verbatim>\<open>/lib<name>.\<close> or \<^verbatim>\<open>/lib<name>-\<close> after the last slash.\<close>

definition is_lib_path :: "string \<Rightarrow> string \<Rightarrow> bool" where
  "is_lib_path lib path \<longleftrightarrow>
     (case strrchr path (CHR ''/'') of
        None \<Rightarrow> False
      | Some p \<Rightarrow>
          take 4 p = ''/lib'' \<and> take (length lib) (drop 4 p) = lib \<and>
          (case drop (4 + length lib) p of c # _ \<Rightarrow> c = CHR ''.'' \<or> c = CHR ''-'' | [] \<Rightarrow> False))"

function lib_loop :: "string \<Rightarrow> nat \<Rightarrow> string \<Rightarrow> path_error + string" where
  "lib_loop lib path_sz s =
     (case fgets 1024 s of
        None \<Rightarrow> Inl Lib_not_found
      | Some (line_buf, r) \<Rightarrow>
          (case scan lib_fmt line_buf [] of
             Some ([FStr path_buf], e, _) \<Rightarrow>
               if \<not> is_lib_path lib path_buf then lib_loop lib path_sz r
               else if length path_buf \<ge> path_sz then Inl Path_too_small
               else Inr path_buf
           | _ \<Rightarrow> lib_loop lib path_sz r))"
  by pat_completeness auto
termination
  by (relation "measure (\<lambda>(lib, path_sz, s). length s)") (auto dest!: fgets_length)

declare lib_loop.simps [simp del]

definition get_pid_lib_path :: "(string \<Rightarrow> string option) \<Rightarrow> int \<Rightarrow> string \<Rightarrow> nat \<Rightarrow> path_error + string" where
  "get_pid_lib_path fopen pid lib path_sz =
     (let name = ''/proc/'' @ fmt_d pid @ ''/maps''
      in if length name \<ge> 32 then Inl Name_too_long
         else case fopen name of None \<Rightarrow> Inl No_such_pid | Some s \<Rightarrow> lib_loop lib path_sz s)"

text \<open>The last character of what \<^verbatim>\<open>fgets\<close> returns is removed, whatever it is; without one the code would write in
  front of the array.\<close>

definition which_program :: "(string \<Rightarrow> string option) \<Rightarrow> string \<Rightarrow> nat \<Rightarrow> (path_error + string) option" where
  "which_program popen prog path_sz =
     (let cmd = ''which '' @ prog
      in if length cmd \<ge> 100 then Some (Inl Name_too_long)
         else case popen cmd of
                None \<Rightarrow> Some (Inl Popen_failed)
              | Some out \<Rightarrow>
                  (case fgets path_sz out of
                     None \<Rightarrow> Some (Inl No_output)
                   | Some (b, _) \<Rightarrow> if b = [] then None else Some (Inr (butlast b))))"

definition resolve_binary_path ::
    "(string \<Rightarrow> string option) \<Rightarrow> (string \<Rightarrow> string option) \<Rightarrow> (string \<Rightarrow> string option) \<Rightarrow> string \<Rightarrow> int \<Rightarrow> nat \<Rightarrow>
     (path_error + string) option" where
  "resolve_binary_path readlink fopen popen binary pid path_sz =
     (if strcmp binary [] = 0 then
        Some (if pid = 0 then Inl Need_pid_or_binary else get_pid_binary_path readlink pid path_sz)
      else if pid \<noteq> 0 then Some (get_pid_lib_path fopen pid binary path_sz)
      else map_option (\<lambda>r. case r of Inl _ \<Rightarrow> Inl Not_found | Inr p \<Rightarrow> Inr p) (which_program popen binary path_sz))"

section \<open>Programs\<close>

lemma length_fmt_d: "\<bar>n\<bar> < 2 ^ 32 \<Longrightarrow> length (fmt_d n) \<le> 11"
  using dec_length [of "nat \<bar>n\<bar>" 10] by (auto simp: fmt_d_def nat_less_iff)

lemma get_pid_binary_path_spec:
  assumes "\<bar>pid\<bar> < 2 ^ 32" "readlink (''/proc/'' @ fmt_d pid @ ''/exe'') = Some target"
  shows "get_pid_binary_path readlink pid path_sz = (if length target < path_sz then Inr target else Inl Truncated)"
  using assms length_fmt_d [OF assms(1)] by (auto simp: get_pid_binary_path_def Let_def)

lemma which_program_spec:
  assumes "length prog < 94" "popen (''which '' @ prog) = Some (p @ [CHR 0x0A])" "CHR 0x0A \<notin> set p" "1 < path_sz"
  shows "which_program popen prog path_sz = Some (Inr (take (path_sz - 2) p))"
proof -
  have tw: "takeWhile (\<lambda>c. c \<noteq> CHR 0x0A) (p @ [CHR 0x0A]) = p" using assms(3) by (subst takeWhile_append2) auto
  have f: "fgets path_sz (p @ [CHR 0x0A]) = Some (take (path_sz - 1) (p @ [CHR 0x0A]), drop (length (take (path_sz - 1) (p @ [CHR 0x0A]))) (p @ [CHR 0x0A]))"
    unfolding fgets_def tw Let_def by simp
  have "take (path_sz - 1) (p @ [CHR 0x0A]) \<noteq> []" using assms(4) by simp
  moreover have "butlast (take (path_sz - 1) (p @ [CHR 0x0A])) = take (path_sz - 2) p"
  proof (cases "path_sz - 1 \<le> length p")
    case True
    then show ?thesis by (simp add: butlast_take numeral_2_eq_2)
  next
    case False
    then show ?thesis by simp
  qed
  ultimately show ?thesis using assms(1,2) f by (simp add: which_program_def)
qed

section \<open>Libraries\<close>

text \<open>A mapping whose name, if it has one, is a single word, on a line that fits the buffer.\<close>

definition lib_line_ok :: "maps_entry \<Rightarrow> bool" where
  "lib_line_ok x \<longleftrightarrow> maps_line_ok x \<and> (maps_name x = [] \<or> is_word (maps_name x)) \<and> length (maps_line x) < 1024"

lemma scan_lib_line:
  assumes "lib_line_ok x"
  shows "\<exists>e r. scan lib_fmt (maps_line x) [] = Some (if maps_name x = [] then [] else [FStr (maps_name x)], e, r)"
proof -
  let ?pad = "me_pad x" and ?name = "maps_name x"
  have ok: "hex_text (me_start x)" "hex_text (me_end x)" "is_word (maps_perm x)" "hex_text (me_off x)"
     "hex_text (me_major x)" "hex_text (me_minor x)" "dec_text (me_ino x)" "?pad \<noteq> []" "set ?pad \<subseteq> {CHR '' ''}"
     "?name = [] \<or> is_word ?name" "length ?name < 1024"
    using assms by (auto simp: lib_line_ok_def maps_line_ok_def maps_line_def)
  have sp: "is_space (CHR '' '')" "is_space (CHR 0x0A)" "\<not> is_xdigit (CHR '' '')" "\<not> is_xdigit (CHR ''-'')" "\<not> is_space (CHR '':'')"
      "\<not> is_digit (CHR '' '')"
    by (simp_all add: is_space_def is_xdigit_def is_digit_def)
  obtain pad' where pad': "?pad = CHR '' '' # pad'" using ok(8,9) by (cases ?pad) auto
  have words: "is_word (me_major x @ '':'' @ me_minor x)"
    using ok(5,6) sp(5) xdigit_not_special(1) by (auto simp: is_word_def hex_text_def)
  have st: "\<And>w t. is_word w \<Longrightarrow> scan_str None (w @ CHR '' '' # t) = Inl (w, CHR '' '' # t)"
    using sp by (intro scan_str_word) (simp_all add: starts_space_def)
  have dv: "scan_str None (me_major x @ CHR '':'' # me_minor x @ CHR '' '' # t) = Inl (me_major x @ '':'' @ me_minor x, CHR '' '' # t)" for t
    using st [OF words, of t] by simp
  have line: "maps_line x = me_start x @ CHR ''-'' # me_end x @ CHR '' '' # maps_perm x @ CHR '' '' # me_off x @ CHR '' '' #
      me_major x @ CHR '':'' # me_minor x @ CHR '' '' # me_ino x @ CHR '' '' # pad' @ ?name @ [CHR 0x0A]"
    by (simp add: maps_line_def pad')
  have all: "\<forall>c \<in> set pad'. is_space c" using ok(9) sp(1) pad' by auto
  have dr: "dropWhile is_space (pad' @ ?name @ [CHR 0x0A]) = (if ?name = [] then [] else ?name @ [CHR 0x0A])"
    using all ok(10) sp(2) is_word_hd [of ?name "[CHR 0x0A]"] by (auto simp: dropWhile_append2)
  have nm: "is_word ?name \<Longrightarrow> scan_str None (?name @ [CHR 0x0A]) = Inl (?name, [CHR 0x0A])"
    using sp(2) by (intro scan_str_word) (simp_all add: starts_space_def)
  have em: "scan_str None [] = Inr Input_failure" by (simp add: scan_str_def)
  show ?thesis
    unfolding line lib_fmt_def using ok(1-7,10,11) sp
    by (auto simp: scan_number_hex scan_number_dec hex_text_hd dec_text_hd is_word_hd st dv dr nm em store_str_def)
qed

lemma maps_line_no_nl: "maps_line_ok x \<Longrightarrow> CHR 0x0A \<notin> set (butlast (maps_line x))"
proof -
  assume x: "maps_line_ok x"
  have nl: "is_space (CHR 0x0A)" by (simp add: is_space_def)
  have h: "hex_text ds \<Longrightarrow> CHR 0x0A \<notin> set ds" "dec_text ds \<Longrightarrow> CHR 0x0A \<notin> set ds" "is_word ds \<Longrightarrow> CHR 0x0A \<notin> set ds" for ds
    using nl xdigit_not_special(1) digit_not_special(1) by (auto simp: hex_text_def dec_text_def is_word_def)
  have l: "butlast (maps_line x) = me_start x @ ''-'' @ me_end x @ '' '' @ maps_perm x @ '' '' @ me_off x @ '' '' @ me_major x @ '':'' @
      me_minor x @ '' '' @ me_ino x @ me_pad x @ maps_name x"
    by (simp add: maps_line_def butlast_append)
  show ?thesis unfolding l using x by (auto simp: maps_line_ok_def dest: h)
qed

text \<open>The first mapping of the library.\<close>

lemma lib_loop_spec:
  assumes "\<forall>x \<in> set es. lib_line_ok x"
  shows "lib_loop lib path_sz (concat (map maps_line es)) =
    (case find (is_lib_path lib) (map maps_name es) of
       None \<Rightarrow> Inl Lib_not_found
     | Some p \<Rightarrow> if length p \<ge> path_sz then Inl Path_too_small else Inr p)"
  using assms
proof (induction es)
  case Nil
  then show ?case by (simp add: lib_loop.simps fgets_def)
next
  case (Cons x es)
  let ?tail = "concat (map maps_line es)"
  have x: "lib_line_ok x" using Cons.prems by simp
  obtain l where l: "maps_line x = l @ [CHR 0x0A]" "CHR 0x0A \<notin> set l" "length l < 1023"
  proof
    let ?l = "butlast (maps_line x)"
    show "maps_line x = ?l @ [CHR 0x0A]" by (simp add: maps_line_def butlast_append)
    show "CHR 0x0A \<notin> set ?l" using x maps_line_no_nl by (simp add: lib_line_ok_def)
    show "length ?l < 1023" using x by (auto simp: lib_line_ok_def)
  qed
  have f: "fgets 1024 (maps_line x @ ?tail) = Some (maps_line x, ?tail)"
    using fgets_line [OF l(2), of 1024 ?tail] l by simp
  obtain e r where sc: "scan lib_fmt (maps_line x) [] = Some (if maps_name x = [] then [] else [FStr (maps_name x)], e, r)"
    using scan_lib_line [OF x] by blast
  have "\<not> is_lib_path lib []" by (simp add: is_lib_path_def strrchr_def)
  then show ?case using Cons by (subst lib_loop.simps) (auto simp: f sc)
qed

end
