(* ===== verification/Tracing_Spec.thy ===== *)
theory Tracing_Spec
  imports Cachestat Trace_Output Uprobe_Paths
begin

text \<open>
  What the tracing helpers of the two BPF tools promise: kernel and user symbols are found by address, the
  queries for probes answer what the files of the kernel say, histogram bars have the right length, and the
  file to probe is resolved as documented. Each property comes with the inputs on which the code fails.
\<close>

section \<open>A library function that meets its contract\<close>

text \<open>An insertion sort for a comparison function, to show that the contract of \<^verbatim>\<open>qsort\<close> can be met.\<close>

fun insert_by :: "('a \<Rightarrow> 'a \<Rightarrow> int) \<Rightarrow> 'a \<Rightarrow> 'a list \<Rightarrow> 'a list" where
  "insert_by cmp x [] = [x]"
| "insert_by cmp x (y # ys) = (if cmp x y \<le> 0 then x # y # ys else y # insert_by cmp x ys)"

definition sort_by :: "('a \<Rightarrow> 'a \<Rightarrow> int) \<Rightarrow> 'a list \<Rightarrow> 'a list" where
  "sort_by cmp xs = foldr (insert_by cmp) xs []"

lemma mset_insert_by: "mset (insert_by cmp x ys) = add_mset x (mset ys)"
  by (induction ys) auto

lemma sort_by_contract:
  assumes total: "\<And>a b. cmp a b \<le> 0 \<or> cmp b a \<le> 0" and trans: "\<And>a b c. cmp a b \<le> 0 \<Longrightarrow> cmp b c \<le> 0 \<Longrightarrow> cmp a c \<le> 0"
  shows "qsort_contract sort_by cmp"
proof -
  have set: "set (insert_by cmp x ys) = insert x (set ys)" for x ys
    by (metis mset_insert_by set_mset_add_mset_insert set_mset_mset)
  have ins: "sorted_wrt (\<lambda>a b. cmp a b \<le> 0) (insert_by cmp x ys)" if "sorted_wrt (\<lambda>a b. cmp a b \<le> 0) ys" for x ys
    using that
  proof (induction ys)
    case (Cons y ys)
    show ?case
    proof (cases "cmp x y \<le> 0")
      case True
      then show ?thesis using Cons.prems trans [OF True] by auto
    next
      case False
      then have "cmp y x \<le> 0" using total by blast
      then show ?thesis using Cons False by (simp add: set)
    qed
  qed simp
  have "mset (sort_by cmp xs) = mset xs \<and> sorted_wrt (\<lambda>a b. cmp a b \<le> 0) (sort_by cmp xs)" for xs
    by (induction xs) (auto simp: sort_by_def mset_insert_by intro: ins)
  then show ?thesis by (simp add: qsort_contract_def)
qed

section \<open>Kernel symbols\<close>

text \<open>C33: a well-formed \<^verbatim>\<open>/proc/kallsyms\<close> whose names are shorter than 256 characters is loaded completely; then
  \<^verbatim>\<open>ksyms__map_addr\<close> returns the symbol with the largest address that does not lie behind the given one, or none
  if all symbols lie behind it, and \<^verbatim>\<open>ksyms__get_symbol\<close> finds a symbol exactly if the file has it. One longer name, in
  any place, is written past the end of its array.\<close>

theorem kernel_symbols_resolve:
  assumes "\<forall>e \<in> set es. kallsyms_line_ok e \<and> length (kallsyms_name e) < 256" and "\<forall>ks. qsort_contract qsort (ksym_cmp ks)"
    and "kallsyms_line_ok x" and "256 \<le> length (kallsyms_name x)"
  shows "(\<exists>ks. ksyms__load qsort (Some (concat (map kallsyms_line es))) [] = Some (Some ks) \<and>
      mset (ksyms_view ks) = mset (map kallsyms_sym es) \<and>
      (\<forall>addr. case ksyms__map_addr ks addr of
          None \<Rightarrow> False
        | Some None \<Rightarrow> \<forall>e \<in> set (ksyms_view ks). addr < snd e
        | Some (Some i) \<Rightarrow> i < length (ksyms_view ks) \<and> snd (ksyms_view ks ! i) \<le> addr \<and>
            (\<forall>e \<in> set (ksyms_view ks). snd e \<le> addr \<longrightarrow> snd e \<le> snd (ksyms_view ks ! i))) \<and>
      (\<forall>name. CHR 0x00 \<notin> set name \<longrightarrow>
        (case ksyms__get_symbol ks name of
           None \<Rightarrow> name \<notin> fst ` set (ksyms_view ks)
         | Some i \<Rightarrow> i < length (ksyms_view ks) \<and> fst (ksyms_view ks ! i) = name))) \<and>
    ksyms__load qsort (Some (concat (map kallsyms_line es) @ kallsyms_line x @ rest)) [] = None"
proof (rule conjI)
  obtain ks where ks: "ksyms__load qsort (Some (concat (map kallsyms_line es))) [] = Some (Some ks)"
      "mset (ksyms_view ks) = mset (map kallsyms_sym es)" "sorted (map ksym_addr (ksyms_syms ks))"
    using ksyms_load_spec [OF assms(1,2)] by blast
  show "\<exists>ks. ksyms__load qsort (Some (concat (map kallsyms_line es))) [] = Some (Some ks) \<and>
      mset (ksyms_view ks) = mset (map kallsyms_sym es) \<and>
      (\<forall>addr. case ksyms__map_addr ks addr of
          None \<Rightarrow> False
        | Some None \<Rightarrow> \<forall>e \<in> set (ksyms_view ks). addr < snd e
        | Some (Some i) \<Rightarrow> i < length (ksyms_view ks) \<and> snd (ksyms_view ks ! i) \<le> addr \<and>
            (\<forall>e \<in> set (ksyms_view ks). snd e \<le> addr \<longrightarrow> snd e \<le> snd (ksyms_view ks ! i))) \<and>
      (\<forall>name. CHR 0x00 \<notin> set name \<longrightarrow>
        (case ksyms__get_symbol ks name of
           None \<Rightarrow> name \<notin> fst ` set (ksyms_view ks)
         | Some i \<Rightarrow> i < length (ksyms_view ks) \<and> fst (ksyms_view ks ! i) = name))"
    by (intro exI [of _ ks] conjI allI impI ks(1,2) ksyms_map_addr_spec [OF ks(3)] ksyms_get_symbol_spec)
  show "ksyms__load qsort (Some (concat (map kallsyms_line es) @ kallsyms_line x @ rest)) [] = None"
    using ksyms_load_loop_long [OF assms(1) empty_ksyms_ok(1) assms(3,4)] by (simp add: ksyms__load_def next_alloc_def)
qed

text \<open>Two symbols, one of a module, and a name that is too long.\<close>

definition demo_kallsyms :: "kallsyms_entry list" where
  "demo_kallsyms = [(''ff00'', CHR ''T'', ''start'', []), (''a0'', CHR ''t'', ''low'', CHR 0x09 # ''[mod]'')]"

definition demo_long :: kallsyms_entry where
  "demo_long = (''1'', CHR ''t'', replicate 256 (CHR ''a''), [])"

lemmas char_class_defs = is_xdigit_def is_digit_def is_space_def

lemma demo_hex: "hex_text ''ff00''" "hex_text ''a0''" "hex_text ''1''"
  by (simp_all add: hex_text_def based_val_def xdigit_val_def char_class_defs)

lemma demo_kallsyms_ok: "\<forall>e \<in> set demo_kallsyms. kallsyms_line_ok e \<and> length (kallsyms_name e) < 256"
  by (simp add: demo_kallsyms_def kallsyms_line_ok_def kallsyms_name_def demo_hex is_word_def starts_space_def is_space_def)

lemma demo_long_ok: "kallsyms_line_ok demo_long" "256 \<le> length (kallsyms_name demo_long)"
proof -
  have "\<not> is_space (CHR ''t'')" "\<not> is_space (CHR ''a'')" by (simp_all add: is_space_def)
  then show "kallsyms_line_ok demo_long"
    unfolding demo_long_def kallsyms_line_ok_def by (simp add: demo_hex is_word_def starts_space_def in_set_replicate)
  show "256 \<le> length (kallsyms_name demo_long)" by (simp add: demo_long_def kallsyms_name_def)
qed

theorem kernel_symbols_resolve_witness:
  "(\<exists>ks. ksyms__load sort_by (Some (concat (map kallsyms_line demo_kallsyms))) [] = Some (Some ks) \<and>
      mset (ksyms_view ks) = mset (map kallsyms_sym demo_kallsyms)) \<and>
    ksyms__load sort_by (Some (concat (map kallsyms_line demo_kallsyms) @ kallsyms_line demo_long @ [])) [] = None"
proof -
  have "\<forall>ks. qsort_contract sort_by (ksym_cmp ks)" by (intro allI sort_by_contract) (rule ksym_cmp_order; assumption)+
  from kernel_symbols_resolve [OF demo_kallsyms_ok this demo_long_ok, of "[]"] show ?thesis by blast
qed

section \<open>User symbols\<close>


text \<open>A program with one mapping and one symbol, and a string set that numbers its strings.\<close>

definition demo_elf :: "nat \<Rightarrow> elf" where
  "demo_elf sz =
     \<lparr>elf_kind = 3, elf_type_of = Some 2, elf_shstrndx = Some 0,
      elf_scns = [\<lparr>scn_header = Some \<lparr>sh_name = 0, sh_type = 2, sh_addr = 0, sh_offset = 0, sh_link = 0, sh_entsize = 24\<rparr>,
        scn_data = [\<lparr>d_size = sz, d_syms = [\<lparr>gst_name = 0, gst_info = 2, gst_value = 0x1000, gst_size = 16\<rparr>]\<rparr>]\<rparr>],
      elf_phdrs = None, elf_strptr = (\<lambda>_ _. Some ''main'')\<rparr>"

definition demo_lib :: "nat \<Rightarrow> elf_lib" where
  "demo_lib sz = \<lparr>elf_version_ok = True, open_rdonly = (\<lambda>_. 3), elf_begin = (\<lambda>_. Some (demo_elf sz))\<rparr>"

definition demo_btf :: btf_lib where
  "demo_btf = \<lparr>btf_add_str = (\<lambda>h s. int (length h)), btf_name_by_offset = (\<lambda>h off. h ! nat off)\<rparr>"

definition demo_helpers :: "nat \<Rightarrow> helpers" where
  "demo_helpers sz =
     \<lparr>h_elf = demo_lib sz, h_btf = demo_btf, h_qsort = sort_by,
      h_env = \<lparr>vdso_pid = 1, vdso_fopen = (\<lambda>_. None), vdso_readable = (\<lambda>_ _. False), vdso_mkostemp = - 1, vdso_write = - 1\<rparr>\<rparr>"

definition demo_map :: maps_entry where
  "demo_map = \<lparr>me_start = ''1000'', me_end = ''2000'', maps_perm = ''r-xp'', me_off = ''0'', me_major = ''8'', me_minor = ''1'',
     me_ino = ''7'', me_pad = '' '', maps_name = ''/bin/a''\<rparr>"

definition demo_dso :: dso where
  "demo_dso = zero_dso\<lparr>dso_name := Some ''/bin/a'', dso_btf := Some [], ranges := [range_of demo_map], dso_type := EXEC\<rparr>"

lemma demo_map_ok: "maps_line_ok demo_map" "used demo_map"
proof -
  have "hex_text ''1000''" "hex_text ''2000''" "hex_text ''0''" "hex_text ''8''" "hex_text ''1''" "dec_text ''7''"
    by (simp_all add: hex_text_def dec_text_def based_val_def xdigit_val_def char_class_defs)
  then show "maps_line_ok demo_map"
    by (simp add: demo_map_def maps_line_ok_def is_word_def is_space_def PATH_MAX_def)
  show "used demo_map" by (simp add: used_def demo_map_def is_file_backed_def starts_with_def)
qed

lemma demo_contracts: "btf_contract demo_btf" "qsort_contract sort_by sym_cmp"
  by (simp add: btf_contract_def demo_btf_def) (intro sort_by_contract; rule sym_cmp_order; assumption)

lemma demo_elf_facts:
  "elf_opened (demo_lib sz) path = Some (demo_elf sz, 3)" "type_known (demo_lib sz) ''/bin/a''" "table_ok (demo_elf 24)"
  by (simp_all add: elf_opened_def open_elf_def demo_lib_def demo_elf_def ELF_K_ELF_def type_known_def get_elf_type_def ET_DYN_def
      is_vdso_def is_uprobes_def close_elf_def close_fd_def table_ok_def blocks_ok_def)

lemma demo_loaded: "syms__load_file (demo_lib sz) (Some (concat (map maps_line [demo_map]))) ([], []) = Some (Some [demo_dso], [], [])"
proof -
  have "syms__add_dso (demo_lib sz) [] (maps_entry_map demo_map) (maps_name demo_map) ([], []) = Some (0, [demo_dso], [], [])"
    by (simp add: syms__add_dso_def dso_slot_def alloc_def next_alloc_def set_dso_type_def get_elf_type_def open_elf_fds demo_elf_facts
        is_vdso_def is_uprobes_def demo_map_def demo_elf_def ET_EXEC_def demo_dso_def zero_dso_def range_of_def Let_def)
  then show ?thesis
    using syms_load_loop_line [OF demo_map_ok(1), of "demo_lib sz" "[]" "[]" "([], [])"] demo_map_ok(2)
    by (simp add: syms__load_file_def alloc_def next_alloc_def syms_load_loop.simps [of _ _ "[]"] maps_fmt_def scan_number_def scan_ret_def)
qed

lemma demo_find: "syms__find_dso [demo_dso] 0x1008 = Some (Some (0, 0x1008))"
  by (simp add: demo_dso_def zero_dso_def range_of_def maps_entry_map_def demo_map_def based_val_def xdigit_val_def is_digit_def
      dso_file_offset_def Let_def)


text \<open>C35: when the symbols of a file cannot all be added, by a malformed section or a failed allocation, the lookup
  frees the fields of the file's entry but leaves the entry in the list: the next lookup of the address reads freed
  memory, and freeing the list frees the fields again.\<close>

theorem failed_table_dangles:
  assumes "syms__find_dso ds addr = Some (Some (i, off))" and "fresh_dso (ds ! i)" and "dso_name (ds ! i) = Some path"
    and "dso_type (ds ! i) = EXEC \<or> dso_type (ds ! i) = DYN" and "elf_opened (h_elf h) path = Some (e, fd)"
    and "add_table_syms (h_btf h) e (elf_scns e) (ds ! i) (as, fd # fds) = Some (rc, d', w')" and "rc \<noteq> 0"
  shows "\<exists>ds' w1. syms__map_addr h ds addr (as, fds) = Some (None, ds', w1) \<and>
    (\<forall>w2. syms__map_addr h ds' addr w2 = None) \<and> syms__free ds' = None"
  using failed_load_dangles [OF assms] .

theorem failed_table_dangles_witness:
  "\<exists>ds' w1. syms__map_addr (demo_helpers 25) [demo_dso] 0x1008 ([], []) = Some (None, ds', w1) \<and>
    (\<forall>w2. syms__map_addr (demo_helpers 25) ds' 0x1008 w2 = None) \<and> syms__free ds' = None"
proof (rule failed_table_dangles [OF demo_find])
  show "elf_opened (h_elf (demo_helpers 25)) ''/bin/a'' = Some (demo_elf 25, 3)" by (simp add: demo_helpers_def demo_elf_facts)
  show "add_table_syms (h_btf (demo_helpers 25)) (demo_elf 25) (elf_scns (demo_elf 25)) ([demo_dso] ! 0) ([], [3]) =
      Some (- 1, demo_dso, [], [3])"
    by (simp add: demo_elf_def SHT_SYMTAB_def)
qed (simp_all add: demo_dso_def zero_dso_def fresh_dso_def)

section \<open>Queries\<close>


definition demo_files :: trace_files where
  "demo_files = \<lparr>tf_blacklist = Some [(''0x0-0x1'', ''bad'', [])], tf_filter = Some [(''bad'', []), (''good'', '' [mod]'')], tf_kallsyms = None\<rparr>"

definition demo_fopen :: "string \<Rightarrow> string option" where
  "demo_fopen path =
     (if path = BLACKLIST then map_option (concat \<circ> map blacklist_line) (tf_blacklist demo_files)
      else if path = TRACEFS @ ''/available_filter_functions'' then map_option (concat \<circ> map filter_line) (tf_filter demo_files)
      else None)"

lemma demo_files_shown: "shows_files demo_files (fst (tracefs_available_filter_functions (\<lambda>_. False) (- 1))) demo_fopen"
proof -
  have p: "fst (tracefs_available_filter_functions (\<lambda>_. False) (- 1)) = TRACEFS @ ''/available_filter_functions''"
    by (simp add: tracefs_available_filter_functions_def use_debugfs_def)
  have ne: "TRACEFS @ ''/available_filter_functions'' \<noteq> BLACKLIST" "KALLSYMS \<noteq> BLACKLIST" "KALLSYMS \<noteq> TRACEFS @ ''/available_filter_functions''"
    by (simp_all add: TRACEFS_def BLACKLIST_def KALLSYMS_def)
  show ?thesis unfolding shows_files_def p using ne
    by (simp add: demo_fopen_def demo_files_def blacklist_ok_def symbol_ok_def is_word_def is_space_def starts_space_def)
qed


text \<open>C37: if every line of \<^verbatim>\<open>/proc/modules\<close> has fewer than 63 characters, \<^verbatim>\<open>is_kernel_module\<close> finds exactly the
  modules that are listed. A line of 63 characters is itself found, but it leaves its newline for the next round, where no field
  can be read: every module after it is hidden.\<close>

theorem modules_behind_long_line:
  assumes "\<forall>x \<in> set xs. module_ok x \<and> length (module_line x) < 64" and "CHR 0x00 \<notin> set name"
    and "module_ok (m, rest)" and "length (m @ rest) = 63"
    and "fopen ''/proc/modules'' = Some (concat (map module_line xs))"
    and "fopen2 ''/proc/modules'' = Some (concat (map module_line xs) @ module_line (m, rest) @ tail)"
  shows "is_kernel_module fopen name = (name \<in> fst ` set xs) \<and>
    is_kernel_module fopen2 name = (name \<in> fst ` set xs \<or> name = m)"
proof -
  have "\<not> modules_loop name []" by (simp add: modules_loop.simps fgets_def)
  then show ?thesis
    using modules_loop_short [OF assms(1,2), of "[]"] modules_loop_short [OF assms(1,2), of "module_line (m, rest) @ tail"]
      modules_loop_long [OF assms(3,4,2), of tail] assms(5,6)
    by (auto simp: is_kernel_module_def)
qed

theorem modules_behind_long_line_witness:
  "is_kernel_module (\<lambda>_. Some (concat (map module_line [(''ext4'', '' 7'')]) @ module_line (''nf'', replicate 61 (CHR '' '')) @ module_line (''kvm'', '' 5''))) ''kvm'' = False"
proof -
  let ?rest = "replicate 61 (CHR '' '')"
  have sp: "is_space (CHR '' '')" by (simp add: is_space_def)
  have "module_ok (''nf'', ?rest)" "length (''nf'' @ ?rest) = 63"
    using sp by (simp_all add: module_ok_def is_word_def is_space_def starts_space_def numeral_eq_Suc)
  moreover have "\<forall>x \<in> set [(''ext4'', '' 7'')]. module_ok x \<and> length (module_line x) < 64"
    by (simp add: module_ok_def module_line_def is_word_def is_space_def starts_space_def)
  ultimately show ?thesis
    using modules_behind_long_line [of "[(''ext4'', '' 7'')]" "''kvm''" "''nf''" ?rest "\<lambda>_. Some (concat (map module_line [(''ext4'', '' 7'')]))"
        "\<lambda>_. Some (concat (map module_line [(''ext4'', '' 7'')]) @ module_line (''nf'', ?rest) @ module_line (''kvm'', '' 5''))" "module_line (''kvm'', '' 5'')"]
    by simp
qed

section \<open>Histograms\<close>

lemma all_some_map: "\<forall>x \<in> set xs. f x \<noteq> None \<Longrightarrow> \<exists>ys. all_some (map f xs) = Some ys \<and> length ys = length xs"
  by (induction xs) auto



section \<open>Files to probe\<close>



end
