(* ===== verification/Spec2Isabelle.thy ===== *)
theory Spec2Isabelle
  imports Races Tool_Mains Tracing_Spec
begin

text \<open>
  A verification of the archival deduplicating file system, a FUSE pass-through file system that keeps
  the contents of all files as 4096-byte blocks in one master file, each distinct block stored
  once, and of the two BPF tools that measure it.

  \<^bold>\<open>The program and its parts.\<close> FUSE calls the handlers of \<^verbatim>\<open>src/passthrough.c\<close>. Names, permissions and
  directories live in the underlying file system and are passed through to the kernel; reads, writes,
  truncations and removals of contents go to the deduplication layer \<^verbatim>\<open>src/dedup.c\<close>. That layer works on
  the index of \<^verbatim>\<open>src/metaindex.c\<close> (which block of which file is which object, which digest is which
  object, the logical sizes, the free slots of the master file), hashes blocks with \<^verbatim>\<open>src/hashing.c\<close> and
  reads and writes the master file. The index is loaded at mount and saved at unmount by
  \<^verbatim>\<open>src/persistence.c\<close>. \<^verbatim>\<open>bpf_programs/syscounter\<close> counts system calls and their duration per process and
  \<^verbatim>\<open>bpf_programs/cachestat\<close> samples page cache hits and misses.

  \<^bold>\<open>Which theory models what.\<close>
  \<^item> \<open>Fs_Prelude\<close>: machine types, block arithmetic, the collections of rules, facts on lists, maps and words.
  \<^item> \<open>Posix_Files\<close>: \<^verbatim>\<open>pread\<close>, \<^verbatim>\<open>pwrite\<close> and \<^verbatim>\<open>memcpy\<close> on lists of bytes; every call may succeed, be short or fail.
  \<^item> \<open>Hashing\<close>, \<open>Metaindex\<close>: \<^verbatim>\<open>hash\<close>, the key functions and the operations of the index over an explicit heap.
  \<^item> \<open>Index_Invariant\<close>: the invariant of the index with its ghost state and the primitive steps that keep it.
  \<^item> \<open>Block_Sort\<close>, \<open>Dedup_Read\<close>: \<^verbatim>\<open>insertion_sort\<close>, \<^verbatim>\<open>cmp_master_idx\<close> and \<^verbatim>\<open>read_dedup\<close>.
  \<^item> \<open>Dedup_Remove\<close>: \<^verbatim>\<open>remove_block_dedup\<close> and \<^verbatim>\<open>remove_blocks_dedup_batch\<close>.
  \<^item> \<open>Write_Plan\<close>, \<open>Write_Flush\<close>, \<open>Dedup_Write\<close>: the passes of \<^verbatim>\<open>write_dedup\<close> (plan, allocate, flush in
    coalesced runs, roll back or publish and map, update the size).
  \<^item> \<open>Dedup_Spec\<close>: the abstract state of the store (contents of blocks, sizes of files) and the refinement.
  \<^item> \<open>Buffered_IO\<close>, \<open>Codecs\<close>, \<open>Persistence\<close>, \<open>Index_Persistence\<close>: the buffered streams, the byte
    layouts, the files of tables and lists, and \<^verbatim>\<open>index_init\<close> and \<^verbatim>\<open>index_destroy\<close>.
  \<^item> \<open>Passthrough\<close>, \<open>Passthrough_Spec\<close>, \<open>Remount\<close>: every FUSE handler over a kernel that is a parameter, the
    requests of a mounted file system as a step relation, and the unmount and mount cycle.
  \<^item> \<open>Section_Frames\<close>, \<open>Interleaving\<close>, \<open>Interleaving_Steps\<close>, \<open>Handler_Sections\<close>, \<open>Interleaving_Runs\<close>, \<open>Reader_Sections\<close>,
    \<open>Races\<close>: any number of writes, unlinks and truncates at once, interleaved at the points where the code
    releases its locks, with the invariant of all running operations together, reads among them, and three concrete races.
    The first pass of a write holds the lock for reading only; it reads the tables and adds to counters atomically, so the
    first passes of several writers commute and are taken as one section each.
  \<^item> \<open>Bpf_Maps\<close>, \<open>Syscounter_Bpf\<close>, \<open>C_Format\<close>, \<open>Syscall_Table\<close>, \<open>Syscounter\<close>, \<open>Cachestat\<close>, \<open>Tool_Mains\<close>: the BPF
    programs, the reports of the two tools and their \<^verbatim>\<open>main\<close> functions.
  \<^item> \<open>C_Scanf\<close>: \<^verbatim>\<open>fscanf\<close>, \<^verbatim>\<open>sscanf\<close> and \<^verbatim>\<open>fgets\<close> on lists of characters, with the writes of an unbounded \<^verbatim>\<open>%s\<close>.
  \<^item> \<open>Kernel_Symbols\<close>, \<open>Elf_Files\<close>, \<open>User_Symbols\<close>, \<open>User_Symbols_Spec\<close>, \<open>Trace_Probes\<close>, \<open>Trace_Output\<close>: \<^verbatim>\<open>trace_helpers.c\<close>, the
    symbols of kernel and processes, ELF files over libelf as a parameter, the queries for probes, histograms and conversions.
  \<^item> \<open>Uprobe_Paths\<close>, and \<open>Elf_Files\<close> for the access to ELF files: \<^verbatim>\<open>uprobe_helpers.c\<close>.
  \<^item> \<open>Tracing_Spec\<close>: what the tracing helpers promise.

  \<^bold>\<open>How state and errors correspond.\<close> A C struct is a record with the names of its fields. An address of a
  \<^verbatim>\<open>MasterInfo\<close> is a number and \<open>minfos\<close> of the index is the heap: an access to an address that is not
  allocated, or outside a buffer, gives \<open>None\<close>, so a theorem that a function returns \<open>Some\<close> also says that
  the C code makes no such access. Error numbers are results, negative as in the code. 64-bit
  values are words; where the code divides or compares signed values the model does so too.

  \<^bold>\<open>What the theorems show.\<close> The store refines its abstract specification and keeps its invariant in
  every reachable state and for every outcome of the system calls; writes are atomic against failing
  calls; no slot is leaked and no block is stored twice; a write is read back through
  the FUSE handlers; all requests of the file system keep the invariant; an unmount and a mount
  preserve contents and sizes when no write failed. Writes, unlinks and truncates that run at the same time touch
  only allocated memory and are linearizable in the order of their write-locked sections, as long as the
  blocks of one write differ from each other, and from every state all of them can be brought to their end;
  a read among them returns the blocks of its lookup if nobody changes its file; the sections of
  an operation that runs alone are the sequential function. The saved index is loaded again, and the buffered
  reader streams, under short reads. The counters of the tools are exact within the limits of their maps. The tracing helpers
  find symbols, probes, modules and files as documented, within the bounds of their arrays. Several theorems state
  behaviour that the code does not intend: the dangling pointer after a lost race of two writers, the
  read that returns the data of another file, the blocks a write leaves behind when it runs between the sections of an
  unlink, the slot that is handed out twice after a failed append
  and a remount, the buffer overflow after a failed flush, the silent truncation of a saved index,
  the data lost by a refused unlink, the contents that a rename leaves behind, the probe that counts
  twice, the overflow of the list of labels, the symbol name that leaves its array, the freed entry of a
  failed symbol table, the modules behind a long line, the empty bar of a large count, the path that is cut silently, and
  the tools that end with success or an undefined status after a failure.

  \<^bold>\<open>Hypotheses, bounds and fuel.\<close> SHA-512, \<^verbatim>\<open>qsort\<close>, the enumeration order of GLib's tables and the kernel are
  parameters with their documented contracts. Freedom from collisions is assumed only for the blocks
  a statement names. A request must fit the 63-bit range of offsets (\<open>request_fits\<close>), so at most
  \<open>2 ^ 51\<close> slots exist and no block number wraps. The outcomes of system calls are a finite list; an
  exhausted list means success. Only \<open>readdir_loop\<close> takes fuel, the number of entries the kernel returns;
  all other loops are total functions. The drivers \<open>finish\<close>, \<open>finish_handler\<close> and \<open>finish_read\<close> run the sections of one operation
  a given number of times; the theorems say how many are enough. libelf, the string set of libbpf, the files of \<^verbatim>\<open>/proc\<close> and
  \<^verbatim>\<open>/sys\<close>, \<^verbatim>\<open>readlink\<close> and \<^verbatim>\<open>popen\<close> are parameters too. The numbers of symbols, ranges and partitions are natural numbers: the 32-bit
  counters of the code overflow only beyond \<open>2 ^ 29\<close> entries. Every \<^verbatim>\<open>realloc\<close>, \<^verbatim>\<open>calloc\<close> and \<^verbatim>\<open>strdup\<close> of the symbol tables may fail.

  \<^bold>\<open>Not modelled.\<close> Log output, messages to \<^verbatim>\<open>stderr\<close> and debug counters that are only printed; the text of floating-point
  numbers and of the clock; the skeletons that libbpf generates; the way \<^verbatim>\<open>argp\<close> splits the command line;
  \<^verbatim>\<open>ksyms__free\<close> and \<^verbatim>\<open>partitions__free\<close>, which only release memory; and the shell and Python scripts around the program.
\<close>

section \<open>A concrete instance for the witnesses\<close>

text \<open>A digest function, a block and a \<^verbatim>\<open>qsort\<close> that meet the contracts of the library functions.\<close>

definition demo_sha :: "byte list \<Rightarrow> digest" where
  "demo_sha m = take 64 (m @ replicate 64 0)"

definition demo_block :: "byte list" where
  "demo_block = replicate BLOCK_SIZE 7"

definition demo_store :: store where
  "demo_store = (empty_index, [], 0)"

definition demo_qsort :: "(BlockPair \<Rightarrow> BlockPair \<Rightarrow> int) \<Rightarrow> BlockPair list \<Rightarrow> BlockPair list" where
  "demo_qsort cmp ps = insertion_sort ps (length ps)"

lemma demo_qsort_contract: "qsort_contract demo_qsort cmp_master_idx"
  using insertion_sort_spec by (auto simp: qsort_contract_def demo_qsort_def cmp_master_idx_le sorted_map)

lemma demo_request:
  "store_ok demo_sha demo_store" "request_fits demo_store 4096 0" "unat (4096 :: u64) = 1 * BLOCK_SIZE"
  "unat (4096 :: u64) \<le> length demo_block" "errno_contract []"
  "no_collision demo_sha (stored demo_store \<union> set (buf_blocks demo_block 1))"
  using store_ok_empty [of demo_sha]
  by (simp_all add: demo_store_def demo_block_def empty_index_def BLOCK_SIZE_def errno_contract_def no_collision_def
      stored_blocks_def buf_blocks_def)

text \<open>A reachable state with two equal blocks in a file.\<close>

lemma off_div_block_0 [simp]: "off_div_block 0 = 0"
  by (simp add: off_div_block_def)

lemma demo_written:
  "\<exists>idx master nxt. store_reach demo_sha (idx, master, nxt) \<and>
    view (idx, master, nxt) = spec_write ''/f'' 0 [demo_block, demo_block] (view demo_store)"
proof -
  let ?buf = "demo_block @ demo_block"
  have b: "buf_blocks ?buf 2 = [demo_block, demo_block]"
    by (simp add: buf_blocks_def upt_rec block_at_def demo_block_def)
  have sz: "unat (8192 :: u64) = 2 * BLOCK_SIZE" "unat (8192 :: u64) \<le> length ?buf"
    by (simp_all add: demo_block_def BLOCK_SIZE_def)
  have fits: "request_fits demo_store 8192 0"
    by (simp add: demo_store_def empty_index_def BLOCK_SIZE_def)
  have nc: "no_collision demo_sha (stored demo_store \<union> set (buf_blocks ?buf 2))"
    by (simp add: b no_collision_def demo_store_def stored_blocks_def empty_index_def)
  obtain r st' where w: "write_dedup demo_sha [] demo_store ''/f'' ?buf 8192 0 = Some (r, st')"
    and v: "view st' = spec_write ''/f'' 0 [demo_block, demo_block] (view demo_store)"
    using write_dedup_store [OF demo_request(1) fits sz(1) _ sz(2) demo_request(5), of "''/f''"] nc b by auto
  have "store_reach demo_sha st'"
    by (rule reach_write [OF reach_init [of demo_sha, folded demo_store_def] w demo_request(5) sz(2) fits])
  then show ?thesis using v by (cases st') auto
qed

section \<open>The deduplication layer\<close>

text \<open>C1: a write of whole blocks whose system calls succeed returns the number of bytes, keeps the
  invariant of the store and does to the contents and sizes of the files exactly what the abstract
  specification says, provided no two different blocks involved share a SHA-512 digest.\<close>

theorem write_refines_spec:
  assumes "store_ok SHA512 st" and "request_fits st sz off" and "unat sz = n * BLOCK_SIZE" "0 < n"
    and "unat sz \<le> length buf" and "no_collision SHA512 (stored st \<union> set (buf_blocks buf n))"
  shows "\<exists>st'. write_dedup SHA512 [] st path buf sz off = Some (c_int (of_nat n * BLOCK_SIZE64), st') \<and>
    store_ok SHA512 st' \<and> view st' = spec_write path (off_div_block off) (buf_blocks buf n) (view st)"
  using write_dedup_store [OF assms(1-5), of "[]" path] assms(6) by (auto simp: errno_contract_def)

theorem write_refines_spec_witness:
  "\<exists>st'. write_dedup demo_sha [] demo_store ''/f'' demo_block 4096 0 = Some (c_int (of_nat 1 * BLOCK_SIZE64), st') \<and>
    store_ok demo_sha st' \<and> view st' = spec_write ''/f'' (off_div_block 0) (buf_blocks demo_block 1) (view demo_store)"
  using write_refines_spec [OF demo_request(1,2,3) _ demo_request(4,6)] by simp

text \<open>C2: whatever the system calls return, a write of whole blocks never touches memory it does not
  own and keeps the invariant; either every block of the range now holds a block with the digest of
  its payload and nothing else changed, or it returns a negative errno and the tables, the objects,
  the contents and the sizes are what they were.\<close>

theorem write_all_or_nothing:
  assumes "store_ok SHA512 st" and "request_fits st sz off" and "unat sz = n * BLOCK_SIZE" "0 < n"
    and "unat sz \<le> length buf" and "errno_contract io"
  shows "\<exists>r st'. write_dedup SHA512 io st path buf sz off = Some (r, st') \<and> store_ok SHA512 st' \<and>
    (r < 0 \<and> view st' = view st \<and> rolled_back (fst st) (fst st') \<or>
     r = c_int (of_nat n * BLOCK_SIZE64) \<and>
     write_blocks SHA512 (stored st) path (off_div_block off) buf n (view_block (view st)) (view_block (view st')))"
  using write_dedup_store [OF assms, of path] by blast

theorem write_all_or_nothing_witness:
  "\<exists>r st'. write_dedup demo_sha [IoErr 5] demo_store ''/f'' demo_block 4096 0 = Some (r, st') \<and> store_ok demo_sha st' \<and>
    (r < 0 \<and> view st' = view demo_store \<and> rolled_back (fst demo_store) (fst st') \<or>
     r = c_int (of_nat 1 * BLOCK_SIZE64) \<and>
     write_blocks demo_sha (stored demo_store) ''/f'' (off_div_block 0) demo_block 1 (view_block (view demo_store)) (view_block (view st')))"
  using write_all_or_nothing [OF demo_request(1,2,3) _ demo_request(4), of "[IoErr 5]"] by (simp add: errno_contract_def)

text \<open>C3: a read of whole blocks returns, for every outcome of its system calls, either the leading
  mapped blocks of the range, byte for byte and at their places, leaving the rest of the buffer
  alone, or \<^verbatim>\<open>-EIO\<close> or \<^verbatim>\<open>-ENOMEM\<close>; it never writes outside the buffer.\<close>

theorem read_returns_view:
  assumes "store_ok SHA512 (idx, master, nxt)" and "qsort_contract qsort cmp_master_idx"
    and "unat sz = n * BLOCK_SIZE" "0 < n" and "unat sz \<le> length buf"
  shows "\<exists>r buf'. read_dedup qsort mok io idx master path buf sz off = Some (r, buf') \<and>
    (let blks = view_prefix (view (idx, master, nxt)) path (off_div_block off) n in
     r = c_int (of_nat (length blks) * BLOCK_SIZE64) \<and> buf' = concat blks @ drop (length blks * BLOCK_SIZE) buf \<or>
     blks \<noteq> [] \<and> length buf' = length buf \<and> (r = - EIO \<and> io \<noteq> [] \<or> r = - ENOMEM \<and> \<not> mok))"
  unfolding Let_def by (rule read_dedup_view [OF assms])

theorem read_returns_view_witness:
  "\<exists>r buf'. read_dedup demo_qsort True [] empty_index [] ''/f'' demo_block 4096 0 = Some (r, buf') \<and>
    (let blks = view_prefix (view demo_store) ''/f'' (off_div_block 0) 1 in
     r = c_int (of_nat (length blks) * BLOCK_SIZE64) \<and> buf' = concat blks @ drop (length blks * BLOCK_SIZE) demo_block \<or>
     blks \<noteq> [] \<and> length buf' = length demo_block \<and> (r = - EIO \<and> [] \<noteq> ([] :: io_outcome list) \<or> r = - ENOMEM \<and> \<not> True))"
  unfolding demo_store_def
  by (rule read_returns_view [OF demo_request(1) [unfolded demo_store_def] demo_qsort_contract demo_request(3) _ demo_request(4)]) simp

text \<open>C4: dropping a range of blocks always returns, keeps the invariant and removes exactly the
  blocks of that range from the abstract state.\<close>

theorem remove_refines_spec:
  assumes "store_ok SHA512 st"
  shows "\<exists>st'. store_remove st path s e = Some st' \<and> store_ok SHA512 st' \<and> view st' = spec_remove path s e (view st)"
  by (rule store_remove_spec [OF assms])

theorem remove_refines_spec_witness:
  "\<exists>st'. store_remove demo_store ''/f'' 0 3 = Some st' \<and> store_ok demo_sha st' \<and>
    view st' = spec_remove ''/f'' 0 3 (view demo_store)"
  by (rule remove_refines_spec [OF demo_request(1)])

text \<open>C5: the batch removal leaves the index, free list included, exactly as the loop of single
  removals that it replaces.\<close>

theorem remove_batch_is_loop:
  "remove_blocks_dedup_batch idx path s e = (if s \<ge> e then Some idx else remove_each idx path (block_range s e))"
  by (rule remove_batch_eq_each)

lemma stored_once:
  assumes "store_reach SHA512 (idx, master, nxt)"
    and "fs_block master idx f b = Some x" "fs_block master idx g c = Some y" "hash SHA512 x = hash SHA512 y"
  shows "lookup_by_file_block idx f b = lookup_by_file_block idx g c \<and> x = y"
proof -
  have t: "tables_ok {} idx" and d: "data_ok SHA512 master {} idx"
    using store_reach_ok [OF assms(1)] by (simp_all add: index_inv_def)
  obtain p q where p: "lookup_by_file_block idx f b = Some p" "x = block_at master (unat (slot_of idx p))"
    and q: "lookup_by_file_block idx g c = Some q" "y = block_at master (unat (slot_of idx q))"
    using assms(2,3) by (auto simp: fs_block_def)
  obtain mi mj where mi: "minfos idx p = Some mi" and mj: "minfos idx q = Some mj"
    using p(1) q(1) by (metis file_mapped_allocated [OF t] lookup_by_file_block_def)
  have "info_hash mi = hash SHA512 x" "info_hash mj = hash SHA512 y"
    using d mi mj p(2) q(2) by (simp_all add: data_ok_def)
  then have "p = q" using assms(4) mi mj by (intro published_hash_unique [OF t mi _ mj]) simp_all
  then show ?thesis using p q by simp
qed

text \<open>C6: in a state reachable by writes and removals, with failing calls, the invariant of the store holds, and
  no slot is lost or shared: the slots of the objects and the slots on the free list together are exactly the slots
  handed out so far, each once. Blocks with the same digest share one slot.\<close>

theorem reachable_no_leak:
  assumes "store_reach SHA512 (idx, master, nxt)"
  shows "store_ok SHA512 (idx, master, nxt) \<and> card (dom (minfos idx)) + length (free_block_list idx) = unat nxt \<and>
    inj_on (slot_of idx) (dom (minfos idx)) \<and> distinct (free_block_list idx) \<and>
    slot_of idx ` dom (minfos idx) \<inter> set (free_block_list idx) = {} \<and>
    (\<forall>f b g c x y. fs_block master idx f b = Some x \<longrightarrow> fs_block master idx g c = Some y \<longrightarrow> hash SHA512 x = hash SHA512 y \<longrightarrow>
      lookup_by_file_block idx f b = lookup_by_file_block idx g c \<and> x = y)"
proof -
  have ok: "store_ok SHA512 (idx, master, nxt)" using store_reach_ok [OF assms] .
  then have inv: "index_inv nxt idx" by simp
  then have slots: "card (dom (minfos idx)) + length (free_block_list idx) = unat nxt" "inj_on (slot_of idx) (dom (minfos idx))"
      "distinct (free_block_list idx)" "slot_of idx ` dom (minfos idx) \<inter> set (free_block_list idx) = {}"
    using index_inv_conservation(1) [OF inv] by (simp_all add: index_inv_def slots_ok_def published_def)
  show ?thesis by (intro conjI ok slots allI impI) (use stored_once [OF assms] in metis)+
qed

theorem reachable_no_leak_witness:
  "\<exists>idx master nxt. fs_block master idx ''/f'' 0 = Some demo_block \<and> fs_block master idx ''/f'' 1 = Some demo_block \<and>
    lookup_by_file_block idx ''/f'' 0 = lookup_by_file_block idx ''/f'' 1 \<and>
    card (dom (minfos idx)) + length (free_block_list idx) = unat (nxt :: u64)"
proof -
  obtain idx master nxt where r: "store_reach demo_sha (idx, master, nxt)"
    and v: "view (idx, master, nxt) = spec_write ''/f'' 0 [demo_block, demo_block] (view demo_store)"
    using demo_written by blast
  have b: "fs_block master idx ''/f'' 0 = Some demo_block" "fs_block master idx ''/f'' 1 = Some demo_block"
    using arg_cong [OF v, of "\<lambda>w. view_block w ''/f'' 0"] arg_cong [OF v, of "\<lambda>w. view_block w ''/f'' 1"]
    by (simp_all add: spec_write_def Let_def in_range_def)
  note props = reachable_no_leak [OF r]
  note once = props [THEN conjunct2, THEN conjunct2, THEN conjunct2, THEN conjunct2, THEN conjunct2, rule_format, OF b refl, THEN conjunct1]
  show ?thesis by (intro exI conjI) (rule b once props [THEN conjunct2, THEN conjunct1])+
qed

section \<open>Operations that run at the same time\<close>

lemma demo_conc: "conc_init demo_sha demo_store" "conc_request demo_sha {#} demo_store demo_block 4096 0" "outcome_ok IoOk"
  using demo_request by (simp_all add: demo_store_def empty_index_def outcome_ok_def BLOCK_SIZE_def demo_block_def buf_blocks_def)

text \<open>A write that has committed but not returned yet.\<close>

lemma demo_commit_run: "\<exists>rc idx. fs_run demo_sha demo_store [Section (Commit ''/f'' 0 [demo_block])] {#Releasing rc []#} {#} (idx, demo_block, 1)"
proof -
  let ?h = "hash demo_sha demo_block"
  let ?e = "\<lparr>kind = PLAN_MISS, logical_blk = 0, master_blk = 0, payload = 0, phash = ?h, info = 0\<rparr> :: PlanEntry"
  let ?m = "\<lparr>info_hash = ?h, masterBlockIndex = 0, refcount = 1\<rparr> :: MasterInfo"
  let ?i = "empty_index\<lparr>minfos := [0 \<mapsto> ?m], next_ptr := 1\<rparr>"
  let ?P = "Planned ''/f'' demo_block 0 [?e] 1" and ?D = "Drained ''/f'' demo_block 0 [?e] 1 []"
  let ?F = "Flushing ''/f'' demo_block 0 [?e]"
  have len: "length demo_block = BLOCK_SIZE" by (simp add: demo_block_def)
  have sz: "unat (4096 :: u64) div BLOCK_SIZE = 1" by (simp add: BLOCK_SIZE_def)
  have "plan_pass demo_sha demo_block 0 [0..<1] (empty_index, Map.empty, [], 0) = Some (?i, [?h \<mapsto> 0], [?e], 1)"
    using len by (simp add: plan_block.simps Let_def lookup_by_hash_def empty_index_def info_new_def)
  then have b: "begin_write demo_sha ''/f'' demo_block 4096 0 demo_store = Some (?P, (?i, [], 0))"
    unfolding demo_store_def begin_write.simps Let_def sz off_div_block_0 by simp
  have s1: "thread_step IoOk ?P (?i, [], 0) = Some ([], Some ?D, (?i, [], 0))"
    by (simp add: thread_step.simps empty_index_def)
  have s2: "thread_step IoOk ?D (?i, [], 0) = Some ([], Some (?F 0), (?i, [], 1))"
    by (simp add: thread_step.simps info_set_def)
  have sk: "skip_hits [?e] 0 = 0" "run_extend [?e] (Suc 0) = Suc 0" "skip_hits [?e] (Suc 0) = Suc 0"
    by (simp_all add: skip_hits.simps run_extend.simps)
  have "overlay [] 0 demo_block = demo_block" by (simp add: overlay_def)
  then have s3: "thread_step IoOk (?F 0) (?i, [], 1) = Some ([], Some (?F 1), (?i, demo_block, 1))"
    using len by (simp add: thread_step.simps sk flush_run_def Let_def pwrite_def)
  have "\<exists>idx. commit_section ?i ''/f'' [?e] ((0 + of_nat (length [?e])) * BLOCK_SIZE64) = Some (idx, [])"
    by (simp add: commit_section_def lookup_by_hash_def lookup_by_file_block_def insert_hash_def insert_file_block_def empty_index_def)
  then obtain idx where "commit_section ?i ''/f'' [?e] ((0 + of_nat (length [?e])) * BLOCK_SIZE64) = Some (idx, [])" ..
  then have s4: "\<exists>rc. thread_step IoOk (?F 1) (?i, demo_block, 1) = Some ([Commit ''/f'' 0 [demo_block]], Some (Releasing rc []), (idx, demo_block, 1))"
    using len by (simp add: thread_step.simps sk buf_blocks_def block_at_def)
  then obtain rc where s4: "thread_step IoOk (?F 1) (?i, demo_block, 1) = Some ([Commit ''/f'' 0 [demo_block]], Some (Releasing rc []), (idx, demo_block, 1))" ..
  have start: "fs_step demo_sha {#} {#} demo_store [] {#?P#} {#} (?i, [], 0)"
    by (rule new_write [OF _ b]) (use demo_conc(2) in simp)
  have step: "fs_step demo_sha {#t#} {#} st (map Section evs) {#t'#} {#} st'"
    if "thread_step IoOk t st = Some (evs, Some t', st')" "thread_fits t st" for t st evs t' st'
    using write_section [OF demo_conc(3) that(2,1), of demo_sha "{#}" "{#}"] by (simp add: continue_def)
  have "fs_run demo_sha demo_store [] {#?F 1#} {#} (?i, demo_block, 1)"
    using run_step [OF run_step [OF run_step [OF run_step [OF run_start start] step [OF s1]] step [OF s2]] step [OF s3]] by simp
  from run_step [OF this step [OF s4]] show ?thesis by auto
qed







lemma handler_sections:
  "xmp_unlink k path s =
     map_option (\<lambda>(idx, master, nxt). pass_call k
         (s\<lparr>p_ctx := (p_ctx s)\<lparr>cnt_unlink := cnt_unlink (p_ctx s) + 1, index := idx\<rparr>\<rparr>) (Sys_unlink path))
       (finish_handler 4 (Sizing path None) (store_of (p_ctx s)))"
  "xmp_truncate k path sz fi s =
     (if target_ok (Some sz) then
        map_option (\<lambda>(idx, master, nxt). pass_call k (s\<lparr>p_ctx := (p_ctx s)\<lparr>index := idx\<rparr>\<rparr>)
            (case fi of Some f \<Rightarrow> Sys_ftruncate (fh f) sz | None \<Rightarrow> Sys_truncate path sz))
          (finish_handler 4 (Sizing path (Some sz)) (store_of (p_ctx s)))
      else Some (- EOPNOTSUPP, s))"
  unfolding store_of_def handler_alone
  by (simp_all add: xmp_unlink_def xmp_truncate_def unlink_index_def truncate_index_def target_ok_def Let_def option.map_comp comp_def
      split: option.split)

text \<open>C10: a write, a read, an unlink or a truncate that runs its sections without interruption is the sequential
  function: \<open>write_dedup\<close>, \<open>read_dedup\<close> and the two handlers, for every outcome of the system calls.\<close>

theorem sections_compose:
  assumes "sz \<noteq> 0" "unat sz mod BLOCK_SIZE = 0" and "unat sz div BLOCK_SIZE + 6 \<le> fuel" and "qsort_contract qsort cmp_master_idx"
  shows "write_dedup SHA512 io st path buf sz off =
      (case begin_write SHA512 path buf sz off st of None \<Rightarrow> None | Some (t, st') \<Rightarrow> finish fuel io t st') \<and>
    read_dedup qsort mok io idx master path buf sz off =
      (case begin_read qsort mok idx path buf sz off of None \<Rightarrow> None | Some r \<Rightarrow> finish_read fuel io r master) \<and>
    xmp_unlink k path s =
      map_option (\<lambda>(idx, master, nxt). pass_call k
          (s\<lparr>p_ctx := (p_ctx s)\<lparr>cnt_unlink := cnt_unlink (p_ctx s) + 1, index := idx\<rparr>\<rparr>) (Sys_unlink path))
        (finish_handler 4 (Sizing path None) (store_of (p_ctx s))) \<and>
    xmp_truncate k path len fi s =
      (if target_ok (Some len) then
         map_option (\<lambda>(idx, master, nxt). pass_call k (s\<lparr>p_ctx := (p_ctx s)\<lparr>index := idx\<rparr>\<rparr>)
             (case fi of Some f \<Rightarrow> Sys_ftruncate (fh f) len | None \<Rightarrow> Sys_truncate path len))
           (finish_handler 4 (Sizing path (Some len)) (store_of (p_ctx s)))
       else Some (- EOPNOTSUPP, s))"
proof (intro conjI)
  show "write_dedup SHA512 io st path buf sz off =
      (case begin_write SHA512 path buf sz off st of None \<Rightarrow> None | Some (t, st') \<Rightarrow> finish fuel io t st')"
    using write_dedup_sections [OF assms(1-3)] by simp
  show "read_dedup qsort mok io idx master path buf sz off =
      (case begin_read qsort mok idx path buf sz off of None \<Rightarrow> None | Some r \<Rightarrow> finish_read fuel io r master)"
    using read_dedup_sections [OF assms(4), of sz fuel] assms(3) by simp
qed (rule handler_sections)+

theorem sections_compose_witness:
  "write_dedup demo_sha [] demo_store ''/f'' demo_block 4096 0 =
      (case begin_write demo_sha ''/f'' demo_block 4096 0 demo_store of None \<Rightarrow> None | Some (t, st') \<Rightarrow> finish 7 [] t st') \<and>
    read_dedup demo_qsort True [] empty_index [] ''/f'' demo_block 4096 0 =
      (case begin_read demo_qsort True empty_index ''/f'' demo_block 4096 0 of None \<Rightarrow> None | Some r \<Rightarrow> finish_read 7 [] r [])"
  by (rule conjI [OF sections_compose [where qsort = demo_qsort, THEN conjunct1] sections_compose [THEN conjunct2, THEN conjunct1]])
    (simp_all add: BLOCK_SIZE_def demo_qsort_contract)



text \<open>C12: without that condition an interleaving goes wrong. Two writers store the same new block, the loser of the
  race has it twice in its request: after both have returned, a block of its file points to an object
  that is not allocated, and a read of the file follows that pointer.\<close>

theorem lost_race_dangles:
  assumes "length b = BLOCK_SIZE"
  shows "\<exists>tA tB st1 st2 idx master nxt.
    begin_write SHA512 ''/a'' (b @ b) 8192 0 (empty_index, [], 0) = Some (tA, st1) \<and>
    begin_write SHA512 ''/b'' (b @ b) 8192 0 st1 = Some (tB, st2) \<and>
    run_schedule [1, 1, 1, 1, 1, 0, 0, 0, 0, 0] [Some tA, Some tB] st2 = Some ([None, None], (idx, master, nxt)) \<and>
    file_to_master idx (bkey ''/a'' 1) = Some 0 \<and> minfos idx 0 = None \<and>
    read_dedup qsort mok [] idx master ''/a'' buf 8192 0 = None"
proof -
  have "unat (8192 :: u64) div BLOCK_SIZE = 2" "unat (8192 :: u64) mod BLOCK_SIZE = 0" by (simp_all add: BLOCK_SIZE_def)
  then have "lookup_loop idx ''/a'' 0 [0..<2] = None \<Longrightarrow> read_dedup qsort mok [] idx master ''/a'' buf 8192 0 = None" for idx master
    by (simp add: read_dedup_def Let_def)
  then show ?thesis using lost_race [OF assms, of SHA512] by blast
qed

theorem lost_race_dangles_witness:
  "\<exists>tA tB st1 st2 idx master nxt.
    begin_write demo_sha ''/a'' (demo_block @ demo_block) 8192 0 (empty_index, [], 0) = Some (tA, st1) \<and>
    begin_write demo_sha ''/b'' (demo_block @ demo_block) 8192 0 st1 = Some (tB, st2) \<and>
    run_schedule [1, 1, 1, 1, 1, 0, 0, 0, 0, 0] [Some tA, Some tB] st2 = Some ([None, None], (idx, master, nxt)) \<and>
    file_to_master idx (bkey ''/a'' 1) = Some 0 \<and> minfos idx 0 = None \<and>
    read_dedup demo_qsort True [] idx master ''/a'' [] 8192 0 = None"
  by (rule lost_race_dangles) (simp add: demo_block_def)

text \<open>C13: a read can return the data of another file. The reader looks up the slot of the block of one file and releases
  the lock; the file is removed and a write of another file takes the slot; the \<^verbatim>\<open>pread\<close> of the reader
  then returns the new block, which its file never held.\<close>

theorem read_races_with_reuse:
  assumes "length b = BLOCK_SIZE" "length c = BLOCK_SIZE" "length buf = BLOCK_SIZE"
  shows "\<exists>idx1 r idx2 idx3.
    write_dedup SHA512 [] (empty_index, [], 0) ''/a'' b 4096 0 = Some (4096, (idx1, b, 1)) \<and>
    begin_read qsort True idx1 ''/a'' buf 4096 0 = Some (Inr r) \<and>
    remove_blocks_dedup_batch idx1 ''/a'' 0 1 = Some idx2 \<and>
    write_dedup SHA512 [] (idx2, b, 1) ''/b'' c 4096 0 = Some (4096, (idx3, c, 1)) \<and>
    fs_block b idx1 ''/a'' 0 = Some b \<and> fs_block c idx3 ''/a'' 0 = None \<and> fs_block c idx3 ''/b'' 0 = Some c \<and>
    reader_step IoOk r c = Some (Inl (4096, c))"
  using assms by (rule stale_read)

theorem read_races_with_reuse_witness:
  "\<exists>idx1 r idx2 idx3.
    write_dedup demo_sha [] (empty_index, [], 0) ''/a'' demo_block 4096 0 = Some (4096, (idx1, demo_block, 1)) \<and>
    begin_read demo_qsort True idx1 ''/a'' demo_block 4096 0 = Some (Inr r) \<and>
    remove_blocks_dedup_batch idx1 ''/a'' 0 1 = Some idx2 \<and>
    write_dedup demo_sha [] (idx2, demo_block, 1) ''/b'' (replicate BLOCK_SIZE 9) 4096 0 = Some (4096, (idx3, replicate BLOCK_SIZE 9, 1)) \<and>
    fs_block demo_block idx1 ''/a'' 0 = Some demo_block \<and> fs_block (replicate BLOCK_SIZE 9) idx3 ''/a'' 0 = None \<and>
    fs_block (replicate BLOCK_SIZE 9) idx3 ''/b'' 0 = Some (replicate BLOCK_SIZE 9) \<and>
    reader_step IoOk r (replicate BLOCK_SIZE 9) = Some (Inl (4096, replicate BLOCK_SIZE 9))"
  by (rule read_races_with_reuse) (simp_all add: demo_block_def)


text \<open>The store after the first write.\<close>

lemma demo_first:
  "store_ok demo_sha (first_index (hash demo_sha demo_block) ''/f'', demo_block, 1)"
  "stored (first_index (hash demo_sha demo_block) ''/f'', demo_block, 1) = {demo_block}"
proof -
  have len: "length demo_block = BLOCK_SIZE" by (simp add: demo_block_def)
  have "write_dedup demo_sha [] demo_store ''/f'' demo_block 4096 0 = Some (4096, (first_index (hash demo_sha demo_block) ''/f'', demo_block, 1))"
    unfolding demo_store_def by (rule first_append [OF len])
  then show "store_ok demo_sha (first_index (hash demo_sha demo_block) ''/f'', demo_block, 1)"
    using write_dedup_store [OF demo_request(1,2,3) _ demo_request(4,5), of "''/f''"] by auto
  show "stored (first_index (hash demo_sha demo_block) ''/f'', demo_block, 1) = {demo_block}"
    using len by (simp add: first_index_def stored_blocks_def block_at_def)
qed


section \<open>The mounted file system\<close>

text \<open>A kernel whose calls succeed, one whose calls fail with \<^verbatim>\<open>EIO\<close>, a fresh mount and an open file.\<close>

definition demo_result :: "int \<Rightarrow> int \<Rightarrow> sys_result" where
  "demo_result ret err = \<lparr>sr_ret = ret, sr_errno = err, sr_stat = \<lparr>st_ino = 1, st_mode = 33188, st_size = 0\<rparr>, sr_bytes = [],
     sr_dirent = None\<rparr>"

definition demo_kernel :: "unit kernel" where
  "demo_kernel b c = (b, demo_result 0 0)"

definition broken_kernel :: "unit kernel" where
  "broken_kernel b c = (b, demo_result (-1) 5)"

definition demo_ctx :: Context where
  "demo_ctx = \<lparr>index = empty_index, masterFile = [], nextBlockIndex = 0, cnt_create = 0, cnt_open = 0, cnt_close = 0,
     cnt_write = 0, cnt_read = 0, cnt_getattr = 0, cnt_unlink = 0\<rparr>"

definition demo_fs :: "unit fs_state" where
  "demo_fs = \<lparr>p_ctx = demo_ctx, backend = ()\<rparr>"

definition demo_fi :: fuse_file_info where
  "demo_fi = \<lparr>fh = 3, fi_flags = 0\<rparr>"

lemma demo_fs_ok:
  "ctx_ok demo_sha (p_ctx demo_fs)" "store_of (p_ctx demo_fs) = demo_store" "write_fits io demo_block 4096 0 demo_fs = errno_contract io"
  using demo_request(1,2,4) by (simp_all add: ctx_ok_def store_of_def demo_fs_def demo_ctx_def demo_store_def write_fits_def)

lemma mutating_served:
  assumes "ctx_ok SHA512 (p_ctx s)" and "request_ok s req" and "mutates req"
  shows "\<exists>r s'. serve SHA512 qsort filler acc k req s = Some (r, s') \<and> ctx_ok SHA512 (p_ctx s')"
proof -
  have "\<exists>r s'. serve SHA512 qsort filler acc k req s = Some (r, s')"
  proof (cases req rule: mutates.cases)
    case (1 path)
    then show ?thesis using xmp_unlink_spec [OF assms(1), of k path] by (metis serve.simps(8) surj_pair)
  next
    case (2 path sz fi)
    show ?thesis
    proof (cases "sint sz < 0 \<or> sint sz smod int BLOCK_SIZE \<noteq> 0")
      case True
      then show ?thesis using 2 by (simp add: xmp_truncate_def)
    next
      case False
      then show ?thesis using 2 xmp_truncate_spec [OF assms(1) False, of k path fi] by (metis serve.simps(14) surj_pair)
    qed
  next
    case (3 io path buf sz off fi)
    then show ?thesis using xmp_write_ok [OF assms(1), of io buf sz off k path fi] assms(2) by auto
  qed (use assms(3) in simp_all)
  then obtain r s' where s: "serve SHA512 qsort filler acc k req s = Some (r, s')" by blast
  show ?thesis using s serve_ctx_ok [OF assms(1,2) s] by blast
qed

text \<open>C15: every state that a mounted file system reaches by any requests, over any kernel and with failing calls,
  satisfies the invariant, and there every unlink, truncate and write is served without an access outside the memory
  it owns.\<close>

theorem fs_reachable_invariant:
  assumes "fs_reach SHA512 s0 s" and "ctx_ok SHA512 (p_ctx s0)"
  shows "ctx_ok SHA512 (p_ctx s) \<and> (\<forall>req. request_ok s req \<longrightarrow> mutates req \<longrightarrow>
    (\<exists>r s'. serve SHA512 qsort filler acc k req s = Some (r, s') \<and> ctx_ok SHA512 (p_ctx s')))"
  by (intro conjI allI impI fs_reach_ok [OF assms] mutating_served)

theorem fs_reachable_invariant_witness:
  "\<exists>s. fs_reach demo_sha demo_fs s \<and> ctx_ok demo_sha (p_ctx s) \<and> cnt_write (p_ctx s) = 1"
proof -
  let ?req = "Write [IoErr 5] ''/f'' demo_block 4096 0 (Some demo_fi)"
  have io: "errno_contract [IoErr 5]" by (simp add: errno_contract_def)
  have "length demo_block = BLOCK_SIZE" by (simp add: demo_block_def)
  from failed_append [OF this, of 5 demo_sha "''/f''"]
  have w: "write_dedup demo_sha [IoErr 5] (empty_index, [], 0) ''/f'' demo_block 4096 0 =
      Some (- 5, (empty_index\<lparr>free_block_list := [0], next_ptr := 1\<rparr>, [], 1))" by simp
  obtain s r where s: "serve demo_sha demo_qsort (\<lambda>(acc :: string list) nm st fdp. (0, acc)) [] demo_kernel ?req demo_fs = Some (r, s)"
    and c: "cnt_write (p_ctx s) = 1"
    using w by (simp add: xmp_write_def get_fd_def put_fd_def demo_fs_def demo_ctx_def store_of_def set_store_def)
  have "request_ok demo_fs ?req" using demo_fs_ok(3) [of "[IoErr 5]"] io by simp
  from fs_next [OF fs_start this s] have "fs_reach demo_sha demo_fs s" .
  then show ?thesis using fs_reachable_invariant [OF _ demo_fs_ok(1), THEN conjunct1] c by blast
qed

text \<open>C16: every other request leaves the index, the master file and the next slot exactly as they
  were.\<close>

theorem other_requests_frame:
  assumes "serve SHA512 qsort filler acc k req s = Some (r, s')" and "\<not> mutates req"
  shows "store_of (p_ctx s') = store_of (p_ctx s)"
  using assms by (rule serve_frame)

theorem other_requests_frame_witness:
  "store_of (p_ctx (snd (xmp_chmod demo_kernel ''/f'' 420 demo_fs))) = store_of (p_ctx demo_fs)"
  by (rule other_requests_frame [where req = "Chmod ''/f'' 420" and qsort = demo_qsort
        and filler = "\<lambda>(acc :: string list) nm st fdp. (0, acc)" and acc = "[]" and k = demo_kernel
        and r = "fst (xmp_chmod demo_kernel ''/f'' 420 demo_fs)"]) simp_all

text \<open>C17: what an application writes through an open file it reads back: the write returns the number of
  bytes, the read of the same range returns the same bytes, and \<^verbatim>\<open>getattr\<close> then reports a size
  that covers the range.\<close>

theorem fuse_write_read_stat:
  assumes ok: "ctx_ok SHA512 (p_ctx s)" and fits: "write_fits [] buf sz off s" and sz: "unat sz = n * BLOCK_SIZE" "0 < n"
    and len: "length buf = unat sz" "length out = unat sz" and q: "qsort_contract qsort cmp_master_idx"
    and nc: "no_collision SHA512 (stored (store_of (p_ctx s)) \<union> set (buf_blocks buf n))"
  shows "\<exists>s1 s2. xmp_write SHA512 [] k path buf sz off (Some f) s = Some (c_int (of_nat n * BLOCK_SIZE64), s1) \<and>
    xmp_read qsort True [] k path out sz off (Some f) s1 = Some (c_int (of_nat n * BLOCK_SIZE64), buf, s2) \<and>
    unat (off_div_block off) * BLOCK_SIZE + unat sz \<le> unat (st_size (fst (snd (xmp_getattr k path s2))))"
proof -
  let ?st = "store_of (p_ctx s)" and ?start = "off_div_block off"
  have ok': "store_ok SHA512 ?st" and rf: "request_fits ?st sz off" using ok fits by (simp_all add: ctx_ok_def write_fits_def)
  obtain st' where w: "write_dedup SHA512 [] ?st path buf sz off = Some (c_int (of_nat n * BLOCK_SIZE64), st')"
    and k': "store_ok SHA512 st'" and v: "view st' = spec_write path ?start (buf_blocks buf n) (view ?st)"
    using write_dedup_store [OF ok' rf sz, of buf "[]" path] len nc by (auto simp: errno_contract_def)
  obtain idx master nxt where st': "st' = (idx, master, nxt)" by (cases st')
  have r: "read_dedup qsort True [] idx master path out sz off = Some (c_int (of_nat n * BLOCK_SIZE64), buf)"
    by (rule read_written [OF k' [unfolded st'] v [unfolded st'] rf sz len(1) q len(2)])
  let ?s1 = "s\<lparr>p_ctx := set_store ((p_ctx s)\<lparr>cnt_write := cnt_write (p_ctx s) + 1\<rparr>) st'\<rparr>"
  let ?s2 = "?s1\<lparr>p_ctx := (p_ctx ?s1)\<lparr>cnt_read := cnt_read (p_ctx ?s1) + 1\<rparr>\<rparr>"
  have x1: "xmp_write SHA512 [] k path buf sz off (Some f) s = Some (c_int (of_nat n * BLOCK_SIZE64), ?s1)"
    using w by (simp add: xmp_write_def get_fd_def put_fd_def store_of_def)
  have x2: "xmp_read qsort True [] k path out sz off (Some f) ?s1 = Some (c_int (of_nat n * BLOCK_SIZE64), buf, ?s2)"
    using r by (simp add: xmp_read_def get_fd_def put_fd_def st' set_store_def)
  have "unat off + n * BLOCK_SIZE < 2 ^ 63" using rf sz(1) by (cases ?st) simp
  then have sn: "unat ?start + n < MAX_BLOCKS" by (rule request_start(1))
  obtain z where z: "file_to_sizes idx path = Some z" "(?start + of_nat n) * BLOCK_SIZE64 \<le> z"
    using arg_cong [OF v, of "\<lambda>v. view_size v path"] by (auto simp: st' spec_write_def Let_def split: option.splits)
  have "st_size (fst (snd (xmp_getattr k path ?s2))) = z"
    using z(1) by (auto simp: xmp_getattr_def do_call_def st' set_store_def Let_def split: prod.split)
  moreover have "unat ?start * BLOCK_SIZE + unat sz = unat ((?start + of_nat n) * BLOCK_SIZE64)"
    using new_end_unat [OF sn] sz(1) by (simp add: add_mult_distrib)
  ultimately show ?thesis using x1 x2 z(2) by (metis word_le_nat_alt)
qed

theorem fuse_write_read_stat_witness:
  "\<exists>s1 s2. xmp_write demo_sha [] demo_kernel ''/f'' demo_block 4096 0 (Some demo_fi) demo_fs = Some (c_int (of_nat 1 * BLOCK_SIZE64), s1) \<and>
    xmp_read demo_qsort True [] demo_kernel ''/f'' (replicate 4096 0) 4096 0 (Some demo_fi) s1 =
      Some (c_int (of_nat 1 * BLOCK_SIZE64), demo_block, s2) \<and>
    unat (off_div_block 0) * BLOCK_SIZE + unat (4096 :: u64) \<le> unat (st_size (fst (snd (xmp_getattr demo_kernel ''/f'' s2))))"
proof (rule fuse_write_read_stat [OF demo_fs_ok(1)])
  show "write_fits [] demo_block 4096 0 demo_fs" using demo_fs_ok(3) demo_request(5) by simp
  show "no_collision demo_sha (stored (store_of (p_ctx demo_fs)) \<union> set (buf_blocks demo_block 1))"
    using demo_request(6) demo_fs_ok(2) by simp
qed (use demo_request(3) demo_qsort_contract in \<open>simp_all add: demo_block_def BLOCK_SIZE_def\<close>)

text \<open>C18: unlink removes every block and the size of the file from the store, and nothing else, before it
  asks the kernel to unlink; the answer is the kernel's.\<close>

theorem unlink_refines_spec:
  assumes "ctx_ok SHA512 (p_ctx s)"
  shows "\<exists>s0. xmp_unlink k path s = Some (pass_call k s0 (Sys_unlink path)) \<and> backend s0 = backend s \<and>
    ctx_ok SHA512 (p_ctx s0) \<and> ctx_view (p_ctx s0) = spec_unlink path (ctx_view (p_ctx s))"
  by (rule xmp_unlink_spec [OF assms])

theorem unlink_refines_spec_witness:
  "\<exists>s0. xmp_unlink demo_kernel ''/f'' demo_fs = Some (pass_call demo_kernel s0 (Sys_unlink ''/f'')) \<and> backend s0 = backend demo_fs \<and>
    ctx_ok demo_sha (p_ctx s0) \<and> ctx_view (p_ctx s0) = spec_unlink ''/f'' (ctx_view (p_ctx demo_fs))"
  by (rule unlink_refines_spec [OF demo_fs_ok(1)])

text \<open>C19: when the kernel refuses to unlink the file, the caller gets the error but the data is gone
  all the same: the file still exists and has lost all its blocks and its size.\<close>

theorem failed_unlink_loses_data:
  assumes "ctx_ok SHA512 (p_ctx s)" and "sr_ret (snd (k (backend s) (Sys_unlink path))) = -1"
  shows "\<exists>s'. xmp_unlink k path s = Some (- sr_errno (snd (k (backend s) (Sys_unlink path))), s') \<and>
    ctx_view (p_ctx s') = spec_unlink path (ctx_view (p_ctx s))"
proof -
  obtain s0 where u: "xmp_unlink k path s = Some (pass_call k s0 (Sys_unlink path))" "backend s0 = backend s"
    "ctx_view (p_ctx s0) = spec_unlink path (ctx_view (p_ctx s))"
    using xmp_unlink_spec [OF assms(1), of k path] by blast
  have "pass_call k s0 (Sys_unlink path) = (- sr_errno (snd (k (backend s) (Sys_unlink path))), snd (pass_call k s0 (Sys_unlink path)))"
    using assms(2) u(2) by (auto simp: pass_call_def do_call_def split: prod.split)
  then show ?thesis using u(1,3) pass_call_ctx by metis
qed

theorem failed_unlink_loses_data_witness:
  "\<exists>s'. xmp_unlink broken_kernel ''/f'' demo_fs = Some (- 5, s') \<and>
    ctx_view (p_ctx s') = spec_unlink ''/f'' (ctx_view (p_ctx demo_fs))"
  using failed_unlink_loses_data [OF demo_fs_ok(1), of broken_kernel "''/f''"] by (simp add: broken_kernel_def demo_result_def)

text \<open>C20: a truncate to a multiple of the block size that fits \<^verbatim>\<open>off_t\<close> drops exactly the blocks from the
  new end on when it shrinks the file, and leaves the store alone otherwise.\<close>

theorem truncate_refines_spec:
  assumes "ctx_ok SHA512 (p_ctx s)" and "\<not> (sint sz < 0 \<or> sint sz smod int BLOCK_SIZE \<noteq> 0)"
  shows "\<exists>s0. xmp_truncate k path sz fi s =
      Some (pass_call k s0 (case fi of Some f \<Rightarrow> Sys_ftruncate (fh f) sz | None \<Rightarrow> Sys_truncate path sz)) \<and>
    backend s0 = backend s \<and> ctx_ok SHA512 (p_ctx s0) \<and> ctx_view (p_ctx s0) = spec_truncate path sz (ctx_view (p_ctx s))"
  by (rule xmp_truncate_spec [OF assms])

theorem truncate_refines_spec_witness:
  "\<exists>s0. xmp_truncate demo_kernel ''/f'' 8192 (Some demo_fi) demo_fs =
      Some (pass_call demo_kernel s0 (case Some demo_fi of Some f \<Rightarrow> Sys_ftruncate (fh f) 8192 | None \<Rightarrow> Sys_truncate ''/f'' 8192)) \<and>
    backend s0 = backend demo_fs \<and> ctx_ok demo_sha (p_ctx s0) \<and> ctx_view (p_ctx s0) = spec_truncate ''/f'' 8192 (ctx_view (p_ctx demo_fs))"
  by (rule truncate_refines_spec [OF demo_fs_ok(1)]) (simp add: BLOCK_SIZE_def)

text \<open>C21: a rename moves the name in the underlying file system but not the contents: with a file under
  \<open>a\<close> and nothing under \<open>b\<close>, after a successful rename of \<open>a\<close> to \<open>b\<close> the blocks are still stored under
  \<open>a\<close>, and reading \<open>b\<close> returns 0 bytes.\<close>

theorem rename_leaves_contents_behind:
  assumes "ctx_ok SHA512 (p_ctx s)" and "qsort_contract qsort cmp_master_idx" and "view_block (ctx_view (p_ctx s)) b 0 = None"
    and "length buf = BLOCK_SIZE"
  shows "ctx_view (p_ctx (snd (xmp_rename k a b 0 s))) = ctx_view (p_ctx s) \<and>
    (\<exists>s'. xmp_read qsort True [] k b buf 4096 0 (Some f) (snd (xmp_rename k a b 0 s)) = Some (0, buf, s'))"
proof -
  let ?s = "snd (xmp_rename k a b 0 s)"
  have st: "store_of (p_ctx ?s) = store_of (p_ctx s)" by (rule handler_ctx(7))
  have ok: "store_ok SHA512 (index (p_ctx ?s), masterFile (p_ctx ?s), nextBlockIndex (p_ctx ?s))"
    using assms(1) st by (simp add: ctx_ok_def store_of_def)
  have e: "view_prefix (view (index (p_ctx ?s), masterFile (p_ctx ?s), nextBlockIndex (p_ctx ?s))) b (off_div_block 0) 1 = []"
    using assms(3) st by (simp add: view_prefix_def ctx_view_def store_of_def)
  have "unat (4096 :: u64) = 1 * BLOCK_SIZE" "unat (4096 :: u64) \<le> length buf" using assms(4) by (simp_all add: BLOCK_SIZE_def)
  from read_dedup_view [OF ok assms(2) this(1) _ this(2), of True "[]" b 0]
  have "read_dedup qsort True [] (index (p_ctx ?s)) (masterFile (p_ctx ?s)) b buf 4096 0 = Some (0, buf)"
    unfolding e by (simp add: c_int_def)
  then show ?thesis using st by (simp add: xmp_read_def get_fd_def put_fd_def ctx_view_def)
qed

theorem rename_leaves_contents_behind_witness:
  "ctx_view (p_ctx (snd (xmp_rename demo_kernel ''/a'' ''/b'' 0 demo_fs))) = ctx_view (p_ctx demo_fs) \<and>
    (\<exists>s'. xmp_read demo_qsort True [] demo_kernel ''/b'' demo_block 4096 0 (Some demo_fi) (snd (xmp_rename demo_kernel ''/a'' ''/b'' 0 demo_fs)) =
      Some (0, demo_block, s'))"
  by (rule rename_leaves_contents_behind [OF demo_fs_ok(1) demo_qsort_contract])
    (simp_all add: demo_fs_ok(2) demo_store_def ctx_view_def fs_block_def lookup_by_file_block_def empty_index_def demo_block_def)

section \<open>Unmount and mount\<close>

definition demo_env :: index_env where
  "demo_env = (let e = \<lparr>open_ok = True, malloc_ok = True, env_io = []\<rparr>
     in \<lparr>e_hash_to_master = e, e_file_to_master = e, e_master_infos = e, e_file_to_sizes = e, e_free_block_list = e\<rparr>)"

definition demo_disk :: index_disk where
  "demo_disk = \<lparr>d_hash_to_master = [], d_file_to_master = [], d_master_infos = [], d_file_to_sizes = [], d_free_block_list = []\<rparr>"

lemma demo_env_ok: "all_envs can_save demo_env" "all_envs can_load demo_env"
  by (simp_all add: demo_env_def Let_def all_envs_def can_save_def can_load_def io_delivers_def)

lemma demo_sha_contract: "sha512_contract demo_sha"
  by (simp add: sha512_contract_def demo_sha_def HASH_SIZE_def min_def)

text \<open>The state after the first block was written through an open file.\<close>

definition demo_fs1 :: "unit fs_state" where
  "demo_fs1 = demo_fs\<lparr>p_ctx := (p_ctx demo_fs)\<lparr>index := first_index (hash demo_sha demo_block) ''/f'', masterFile := demo_block,
     nextBlockIndex := 1, cnt_write := 1\<rparr>\<rparr>"

lemma demo_fs1_reached: "fs_clean demo_sha demo_fs demo_fs1"
proof -
  let ?req = "Write [] ''/f'' demo_block 4096 0 (Some demo_fi)"
  have "length demo_block = BLOCK_SIZE" by (simp add: demo_block_def)
  from first_append [OF this, of demo_sha "''/f''"]
  have "serve demo_sha demo_qsort (\<lambda>(acc :: string list) nm st fdp. (0, acc)) [] demo_kernel ?req demo_fs = Some (4096, demo_fs1)"
    by (simp add: xmp_write_def get_fd_def put_fd_def demo_fs_def demo_fs1_def demo_ctx_def store_of_def set_store_def)
  moreover have "request_ok demo_fs ?req" "request_clean ?req" using demo_fs_ok(3) demo_request(5) by simp_all
  ultimately show ?thesis using clean_next [OF clean_start] by blast
qed

lemma demo_fs1_saved:
  "enumerates [(hash demo_sha demo_block, 0)] (hash_to_master (index (p_ctx demo_fs1)))"
  "enumerates [(bkey ''/f'' 0, 0)] (file_to_master (index (p_ctx demo_fs1)))"
  "enumerates [(''/f'', 4096)] (file_to_sizes (index (p_ctx demo_fs1)))"
  "format_limits (index (p_ctx demo_fs1)) (nextBlockIndex (p_ctx demo_fs1))" "length (masterFile (p_ctx demo_fs1)) < 2 ^ 63"
  by (simp_all add: enumerates_def demo_fs1_def first_index_def format_limits_def valid_path_def no_nul_def char_of_def demo_block_def
      BLOCK_SIZE_def)

text \<open>C22: nothing is lost over a restart: from a mount whose writes did not fail, unmounting and mounting
  again, with any enumeration order of the tables and any sizes in which the kernel delivers the
  bytes, gives a mount with the same contents and sizes that satisfies the invariant, so the theorems
  above apply to it in turn.\<close>

theorem remount_preserves:
  assumes "fs_clean SHA512 s0 s" and "ctx_ok SHA512 (p_ctx s0)" "store_tight (store_of (p_ctx s0))"
    and "sha512_contract SHA512" and "format_limits (index (p_ctx s)) (nextBlockIndex (p_ctx s))"
    and "length (masterFile (p_ctx s)) < 2 ^ 63"
    and "enumerates hs (hash_to_master (index (p_ctx s)))" "enumerates fs (file_to_master (index (p_ctx s)))"
      "enumerates zs (file_to_sizes (index (p_ctx s)))"
    and "all_envs can_save env" and "all_envs can_load env'"
  shows "\<exists>disk' masterFILE c'. xmp_destroy env padding disk hs fs zs (p_ctx s) = Some (disk', masterFILE) \<and>
    xmp_init env' garbage disk' masterFILE = Some c' \<and> ctx_ok SHA512 c' \<and> store_tight (store_of c') \<and>
    ctx_view c' = ctx_view (p_ctx s)"
proof -
  have "ctx_ok SHA512 (p_ctx s)" "store_tight (store_of (p_ctx s))" using fs_clean_tight [OF assms(1-3)] by simp_all
  from remount_ok [OF this assms(6,4,5,7-11)] show ?thesis .
qed

theorem remount_preserves_witness:
  "\<exists>disk' masterFILE c'. xmp_destroy demo_env 0 demo_disk [(hash demo_sha demo_block, 0)] [(bkey ''/f'' 0, 0)] [(''/f'', 4096)]
      (p_ctx demo_fs1) = Some (disk', masterFILE) \<and>
    xmp_init demo_env 0 disk' masterFILE = Some c' \<and> ctx_ok demo_sha c' \<and> store_tight (store_of c') \<and>
    ctx_view c' = ctx_view (p_ctx demo_fs1)"
proof (rule remount_preserves [OF demo_fs1_reached demo_fs_ok(1) _ demo_sha_contract demo_fs1_saved(4,5,1,2,3) demo_env_ok])
  show "store_tight (store_of (p_ctx demo_fs))" by (simp add: demo_fs_ok(2) demo_store_def tight_def)
qed

text \<open>C23: after a failed append it is otherwise. On an empty file system one block is written while the
  disk fails; the error is reported and nothing is stored. After an unmount and a mount, writing two
  different blocks succeeds, yet both live in slot 0 and the first one reads back as the second: the
  slot was on the saved free list and also beyond the end of the master file.\<close>

theorem failed_append_corrupts_after_remount:
  assumes "all_envs can_save env" and "all_envs can_load env'" and "length b = BLOCK_SIZE" and "0 < e"
    and "length b0 = BLOCK_SIZE" "length b1 = BLOCK_SIZE" and "hash SHA512 b0 \<noteq> hash SHA512 b1"
    and "p_ctx s = demo_ctx"
  shows "\<exists>s1 disk' c' idx'. xmp_write SHA512 [IoErr e] k path b 4096 0 (Some f) s = Some (- e, s1) \<and>
    xmp_destroy env padding disk [] [] [] (p_ctx s1) = Some (disk', []) \<and> xmp_init env' garbage disk' [] = Some c' \<and>
    write_dedup SHA512 [] (store_of c') path (b0 @ b1) 8192 0 = Some (8192, (idx', b1, 1)) \<and>
    fs_block b1 idx' path 0 = Some b1"
proof -
  let ?i = "empty_index\<lparr>free_block_list := [0], next_ptr := 1\<rparr>"
  let ?s1 = "s\<lparr>p_ctx := demo_ctx\<lparr>index := ?i, masterFile := [], nextBlockIndex := 1, cnt_write := 1\<rparr>\<rparr>"
  have w: "xmp_write SHA512 [IoErr e] k path b 4096 0 (Some f) s = Some (- e, ?s1)"
    using failed_append [OF assms(3,4), of SHA512 path]
    by (simp add: xmp_write_def get_fd_def put_fd_def assms(8) demo_ctx_def store_of_def set_store_def)
  have c1: "index (p_ctx ?s1) = ?i" "masterFile (p_ctx ?s1) = []" by simp_all
  from remount_after_failed_append [OF assms(1,2) c1, of padding disk garbage]
  obtain disk' c' where d: "xmp_destroy env padding disk [] [] [] (p_ctx ?s1) = Some (disk', [])"
    and i: "xmp_init env' garbage disk' [] = Some c'" and c': "nextBlockIndex c' = 0" "masterFile c' = []"
    and t: "hash_to_master (index c') = Map.empty" "file_to_master (index c') = Map.empty" "file_to_sizes (index c') = Map.empty"
      "free_block_list (index c') = [0]" by blast
  have "store_of c' = (index c', [], 0)" using c' by (simp add: store_of_def)
  then show ?thesis using w d i double_allocation [OF t assms(5-7), of path] by metis
qed

theorem failed_append_corrupts_after_remount_witness:
  "\<exists>s1 disk' c' idx'. xmp_write demo_sha [IoErr 5] demo_kernel ''/f'' demo_block 4096 0 (Some demo_fi) demo_fs = Some (- 5, s1) \<and>
    xmp_destroy demo_env 0 demo_disk [] [] [] (p_ctx s1) = Some (disk', []) \<and> xmp_init demo_env 0 disk' [] = Some c' \<and>
    write_dedup demo_sha [] (store_of c') ''/f'' (replicate BLOCK_SIZE 1 @ replicate BLOCK_SIZE 2) 8192 0 =
      Some (8192, (idx', replicate BLOCK_SIZE 2, 1)) \<and>
    fs_block (replicate BLOCK_SIZE 2) idx' ''/f'' 0 = Some (replicate BLOCK_SIZE 2)"
proof (rule failed_append_corrupts_after_remount [OF demo_env_ok])
  show "hash demo_sha (replicate BLOCK_SIZE 1) \<noteq> hash demo_sha (replicate BLOCK_SIZE 2)"
    by (simp add: hash_def demo_sha_def BLOCK_SIZE_def HASH_SIZE_def)
  show "length demo_block = BLOCK_SIZE" by (simp add: demo_block_def)
  show "p_ctx demo_fs = demo_ctx" by (simp add: demo_fs_def)
qed simp_all

section \<open>Persistence\<close>

text \<open>C24: saving an index and loading it gives an index with the same tables, free list and sizes, up to
  the addresses of the shared objects: the sharing between the two tables survives.\<close>

theorem index_save_load:
  assumes "tables_ok {} idx" and "persistable idx"
    and "enumerates hs (hash_to_master idx)" "enumerates fs (file_to_master idx)" "enumerates zs (file_to_sizes idx)"
    and "all_envs can_save env" and "all_envs can_load env'"
  shows "\<exists>disk' idx' ren. index_destroy env padding disk hs fs zs idx = Some disk' \<and>
    index_init env' disk' = Some idx' \<and> index_iso ren idx idx'"
  by (rule index_roundtrip [OF assms])

theorem index_save_load_witness:
  "\<exists>disk' idx' ren. index_destroy demo_env 0 demo_disk [] [] [] (empty_index\<lparr>free_block_list := [4, 2]\<rparr>) = Some disk' \<and>
    index_init demo_env disk' = Some idx' \<and> index_iso ren (empty_index\<lparr>free_block_list := [4, 2]\<rparr>) idx'"
  by (rule index_save_load [OF _ _ _ _ _ demo_env_ok])
    (simp_all add: tables_ok_def persistable_def published_def empty_index_def enumerates_def)



text \<open>C26: when the flush of a full buffer fails while an index larger than the buffer is saved, the next
  copy writes behind the allocation (the outcome \<open>None\<close> of the model).\<close>

theorem buffer_overflow_on_failed_flush:
  assumes "writer_ok ctx" and "buffer_pos ctx = buffer_size ctx" and "src \<noteq> []" and "0 \<le> sint (file_offset ctx)"
  shows "buffered_write ctx src (IoErr e # io) = None"
  by (rule buffered_write_overflow [OF assms])

theorem buffer_overflow_on_failed_flush_witness:
  "buffered_write \<lparr>fd_file = [], buffer = [1, 2], buffer_size = 2, buffer_pos = 2, buffer_end = 0, file_offset = 0\<rparr> [3] [IoErr 28] = None"
  by (rule buffer_overflow_on_failed_flush) (simp_all add: writer_ok_def)

text \<open>C27: the buffered reader returns exactly the next bytes of the file, however small the pieces are in
  which the kernel delivers them, and fails only when fewer bytes are left.\<close>

theorem buffered_reader_streams:
  assumes "reader_ok ctx" and "io_delivers io"
  shows "\<exists>res ctx' io'. buffered_read ctx sz io = (res, ctx', io') \<and>
    (if sz \<le> length (in_stream ctx) then res = Some (take sz (in_stream ctx)) \<and> in_stream ctx' = drop sz (in_stream ctx)
     else res = None)"
  using buffered_read_ok [OF assms, of sz] by (auto split: if_splits)

theorem buffered_reader_streams_witness:
  "\<exists>res ctx' io'. buffered_read \<lparr>fd_file = [1, 2, 3, 4], buffer = [0, 0], buffer_size = 2, buffer_pos = 0, buffer_end = 0, file_offset = 0\<rparr>
      3 [IoShort 1, IoShort 1] = (res, ctx', io') \<and>
    (if 3 \<le> length (in_stream \<lparr>fd_file = [1, 2, 3, 4], buffer = [0, 0], buffer_size = 2, buffer_pos = 0, buffer_end = 0, file_offset = 0\<rparr>)
     then res = Some (take 3 (in_stream \<lparr>fd_file = [1, 2, 3, 4], buffer = [0, 0], buffer_size = 2, buffer_pos = 0, buffer_end = 0, file_offset = 0\<rparr>)) \<and>
       in_stream ctx' = drop 3 (in_stream \<lparr>fd_file = [1, 2, 3, 4], buffer = [0, 0], buffer_size = 2, buffer_pos = 0, buffer_end = 0, file_offset = 0\<rparr>)
     else res = None)"
  by (rule buffered_reader_streams) (simp_all add: reader_ok_def io_delivers_def)

section \<open>The tracing tools\<close>

text \<open>A process that reads a regular file.\<close>

definition demo_bpf_env :: "u64 \<Rightarrow> bpf_env" where
  "demo_bpf_env t = \<lparr>pid_tgid = push_bit 32 7 + 9, comm = ''cat'', ktime = t, fd_array = (\<lambda>fd. 1), i_mode = (\<lambda>f. 33188)\<rparr>"

definition demo_log :: call_log where
  "demo_log = \<lparr>traced = {7}, pending_since = Map.empty, completed = []\<rparr>"

definition demo_trace :: "event list" where
  "demo_trace = [Enter P_read (demo_bpf_env 100) 3, Exit P_read (demo_bpf_env 130) 5]"

lemma demo_bpf_ids: "env_pid (demo_bpf_env t) = 7" "env_tid (demo_bpf_env t) = 9"
  by (simp_all add: env_pid_def env_tid_def demo_bpf_env_def)

lemma demo_trace_log:
  "represents (trace_pids [7] empty_maps) demo_log" "within_capacity demo_log" "stays_within demo_trace demo_log"
  "fold log_event demo_trace demo_log =
     demo_log\<lparr>completed := [(\<lparr>command = ''cat'', key_pid = 7, key_op = 0\<rparr>, 30)]\<rparr>"
proof -
  show "represents (trace_pids [7] empty_maps) demo_log"
    by (auto simp: represents_def trace_pids_def empty_maps_def demo_log_def bpf_map_update_def MAX_PIDS_def summary_def
        durations_def fun_eq_iff)
  show "within_capacity demo_log" by (simp add: within_capacity_def demo_log_def MAX_PIDS_def)
  have r: "regular (demo_bpf_env t) (sint (3 :: u32))" for t by (simp add: regular_def demo_bpf_env_def BPF_S_IFMT_def BPF_S_IFREG_def)
  have k: "ktime (demo_bpf_env t) = t" "comm (demo_bpf_env t) = ''cat''" for t by (simp_all add: demo_bpf_env_def)
  have e1: "log_event (Enter P_read (demo_bpf_env 100) 3) demo_log = demo_log\<lparr>pending_since := [9 \<mapsto> 100]\<rparr>"
    using r by (simp add: demo_bpf_ids demo_log_def k)
  have e2: "log_event (Exit P_read (demo_bpf_env 130) 5) (demo_log\<lparr>pending_since := [9 \<mapsto> 100]\<rparr>) =
      demo_log\<lparr>completed := [(\<lparr>command = ''cat'', key_pid = 7, key_op = 0\<rparr>, 30)]\<rparr>"
    by (simp add: demo_bpf_ids demo_log_def k)
  show "stays_within demo_trace demo_log"
    unfolding demo_trace_def stays_within.simps e1 e2
    by (simp add: within_capacity_def demo_log_def MAX_PIDS_def MAX_THREADS_def MAX_OPS_def)
  show "fold log_event demo_trace demo_log = demo_log\<lparr>completed := [(\<lparr>command = ''cat'', key_pid = 7, key_op = 0\<rparr>, 30)]\<rparr>"
    unfolding demo_trace_def by (simp only: fold_simps e1 e2)
qed

lemma demo_counters:
  "counters (run_events demo_trace (trace_pids [7] empty_maps)) =
     [(\<lparr>command = ''cat'', key_pid = 7, key_op = 0\<rparr>, \<lparr>val_count = 1, time_sum = 30\<rparr>)]"
  by code_simp

text \<open>C28: as long as the maps have room, the counter map holds for every process, command and system call
  exactly the number of completed calls of the trace and the sum of their durations, in which only
  traced processes and the seven probed system calls occur.\<close>

theorem counters_exact:
  assumes "represents m l" and "within_capacity l" and "stays_within evs l" and "completed l = []"
  shows "let l' = fold log_event evs l in
    map_of (counters (run_events evs m)) = summary (completed l') \<and> dom (map_of (pids_to_consider (run_events evs m))) = traced l' \<and>
    key_pid ` fst ` set (completed l') \<subseteq> traced l' \<and> key_op ` fst ` set (completed l') \<subseteq> range probe_nr"
  using events_refine [OF assms(1-3)] fold_completed_traced [of l evs] fold_ops [of l evs] assms(4)
  by (simp add: represents_def Let_def)

theorem counters_exact_witness:
  "map_of (counters (run_events demo_trace (trace_pids [7] empty_maps))) \<lparr>command = ''cat'', key_pid = 7, key_op = 0\<rparr> =
    Some \<lparr>val_count = 1, time_sum = 30\<rparr>"
proof -
  have "completed demo_log = []" by (simp add: demo_log_def)
  from counters_exact [OF demo_trace_log(1-3) this] show ?thesis
    unfolding demo_trace_log(4) Let_def by (simp add: summary_def durations_def)
qed

text \<open>C29: with whatever trace, the three maps keep unique keys and never exceed their limits; the copy of
  the counters and the list of system calls of the report never overflow, the list is exactly the
  system calls that occur, the totals of the report are the sums over all entries of the system
  call, and every cell is the value of its entry, since labels are not cut and are different for different
  processes and commands.\<close>

theorem report_exact:
  assumes "maps_ok m" and "get_unique_pid_values (map fst (counters (run_events evs m))) = Some ps"
  shows "let es = counters (run_events evs m) in maps_ok (run_events evs m) \<and> get_values_from_counter_map es = Some es \<and>
    (\<exists>ops. get_unique_op_values (map fst es) = Some ops \<and> distinct ops \<and> set ops = key_op ` fst ` set es \<and>
       snd (rows_loop es ps ops (replicate (length ops) zero_value)) =
         map (\<lambda>nr. sum_values (map snd (filter (\<lambda>e. key_op (fst e) = nr) es))) ops) \<and>
    ((k, v) \<in> set es \<and> (\<forall>e \<in> set es. length (command (fst e)) \<le> 15 \<and> sint (key_pid (fst e)) \<ge> 0) \<longrightarrow>
       fst (cell_loop es (label k) (key_op k) zero_value tot) = v)"
proof -
  let ?es = "counters (run_events evs m)"
  have ok: "maps_ok (run_events evs m)" by (rule run_events_ok [OF assms(1)])
  then have "length ?es \<le> MAX_PIDS * MAX_OPS" "key_op ` fst ` set ?es \<subseteq> range probe_nr" by (simp_all add: maps_ok_def)
  moreover have "card (range probe_nr) \<le> MAX_OPS" "finite (range probe_nr)" by (simp_all add: probe_nrs MAX_OPS_def)
  moreover have "fst (cell_loop ?es (label k) (key_op k) zero_value tot) = v"
    if "(k, v) \<in> set ?es" "\<forall>e \<in> set ?es. length (command (fst e)) \<le> 15 \<and> sint (key_pid (fst e)) \<ge> 0"
    using report_cells [OF _ that] ok by (simp add: cell_loop_eq maps_ok_def)
  ultimately show ?thesis
    using ok unique_ops_spec [of "[]" "map fst ?es" "range probe_nr"] report_totals [OF assms(2)] get_values_all [of ?es]
    by (auto simp: get_unique_op_values_def Let_def)
qed

theorem report_exact_witness:
  "\<exists>ops. get_unique_op_values [\<lparr>command = ''cat'', key_pid = 7, key_op = 0\<rparr>] = Some ops \<and> set ops = {0} \<and>
     snd (rows_loop [(\<lparr>command = ''cat'', key_pid = 7, key_op = 0\<rparr>, \<lparr>val_count = 1, time_sum = 30\<rparr>)]
       [label \<lparr>command = ''cat'', key_pid = 7, key_op = 0\<rparr>] ops (replicate (length ops) zero_value)) =
     map (\<lambda>nr. sum_values (map snd (filter (\<lambda>e. key_op (fst e) = nr)
       [(\<lparr>command = ''cat'', key_pid = 7, key_op = 0\<rparr>, \<lparr>val_count = 1, time_sum = 30\<rparr>)]))) ops"
proof -
  have "maps_ok (trace_pids [7] empty_maps)"
    by (simp add: maps_ok_def trace_pids_def empty_maps_def bpf_map_update_def MAX_PIDS_def)
  moreover have "get_unique_pid_values (map fst (counters (run_events demo_trace (trace_pids [7] empty_maps)))) =
      Some [label \<lparr>command = ''cat'', key_pid = 7, key_op = 0\<rparr>]"
    unfolding demo_counters by (simp add: get_unique_pid_values_def MAX_PIDS_def)
  ultimately show ?thesis using report_exact [of "trace_pids [7] empty_maps" demo_trace]
    unfolding demo_counters Let_def by auto
qed


text \<open>C31: whatever the running kernel offers, the page cache tool loads exactly one probe for added pages, one
  for accessed pages and one for dirtied buffers. For dirtied pages it can load two on the same kernel
  function, and then every dirtied page is subtracted from the misses twice.\<close>

theorem probe_choice:
  assumes "k_fentry k ''folio_account_dirtied''" and "k_kprobe k ''folio_account_dirtied''" and "\<not> to_ignore b pid"
  shows "exactly_one (map (loaded k') [Fentry_folio_add_lru, Kprobe_folio_add_lru, Fentry_add_to_page_cache_lru, Kprobe_add_to_page_cache_lru]) \<and>
    exactly_one (map (loaded k') [Fentry_folio_mark_accessed, Kprobe_folio_mark_accessed, Fentry_mark_page_accessed, Kprobe_mark_page_accessed]) \<and>
    exactly_one (map (loaded k') [Fentry_mark_buffer_dirty, Kprobe_mark_buffer_dirty]) \<and>
    loaded k Fentry_account_page_dirtied \<and> loaded k Kprobe_folio_account_dirtied \<and>
    attach_target k Fentry_account_page_dirtied = attach_target k Kprobe_folio_account_dirtied \<and>
    bss_misses (run_prog Kprobe_folio_account_dirtied pid (run_prog Fentry_account_page_dirtied pid b)) = bss_misses b - 2"
  using one_lru one_accessed one_buffer_dirty two_dirtied [OF assms(1,2)] double_decrement [OF assms(3)] by blast

theorem probe_choice_witness:
  "exactly_one (map (loaded \<lparr>k_fentry = (\<lambda>_. True), k_kprobe = (\<lambda>_. True), k_tracepoint = (\<lambda>_ _. True)\<rparr>)
      [Fentry_mark_buffer_dirty, Kprobe_mark_buffer_dirty]) \<and>
    bss_misses (run_prog Kprobe_folio_account_dirtied 7 (run_prog Fentry_account_page_dirtied 7
      \<lparr>bss_total = 0, bss_misses = 0, bss_mbd = 0, cache_pids = [(7, 1)]\<rparr>)) = 0 - 2"
  using probe_choice [of "\<lparr>k_fentry = (\<lambda>_. True), k_kprobe = (\<lambda>_. True), k_tracepoint = (\<lambda>_ _. True)\<rparr>"
      "\<lparr>bss_total = 0, bss_misses = 0, bss_mbd = 0, cache_pids = [(7, 1)]\<rparr>" 7
      "\<lparr>k_fentry = (\<lambda>_. True), k_kprobe = (\<lambda>_. True), k_tracepoint = (\<lambda>_ _. True)\<rparr>"]
  by (simp add: to_ignore_def)

text \<open>C32: with a positive count of samples the loop prints exactly that many lines and ends without
  error; in every sample hits and misses are not negative and add up to the accesses counted, and so do
  the totals.\<close>

theorem sampling_exact:
  assumes "0 < n" and "nat n \<le> length ts" and "\<forall>t \<in> set ts. tick_meminfo t \<noteq> None \<and> \<not> tick_exiting t"
  shows "\<exists>lines s'. sample_loop fmt ts n \<lparr>total_hits = 0, total_misses = 0, total_dirties = 0\<rparr> [] = Some (lines, s', 0) \<and>
    length lines = nat n \<and>
    total_hits s' + total_misses s' = sum_list (map (\<lambda>t. word_of_int (max 0 (sint (tick_total t)))) (take (nat n) ts)) \<and>
    (\<forall>t \<in> set ts. case sample (tick_total t) (tick_misses t) of (h, m) \<Rightarrow> 0 \<le> h \<and> 0 \<le> m \<and> h + m = max 0 (sint (tick_total t)))"
proof -
  obtain lines where l: "sample_loop fmt ts n \<lparr>total_hits = 0, total_misses = 0, total_dirties = 0\<rparr> [] =
      Some (lines, tick_sum (take (nat n) ts) \<lparr>total_hits = 0, total_misses = 0, total_dirties = 0\<rparr>, 0)" "length lines = nat n"
    using sample_loop_stops [OF assms, of fmt _ "[]"] by fastforce
  then show ?thesis
    using totals_accesses [of "take (nat n) ts" "\<lparr>total_hits = 0, total_misses = 0, total_dirties = 0\<rparr>"] sample_spec(1-3)
    by (auto split: prod.split)
qed

theorem sampling_exact_witness:
  "\<exists>lines s'. sample_loop (\<lambda>h t. []) [\<lparr>tick_total = 10, tick_misses = 4, tick_mbd = 1, tick_meminfo = Some (0, 0), tick_exiting = False\<rparr>] 1
      \<lparr>total_hits = 0, total_misses = 0, total_dirties = 0\<rparr> [] = Some (lines, s', 0) \<and>
    length lines = nat 1 \<and> total_hits s' + total_misses s' = 10"
  using sampling_exact [of 1 "[\<lparr>tick_total = 10, tick_misses = 4, tick_mbd = 1, tick_meminfo = Some (0, 0), tick_exiting = False\<rparr>]" "\<lambda>h t. []"]
  by auto


definition demo_skel :: cache_skel where
  "demo_skel = \<lparr>cs_open_ok = True, cs_target_err = 0, cs_load_err = 0, cs_bss_ok = True, cs_attach_err = 0\<rparr>"

definition demo_tick :: tick where
  "demo_tick = \<lparr>tick_total = 10, tick_misses = 4, tick_mbd = 1, tick_meminfo = Some (0, 0), tick_exiting = False\<rparr>"


end
